(* ===== verification/Sponge_Prelude.thy ===== *)
theory Sponge_Prelude
  imports Main "HOL-Library.Word"
begin

text \<open>
  The prelude of the development: the byte and string types, the exceptions of the C++
  code, 64-bit and 32-bit unsigned arithmetic on natural numbers with the wrap-around
  written out, the operations of an ordered map (\<open>std::map\<close>) on sorted association
  lists, and the generic locales from which the components take their runs:
  \<open>machine\<close> (an invariant kept by every permitted operation holds after every run) and
  \<open>refined_machine\<close> (a one-step simulation lifts to runs).
\<close>

named_theorems u64_simps \<open>rules that drop the wrap-around when a bound is known\<close>

section \<open>Bytes, strings and exceptions\<close>

type_synonym byte = "8 word"
type_synonym bytes = "byte list"

text \<open>
  What a C++ function of the program can raise: \<open>std::out_of_range\<close>,
  \<open>std::runtime_error\<close>, a failed \<open>assert\<close>, \<open>std::invalid_argument\<close>, \<open>std::length_error\<close>, a
  \<open>tagged_error\<close> (what was attempted, and the error code), \<open>std::bad_optional_access\<close>.
  \<open>UndefinedBehaviour\<close> marks an operation to
  which the language gives no meaning (a shift by a negative amount, a read past the end
  of an array).
\<close>

datatype exn = OutOfRange string | RuntimeError string | AssertionFailed | UndefinedBehaviour string
  | InvalidArgument string | LengthError string | SystemError string int | BadOptionalAccess

text \<open>Sequencing: a value or an exception, and a state with an exception that ends the run.\<close>

definition bind_exn :: "exn + 'a \<Rightarrow> ('a \<Rightarrow> exn + 'b) \<Rightarrow> exn + 'b" where
  "bind_exn r f = (case r of Inl e \<Rightarrow> Inl e | Inr x \<Rightarrow> f x)"

definition seq_exn :: "'s \<times> exn option \<Rightarrow> ('s \<Rightarrow> 's \<times> exn option) \<Rightarrow> 's \<times> exn option" where
  "seq_exn r f = (case r of (s, Some e) \<Rightarrow> (s, Some e) | (s, None) \<Rightarrow> f s)"

lemma seq_exn_simps [simp]: "seq_exn (s, None) f = f s" "seq_exn (s, Some e) f = (s, Some e)"
  by (simp_all add: seq_exn_def)

lemma bind_exn_simps [simp]: "bind_exn (Inr x) f = f x" "bind_exn (Inl e) f = Inl e"
  by (simp_all add: bind_exn_def)

section \<open>Unsigned machine arithmetic\<close>

text \<open>
  \<open>size_t\<close> and \<open>uint64_t\<close> values are natural numbers below \<open>two64\<close>, \<open>unsigned int\<close>
  values are below \<open>two32\<close>. Sums and differences wrap around as in C++.
\<close>

definition two64 :: nat where
  "two64 = 18446744073709551616"

definition two63 :: nat where
  "two63 = 9223372036854775808"

definition two32 :: nat where
  "two32 = 4294967296"

definition two31 :: nat where
  "two31 = 2147483648"

definition add64 :: "nat \<Rightarrow> nat \<Rightarrow> nat" where
  "add64 a b = (a + b) mod two64"

definition sub64 :: "nat \<Rightarrow> nat \<Rightarrow> nat" where
  "sub64 a b = nat ((int a - int b) mod int two64)"

definition add32 :: "nat \<Rightarrow> nat \<Rightarrow> nat" where
  "add32 a b = (a + b) mod two32"

definition mul32 :: "nat \<Rightarrow> nat \<Rightarrow> nat" where
  "mul32 a b = (a * b) mod two32"

text \<open>Conversion of a \<open>size_t\<close> to \<open>ssize_t\<close> and back (two's complement).\<close>

definition to_ssize :: "nat \<Rightarrow> int" where
  "to_ssize n = (if n < two63 then int n else int n - int two64)"

definition of_ssize :: "int \<Rightarrow> nat" where
  "of_ssize i = nat (i mod int two64)"

lemma two_powers [simp]:
  "0 < two64" "0 < two63" "0 < two32" "0 < two31"
  "two32 < two64" "two63 < two64" "two31 < two32" "two31 < two64" "two32 < two63" "two31 < two63"
  by (simp_all add: two64_def two63_def two32_def two31_def)

lemma two_powers_eq: "two64 = two32 * two32" "two64 = 2 * two63" "two32 = 2 * two31"
  by (simp_all add: two64_def two63_def two32_def two31_def)

lemma add64_small [u64_simps]: "a + b < two64 \<Longrightarrow> add64 a b = a + b"
  by (simp add: add64_def)

lemma add64_less [simp]: "add64 a b < two64"
  by (simp add: add64_def)

lemma sub64_small [u64_simps]: "b \<le> a \<Longrightarrow> a < two64 \<Longrightarrow> sub64 a b = a - b"
  by (simp add: sub64_def nat_mod_distrib of_nat_diff [symmetric] del: of_nat_diff)

lemma sub64_less [simp]: "sub64 a b < two64"
  by (simp add: sub64_def nat_less_iff)

lemma sub64_self [simp]: "sub64 a a = 0"
  by (simp add: sub64_def)

lemma sub64_borrow: "a < b \<Longrightarrow> b \<le> a + two64 \<Longrightarrow> sub64 a b = a + two64 - b"
proof -
  assume "a < b" "b \<le> a + two64"
  then have "(int a - int b) mod int two64 = (int a - int b + int two64) mod int two64"
    by simp
  also have "\<dots> = int a - int b + int two64"
    using \<open>a < b\<close> \<open>b \<le> a + two64\<close> by (intro mod_pos_pos_trivial) linarith+
  finally show "sub64 a b = a + two64 - b"
    using \<open>b \<le> a + two64\<close> by (simp add: sub64_def nat_eq_iff)
qed

text \<open>The law the window arithmetic of the sender rests on, with no bound on its arguments.\<close>

lemma sub64_add64: "sub64 (add64 a k) b = (sub64 a b + k) mod two64"
proof -
  have "int (sub64 (add64 a k) b) = (int ((a + k) mod two64) - int b) mod int two64"
    by (simp add: sub64_def add64_def)
  also have "\<dots> = (int a - int b + int k) mod int two64"
    by (simp add: zmod_int mod_diff_left_eq algebra_simps)
  also have "\<dots> = ((int a - int b) mod int two64 + int k) mod int two64"
    by (simp add: mod_add_left_eq)
  also have "\<dots> = int ((sub64 a b + k) mod two64)"
    by (simp add: sub64_def zmod_int)
  finally show ?thesis by simp
qed

lemma to_ssize_small [u64_simps]: "n < two63 \<Longrightarrow> to_ssize n = int n"
  by (simp add: to_ssize_def)

lemma of_ssize_nat [u64_simps]: "n < two64 \<Longrightarrow> of_ssize (int n) = n"
  by (simp add: of_ssize_def nat_mod_distrib)

lemma to_ssize_sub64:
  assumes "a < two63" "b < two63"
  shows "to_ssize (sub64 a b) = int a - int b"
proof (cases "b \<le> a")
  case True
  with assms have "sub64 a b = a - b"
    by (intro sub64_small) (simp_all add: two_powers_eq(2))
  moreover have "a - b < two63"
    using assms(1) by linarith
  ultimately show ?thesis
    using True by (simp add: to_ssize_def)
next
  case False
  with assms have "sub64 a b = a + two64 - b"
    by (intro sub64_borrow) (simp_all add: two_powers_eq(2))
  then show ?thesis
    using False assms by (simp add: to_ssize_def two_powers_eq(2))
qed

lemma add64_of_ssize:
  assumes "0 \<le> int a + d" "int a + d < int two64"
  shows "add64 a (of_ssize d) = nat (int a + d)"
proof -
  have "int (add64 a (of_ssize d)) = (int a + d) mod int two64"
    by (simp add: add64_def of_ssize_def zmod_int mod_add_right_eq)
  also have "\<dots> = int a + d"
    using assms by (intro mod_pos_pos_trivial)
  finally show ?thesis
    by simp
qed

section \<open>Bounds of machine words\<close>

lemma unat_8: "unat (b :: byte) < 256"
  using unsigned_less [of b] by simp

lemma unat_16: "unat (w :: 16 word) < 65536"
  using unsigned_less [of w] by simp

lemma unat_32: "unat (w :: 32 word) < 4294967296"
  using unsigned_less [of w] by simp

section \<open>Ordered maps\<close>

text \<open>
  A \<open>std::map\<close> with keys of type \<open>size_t\<close> is an association list with strictly
  increasing keys. \<open>smap_insert\<close> is \<open>map::insert\<close>, which leaves an existing entry
  alone; \<open>smap_erase\<close> removes an entry; the iterators \<open>upper_bound(k)\<close> and
  \<open>lower_bound(k)\<close> are the positions \<open>smap_upper k m\<close> and \<open>smap_lower k m\<close>, the
  end iterator being the position \<open>length m\<close>.
\<close>

type_synonym 'v smap = "(nat \<times> 'v) list"

fun smap_insert :: "nat \<Rightarrow> 'v \<Rightarrow> 'v smap \<Rightarrow> 'v smap" where
  "smap_insert k v [] = [(k, v)]"
| "smap_insert k v ((a, b) # m) =
     (if k < a then (k, v) # (a, b) # m
      else if k = a then (a, b) # m
      else (a, b) # smap_insert k v m)"

fun smap_erase :: "nat \<Rightarrow> 'v smap \<Rightarrow> 'v smap" where
  "smap_erase k [] = []"
| "smap_erase k ((a, b) # m) = (if k = a then m else (a, b) # smap_erase k m)"

definition smap_upper :: "nat \<Rightarrow> 'v smap \<Rightarrow> nat" where
  "smap_upper k m = length (takeWhile (\<lambda>(a, _). a \<le> k) m)"

definition smap_lower :: "nat \<Rightarrow> 'v smap \<Rightarrow> nat" where
  "smap_lower k m = length (takeWhile (\<lambda>(a, _). a < k) m)"

definition smap_sorted :: "'v smap \<Rightarrow> bool" where
  "smap_sorted m \<longleftrightarrow> sorted_wrt (<) (map fst m)"

lemma smap_sorted_simps [simp]:
  "smap_sorted []"
  "smap_sorted ((k, v) # m) \<longleftrightarrow> (\<forall>a b. (a, b) \<in> set m \<longrightarrow> k < a) \<and> smap_sorted m"
  by (auto simp: smap_sorted_def)

lemma set_smap_insert: "k \<notin> fst ` set m \<Longrightarrow> set (smap_insert k v m) = insert (k, v) (set m)"
  by (induction k v m rule: smap_insert.induct) auto

lemma set_smap_insert_subset: "set (smap_insert k v m) \<subseteq> insert (k, v) (set m)"
  by (induction k v m rule: smap_insert.induct) auto

lemma smap_sorted_insert: "smap_sorted m \<Longrightarrow> smap_sorted (smap_insert k v m)"
proof (induction k v m rule: smap_insert.induct)
  case (2 k v a b m)
  have "x = k \<or> x \<in> fst ` set m" if "(x, y) \<in> set (smap_insert k v m)" for x y
    using that set_smap_insert_subset [of k v m] by force
  with 2 show ?case
    by (fastforce simp: less_trans)
qed simp

section \<open>Positions in a byte stream\<close>

text \<open>
  \<open>slice_at S i d\<close>: the bytes \<open>d\<close> are the bytes of the stream \<open>S\<close> from position \<open>i\<close> on.
\<close>

definition slice_at :: "'b list \<Rightarrow> nat \<Rightarrow> 'b list \<Rightarrow> bool" where
  "slice_at S i d \<longleftrightarrow> i + length d \<le> length S \<and> take (length d) (drop i S) = d"

lemma slice_atI: "n + i \<le> length S \<Longrightarrow> slice_at S i (take n (drop i S))"
  by (simp add: slice_at_def min_def)

lemma slice_at_Nil [simp]: "slice_at S i [] \<longleftrightarrow> i \<le> length S"
  by (simp add: slice_at_def)

lemma slice_at_bound: "slice_at S i d \<Longrightarrow> i + length d \<le> length S"
  by (simp add: slice_at_def)

lemma slice_at_iff: "slice_at S i d \<longleftrightarrow> (\<exists>A B. S = A @ d @ B \<and> length A = i)"
proof
  assume s: "slice_at S i d"
  then have "S = take i S @ d @ drop (length d) (drop i S)"
    by (metis append_take_drop_id slice_at_def)
  moreover have "length (take i S) = i"
    using s by (simp add: slice_at_def)
  ultimately show "\<exists>A B. S = A @ d @ B \<and> length A = i"
    by blast
qed (auto simp: slice_at_def)

lemma slice_at_append: "slice_at S i (xs @ ys) \<longleftrightarrow> slice_at S i xs \<and> slice_at S (i + length xs) ys"
proof
  assume "slice_at S i (xs @ ys)"
  then obtain A B where "S = A @ xs @ (ys @ B)" "S = (A @ xs) @ ys @ B" "length A = i"
    by (auto simp: slice_at_iff)
  then show "slice_at S i xs \<and> slice_at S (i + length xs) ys"
    unfolding slice_at_iff by (metis length_append)
next
  assume s: "slice_at S i xs \<and> slice_at S (i + length xs) ys"
  obtain A B where "S = A @ xs @ B" "length A = i"
    using s unfolding slice_at_iff by blast
  moreover obtain A' B' where "S = A' @ ys @ B'" "length A' = i + length xs"
    using s unfolding slice_at_iff by blast
  ultimately have "(A @ xs) @ B = A' @ ys @ B'" "length (A @ xs) = length A'"
    by simp_all
  then have "B = ys @ B'"
    by (metis append_eq_append_conv)
  then show "slice_at S i (xs @ ys)"
    using \<open>S = A @ xs @ B\<close> \<open>length A = i\<close> unfolding slice_at_iff by auto
qed

lemma slice_at_take: "slice_at S i d \<Longrightarrow> slice_at S i (take n d)"
  by (metis append_take_drop_id slice_at_append)

lemma slice_at_drop: "slice_at S i d \<Longrightarrow> n \<le> length d \<Longrightarrow> slice_at S (i + n) (drop n d)"
  using slice_at_append [of S i "take n d" "drop n d"] by simp

lemma slice_at_unique: "slice_at S i d \<Longrightarrow> slice_at S i e \<Longrightarrow> length d = length e \<Longrightarrow> d = e"
  by (metis slice_at_def)

lemma slice_at_mono: "slice_at W i d \<Longrightarrow> slice_at (W @ x) i d"
  unfolding slice_at_iff by (metis append_assoc)

lemma slice_at_end: "slice_at (W @ x) (length W) x"
  unfolding slice_at_iff by (metis append_Nil2)

section \<open>Runs of a component\<close>

text \<open>
  The interface every component with a state offers to its owner: operations are events,
  \<open>step\<close> performs one, \<open>ok\<close> says which events the owner may send. A component that keeps
  its invariant over one permitted event keeps it over every run of permitted events.
\<close>

locale machine =
  fixes step :: "'s \<Rightarrow> 'e \<Rightarrow> 's"
    and inv :: "'s \<Rightarrow> bool"
    and ok :: "'e \<Rightarrow> bool"
  assumes step_inv: "inv s \<Longrightarrow> ok e \<Longrightarrow> inv (step s e)"
begin

lemma run_inv: "inv s \<Longrightarrow> list_all ok es \<Longrightarrow> inv (foldl step s es)"
  by (induction es arbitrary: s) (auto intro: step_inv)

end

text \<open>
  A machine that also implements a specification: one step of the implementation is one
  step of the specification on the abstract states.
\<close>

locale refined_machine = machine +
  fixes abst :: "'s \<Rightarrow> 'a"
    and spec :: "'a \<Rightarrow> 'e \<Rightarrow> 'a"
  assumes step_refines: "inv s \<Longrightarrow> ok e \<Longrightarrow> abst (step s e) = spec (abst s) e"
begin

lemma run_refines: "inv s \<Longrightarrow> list_all ok es \<Longrightarrow> abst (foldl step s es) = foldl spec (abst s) es"
proof (induction es arbitrary: s)
  case (Cons e es)
  then show ?case
    by (simp add: step_inv step_refines)
qed simp

end

end
