(* ===== verification/Byte_Stream.thy ===== *)
theory Byte_Stream
  imports Sponge_Prelude
begin

text \<open>
  \<open>ByteStream\<close> (\<open>libsponge/byte_stream.hh\<close>, \<open>byte_stream.cc\<close>): the flow-controlled
  in-memory pipe that both ends of a connection are built on. The record has the class's
  members; every method is one definition. The two sides of the pipe are interfaces of
  their own: \<open>byte_sink\<close> is what a writer (the reassembler) relies on, \<open>byte_source\<close>
  what a reader (the sender) relies on, and both are interpreted on the model.
\<close>

section \<open>State and operations\<close>

record byte_stream =
  bs_capacity :: nat
  bs_bytes_written :: nat
  bs_bytes_read :: nat
  bs_buffer :: bytes
  bs_error :: bool
  bs_input_ended :: bool

definition bs_construct :: "nat \<Rightarrow> byte_stream" where
  "bs_construct capacity = \<lparr>bs_capacity = capacity, bs_bytes_written = 0, bs_bytes_read = 0,
     bs_buffer = [], bs_error = False, bs_input_ended = False\<rparr>"

definition bs_remaining_capacity :: "byte_stream \<Rightarrow> nat" where
  "bs_remaining_capacity s = sub64 (bs_capacity s) (length (bs_buffer s))"

definition bs_write :: "byte_stream \<Rightarrow> bytes \<Rightarrow> byte_stream \<times> nat" where
  "bs_write s data =
     (if data = [] \<or> bs_error s \<or> bs_input_ended s then (s, 0)
      else let space = sub64 (bs_capacity s) (length (bs_buffer s));
               to_write = min space (length data)
           in (s\<lparr>bs_buffer := bs_buffer s @ take to_write data,
                 bs_bytes_written := add64 (bs_bytes_written s) to_write\<rparr>, to_write))"

definition bs_buffer_size :: "byte_stream \<Rightarrow> nat" where
  "bs_buffer_size s = length (bs_buffer s)"

definition bs_buffer_empty :: "byte_stream \<Rightarrow> bool" where
  "bs_buffer_empty s = (bs_buffer s = [])"

definition bs_eof :: "byte_stream \<Rightarrow> bool" where
  "bs_eof s = (bs_input_ended s \<and> bs_buffer_empty s)"

definition bs_peek_output :: "byte_stream \<Rightarrow> nat \<Rightarrow> bytes" where
  "bs_peek_output s len =
     (if len = 0 \<or> bs_buffer s = [] \<or> bs_error s then []
      else let to_peek = min len (length (bs_buffer s)) in take to_peek (bs_buffer s))"

definition bs_pop_output :: "byte_stream \<Rightarrow> nat \<Rightarrow> byte_stream" where
  "bs_pop_output s len =
     (if len = 0 \<or> bs_eof s \<or> bs_error s then s
      else let to_pop = min len (length (bs_buffer s))
           in s\<lparr>bs_buffer := drop to_pop (bs_buffer s),
                bs_bytes_read := add64 (bs_bytes_read s) to_pop\<rparr>)"

definition bs_read :: "byte_stream \<Rightarrow> nat \<Rightarrow> byte_stream \<times> bytes" where
  "bs_read s len = (let ret = bs_peek_output s len in (bs_pop_output s len, ret))"

definition bs_end_input :: "byte_stream \<Rightarrow> byte_stream" where
  "bs_end_input s = s\<lparr>bs_input_ended := True\<rparr>"

definition bs_set_error :: "byte_stream \<Rightarrow> byte_stream" where
  "bs_set_error s = s\<lparr>bs_error := True\<rparr>"

lemmas bs_defs = bs_construct_def bs_remaining_capacity_def bs_write_def bs_buffer_size_def
  bs_buffer_empty_def bs_eof_def bs_peek_output_def bs_pop_output_def bs_read_def
  bs_end_input_def bs_set_error_def

section \<open>Invariant and FIFO behaviour\<close>

text \<open>
  The counters and the buffer agree (modulo \<open>2^64\<close>, the counters' width), and the buffer
  never exceeds the capacity.
\<close>

definition bs_inv :: "byte_stream \<Rightarrow> bool" where
  "bs_inv s \<longleftrightarrow> length (bs_buffer s) \<le> bs_capacity s \<and> bs_capacity s < two64 \<and>
     bs_bytes_written s = add64 (bs_bytes_read s) (length (bs_buffer s))"

lemma add64_assoc: "add64 (add64 a b) c = add64 a (b + c)"
  by (simp add: add64_def mod_simps ac_simps)

lemma bs_inv_construct: "capacity < two64 \<Longrightarrow> bs_inv (bs_construct capacity)"
  by (simp add: bs_inv_def bs_construct_def add64_def)

lemma bs_inv_write: "bs_inv s \<Longrightarrow> bs_inv (fst (bs_write s data))"
  by (auto simp: bs_inv_def bs_write_def Let_def add64_assoc sub64_small min_def)

lemma bs_inv_pop: "bs_inv s \<Longrightarrow> bs_inv (bs_pop_output s len)"
  by (auto simp: bs_inv_def bs_pop_output_def Let_def add64_assoc)

lemma bs_inv_flags: "bs_inv s \<Longrightarrow> bs_inv (bs_end_input s)" "bs_inv s \<Longrightarrow> bs_inv (bs_set_error s)"
  by (simp_all add: bs_inv_def bs_end_input_def bs_set_error_def)

text \<open>
  Runs of a stream with the history a user sees: the bytes accepted by \<open>write\<close> so far and
  the bytes handed out by \<open>read\<close> and dropped by \<open>pop_output\<close> so far.
\<close>

datatype bs_event = BsWrite bytes | BsRead nat | BsPop nat | BsEndInput | BsSetError

record bs_run =
  run_stream :: byte_stream
  run_accepted :: bytes
  run_delivered :: bytes

fun bs_run_step :: "bs_run \<Rightarrow> bs_event \<Rightarrow> bs_run" where
  "bs_run_step r (BsWrite data) = (let (s, n) = bs_write (run_stream r) data in
     r\<lparr>run_stream := s, run_accepted := run_accepted r @ take n data\<rparr>)"
| "bs_run_step r (BsRead len) = (let (s, out) = bs_read (run_stream r) len in
     r\<lparr>run_stream := s, run_delivered := run_delivered r @ out\<rparr>)"
| "bs_run_step r (BsPop len) = r\<lparr>run_stream := bs_pop_output (run_stream r) len,
     run_delivered := run_delivered r @ bs_peek_output (run_stream r) len\<rparr>"
| "bs_run_step r BsEndInput = r\<lparr>run_stream := bs_end_input (run_stream r)\<rparr>"
| "bs_run_step r BsSetError = r\<lparr>run_stream := bs_set_error (run_stream r)\<rparr>"

definition bs_run_init :: "nat \<Rightarrow> bs_run" where
  "bs_run_init capacity = \<lparr>run_stream = bs_construct capacity, run_accepted = [], run_delivered = []\<rparr>"

definition bs_run_inv :: "bs_run \<Rightarrow> bool" where
  "bs_run_inv r \<longleftrightarrow> bs_inv (run_stream r) \<and>
     run_accepted r = run_delivered r @ bs_buffer (run_stream r) \<and>
     bs_bytes_read (run_stream r) = length (run_delivered r) mod two64"

lemma bs_pop_peek:
  "bs_buffer s = bs_peek_output s len @ bs_buffer (bs_pop_output s len)"
  "bs_bytes_read s < two64 \<Longrightarrow>
     bs_bytes_read (bs_pop_output s len) = add64 (bs_bytes_read s) (length (bs_peek_output s len))"
  by (auto simp: bs_defs Let_def add64_def)

lemma bs_run_step_inv: "bs_run_inv r \<Longrightarrow> bs_run_inv (bs_run_step r e)"
proof (cases e)
  case (BsWrite data)
  assume "bs_run_inv r"
  then show ?thesis
    using bs_inv_write [of "run_stream r" data] BsWrite
    by (auto simp: bs_run_inv_def bs_write_def Let_def)
next
  case (BsRead len)
  assume "bs_run_inv r"
  then show ?thesis
    using bs_inv_pop [of "run_stream r" len] bs_pop_peek [of "run_stream r" len] BsRead
    by (simp add: bs_run_inv_def bs_read_def Let_def add64_def mod_add_left_eq)
next
  case (BsPop len)
  assume "bs_run_inv r"
  then show ?thesis
    using bs_inv_pop [of "run_stream r" len] bs_pop_peek [of "run_stream r" len] BsPop
    by (simp add: bs_run_inv_def add64_def mod_add_left_eq)
qed (auto simp: bs_run_inv_def bs_inv_flags, auto simp: bs_defs)

interpretation bs_machine: machine bs_run_step bs_run_inv "\<lambda>_. True"
  by unfold_locales (rule bs_run_step_inv)

section \<open>The writer's and the reader's interface\<close>

text \<open>
  What a writer relies on: relative to a stream \<open>S\<close> of which the pipe's contents are a part
  (\<open>agrees S s\<close>), \<open>put\<close> accepts as many bytes as there is room for, unless the pipe is
  closed for writing, and writing the next bytes of \<open>S\<close> keeps the agreement.
\<close>

locale byte_sink =
  fixes agrees :: "bytes \<Rightarrow> 's \<Rightarrow> bool"
    and wpos :: "'s \<Rightarrow> nat"
    and room :: "'s \<Rightarrow> nat"
    and closed :: "'s \<Rightarrow> bool"
    and put :: "'s \<Rightarrow> bytes \<Rightarrow> 's \<times> nat"
  assumes put_count: "agrees S s \<Longrightarrow> snd (put s d) = (if closed s then 0 else min (room s) (length d))"
    and put_agrees: "agrees S s \<Longrightarrow> slice_at S (wpos s) (take (snd (put s d)) d) \<Longrightarrow>
      agrees S (fst (put s d))"
    and put_pos: "agrees S s \<Longrightarrow> slice_at S (wpos s) (take (snd (put s d)) d) \<Longrightarrow>
      wpos (fst (put s d)) = wpos s + snd (put s d)"
    and put_room: "agrees S s \<Longrightarrow> room (fst (put s d)) = room s - snd (put s d)"
    and put_closed: "closed (fst (put s d)) = closed s"
begin

lemma put_le: "agrees S s \<Longrightarrow> snd (put s d) \<le> length d"
  by (simp add: put_count)

lemma put_slice:
  assumes "agrees S s" "slice_at S (wpos s) d"
  shows "agrees S (fst (put s d))" "wpos (fst (put s d)) = wpos s + snd (put s d)"
  using assms by (simp_all add: put_agrees put_pos slice_at_take)

lemma put_partial_full: "agrees S s \<Longrightarrow> \<not> closed s \<Longrightarrow> snd (put s d) < length d \<Longrightarrow> room (fst (put s d)) = 0"
  by (simp add: put_count put_room min_def split: if_splits)

lemma put_budget: "agrees S s \<Longrightarrow> room (fst (put s d)) + snd (put s d) = room s"
  by (simp add: put_room put_count)

end

text \<open>
  What a reader relies on: unless the pipe has failed, \<open>get s n\<close> hands out the next bytes of
  the stream, at most \<open>n\<close> and at most what is there, and advances the read position by
  exactly their number.
\<close>

locale byte_source =
  fixes agrees :: "bytes \<Rightarrow> 's \<Rightarrow> bool"
    and rpos :: "'s \<Rightarrow> nat"
    and avail :: "'s \<Rightarrow> nat"
    and failed :: "'s \<Rightarrow> bool"
    and get :: "'s \<Rightarrow> nat \<Rightarrow> 's \<times> bytes"
  assumes get_length: "agrees S s \<Longrightarrow> length (snd (get s n)) = (if failed s then 0 else min n (avail s))"
    and get_slice: "agrees S s \<Longrightarrow> slice_at S (rpos s) (snd (get s n))"
    and get_pos: "agrees S s \<Longrightarrow> rpos (fst (get s n)) = rpos s + length (snd (get s n))"
    and get_avail: "agrees S s \<Longrightarrow> avail (fst (get s n)) = avail s - length (snd (get s n))"
    and get_agrees: "agrees S s \<Longrightarrow> agrees S (fst (get s n))"
    and get_failed: "failed (fst (get s n)) = failed s"
begin

lemma get_le: "agrees S s \<Longrightarrow> length (snd (get s n)) \<le> n"
  by (simp add: get_length)

lemma get_twice_slice:
  assumes "agrees S s"
  shows "slice_at S (rpos s) (snd (get s n) @ snd (get (fst (get s n)) m))"
  using get_slice [OF assms, of n] get_slice [OF get_agrees [OF assms], of n m] get_pos [OF assms, of n]
  by (simp add: slice_at_append)

end

definition bs_agrees :: "bytes \<Rightarrow> byte_stream \<Rightarrow> bool" where
  "bs_agrees S s \<longleftrightarrow> length S < two63 \<and> bs_capacity s < two63 \<and>
     length (bs_buffer s) \<le> bs_capacity s \<and>
     bs_bytes_written s = bs_bytes_read s + length (bs_buffer s) \<and>
     slice_at S (bs_bytes_read s) (bs_buffer s)"

definition bs_closed :: "byte_stream \<Rightarrow> bool" where
  "bs_closed s \<longleftrightarrow> bs_error s \<or> bs_input_ended s"

lemma less_two63_64: "a < two63 \<Longrightarrow> a < two64"
  by (rule less_trans [OF _ two_powers(6)])

lemma bs_agrees_bounds:
  assumes "bs_agrees S s"
  shows "bs_bytes_written s \<le> length S" "bs_bytes_written s < two63" "bs_capacity s < two63"
    "length (bs_buffer s) \<le> bs_capacity s"
  using assms by (auto simp: bs_agrees_def dest: slice_at_bound)

lemma bs_agrees_room: "bs_agrees S s \<Longrightarrow> bs_remaining_capacity s = bs_capacity s - length (bs_buffer s)"
  by (simp add: bs_agrees_def bs_remaining_capacity_def sub64_small less_two63_64)

lemma bs_write_simps:
  assumes "bs_agrees S s"
  shows "snd (bs_write s d) = (if bs_closed s then 0 else min (bs_remaining_capacity s) (length d))"
    and "slice_at S (bs_bytes_written s) (take (snd (bs_write s d)) d) \<Longrightarrow>
      fst (bs_write s d) = s\<lparr>bs_buffer := bs_buffer s @ take (snd (bs_write s d)) d,
        bs_bytes_written := bs_bytes_written s + snd (bs_write s d)\<rparr>"
proof -
  show c: "snd (bs_write s d) = (if bs_closed s then 0 else min (bs_remaining_capacity s) (length d))"
    by (auto simp: bs_write_def bs_closed_def bs_remaining_capacity_def Let_def)
  assume "slice_at S (bs_bytes_written s) (take (snd (bs_write s d)) d)"
  then have "bs_bytes_written s + snd (bs_write s d) \<le> length S"
    using c by (auto dest!: slice_at_bound simp: min_def split: if_splits)
  also have "length S < two64"
    using assms by (simp add: bs_agrees_def less_two63_64)
  finally show "fst (bs_write s d) = s\<lparr>bs_buffer := bs_buffer s @ take (snd (bs_write s d)) d,
        bs_bytes_written := bs_bytes_written s + snd (bs_write s d)\<rparr>"
    by (auto simp: bs_write_def Let_def add64_small)
qed

interpretation bs_sink: byte_sink bs_agrees bs_bytes_written bs_remaining_capacity bs_closed bs_write
proof unfold_locales
  fix S s d
  assume a: "bs_agrees S s"
  show "snd (bs_write s d) = (if bs_closed s then 0 else min (bs_remaining_capacity s) (length d))"
    using a by (rule bs_write_simps)
  let ?n = "snd (bs_write s d)"
  have n: "?n \<le> bs_capacity s - length (bs_buffer s)" "?n \<le> length d"
    using bs_write_simps(1) [OF a, of d] bs_agrees_room [OF a] by auto
  show "bs_remaining_capacity (fst (bs_write s d)) = bs_remaining_capacity s - ?n"
    using a n by (auto simp: bs_remaining_capacity_def bs_agrees_def bs_write_def Let_def
        sub64_small less_two63_64)
  assume sl: "slice_at S (bs_bytes_written s) (take ?n d)"
  note w = bs_write_simps(2) [OF a sl]
  show "bs_bytes_written (fst (bs_write s d)) = bs_bytes_written s + ?n"
    by (subst w) simp
  show "bs_agrees S (fst (bs_write s d))"
    using a n sl by (subst w) (auto simp: bs_agrees_def slice_at_append)
qed (auto simp: bs_closed_def bs_write_def Let_def)

interpretation bs_source: byte_source bs_agrees bs_bytes_read bs_buffer_size bs_error bs_read
proof unfold_locales
  fix S s n
  assume a: "bs_agrees S s"
  have p: "snd (bs_read s n) = (if bs_error s then [] else take n (bs_buffer s))"
    by (auto simp: bs_defs Let_def min_def)
  show len: "length (snd (bs_read s n)) = (if bs_error s then 0 else min n (bs_buffer_size s))"
    by (simp add: p bs_buffer_size_def min.commute)
  have b: "bs_bytes_read s + length (bs_buffer s) < two64"
    using bs_agrees_bounds(2) [OF a] a by (simp add: bs_agrees_def less_two63_64)
  show "slice_at S (bs_bytes_read s) (snd (bs_read s n))"
    using a by (auto simp: p bs_agrees_def slice_at_take dest: slice_at_bound)
  have f: "fst (bs_read s n) = s\<lparr>bs_buffer := drop (length (snd (bs_read s n))) (bs_buffer s),
      bs_bytes_read := bs_bytes_read s + length (snd (bs_read s n))\<rparr>"
    using b by (auto simp: bs_defs Let_def add64_small)
  show "bs_bytes_read (fst (bs_read s n)) = bs_bytes_read s + length (snd (bs_read s n))"
    by (subst f) simp
  show "bs_buffer_size (fst (bs_read s n)) = bs_buffer_size s - length (snd (bs_read s n))"
    by (subst f) (simp add: bs_buffer_size_def)
  show "bs_agrees S (fst (bs_read s n))"
    using a len by (subst f) (auto simp: bs_agrees_def bs_buffer_size_def slice_at_drop min_def)
qed (auto simp: bs_defs Let_def)

section \<open>Properties\<close>

lemma bs_run_capacity: "bs_capacity (run_stream (foldl bs_run_step r es)) = bs_capacity (run_stream r)"
proof (induction es arbitrary: r)
  case (Cons e es)
  have "bs_capacity (run_stream (bs_run_step r e)) = bs_capacity (run_stream r)"
    by (cases e) (auto simp: bs_defs Let_def)
  with Cons show ?case
    by simp
qed simp

text \<open>
  C26: FIFO. Whatever sequence of writes, reads, pops, end_input and set_error calls a
  ByteStream gets, the bytes it accepted are exactly the bytes it handed out followed by
  its buffer, in order; it never buffers more than its capacity; and the two counters are
  the two totals (as 64-bit values).
\<close>

theorem bs_fifo:
  assumes "capacity < two64"
  shows "let r = foldl bs_run_step (bs_run_init capacity) es in
    run_accepted r = run_delivered r @ bs_buffer (run_stream r) \<and>
    length (bs_buffer (run_stream r)) \<le> capacity \<and>
    bs_bytes_written (run_stream r) = length (run_accepted r) mod two64 \<and>
    bs_bytes_read (run_stream r) = length (run_delivered r) mod two64"
proof -
  let ?r = "foldl bs_run_step (bs_run_init capacity) es"
  have "bs_run_inv (bs_run_init capacity)"
    using assms by (simp add: bs_run_inv_def bs_run_init_def bs_inv_construct)
      (simp add: bs_construct_def)
  then have "bs_run_inv ?r"
    by (rule bs_machine.run_inv) (simp add: list_all_iff)
  moreover have "bs_capacity (run_stream ?r) = capacity"
    by (simp add: bs_run_capacity bs_run_init_def bs_construct_def)
  ultimately show ?thesis
    by (simp add: bs_run_inv_def bs_inv_def Let_def add64_def mod_add_left_eq)
qed

theorem bs_fifo_witness:
  "run_accepted (foldl bs_run_step (bs_run_init 3) [BsWrite [1, 2], BsWrite [3, 4], BsRead 1, BsPop 1]) = [1, 2, 3]
   \<and> bs_buffer (run_stream (foldl bs_run_step (bs_run_init 3) [BsWrite [1, 2], BsWrite [3, 4], BsRead 1, BsPop 1])) = [3]
   \<and> length (bs_buffer (run_stream (foldl bs_run_step (bs_run_init 3) [BsWrite [1, 2]]))) \<le> 3"
  using bs_fifo [of 3 "[BsWrite [1, 2]]"]
  by (simp add: Let_def bs_run_init_def bs_defs two64_def sub64_def nat_mod_distrib)

text \<open>
  Terminal states. Once a stream is at eof it stays at eof, and once set_error was
  called neither its buffer nor its counters change again, whatever is called afterwards.
\<close>

theorem bs_terminal:
  "(bs_eof (run_stream r) \<longrightarrow> bs_eof (run_stream (foldl bs_run_step r es))) \<and>
   (bs_error (run_stream r) \<longrightarrow>
      (let s = run_stream (foldl bs_run_step r es) in
       bs_error s \<and> bs_buffer s = bs_buffer (run_stream r) \<and>
       bs_bytes_written s = bs_bytes_written (run_stream r) \<and>
       bs_bytes_read s = bs_bytes_read (run_stream r)))"
proof (intro conjI impI)
  assume e: "bs_eof (run_stream r)"
  have "bs_eof (run_stream (bs_run_step r e))" if "bs_eof (run_stream r)" for r e
    using that by (cases e) (auto simp: bs_defs Let_def)
  then show "bs_eof (run_stream (foldl bs_run_step r es))"
    using e by (induction es arbitrary: r) auto
next
  assume e: "bs_error (run_stream r)"
  let ?P = "\<lambda>s. bs_error s \<and> bs_buffer s = bs_buffer (run_stream r) \<and>
       bs_bytes_written s = bs_bytes_written (run_stream r) \<and>
       bs_bytes_read s = bs_bytes_read (run_stream r)"
  have "?P (run_stream (bs_run_step q e))" if "?P (run_stream q)" for q e
    using that by (cases e) (auto simp: bs_defs Let_def)
  then have "?P (run_stream q) \<Longrightarrow> ?P (run_stream (foldl bs_run_step q es))" for q
    by (induction es arbitrary: q) auto
  with e show "let s = run_stream (foldl bs_run_step r es) in ?P s"
    by (simp add: Let_def)
qed

theorem bs_terminal_witness:
  "bs_eof (run_stream (foldl bs_run_step (foldl bs_run_step (bs_run_init 3) [BsWrite [1], BsEndInput, BsRead 5]) [BsWrite [2]]))
   \<and> bs_error (run_stream (foldl bs_run_step (foldl bs_run_step (bs_run_init 3) [BsWrite [1], BsSetError]) [BsWrite [2]]))"
proof -
  have e: "bs_eof (run_stream (foldl bs_run_step (bs_run_init 3) [BsWrite [1], BsEndInput, BsRead 5]))"
    by (simp add: bs_run_init_def bs_defs two64_def sub64_def nat_mod_distrib)
  have f: "bs_error (run_stream (foldl bs_run_step (bs_run_init 3) [BsWrite [1], BsSetError]))"
    by (simp add: bs_run_init_def bs_defs two64_def sub64_def nat_mod_distrib)
  show ?thesis
    using bs_terminal e f by (auto simp only: Let_def)
qed

end
