(* ===== verification/Stream_Reassembler.thy ===== *)
theory Stream_Reassembler
  imports Byte_Stream
begin

text \<open>
  \<open>StreamReassembler\<close> (\<open>libsponge/stream_reassembler.hh\<close>, \<open>stream_reassembler.cc\<close>): it
  takes excerpts of a byte stream, in any order and overlapping, and writes the stream in
  order into a \<open>ByteStream\<close>. \<open>push_substring\<close> is modelled statement by statement:
  \<open>clip_front\<close> (the part before the first comment on the lower neighbour), \<open>overlap_loop\<close>
  (the \<open>while\<close> over the upper neighbours), \<open>store_new\<close> (the block under
  \<open>data_size > 0\<close>) and \<open>assemble_loop\<close> (the final \<open>for\<close>). The out-of-range \<open>substr\<close> and the
  failing \<open>assert\<close> are branches of the model; they are proved never to be taken.
\<close>

section \<open>State and operations\<close>

record reassembler =
  ra_unassemble_strs :: "bytes smap"
  ra_next_assembled_idx :: nat
  ra_unassembled_bytes_num :: nat
  ra_eof_idx :: nat
  ra_output :: byte_stream
  ra_capacity :: nat

definition ra_construct :: "nat \<Rightarrow> reassembler" where
  "ra_construct capacity = \<lparr>ra_unassemble_strs = [], ra_next_assembled_idx = 0,
     ra_unassembled_bytes_num = 0, ra_eof_idx = two64 - 1,
     ra_output = bs_construct capacity, ra_capacity = capacity\<rparr>"

text \<open>\<open>string::substr\<close>, which throws when the position is past the end.\<close>

definition substr :: "bytes \<Rightarrow> nat \<Rightarrow> nat \<Rightarrow> exn + bytes" where
  "substr s pos n = (if length s < pos then Inl (OutOfRange ''basic_string::substr'')
     else Inr (take n (drop pos s)))"

text \<open>
  The new start index: \<open>upper_bound(index)\<close>, stepped back when it is not \<open>begin\<close>; the
  bytes that the entry found there (or the assembled prefix) already has are skipped.
\<close>

definition clip_front :: "bytes smap \<Rightarrow> nat \<Rightarrow> nat \<Rightarrow> nat" where
  "clip_front m next_assembled index =
     (let ub = smap_upper index m;
          pos = (if ub \<noteq> 0 then ub - 1 else ub)
      in if pos < length m \<and> fst (m ! pos) \<le> index
         then let up_idx = fst (m ! pos); up_len = length (snd (m ! pos))
              in if index < add64 up_idx up_len then add64 up_idx up_len else index
         else if index < next_assembled then next_assembled
         else index)"

text \<open>
  The loop over the entries from \<open>lower_bound(new_idx)\<close> on: an entry the new data covers is
  erased, an entry it reaches into cuts the new data off. \<open>data_size\<close> is an \<open>ssize_t\<close>.
\<close>

fun overlap_loop :: "nat \<Rightarrow> int \<Rightarrow> bytes smap \<Rightarrow> nat \<Rightarrow> int \<times> bytes smap \<times> nat" where
  "overlap_loop new_idx data_size [] num = (data_size, [], num)"
| "overlap_loop new_idx data_size ((k, v) # m) num =
     (if new_idx \<le> k then
        let data_end_pos = add64 new_idx (of_ssize data_size)
        in if k < data_end_pos then
             (if data_end_pos < add64 k (length v)
              then (to_ssize (sub64 k new_idx), (k, v) # m, num)
              else overlap_loop new_idx data_size m (sub64 num (length v)))
           else (data_size, (k, v) # m, num)
      else (data_size, (k, v) # m, num))"

text \<open>The block that writes or stores the clipped data.\<close>

definition store_new :: "reassembler \<Rightarrow> nat \<Rightarrow> bytes \<Rightarrow> exn + reassembler" where
  "store_new r new_idx new_data =
     (if new_idx = ra_next_assembled_idx r then
        let (out, write_byte) = bs_write (ra_output r) new_data;
            nxt = add64 (ra_next_assembled_idx r) write_byte;
            r = r\<lparr>ra_output := out, ra_next_assembled_idx := nxt\<rparr>
        in if write_byte < length new_data then
             case substr new_data write_byte (sub64 (length new_data) write_byte) of
               Inl e \<Rightarrow> Inl e
             | Inr data_to_store \<Rightarrow> Inr (r\<lparr>
                 ra_unassembled_bytes_num := add64 (ra_unassembled_bytes_num r) (length data_to_store),
                 ra_unassemble_strs := smap_insert nxt data_to_store (ra_unassemble_strs r)\<rparr>)
           else Inr r
      else case substr new_data 0 (length new_data) of
             Inl e \<Rightarrow> Inl e
           | Inr data_to_store \<Rightarrow> Inr (r\<lparr>
               ra_unassembled_bytes_num := add64 (ra_unassembled_bytes_num r) (length data_to_store),
               ra_unassemble_strs := smap_insert new_idx data_to_store (ra_unassemble_strs r)\<rparr>))"

text \<open>The final loop, from \<open>begin()\<close> on, over the map that is left.\<close>

fun assemble_loop :: "bytes smap \<Rightarrow> byte_stream \<Rightarrow> nat \<Rightarrow> nat \<Rightarrow> exn + bytes smap \<times> byte_stream \<times> nat \<times> nat" where
  "assemble_loop [] out nxt num = Inr ([], out, nxt, num)"
| "assemble_loop ((k, v) # m) out nxt num =
     (if \<not> nxt \<le> k then Inl AssertionFailed
      else if k = nxt then
        let (out, write_num) = bs_write out v;
            nxt = add64 nxt write_num
        in if write_num < length v then
             let num = add64 num (sub64 (length v) write_num);
                 m' = smap_insert nxt (drop write_num v) ((k, v) # m);
                 num = sub64 num (length v)
             in Inr (smap_erase k m', out, nxt, num)
           else assemble_loop m out nxt (sub64 num (length v))
      else Inr ((k, v) # m, out, nxt, num))"

definition push_substring :: "reassembler \<Rightarrow> bytes \<Rightarrow> nat \<Rightarrow> bool \<Rightarrow> exn + reassembler" where
  "push_substring r data index eof =
     (let new_idx = clip_front (ra_unassemble_strs r) (ra_next_assembled_idx r) index;
          data_start_pos = sub64 new_idx index;
          data_size = to_ssize (sub64 (length data) data_start_pos);
          lb = smap_lower new_idx (ra_unassemble_strs r);
          (data_size, rest, num) = overlap_loop new_idx data_size (drop lb (ra_unassemble_strs r))
                                     (ra_unassembled_bytes_num r);
          r = r\<lparr>ra_unassemble_strs := take lb (ra_unassemble_strs r) @ rest,
                ra_unassembled_bytes_num := num\<rparr>;
          first_unacceptable_idx = sub64 (add64 (ra_next_assembled_idx r) (ra_capacity r))
                                     (bs_buffer_size (ra_output r))
      in if first_unacceptable_idx \<le> new_idx then Inr r
         else case (if 0 < data_size
                    then (case substr data data_start_pos (nat data_size) of
                            Inl e \<Rightarrow> Inl e
                          | Inr new_data \<Rightarrow> store_new r new_idx new_data)
                    else Inr r) of
           Inl e \<Rightarrow> Inl e
         | Inr r \<Rightarrow>
             (case assemble_loop (ra_unassemble_strs r) (ra_output r) (ra_next_assembled_idx r)
                     (ra_unassembled_bytes_num r) of
                Inl e \<Rightarrow> Inl e
              | Inr (m, out, nxt, num) \<Rightarrow>
                  let r = r\<lparr>ra_unassemble_strs := m, ra_output := out,
                            ra_next_assembled_idx := nxt, ra_unassembled_bytes_num := num\<rparr>;
                      r = (if eof then r\<lparr>ra_eof_idx := add64 index (length data)\<rparr> else r)
                  in Inr (if ra_eof_idx r \<le> ra_next_assembled_idx r
                          then r\<lparr>ra_output := bs_end_input (ra_output r)\<rparr> else r)))"

definition ra_unassembled_bytes :: "reassembler \<Rightarrow> nat" where
  "ra_unassembled_bytes r = ra_unassembled_bytes_num r"

definition ra_empty :: "reassembler \<Rightarrow> bool" where
  "ra_empty r = (ra_unassembled_bytes_num r = 0)"

section \<open>The entries waiting to be assembled\<close>

text \<open>
  The entries of the map, from position \<open>lo\<close> on, are non-empty parts of the stream \<open>S\<close> in
  increasing order and do not overlap. \<open>covered m\<close> is the set of positions they hold,
  \<open>entries_end lo m\<close> the end of the last one.
\<close>

fun entries_ok :: "bytes \<Rightarrow> nat \<Rightarrow> bytes smap \<Rightarrow> bool" where
  "entries_ok S lo [] = True"
| "entries_ok S lo ((k, v) # m) =
     (lo \<le> k \<and> v \<noteq> [] \<and> slice_at S k v \<and> entries_ok S (k + length v) m)"

fun entries_end :: "nat \<Rightarrow> bytes smap \<Rightarrow> nat" where
  "entries_end lo [] = lo"
| "entries_end lo ((k, v) # m) = entries_end (k + length v) m"

definition covered :: "bytes smap \<Rightarrow> nat set" where
  "covered m = (\<Union>(k, v) \<in> set m. {k ..< k + length v})"

lemma covered_simps [simp]:
  "covered [] = {}"
  "covered ((k, v) # m) = {k ..< k + length v} \<union> covered m"
  "covered (m @ m') = covered m \<union> covered m'"
  by (auto simp: covered_def)

lemma entries_ok_mono: "entries_ok S lo m \<Longrightarrow> lo' \<le> lo \<Longrightarrow> entries_ok S lo' m"
  by (cases m) auto

lemma entries_ok_append:
  "entries_ok S lo (A @ B) \<longleftrightarrow> entries_ok S lo A \<and> entries_ok S (entries_end lo A) B"
  by (induction lo A rule: entries_end.induct) auto

lemma entries_end_ge: "entries_ok S lo m \<Longrightarrow> lo \<le> entries_end lo m"
  by (induction lo m rule: entries_end.induct) force+

lemma entries_end_le: "entries_ok S lo m \<Longrightarrow> lo \<le> length S \<Longrightarrow> entries_end lo m \<le> length S"
  by (induction lo m rule: entries_end.induct) (auto dest: slice_at_bound)

lemma entries_ok_entry:
  assumes "entries_ok S lo m" "(k, v) \<in> set m"
  shows "lo \<le> k" "v \<noteq> []" "slice_at S k v" "k + length v \<le> entries_end lo m"
proof -
  have "lo \<le> k \<and> v \<noteq> [] \<and> slice_at S k v \<and> k + length v \<le> entries_end lo m"
    using assms
  proof (induction lo m rule: entries_end.induct)
    case (2 lo a b m)
    then show ?case
      using entries_end_ge [of S "a + length b" m] by fastforce
  qed simp
  then show "lo \<le> k" "v \<noteq> []" "slice_at S k v" "k + length v \<le> entries_end lo m"
    by simp_all
qed

lemma entries_ok_covered:
  assumes "entries_ok S lo m"
  shows "covered m \<subseteq> {lo ..< entries_end lo m}"
  using entries_ok_entry [OF assms] by (fastforce simp: covered_def)

lemma entries_ok_nonempty_end: "entries_ok S lo m \<Longrightarrow> m \<noteq> [] \<Longrightarrow> lo < entries_end lo m"
  using entries_ok_entry [of S lo m "fst (hd m)" "snd (hd m)"] by (cases m) (auto simp: neq_Nil_conv)

lemma entries_ok_covered_Nil: "entries_ok S lo m \<Longrightarrow> covered m = {} \<longleftrightarrow> m = []"
  by (cases m) auto

lemma smap_insert_between:
  assumes "\<forall>(a, b) \<in> set A. a < k" "\<forall>(a, b) \<in> set B. k < a"
  shows "smap_insert k v (A @ B) = A @ (k, v) # B"
  using assms(1)
proof (induction A)
  case Nil
  with assms(2) show ?case
    by (cases B) auto
qed auto

section \<open>The four stages of push\_substring\<close>

text \<open>
  Stage 1. With \<open>A\<close> the entries that start at or before \<open>index\<close>, the clipped start is
  \<open>max index (entries_end nxt A)\<close>, and \<open>lower_bound\<close> of it splits the map into \<open>A\<close> and the
  rest.
\<close>

definition below :: "nat \<Rightarrow> bytes smap \<Rightarrow> bytes smap" where
  "below index m = takeWhile (\<lambda>(k, _). k \<le> index) m"

definition above :: "nat \<Rightarrow> bytes smap \<Rightarrow> bytes smap" where
  "above index m = dropWhile (\<lambda>(k, _). k \<le> index) m"

lemma below_above: "m = below index m @ above index m"
  by (simp add: below_def above_def)

lemma below_bound: "(k, v) \<in> set (below index m) \<Longrightarrow> k \<le> index"
  by (auto simp: below_def dest: set_takeWhileD)

lemma entries_end_snoc: "entries_end lo (A @ [(k, v)]) = k + length v"
  by (induction lo A rule: entries_end.induct) auto

lemma entries_end_last: "A \<noteq> [] \<Longrightarrow> entries_end lo A = fst (last A) + length (snd (last A))"
  using entries_end_snoc [of lo "butlast A" "fst (last A)" "snd (last A)"] by simp

lemma entries_split:
  assumes "entries_ok S nxt m"
  shows "entries_ok S nxt (below index m)"
    and "entries_ok S (entries_end nxt (below index m)) (above index m)"
  using assms below_above [of m index] entries_ok_append by metis+

lemma clip_front_eq:
  assumes ok: "entries_ok S nxt m" and le: "nxt \<le> length S" "length S < two63"
  shows "clip_front m nxt index = max index (entries_end nxt (below index m))"
proof -
  let ?A = "below index m"
  have m: "m = ?A @ above index m"
    by (rule below_above)
  show ?thesis
  proof (cases "?A = []")
    case True
    then have "m = [] \<or> \<not> fst (m ! 0) \<le> index"
      by (cases m) (auto simp: below_def split: if_splits)
    then show ?thesis
      using True by (auto simp: clip_front_def Let_def smap_upper_def below_def max_def)
  next
    case False
    let ?l = "last ?A"
    have "smap_upper index m = length ?A"
      by (simp add: smap_upper_def below_def)
    moreover have "m ! (length ?A - 1) = ?l"
      using False by (subst m) (simp add: nth_append last_conv_nth)
    moreover have "length ?A \<noteq> 0"
      using False by simp
    moreover have "length ?A - 1 < length m"
      using False arg_cong [OF m, of length] by (cases ?A) simp_all
    moreover have "fst ?l \<le> index"
      using False below_bound [of "fst ?l" "snd ?l" index m] by simp
    moreover have "entries_end nxt ?A = fst ?l + length (snd ?l)"
      using False by (rule entries_end_last)
    moreover have "entries_end nxt ?A < two64"
      using entries_end_le [OF entries_split(1) [OF ok, of index] le(1)] le(2)
      by (intro less_two63_64) linarith
    ultimately show ?thesis
      by (simp add: clip_front_def Let_def add64_small max_def)
  qed
qed

lemma entries_above_ge:
  assumes ok: "entries_ok S nxt m"
  shows "entries_ok S (max index (entries_end nxt (below index m))) (above index m)"
proof (cases "above index m")
  case (Cons e B)
  then have "\<not> fst e \<le> index"
    using hd_dropWhile [of "\<lambda>(k, _). k \<le> index" m] by (auto simp: above_def split_beta)
  then show ?thesis
    using entries_split(2) [OF ok, of index] Cons by (cases e) auto
qed simp

lemma below_ends:
  assumes ok: "entries_ok S nxt m" and kv: "(k, v) \<in> set (below index m)"
  shows "k < max index (entries_end nxt (below index m))"
proof -
  have "k + length v \<le> entries_end nxt (below index m)" "v \<noteq> []"
    using entries_ok_entry [OF entries_split(1) [OF ok] kv] by auto
  then show ?thesis
    by (cases v) auto
qed

lemma smap_lower_split:
  fixes index
  assumes ok: "entries_ok S nxt m"
  defines "n \<equiv> max index (entries_end nxt (below index m))"
  shows "take (smap_lower n m) m = below index m" "drop (smap_lower n m) m = above index m"
proof -
  have "takeWhile (\<lambda>(k, _). k < n) (below index m @ above index m) = below index m"
    using below_ends [OF ok] entries_above_ge [OF ok, of index]
    by (cases "above index m") (auto simp: n_def takeWhile_append intro!: takeWhile_eq_all_conv [THEN iffD2])
  then have "smap_lower n m = length (below index m)"
    using below_above [of m index] by (simp add: smap_lower_def)
  then show "take (smap_lower n m) m = below index m" "drop (smap_lower n m) m = above index m"
    using below_above [of m index] by (metis append_eq_conv_conj)+
qed

text \<open>
  Stage 2. With \<open>e\<close> the end of the new data, the loop cuts the data off at the first entry it
  only partly covers and erases those it covers: the data kept and the entries left hold the
  same positions as the data and all entries before.
\<close>

lemma overlap_loop_idle:
  assumes "entries_ok S n m" "int n + ds = int e" "e \<le> length S" "length S < two63" "ds \<le> 0"
  shows "overlap_loop n ds m num = (ds, m, num)"
proof (cases m)
  case (Cons kv m')
  obtain k v where kv: "kv = (k, v)"
    by (cases kv)
  have "add64 n (of_ssize ds) = e"
    using assms less_two63_64 [of "length S"] add64_of_ssize [of n ds] by simp
  moreover have "n \<le> k" "\<not> k < e"
    using assms Cons kv by auto
  ultimately show ?thesis
    using Cons kv by simp
qed simp

lemma overlap_loop_Cons:
  assumes "entries_ok S n ((k, v) # m)" "int n + ds = int e" "e \<le> length S" "length S < two63"
  shows "overlap_loop n ds ((k, v) # m) num =
    (if e \<le> k then (ds, (k, v) # m, num)
     else if e < k + length v then (int (k - n), (k, v) # m, num)
     else overlap_loop n ds m (sub64 num (length v)))"
proof -
  have "k + length v \<le> length S" and nk: "n \<le> k"
    using assms(1) slice_at_bound [of S k v] by auto
  then have b: "k + length v < two63"
    using assms(4) by linarith
  have e: "add64 n (of_ssize ds) = e"
    using assms less_two63_64 [of "length S"] add64_of_ssize [of n ds] by simp
  have kl: "add64 k (length v) = k + length v"
    using b by (simp add: add64_small less_two63_64)
  have "k < two63"
    using b by linarith
  then have "sub64 k n = k - n" "k - n < two63"
    using nk by (auto simp: sub64_small less_two63_64)
  then have "to_ssize (sub64 k n) = int (k - n)"
    by (simp only: to_ssize_small)
  then show ?thesis
    by (simp only: overlap_loop.simps Let_def e kl nk if_True not_le [symmetric]) (simp add: not_le)
qed

lemma overlap_loop_spec:
  assumes "entries_ok S n m" "int n + ds = int e" "e \<le> length S" "length S < two63" "0 < ds"
    and "overlap_loop n ds m num = (ds', m', num')"
  shows "0 \<le> ds' \<and> ds' \<le> ds \<and> entries_ok S (n + nat ds') m' \<and>
       {n ..< n + nat ds'} \<union> covered m' = {n ..< e} \<union> covered m"
  using assms(1,6)
proof (induction m arbitrary: num)
  case Nil
  then show ?case
    using assms(2,5) by auto
next
  case (Cons kv m)
  obtain k v where kv: "kv = (k, v)"
    by (cases kv)
  have nk: "n \<le> k" "v \<noteq> []" "entries_ok S (k + length v) m"
    using Cons.prems(1) kv by simp_all
  note step = overlap_loop_Cons [OF Cons.prems(1) [unfolded kv] assms(2-4), of num]
  consider "e \<le> k" | "k < e" "e < k + length v" | "k < e" "k + length v \<le> e"
    by linarith
  then show ?case
  proof cases
    case 1
    then have "ds' = ds" "m' = (k, v) # m"
      using step Cons.prems(2) kv by simp_all
    moreover have "n + nat ds = e"
      using assms(2,5) by linarith
    ultimately show ?thesis
      using Cons.prems(1) kv assms(5) 1 by simp
  next
    case 2
    then have "ds' = int (k - n)" "m' = (k, v) # m"
      using step Cons.prems(2) kv by simp_all
    then have "0 \<le> ds'" "n + nat ds' = k" "ds' \<le> ds" "m' = (k, v) # m"
      using nk(1) 2 assms(2) by auto
    moreover have "{n..<k} \<union> {k..<k + length v} = {n..<e} \<union> {k..<k + length v}"
      using nk(1) 2 by auto
    ultimately show ?thesis
      using Cons.prems(1) kv by (simp add: Un_assoc [symmetric])
  next
    case 3
    then have "overlap_loop n ds m (sub64 num (length v)) = (ds', m', num')"
      using step Cons.prems(2) kv by simp
    moreover have "entries_ok S n m"
      by (rule entries_ok_mono [OF nk(3)]) (use nk(1) in simp)
    ultimately have "0 \<le> ds' \<and> ds' \<le> ds \<and> entries_ok S (n + nat ds') m' \<and>
        {n ..< n + nat ds'} \<union> covered m' = {n ..< e} \<union> covered m"
      by (rule Cons.IH [rotated])
    moreover have "{n..<e} \<union> covered m = {n..<e} \<union> covered (kv # m)"
      using 3 nk(1) kv by auto
    ultimately show ?thesis
      by (simp only:)
  qed
qed

text \<open>
  Stage 4. The loop over the entries keeps what the window of the stream holds: the bytes
  before \<open>nxt\<close> and those in the entries, up to the edge \<open>bytes_read + capacity\<close>. It stops at a
  gap or when the window is used up, unless the output has an error.
\<close>

definition edge :: "byte_stream \<Rightarrow> nat" where
  "edge out = bs_bytes_read out + bs_capacity out"

lemma edge_room: "bs_agrees S out \<Longrightarrow> edge out = bs_bytes_written out + bs_remaining_capacity out"
  by (auto simp: edge_def bs_agrees_room bs_agrees_def)

lemma bs_write_frame [simp]:
  "bs_capacity (fst (bs_write s d)) = bs_capacity s"
  "bs_bytes_read (fst (bs_write s d)) = bs_bytes_read s"
  "bs_error (fst (bs_write s d)) = bs_error s"
  "bs_input_ended (fst (bs_write s d)) = bs_input_ended s"
  "edge (fst (bs_write s d)) = edge s"
  by (auto simp: bs_write_def Let_def edge_def)

lemma bs_end_input_frame [simp]:
  "bs_capacity (bs_end_input s) = bs_capacity s" "bs_bytes_read (bs_end_input s) = bs_bytes_read s"
  "bs_bytes_written (bs_end_input s) = bs_bytes_written s" "bs_buffer (bs_end_input s) = bs_buffer s"
  "bs_error (bs_end_input s) = bs_error s" "bs_input_ended (bs_end_input s)"
  "edge (bs_end_input s) = edge s" "bs_agrees S (bs_end_input s) = bs_agrees S s"
  by (simp_all add: bs_end_input_def edge_def bs_agrees_def)

lemma assemble_partial:
  assumes "entries_ok S k ((k, v) # m)" "w < length v"
  shows "smap_erase k (smap_insert (k + w) (drop w v) ((k, v) # m)) =
    (if w = 0 then m else (k + w, drop w v) # m)"
proof -
  have "smap_insert (k + w) (drop w v) m = (k + w, drop w v) # m" if "0 < w"
    using smap_insert_between [of "[]" "k + w" m] entries_ok_entry(1) [of S "k + length v" m] assms
    by fastforce
  then show ?thesis
    by auto
qed

lemma assemble_loop_spec:
  assumes "entries_ok S nxt m" "bs_agrees S out" "nxt = bs_bytes_written out"
  shows "\<exists>m' out' nxt' num'. assemble_loop m out nxt num = Inr (m', out', nxt', num') \<and>
    entries_ok S nxt' m' \<and> bs_agrees S out' \<and> nxt' = bs_bytes_written out' \<and> nxt \<le> nxt' \<and>
    bs_capacity out' = bs_capacity out \<and> bs_bytes_read out' = bs_bytes_read out \<and>
    bs_error out' = bs_error out \<and> bs_input_ended out' = bs_input_ended out \<and>
    {..<nxt'} \<union> covered m' \<subseteq> {..<nxt} \<union> covered m \<and>
    (\<not> bs_closed out \<longrightarrow>
      ({..<nxt'} \<union> covered m') \<inter> {..<edge out} = ({..<nxt} \<union> covered m) \<inter> {..<edge out} \<and>
      (nxt' = edge out \<or> nxt' \<notin> covered m'))"
  using assms
proof (induction m arbitrary: out nxt num)
  case Nil
  then show ?case
    by auto
next
  case (Cons kv m)
  obtain k v where kv: "kv = (k, v)"
    by (cases kv)
  have nk: "nxt \<le> k" "v \<noteq> []" "slice_at S k v" "entries_ok S (k + length v) m"
    using Cons.prems(1) kv by simp_all
  show ?case
  proof (cases "k = nxt")
    case False
    have "nxt \<notin> covered (kv # m)"
      using entries_ok_covered [OF nk(4)] nk(1) False kv by auto
    moreover have "assemble_loop (kv # m) out nxt num = Inr (kv # m, out, nxt, num)"
      using False nk(1) kv by simp
    ultimately show ?thesis
      using Cons.prems by auto
  next
    case True
    define w out1 where "w = snd (bs_write out v)" and "out1 = fst (bs_write out v)"
    have sl: "slice_at S (bs_bytes_written out) v"
      using nk(3) True Cons.prems(3) by simp
    note out1 = bs_sink.put_slice [OF Cons.prems(2) sl, folded w_def out1_def]
    have w: "w \<le> length v" "nxt + w \<le> length S"
      using bs_sink.put_le [OF Cons.prems(2), of v] slice_at_bound [OF sl] Cons.prems(3)
      by (auto simp: w_def)
    have "length S < two64"
      using Cons.prems(2) by (simp add: bs_agrees_def less_two63_64)
    then have nw: "add64 nxt w = nxt + w"
      using w(2) by (simp add: add64_small)
    have same: "bs_closed out1 = bs_closed out" "edge out1 = edge out"
      by (simp_all add: out1_def bs_closed_def)
    show ?thesis
    proof (cases "w < length v")
      case part: True
      define m' where "m' = smap_erase k (smap_insert (k + w) (drop w v) ((k, v) # m))"
      have m': "m' = (if w = 0 then m else (k + w, drop w v) # m)"
        using assemble_partial [of S k v m w] nk part by (simp add: m'_def)
      have res: "\<exists>num'. assemble_loop (kv # m) out nxt num = Inr (m', out1, nxt + w, num')"
        using part nw True kv by (simp add: m'_def Let_def split_beta w_def out1_def)
      have ok: "entries_ok S (nxt + w) m'"
        using nk True part entries_ok_mono [OF nk(4), of "nxt"] slice_at_drop [OF nk(3), of w] by (simp add: m')
      have sub: "covered m' \<subseteq> covered (kv # m)" "{..<nxt + w} \<subseteq> {..<nxt} \<union> covered (kv # m)"
        using part True w(1) by (auto simp: m' kv)
      have "edge out = nxt + w" if "\<not> bs_closed out"
        using bs_sink.put_partial_full [OF Cons.prems(2) that, of v] part same edge_room [OF out1(1)]
          out1(2) Cons.prems(3) by (simp add: w_def out1_def)
      moreover have "out1 = fst (bs_write out v)"
        by (simp add: out1_def)
      ultimately show ?thesis
        using res ok sub out1 Cons.prems(3) by (fastforce simp: Int_Un_distrib2)
    next
      case False
      then have full: "w = length v"
        using w(1) by simp
      have not_closed: "\<not> bs_closed out"
        using bs_write_simps(1) [OF Cons.prems(2), of v] full nk(2) by (auto simp: w_def)
      have "assemble_loop (kv # m) out nxt num = assemble_loop m out1 (nxt + w) (sub64 num (length v))"
        using False nw True kv by (simp add: Let_def split_beta w_def out1_def)
      moreover have "entries_ok S (nxt + w) m" "nxt + w = bs_bytes_written out1"
        using nk(4) True full out1(2) Cons.prems(3) by simp_all
      moreover have "{..<nxt + w} \<union> covered m = {..<nxt} \<union> covered (kv # m)"
        using True full kv by auto
      ultimately show ?thesis
        using Cons.IH [of "nxt + w" out1 "sub64 num (length v)"] out1(1) same not_closed
        by (fastforce simp: out1_def)
    qed
  qed
qed

text \<open>
  Stage 3. Writing or storing the clipped data adds exactly its positions.
\<close>

definition ra_have :: "reassembler \<Rightarrow> nat set" where
  "ra_have r = {..<ra_next_assembled_idx r} \<union> covered (ra_unassemble_strs r)"

definition ra_core_inv :: "bytes \<Rightarrow> reassembler \<Rightarrow> bool" where
  "ra_core_inv S r \<longleftrightarrow> bs_agrees S (ra_output r) \<and>
     ra_next_assembled_idx r = bs_bytes_written (ra_output r) \<and>
     ra_capacity r = bs_capacity (ra_output r) \<and>
     entries_ok S (ra_next_assembled_idx r) (ra_unassemble_strs r)"

definition ra_frame :: "reassembler \<Rightarrow> reassembler \<Rightarrow> bool" where
  "ra_frame r r' \<longleftrightarrow> ra_capacity r' = ra_capacity r \<and> ra_eof_idx r' = ra_eof_idx r \<and>
     bs_capacity (ra_output r') = bs_capacity (ra_output r) \<and>
     bs_bytes_read (ra_output r') = bs_bytes_read (ra_output r) \<and>
     bs_error (ra_output r') = bs_error (ra_output r) \<and>
     bs_input_ended (ra_output r') = bs_input_ended (ra_output r)"

lemma ra_core_invD:
  assumes "ra_core_inv S r"
  shows "bs_agrees S (ra_output r)" "ra_next_assembled_idx r = bs_bytes_written (ra_output r)"
    "ra_capacity r = bs_capacity (ra_output r)"
    "entries_ok S (ra_next_assembled_idx r) (ra_unassemble_strs r)"
    "ra_next_assembled_idx r \<le> length S" "length S < two63"
  using assms by (auto simp: ra_core_inv_def bs_agrees_def dest: slice_at_bound)

lemma store_new_front:
  assumes inv: "ra_core_inv S r" and map: "ra_unassemble_strs r = B"
    and B: "entries_ok S (n + length d) B" and d: "d \<noteq> []" "slice_at S n d"
    and n: "n = ra_next_assembled_idx r"
  shows "\<exists>r'. store_new r n d = Inr r' \<and> ra_core_inv S r' \<and> ra_frame r r' \<and>
    ra_have r' = ra_have r \<union> {n ..< n + length d} \<and> ra_next_assembled_idx r \<le> ra_next_assembled_idx r'"
proof -
  note [simp] = ra_core_invD(2) [OF inv, symmetric]
  define w out1 where "w = snd (bs_write (ra_output r) d)" and "out1 = fst (bs_write (ra_output r) d)"
  have sl: "slice_at S (bs_bytes_written (ra_output r)) d"
    using d n by simp
  note out1 = bs_sink.put_slice [OF ra_core_invD(1) [OF inv] sl, folded w_def out1_def]
  have w: "w \<le> length d" "n + w \<le> length S" "length d < two64" "length S < two64"
    using bs_sink.put_le [OF ra_core_invD(1) [OF inv], of d] slice_at_bound [OF d(2)]
      ra_core_invD(6) [OF inv] less_two63_64 [of "length S"] by (auto simp: w_def)
  then have nw: "add64 n w = n + w" "sub64 (length d) w = length d - w"
    by (simp_all add: add64_small sub64_small)
  let ?r1 = "r\<lparr>ra_output := out1, ra_next_assembled_idx := n + w\<rparr>"
  define r' where "r' = (if w < length d
      then ?r1\<lparr>ra_unassembled_bytes_num := add64 (ra_unassembled_bytes_num r) (length d - w),
                ra_unassemble_strs := (n + w, drop w d) # B\<rparr>
      else ?r1)"
  have ins: "smap_insert (n + w) (drop w d) B = (n + w, drop w d) # B" if "w < length d"
    using smap_insert_between [of "[]" "n + w" B "drop w d"] entries_ok_entry(1) [OF B] that by fastforce
  have "store_new r n d = Inr r'"
    using n nw ins map w by (auto simp: store_new_def Let_def split_beta substr_def r'_def w_def [symmetric] out1_def [symmetric])
  moreover have "ra_core_inv S r'"
    using inv out1 B w slice_at_drop [OF d(2), of w] n
    by (auto simp: ra_core_inv_def r'_def map out1_def)
  moreover have "ra_frame r r'"
    by (simp add: ra_frame_def r'_def out1_def)
  moreover have "ra_have r' = ra_have r \<union> {n ..< n + length d}"
    using w n map by (auto simp: ra_have_def r'_def)
  ultimately show ?thesis
    using n by (auto simp: r'_def)
qed

lemma store_new_back:
  assumes inv: "ra_core_inv S r" and map: "ra_unassemble_strs r = A @ B"
    and A: "entries_end (ra_next_assembled_idx r) A \<le> n" "\<forall>e \<in> set A. fst e < n"
    and B: "entries_ok S (n + length d) B" and d: "d \<noteq> []" "slice_at S n d"
    and n: "n \<noteq> ra_next_assembled_idx r"
  shows "\<exists>r'. store_new r n d = Inr r' \<and> ra_core_inv S r' \<and> ra_frame r r' \<and>
    ra_have r' = ra_have r \<union> {n ..< n + length d} \<and> ra_next_assembled_idx r \<le> ra_next_assembled_idx r'"
proof -
  define r' where "r' = r\<lparr>ra_unassembled_bytes_num := add64 (ra_unassembled_bytes_num r) (length d),
      ra_unassemble_strs := A @ (n, d) # B\<rparr>"
  have "n < k" if "(k, v) \<in> set B" for k v
    using entries_ok_entry(1) [OF B that] d(1) by (cases d) auto
  then have "smap_insert n d (A @ B) = A @ (n, d) # B"
    using A(2) by (intro smap_insert_between) fastforce+
  then have "store_new r n d = Inr r'"
    using n map by (simp add: store_new_def substr_def r'_def)
  moreover have "ra_core_inv S r'"
    using inv A(1) B d by (auto simp: ra_core_inv_def r'_def map entries_ok_append)
  ultimately show ?thesis
    by (auto simp: ra_frame_def r'_def ra_have_def map)
qed

lemma store_new_spec:
  assumes inv: "ra_core_inv S r" and map: "ra_unassemble_strs r = A @ B"
    and A: "entries_end (ra_next_assembled_idx r) A \<le> n" "\<forall>e \<in> set A. fst e < n"
    and B: "entries_ok S (n + length d) B" and d: "d \<noteq> []" "slice_at S n d"
  shows "\<exists>r'. store_new r n d = Inr r' \<and> ra_core_inv S r' \<and> ra_frame r r' \<and>
    ra_have r' = ra_have r \<union> {n ..< n + length d} \<and> ra_next_assembled_idx r \<le> ra_next_assembled_idx r'"
proof (cases "n = ra_next_assembled_idx r")
  case True
  have "A = []"
  proof (rule ccontr)
    assume "A \<noteq> []"
    then obtain k v A' where kv: "A = (k, v) # A'"
      by (cases A) auto
    then have "ra_next_assembled_idx r \<le> k" "k < n"
      using ra_core_invD(4) [OF inv] A(2) map by auto
    then show False
      using True by simp
  qed
  then show ?thesis
    using store_new_front [OF inv _ B d True] map by simp
next
  case False
  then show ?thesis
    using store_new_back [OF inv map A B d] by blast
qed

section \<open>The whole operation\<close>

definition ra_inv :: "bytes \<Rightarrow> reassembler \<Rightarrow> bool" where
  "ra_inv S r \<longleftrightarrow> ra_core_inv S r \<and>
     (ra_eof_idx r = two64 - 1 \<or> ra_eof_idx r = length S) \<and>
     (bs_input_ended (ra_output r) \<longrightarrow> ra_next_assembled_idx r = length S)"

definition ra_edge :: "reassembler \<Rightarrow> nat" where
  "ra_edge r = edge (ra_output r)"

lemma ra_frame_edge: "ra_frame r r' \<Longrightarrow> ra_edge r' = ra_edge r"
  by (simp add: ra_frame_def ra_edge_def edge_def)

text \<open>The state after the first two stages: the start \<open>n\<close>, the clipped size and the map.\<close>

lemma clip_covers:
  assumes ok: "entries_ok S nxt m"
  shows "{index ..< max index (entries_end nxt (below index m))} \<subseteq> {..<nxt} \<union> covered (below index m)"
proof (cases "below index m = []")
  case False
  let ?l = "last (below index m)"
  have l: "?l \<in> set (below index m)"
    using False by simp
  then have "fst ?l \<le> index" "{fst ?l ..< fst ?l + length (snd ?l)} \<subseteq> covered (below index m)"
    using below_bound [of "fst ?l" "snd ?l"] by (auto simp: covered_def split_beta)
  moreover have "{index ..< max index (fst ?l + length (snd ?l))} \<subseteq> {fst ?l ..< fst ?l + length (snd ?l)}"
    using calculation(1) by auto
  ultimately show ?thesis
    unfolding entries_end_last [OF False] by blast
qed auto

lemma push_clip:
  assumes inv: "ra_core_inv S r" and sl: "slice_at S index data"
  defines "n \<equiv> clip_front (ra_unassemble_strs r) (ra_next_assembled_idx r) index"
    and "A \<equiv> below index (ra_unassemble_strs r)"
  shows "index \<le> n" "n \<le> length S" "ra_next_assembled_idx r \<le> n" "n = max index (entries_end (ra_next_assembled_idx r) A)"
    "sub64 n index = n - index"
    "int n + to_ssize (sub64 (length data) (n - index)) = int (index + length data)"
    "{index..<n} \<subseteq> {..<ra_next_assembled_idx r} \<union> covered A"
proof -
  note ok = ra_core_invD [OF inv]
  have s: "index + length data \<le> length S"
    using sl by (rule slice_at_bound)
  show n: "n = max index (entries_end (ra_next_assembled_idx r) A)"
    unfolding n_def A_def by (rule clip_front_eq [OF ok(4,5,6)])
  show le: "index \<le> n" "n \<le> length S"
    using n entries_end_le [OF entries_split(1) [OF ok(4), of index] ok(5)] s by (auto simp: A_def)
  show "ra_next_assembled_idx r \<le> n"
    using n entries_end_ge [OF entries_split(1) [OF ok(4), of index]] by (simp add: A_def)
  show "sub64 n index = n - index"
    using le ok(6) less_two63_64 [of n] by (intro sub64_small) auto
  have "to_ssize (sub64 (length data) (n - index)) = int (length data) - int (n - index)"
    using le s ok(6) by (intro to_ssize_sub64) auto
  then show "int n + to_ssize (sub64 (length data) (n - index)) = int (index + length data)"
    using le by simp
  show "{index..<n} \<subseteq> {..<ra_next_assembled_idx r} \<union> covered A"
    unfolding n A_def by (rule clip_covers [OF ok(4)])
qed

lemma push_overlap:
  assumes inv: "ra_core_inv S r" and sl: "slice_at S index data"
    and n: "n = clip_front (ra_unassemble_strs r) (ra_next_assembled_idx r) index"
    and A: "A = below index (ra_unassemble_strs r)" and B: "B = above index (ra_unassemble_strs r)"
    and ol: "overlap_loop n (to_ssize (sub64 (length data) (n - index))) B num = (ds, B', num')"
  shows "entries_ok S (ra_next_assembled_idx r) (A @ B')" "entries_ok S (n + nat ds) B'"
    "n + nat ds \<le> max n (index + length data)"
    "{n..<n + nat ds} \<union> covered B' = {n..<index + length data} \<union> covered B"
proof -
  note ok = ra_core_invD [OF inv] and c = push_clip [OF inv sl, folded n A]
  have okB: "entries_ok S n B"
    using entries_above_ge [OF ok(4), of index] c(4) by (simp add: A B)
  have okA: "entries_ok S (ra_next_assembled_idx r) A"
    using entries_split(1) [OF ok(4), of index] by (simp add: A)
  have endA: "entries_end (ra_next_assembled_idx r) A \<le> n"
    using c(4) by simp
  let ?ds = "to_ssize (sub64 (length data) (n - index))"
  have e: "index + length data \<le> length S"
    using sl by (rule slice_at_bound)
  have all: "entries_ok S (n + nat ds) B' \<and> n + nat ds \<le> max n (index + length data) \<and>
      {n..<n + nat ds} \<union> covered B' = {n..<index + length data} \<union> covered B"
  proof (cases "?ds \<le> 0")
    case True
    then have "ds = ?ds" "B' = B"
      using overlap_loop_idle [OF okB c(6) e ok(6) True, of num] ol by simp_all
    moreover have "index + length data \<le> n" "nat ?ds = 0"
      using True c(6) by simp_all
    ultimately show ?thesis
      using okB by simp
  next
    case False
    then have "0 \<le> ds \<and> ds \<le> ?ds \<and> entries_ok S (n + nat ds) B' \<and>
        {n..<n + nat ds} \<union> covered B' = {n..<index + length data} \<union> covered B"
      by (intro overlap_loop_spec [OF okB c(6) e ok(6) _ ol]) simp
    moreover have "index + length data - n = nat ?ds" "n + nat ?ds = index + length data"
      using False c(6) by linarith+
    ultimately show ?thesis
      by auto
  qed
  then show "entries_ok S (n + nat ds) B'" "n + nat ds \<le> max n (index + length data)"
    "{n..<n + nat ds} \<union> covered B' = {n..<index + length data} \<union> covered B"
    by simp_all
  then show "entries_ok S (ra_next_assembled_idx r) (A @ B')"
    using okA endA entries_ok_mono [of S "n + nat ds" B'] by (auto simp: entries_ok_append)
qed

lemma ra_core_inv_edge:
  assumes "ra_core_inv S r"
  shows "sub64 (add64 (ra_next_assembled_idx r) (ra_capacity r)) (bs_buffer_size (ra_output r)) = ra_edge r"
proof -
  note ok = ra_core_invD [OF assms]
  have "ra_next_assembled_idx r + ra_capacity r < two64"
    using ok(2,3) bs_agrees_bounds [OF ok(1)] by (simp add: two_powers_eq(2))
  then show ?thesis
    using ok(1-3) by (simp add: add64_small sub64_small ra_edge_def edge_def bs_buffer_size_def bs_agrees_def)
qed

text \<open>The core of the operation on a state whose map was clipped: store, then assemble.\<close>

lemma store_assemble:
  assumes inv: "ra_core_inv S r" and map: "ra_unassemble_strs r = A @ B"
    and A: "entries_end (ra_next_assembled_idx r) A \<le> n" "\<forall>e \<in> set A. fst e < n"
    and B: "entries_ok S (n + nat ds) B" and n: "index \<le> n"
    and sl: "slice_at S index data" and fit: "n + nat ds \<le> max n (index + length data)"
  shows "\<exists>r1 m out nxt num.
     (if 0 < ds then (case substr data (n - index) (nat ds) of
        Inl e \<Rightarrow> Inl e | Inr new_data \<Rightarrow> store_new r n new_data) else Inr r) = Inr r1 \<and>
     assemble_loop (ra_unassemble_strs r1) (ra_output r1) (ra_next_assembled_idx r1)
       (ra_unassembled_bytes_num r1) = Inr (m, out, nxt, num) \<and>
     ra_core_inv S r1 \<and> ra_frame r r1 \<and>
     (let r2 = r1\<lparr>ra_unassemble_strs := m, ra_output := out, ra_next_assembled_idx := nxt,
                  ra_unassembled_bytes_num := num\<rparr> in
      ra_core_inv S r2 \<and> ra_frame r r2 \<and> ra_next_assembled_idx r \<le> nxt \<and>
      ra_have r2 \<subseteq> ra_have r \<union> {n..<n + nat ds} \<and>
      (\<not> bs_closed (ra_output r) \<longrightarrow>
         ra_have r2 \<inter> {..<ra_edge r} = (ra_have r \<union> {n..<n + nat ds}) \<inter> {..<ra_edge r} \<and>
         (nxt = ra_edge r \<or> nxt \<notin> covered m)))"
proof -
  have "\<exists>r1. (if 0 < ds then (case substr data (n - index) (nat ds) of
        Inl e \<Rightarrow> Inl e | Inr new_data \<Rightarrow> store_new r n new_data) else Inr r) = Inr r1 \<and>
      ra_core_inv S r1 \<and> ra_frame r r1 \<and> ra_have r1 = ra_have r \<union> {n ..< n + nat ds} \<and>
      ra_next_assembled_idx r \<le> ra_next_assembled_idx r1"
  proof (cases "0 < ds")
    case True
    define d where "d = take (nat ds) (drop (n - index) data)"
    have "n + nat ds \<le> index + length data"
      using fit True by (auto simp: max_def split: if_splits)
    then have len: "length d = nat ds" "n - index \<le> length data"
      using n by (auto simp: d_def)
    have "slice_at S n d"
      using slice_at_take [OF slice_at_drop [OF sl len(2)]] n by (simp add: d_def)
    moreover have "d \<noteq> []"
      using len(1) True by auto
    moreover have "substr data (n - index) (nat ds) = Inr d"
      using len(2) by (simp add: substr_def d_def)
    ultimately show ?thesis
      using store_new_spec [OF inv map A, of d] B len(1) True by simp
  qed (use inv in \<open>simp add: ra_frame_def\<close>)
  then obtain r1 where r1: "(if 0 < ds then (case substr data (n - index) (nat ds) of
        Inl e \<Rightarrow> Inl e | Inr new_data \<Rightarrow> store_new r n new_data) else Inr r) = Inr r1"
      "ra_core_inv S r1" "ra_frame r r1" "ra_have r1 = ra_have r \<union> {n ..< n + nat ds}"
      "ra_next_assembled_idx r \<le> ra_next_assembled_idx r1"
    by blast
  note ok = ra_core_invD [OF r1(2)]
  obtain m out nxt num where al: "assemble_loop (ra_unassemble_strs r1) (ra_output r1)
      (ra_next_assembled_idx r1) (ra_unassembled_bytes_num r1) = Inr (m, out, nxt, num)"
    and out: "entries_ok S nxt m" "bs_agrees S out" "nxt = bs_bytes_written out"
      "ra_next_assembled_idx r1 \<le> nxt" "bs_capacity out = bs_capacity (ra_output r1)"
      "bs_bytes_read out = bs_bytes_read (ra_output r1)" "bs_error out = bs_error (ra_output r1)"
      "bs_input_ended out = bs_input_ended (ra_output r1)"
    and sub: "{..<nxt} \<union> covered m \<subseteq> {..<ra_next_assembled_idx r1} \<union> covered (ra_unassemble_strs r1)"
    and cov: "\<not> bs_closed (ra_output r1) \<longrightarrow>
      ({..<nxt} \<union> covered m) \<inter> {..<edge (ra_output r1)} =
        ({..<ra_next_assembled_idx r1} \<union> covered (ra_unassemble_strs r1)) \<inter> {..<edge (ra_output r1)} \<and>
      (nxt = edge (ra_output r1) \<or> nxt \<notin> covered m)"
    using assemble_loop_spec [OF ok(4,1,2), of "ra_unassembled_bytes_num r1"] by blast
  have same: "bs_closed (ra_output r1) = bs_closed (ra_output r)" "edge (ra_output r1) = ra_edge r"
    using r1(3) by (simp_all add: ra_frame_def bs_closed_def ra_edge_def edge_def)
  define r2 where "r2 = r1\<lparr>ra_unassemble_strs := m, ra_output := out, ra_next_assembled_idx := nxt,
      ra_unassembled_bytes_num := num\<rparr>"
  have "ra_core_inv S r2 \<and> ra_frame r r2 \<and> ra_next_assembled_idx r \<le> nxt"
    using out r1(3,5) ok(3) by (simp add: ra_core_inv_def ra_frame_def r2_def)
  moreover have "ra_have r2 \<subseteq> ra_have r \<union> {n..<n + nat ds}"
    using sub r1(4) by (simp add: ra_have_def r2_def)
  moreover have "\<not> bs_closed (ra_output r) \<longrightarrow>
      ra_have r2 \<inter> {..<ra_edge r} = (ra_have r \<union> {n..<n + nat ds}) \<inter> {..<ra_edge r} \<and>
      (nxt = ra_edge r \<or> nxt \<notin> covered m)"
    using cov r1(4) same by (simp add: ra_have_def r2_def)
  ultimately show ?thesis
    using r1(1-3) al unfolding r2_def Let_def by blast
qed

lemma ra_have_bound: "ra_core_inv S r \<Longrightarrow> ra_have r \<subseteq> {..<length S}"
  using entries_ok_covered [of S "ra_next_assembled_idx r" "ra_unassemble_strs r"]
    entries_end_le [of S "ra_next_assembled_idx r" "ra_unassemble_strs r"] ra_core_invD [of S r]
  by (fastforce simp: ra_have_def)

text \<open>The last statements: recording the end of the stream and ending the output.\<close>

definition finish :: "bool \<Rightarrow> nat \<Rightarrow> reassembler \<Rightarrow> reassembler" where
  "finish eof e r =
     (let r = (if eof then r\<lparr>ra_eof_idx := e\<rparr> else r)
      in if ra_eof_idx r \<le> ra_next_assembled_idx r
         then r\<lparr>ra_output := bs_end_input (ra_output r)\<rparr> else r)"

lemma finish_simps [simp]:
  "ra_have (finish eof e r) = ra_have r" "ra_next_assembled_idx (finish eof e r) = ra_next_assembled_idx r"
  "ra_unassemble_strs (finish eof e r) = ra_unassemble_strs r"
  "ra_capacity (finish eof e r) = ra_capacity r" "ra_edge (finish eof e r) = ra_edge r"
  "bs_error (ra_output (finish eof e r)) = bs_error (ra_output r)"
  "bs_bytes_read (ra_output (finish eof e r)) = bs_bytes_read (ra_output r)"
  "bs_bytes_written (ra_output (finish eof e r)) = bs_bytes_written (ra_output r)"
  "bs_buffer (ra_output (finish eof e r)) = bs_buffer (ra_output r)"
  "ra_core_inv S (finish eof e r) = ra_core_inv S r"
  by (simp_all add: finish_def Let_def ra_have_def ra_edge_def ra_core_inv_def)

lemma finish_flags:
  "ra_eof_idx (finish eof e r) = (if eof then e else ra_eof_idx r)"
  "bs_input_ended (ra_output (finish eof e r)) =
     (bs_input_ended (ra_output r) \<or> (if eof then e else ra_eof_idx r) \<le> ra_next_assembled_idx r)"
  by (auto simp: finish_def Let_def)

lemma finish_inv:
  assumes "ra_core_inv S r" "ra_eof_idx r = two64 - 1 \<or> ra_eof_idx r = length S"
    and "bs_input_ended (ra_output r) \<longrightarrow> ra_next_assembled_idx r = length S" "eof \<longrightarrow> e = length S"
  shows "ra_inv S (finish eof e r)"
proof -
  have "ra_next_assembled_idx r \<le> length S" "ra_next_assembled_idx r < two64 - 1"
    using ra_core_invD(5,6) [OF assms(1)] two_powers_eq(2) by auto
  then show ?thesis
    using assms by (auto simp: ra_inv_def finish_def Let_def ra_core_inv_def)
qed

text \<open>
  What one call does, for an excerpt of \<open>S\<close> at its position: no exception and no failed
  assertion; the invariant is kept; and inside the window the reassembler then holds exactly
  what it held before and the new bytes.
\<close>

lemma push_substring_spec:
  assumes inv: "ra_inv S r" and sl: "slice_at S index data"
    and fin: "eof \<Longrightarrow> index + length data = length S"
  shows "\<exists>r'. push_substring r data index eof = Inr r' \<and> ra_inv S r' \<and>
    bs_bytes_read (ra_output r') = bs_bytes_read (ra_output r) \<and>
    ra_capacity r' = ra_capacity r \<and> ra_edge r' = ra_edge r \<and>
    bs_error (ra_output r') = bs_error (ra_output r) \<and>
    ra_next_assembled_idx r \<le> ra_next_assembled_idx r' \<and>
    ra_have r' \<subseteq> ra_have r \<union> {index ..< index + length data} \<and>
    (\<not> bs_error (ra_output r) \<longrightarrow>
      ra_have r' \<inter> {..<ra_edge r} = (ra_have r \<union> {index ..< index + length data}) \<inter> {..<ra_edge r}) \<and>
    (let n = clip_front (ra_unassemble_strs r) (ra_next_assembled_idx r) index in
      if ra_edge r \<le> n
      then ra_next_assembled_idx r' = ra_next_assembled_idx r \<and> ra_eof_idx r' = ra_eof_idx r \<and>
        bs_input_ended (ra_output r') = bs_input_ended (ra_output r)
      else (\<not> bs_error (ra_output r) \<longrightarrow>
          ra_next_assembled_idx r' = ra_edge r \<or> ra_next_assembled_idx r' \<notin> ra_have r') \<and>
        ra_eof_idx r' = (if eof then length S else ra_eof_idx r) \<and>
        bs_input_ended (ra_output r') =
          (bs_input_ended (ra_output r) \<or> ra_eof_idx r' \<le> ra_next_assembled_idx r'))"
proof -
  note core = inv [unfolded ra_inv_def, THEN conjunct1]
  note ok = ra_core_invD [OF core]
  define m A B nxt where "m = ra_unassemble_strs r" and "A = below index m"
    and "B = above index m" and "nxt = ra_next_assembled_idx r"
  define n where "n = clip_front m nxt index"
  note c = push_clip [OF core sl, folded m_def nxt_def, folded n_def A_def]
  have cn: "clip_front (ra_unassemble_strs r) (ra_next_assembled_idx r) index = n"
    by (simp add: n_def m_def nxt_def)
  have split: "take (smap_lower n m) m = A" "drop (smap_lower n m) m = B"
    using smap_lower_split [OF ok(4), of index] c(4) by (simp_all add: m_def A_def B_def nxt_def)
  obtain ds B' num where ol: "overlap_loop n (to_ssize (sub64 (length data) (n - index))) B
      (ra_unassembled_bytes_num r) = (ds, B', num)"
    by (metis prod_cases3)
  note o = push_overlap [OF core sl n_def [unfolded m_def nxt_def] A_def [unfolded m_def]
      B_def [unfolded m_def] ol, folded m_def nxt_def]
  define r1 where "r1 = r\<lparr>ra_unassemble_strs := A @ B', ra_unassembled_bytes_num := num\<rparr>"
  have core1: "ra_core_inv S r1"
    using core o(1) by (simp add: ra_core_inv_def r1_def nxt_def)
  have r1: "ra_output r1 = ra_output r" "ra_next_assembled_idx r1 = nxt" "ra_edge r1 = ra_edge r"
      "ra_capacity r1 = ra_capacity r" "ra_frame r r1" "ra_unassemble_strs r1 = A @ B'"
      "ra_eof_idx r1 = ra_eof_idx r"
    by (simp_all add: r1_def nxt_def ra_edge_def ra_frame_def)
  have m: "m = A @ B"
    using below_above by (simp add: A_def B_def)
  have have1: "ra_have r1 \<union> {n ..< n + nat ds} = ra_have r \<union> {index ..< index + length data}"
  proof -
    have "ra_have r1 \<union> {n ..< n + nat ds} = {..<nxt} \<union> covered A \<union> ({n ..< n + nat ds} \<union> covered B')"
      by (auto simp: ra_have_def r1)
    also have "\<dots> = {..<nxt} \<union> covered A \<union> ({n ..< index + length data} \<union> covered B)"
      by (simp only: o(3,4))
    also have "\<dots> = ({..<nxt} \<union> covered A) \<union> {index ..< n} \<union> ({n ..< index + length data} \<union> covered B)"
      using c(7) by blast
    also have "\<dots> = {..<nxt} \<union> covered m \<union> {index ..< index + length data}"
      using c(1) c(7) m by (auto simp: nxt_def) 
    finally show ?thesis
      by (simp add: ra_have_def m_def nxt_def)
  qed
  have unf: "push_substring r data index eof = (if ra_edge r \<le> n then Inr r1
      else case (if 0 < ds then (case substr data (n - index) (nat ds) of
              Inl e \<Rightarrow> Inl e | Inr new_data \<Rightarrow> store_new r1 n new_data) else Inr r1) of
           Inl e \<Rightarrow> Inl e
         | Inr r \<Rightarrow> (case assemble_loop (ra_unassemble_strs r) (ra_output r) (ra_next_assembled_idx r)
                     (ra_unassembled_bytes_num r) of
                Inl e \<Rightarrow> Inl e
              | Inr (m, out, nxt, num) \<Rightarrow> Inr (finish eof (add64 index (length data))
                  (r\<lparr>ra_unassemble_strs := m, ra_output := out,
                     ra_next_assembled_idx := nxt, ra_unassembled_bytes_num := num\<rparr>))))"
    using ra_core_inv_edge [OF core] c(5) split ol n_def
    by (simp add: push_substring_def finish_def Let_def m_def [symmetric] nxt_def [symmetric]
        r1_def [symmetric] cong: sum.case_cong)
  show ?thesis
  proof (cases "ra_edge r \<le> n")
    case True
    have "ra_have r1 \<inter> {..<ra_edge r} = (ra_have r1 \<union> {n ..< n + nat ds}) \<inter> {..<ra_edge r}"
      using True by auto
    moreover have "ra_inv S r1"
      using inv core1 r1 by (simp add: ra_inv_def nxt_def)
    moreover have "ra_have r1 \<subseteq> ra_have r \<union> {index ..< index + length data}"
      using have1 by blast
    ultimately show ?thesis
      using unf True r1 have1 by (intro exI [of _ r1]) (simp add: nxt_def Let_def cn)
  next
    case False
    have e: "index + length data \<le> length S"
      using sl by (rule slice_at_bound)
    then have ie: "add64 index (length data) = index + length data"
      using ok(6) less_two63_64 [of "length S"] by (simp add: add64_small)
    have endA: "entries_end (ra_next_assembled_idx r1) A \<le> n"
      using c(4) r1 by simp
    have ltA: "\<forall>e \<in> set A. fst e < n"
      using below_ends [OF ok(4), folded m_def nxt_def, of _ _ index] c(4) by (fastforce simp: A_def)
    obtain r2 m' out nxt' num' where st: "(if 0 < ds then (case substr data (n - index) (nat ds) of
          Inl e \<Rightarrow> Inl e | Inr new_data \<Rightarrow> store_new r1 n new_data) else Inr r1) = Inr r2"
        "assemble_loop (ra_unassemble_strs r2) (ra_output r2) (ra_next_assembled_idx r2)
          (ra_unassembled_bytes_num r2) = Inr (m', out, nxt', num')"
      and fin': "let r3 = r2\<lparr>ra_unassemble_strs := m', ra_output := out, ra_next_assembled_idx := nxt',
                  ra_unassembled_bytes_num := num'\<rparr> in
        ra_core_inv S r3 \<and> ra_frame r1 r3 \<and> ra_next_assembled_idx r1 \<le> nxt' \<and>
        ra_have r3 \<subseteq> ra_have r1 \<union> {n..<n + nat ds} \<and>
        (\<not> bs_closed (ra_output r1) \<longrightarrow>
         ra_have r3 \<inter> {..<ra_edge r1} = (ra_have r1 \<union> {n..<n + nat ds}) \<inter> {..<ra_edge r1} \<and>
         (nxt' = ra_edge r1 \<or> nxt' \<notin> covered m'))"
      using store_assemble [OF core1 r1(6) endA ltA o(2) c(1) sl o(3)] by blast
    define r3 where "r3 = r2\<lparr>ra_unassemble_strs := m', ra_output := out, ra_next_assembled_idx := nxt',
                  ra_unassembled_bytes_num := num'\<rparr>"
    have r3: "ra_core_inv S r3" "ra_frame r1 r3" "nxt \<le> ra_next_assembled_idx r3"
      and sub3: "ra_have r3 \<subseteq> ra_have r \<union> {index ..< index + length data}"
      and have3: "\<not> bs_closed (ra_output r) \<longrightarrow>
         ra_have r3 \<inter> {..<ra_edge r} = (ra_have r \<union> {index ..< index + length data}) \<inter> {..<ra_edge r}"
      and prog3: "\<not> bs_closed (ra_output r) \<longrightarrow>
         ra_next_assembled_idx r3 = ra_edge r \<or> ra_next_assembled_idx r3 \<notin> ra_have r3"
      using fin' r1 have1 by (simp_all add: Let_def r3_def [symmetric]) (simp_all add: r3_def ra_have_def)
    have ended: "ra_next_assembled_idx r3 = length S" if "bs_input_ended (ra_output r)"
      using that inv r3(3) ra_core_invD(5) [OF r3(1)] by (simp add: ra_inv_def nxt_def)
    have fr: "ra_capacity r3 = ra_capacity r" "ra_eof_idx r3 = ra_eof_idx r" "ra_edge r3 = ra_edge r"
      "bs_error (ra_output r3) = bs_error (ra_output r)"
      "bs_bytes_read (ra_output r3) = bs_bytes_read (ra_output r)"
      "bs_input_ended (ra_output r3) = bs_input_ended (ra_output r)"
      using r3(2) r1 ra_frame_edge [OF r3(2)] by (simp_all add: ra_frame_def)
    have "ra_inv S (finish eof (index + length data) r3)"
      using inv fin fr ended by (intro finish_inv r3(1)) (auto simp: ra_inv_def)
    moreover have "ra_have r3 \<inter> {..<ra_edge r} = (ra_have r \<union> {index ..< index + length data}) \<inter> {..<ra_edge r} \<and>
        (ra_next_assembled_idx r3 = ra_edge r \<or> ra_next_assembled_idx r3 \<notin> ra_have r3)"
      if "\<not> bs_error (ra_output r)"
    proof (cases "bs_closed (ra_output r)")
      case True
      then have "bs_input_ended (ra_output r)"
        using that by (simp add: bs_closed_def)
      then have "ra_have r = {..<length S}" "ra_have r3 = {..<length S}" "ra_next_assembled_idx r3 = length S"
        using inv ended ra_have_bound [OF r3(1)] ra_have_bound [OF core]
        by (auto simp: ra_inv_def ra_have_def)
      moreover have "{index ..< index + length data} \<subseteq> {..<length S}"
        using e by auto
      ultimately show ?thesis
        by (simp add: Un_absorb2)
    qed (use have3 prog3 in blast)
    moreover have "push_substring r data index eof = Inr (finish eof (index + length data) r3)"
      unfolding unf using False by (simp only: if_False st(1) sum.case st(2) prod.case ie r3_def)
    ultimately show ?thesis
      using fr r3(3) False sub3 fin
      by (intro exI [of _ "finish eof (index + length data) r3"])
        (simp add: nxt_def Let_def cn finish_flags)
  qed
qed

text \<open>The same, fact by fact, with the two cases of the window test apart.\<close>

lemma push_substring_returns:
  assumes "ra_inv S r" "slice_at S index data" "eof \<longrightarrow> index + length data = length S"
  obtains r' where "push_substring r data index eof = Inr r'"
  using push_substring_spec [of S r index data eof] assms by blast

lemma push_substringD:
  assumes "ra_inv S r" "slice_at S index data" "eof \<longrightarrow> index + length data = length S"
    and "push_substring r data index eof = Inr r'"
  defines "n \<equiv> clip_front (ra_unassemble_strs r) (ra_next_assembled_idx r) index"
  shows "ra_inv S r'" "bs_bytes_read (ra_output r') = bs_bytes_read (ra_output r)"
    "ra_capacity r' = ra_capacity r" "ra_edge r' = ra_edge r"
    "bs_error (ra_output r') = bs_error (ra_output r)"
    "ra_next_assembled_idx r \<le> ra_next_assembled_idx r'"
    "ra_have r' \<subseteq> ra_have r \<union> {index ..< index + length data}"
    "\<not> bs_error (ra_output r) \<Longrightarrow>
      ra_have r' \<inter> {..<ra_edge r} = (ra_have r \<union> {index ..< index + length data}) \<inter> {..<ra_edge r}"
    "ra_edge r \<le> n \<Longrightarrow> ra_next_assembled_idx r' = ra_next_assembled_idx r \<and>
      ra_eof_idx r' = ra_eof_idx r \<and> bs_input_ended (ra_output r') = bs_input_ended (ra_output r)"
    "\<not> ra_edge r \<le> n \<Longrightarrow> \<not> bs_error (ra_output r) \<Longrightarrow>
      ra_next_assembled_idx r' = ra_edge r \<or> ra_next_assembled_idx r' \<notin> ra_have r'"
    "\<not> ra_edge r \<le> n \<Longrightarrow> ra_eof_idx r' = (if eof then length S else ra_eof_idx r)"
    "\<not> ra_edge r \<le> n \<Longrightarrow> bs_input_ended (ra_output r') =
          (bs_input_ended (ra_output r) \<or> ra_eof_idx r' \<le> ra_next_assembled_idx r')"
  using push_substring_spec [of S r index data eof, OF assms(1-2)] assms(3)
  unfolding assms(4) n_def [symmetric] Let_def by simp_all

end
