(* ===== verification/Reassembler_Runs.thy ===== *)
theory Reassembler_Runs
  imports Stream_Reassembler
begin

text \<open>
  What \<open>StreamReassembler\<close> promises over whole runs of its owner: pushes of excerpts of one
  stream, in any order, and reads of the output. The runs are an instance of \<open>machine\<close>; with
  a window larger than the stream they refine a set of positions (\<open>refined_machine\<close>); with a
  sender that respects the window they are described by the relation \<open>ra_windowed\<close>.
\<close>

section \<open>Runs: pushes of excerpts and reads of the output\<close>

text \<open>
  The reassembler's owner pushes excerpts and reads the output. The state of a run is the
  reassembler (or the exception that ended the run) and the bytes read so far. An excerpt of
  \<open>S\<close> may be pushed in any order, any number of times, overlapping others; \<open>eof\<close> is only
  given with the last bytes of \<open>S\<close>.
\<close>

datatype ra_event = RaPush bytes nat bool | RaRead nat

type_synonym ra_run = "(exn + reassembler) \<times> bytes"

fun ra_step :: "ra_run \<Rightarrow> ra_event \<Rightarrow> ra_run" where
  "ra_step (Inl e, got) _ = (Inl e, got)"
| "ra_step (Inr r, got) (RaPush data index eof) = (push_substring r data index eof, got)"
| "ra_step (Inr r, got) (RaRead n) = (let (out, d) = bs_read (ra_output r) n
     in (Inr (r\<lparr>ra_output := out\<rparr>), got @ d))"

fun ra_permitted :: "bytes \<Rightarrow> ra_event \<Rightarrow> bool" where
  "ra_permitted S (RaPush data index eof) \<longleftrightarrow>
     slice_at S index data \<and> (eof \<longrightarrow> index + length data = length S)"
| "ra_permitted S (RaRead n) \<longleftrightarrow> True"

text \<open>What the pushes of a run have brought: the positions, and whether the end was among them.\<close>

fun ra_pushed :: "ra_event \<Rightarrow> nat set" where
  "ra_pushed (RaPush data index eof) = {index ..< index + length data}"
| "ra_pushed (RaRead n) = {}"

fun ra_pushed_eof :: "ra_event \<Rightarrow> bool" where
  "ra_pushed_eof (RaPush data index eof) = eof"
| "ra_pushed_eof (RaRead n) = False"

definition ra_safe :: "bytes \<Rightarrow> nat \<Rightarrow> ra_run \<Rightarrow> bool" where
  "ra_safe S c st \<longleftrightarrow> (case st of (Inl e, got) \<Rightarrow> False
     | (Inr r, got) \<Rightarrow> ra_inv S r \<and> ra_capacity r = c \<and> \<not> bs_error (ra_output r) \<and>
         got = take (bs_bytes_read (ra_output r)) S)"

lemma ra_safe_cases:
  assumes "ra_safe S c st"
  obtains r where "st = (Inr r, take (bs_bytes_read (ra_output r)) S)" "ra_inv S r"
    "ra_capacity r = c" "\<not> bs_error (ra_output r)"
proof (cases st)
  case (Pair x got)
  then show thesis
    using assms that by (cases x) (simp_all add: ra_safe_def)
qed

lemma take_slice_at: "slice_at S n d \<Longrightarrow> take n S @ d = take (n + length d) S"
  by (simp add: slice_at_def take_add)

text \<open>Reading the output keeps the invariant and moves the edge of the window.\<close>

lemma ra_read_spec:
  fixes n
  assumes "ra_inv S r"
  defines "r' \<equiv> r\<lparr>ra_output := fst (bs_read (ra_output r) n)\<rparr>"
  shows "ra_inv S r' \<and> ra_have r' = ra_have r \<and> ra_eof_idx r' = ra_eof_idx r \<and>
    ra_capacity r' = ra_capacity r \<and> ra_next_assembled_idx r' = ra_next_assembled_idx r \<and>
    bs_error (ra_output r') = bs_error (ra_output r) \<and>
    bs_input_ended (ra_output r') = bs_input_ended (ra_output r) \<and>
    ra_edge r \<le> ra_edge r' \<and>
    take (bs_bytes_read (ra_output r')) S =
      take (bs_bytes_read (ra_output r)) S @ snd (bs_read (ra_output r) n)"
proof -
  note core = assms(1) [unfolded ra_inv_def, THEN conjunct1]
  note a = ra_core_invD(1) [OF core]
  let ?o = "ra_output r" and ?o' = "fst (bs_read (ra_output r) n)"
  have f: "bs_error ?o' = bs_error ?o" "bs_input_ended ?o' = bs_input_ended ?o"
    "bs_bytes_written ?o' = bs_bytes_written ?o" "bs_capacity ?o' = bs_capacity ?o"
    by (auto simp: bs_defs Let_def)
  have "take (bs_bytes_read ?o') S = take (bs_bytes_read ?o) S @ snd (bs_read ?o n)"
    using take_slice_at [OF bs_source.get_slice [OF a, of n]] bs_source.get_pos [OF a, of n] by simp
  moreover have "edge ?o \<le> edge ?o'"
    using bs_source.get_pos [OF a, of n] f by (simp add: edge_def)
  ultimately show ?thesis
    using assms(1) f bs_source.get_agrees [OF a, of n]
    by (auto simp: r'_def ra_inv_def ra_core_inv_def ra_have_def ra_edge_def)
qed

lemma ra_step_safe: "ra_safe S c st \<Longrightarrow> ra_permitted S e \<Longrightarrow> ra_safe S c (ra_step st e)"
proof (erule ra_safe_cases)
  fix r
  assume st: "st = (Inr r, take (bs_bytes_read (ra_output r)) S)" "ra_inv S r"
    "ra_capacity r = c" "\<not> bs_error (ra_output r)" and p: "ra_permitted S e"
  show "ra_safe S c (ra_step st e)"
  proof (cases e)
    case (RaPush data index eof)
    then have d: "slice_at S index data" "eof \<longrightarrow> index + length data = length S"
      using p by simp_all
    obtain r' where r': "push_substring r data index eof = Inr r'"
      by (rule push_substring_returns [OF st(2) d])
    then show ?thesis
      using st RaPush push_substringD(1,2,3,5) [OF st(2) d r'] by (simp add: ra_safe_def)
  next
    case (RaRead n)
    then show ?thesis
      using ra_read_spec [OF st(2), of n] st by (simp add: ra_safe_def split_beta)
  qed
qed

interpretation ra_machine: machine ra_step "ra_safe S c" "ra_permitted S" for S c
  by unfold_locales (rule ra_step_safe)

definition ra_run_init :: "nat \<Rightarrow> ra_run" where
  "ra_run_init capacity = (Inr (ra_construct capacity), [])"

lemma ra_construct_inv:
  assumes "length S < two63" "capacity < two63"
  shows "ra_inv S (ra_construct capacity)"
  using assms by (simp add: ra_inv_def ra_core_inv_def ra_construct_def bs_construct_def bs_agrees_def)

lemma ra_run_init_safe:
  assumes "length S < two63" "capacity < two63"
  shows "ra_safe S capacity (ra_run_init capacity)"
  using ra_construct_inv [OF assms]
  by (simp add: ra_safe_def ra_run_init_def) (simp add: ra_construct_def bs_construct_def)

lemma ra_run_safe:
  assumes "length S < two63" "capacity < two63" "list_all (ra_permitted S) es"
  shows "ra_safe S capacity (foldl ra_step (ra_run_init capacity) es)"
  by (rule ra_machine.run_inv [OF ra_run_init_safe [OF assms(1,2)] assms(3)])

text \<open>
  The specification of a reassembler whose window is larger than the stream: a set of positions
  and a flag. A run of the code refines it.
\<close>

definition ra_abst :: "ra_run \<Rightarrow> nat set \<times> bool" where
  "ra_abst st = (case st of (Inl e, got) \<Rightarrow> ({}, False)
     | (Inr r, got) \<Rightarrow> (ra_have r, ra_eof_idx r \<noteq> two64 - 1))"

definition ra_spec :: "nat set \<times> bool \<Rightarrow> ra_event \<Rightarrow> nat set \<times> bool" where
  "ra_spec a e = (fst a \<union> ra_pushed e, snd a \<or> ra_pushed_eof e)"

definition ra_wide :: "bytes \<Rightarrow> nat \<Rightarrow> ra_run \<Rightarrow> bool" where
  "ra_wide S c st \<longleftrightarrow> ra_safe S c st \<and> length S < c \<and> (case st of (Inl e, got) \<Rightarrow> False
     | (Inr r, got) \<Rightarrow> ra_next_assembled_idx r \<notin> ra_have r \<and>
         (bs_input_ended (ra_output r) \<longleftrightarrow>
           ra_eof_idx r \<noteq> two64 - 1 \<and> ra_next_assembled_idx r = length S))"

lemma ra_wide_push:
  assumes st: "ra_inv S r" "ra_capacity r = c" "\<not> bs_error (ra_output r)" "length S < c"
    and nxt: "ra_next_assembled_idx r \<notin> ra_have r"
    and e: "bs_input_ended (ra_output r) \<longleftrightarrow>
           ra_eof_idx r \<noteq> two64 - 1 \<and> ra_next_assembled_idx r = length S"
    and p: "slice_at S index data" "eof \<longrightarrow> index + length data = length S"
  shows "\<exists>r'. push_substring r data index eof = Inr r' \<and> ra_next_assembled_idx r' \<notin> ra_have r' \<and>
    (bs_input_ended (ra_output r') \<longleftrightarrow>
       ra_eof_idx r' \<noteq> two64 - 1 \<and> ra_next_assembled_idx r' = length S) \<and>
    ra_have r' = ra_have r \<union> {index ..< index + length data} \<and>
    (ra_eof_idx r' \<noteq> two64 - 1 \<longleftrightarrow> ra_eof_idx r \<noteq> two64 - 1 \<or> eof)"
proof -
  note core = st(1) [unfolded ra_inv_def, THEN conjunct1]
  have edge: "length S < ra_edge r"
    using st(2,4) ra_core_invD(3) [OF core] by (simp add: ra_edge_def edge_def)
  then have n: "\<not> ra_edge r \<le> clip_front (ra_unassemble_strs r) (ra_next_assembled_idx r) index"
    using push_clip(2) [OF core p(1)] by simp
  have S: "length S \<noteq> two64 - 1"
    using ra_core_invD(6) [OF core] two_powers_eq(2) by simp
  obtain r' where res: "push_substring r data index eof = Inr r'"
    by (rule push_substring_returns [OF st(1) p])
  note P = push_substringD [OF st(1) p res]
  note r' = res P(1) P(8) [OF st(3)] P(10) [OF n st(3)] P(11,12) [OF n] P(6)
  note core' = r'(2) [unfolded ra_inv_def, THEN conjunct1]
  have le: "ra_next_assembled_idx r' \<le> length S"
    by (rule ra_core_invD(5) [OF core'])
  have "ra_have r' \<subseteq> {..<ra_edge r}" "ra_have r \<subseteq> {..<ra_edge r}"
    "{index ..< index + length data} \<subseteq> {..<ra_edge r}"
    using ra_have_bound [OF core] ra_have_bound [OF core'] edge slice_at_bound [OF p(1)] by auto
  then have "ra_have r' = ra_have r \<union> {index ..< index + length data}"
    using r'(3) by (simp add: Int_absorb2)
  moreover have "ra_next_assembled_idx r' \<notin> ra_have r'"
    using r'(4) le edge by auto
  moreover have "bs_input_ended (ra_output r') \<longleftrightarrow>
       ra_eof_idx r' \<noteq> two64 - 1 \<and> ra_next_assembled_idx r' = length S"
    using r'(5,6,7) e le S r'(2) ra_core_invD(6) [OF core]
    by (auto simp: ra_inv_def two_powers_eq(2))
  moreover have "ra_eof_idx r' \<noteq> two64 - 1 \<longleftrightarrow> ra_eof_idx r \<noteq> two64 - 1 \<or> eof"
    using r'(5) S by auto
  ultimately show ?thesis
    using r'(1) by blast
qed

lemma ra_wide_step:
  assumes w: "ra_wide S c st" and p: "ra_permitted S e"
  shows "ra_wide S c (ra_step st e) \<and> ra_abst (ra_step st e) = ra_spec (ra_abst st) e"
proof -
  have safe: "ra_safe S c st" "ra_safe S c (ra_step st e)" "length S < c"
    using w ra_step_safe [OF _ p] by (simp_all add: ra_wide_def)
  obtain r where st: "st = (Inr r, take (bs_bytes_read (ra_output r)) S)" "ra_inv S r"
    "ra_capacity r = c" "\<not> bs_error (ra_output r)"
    using safe(1) by (rule ra_safe_cases)
  have r: "ra_next_assembled_idx r \<notin> ra_have r" "bs_input_ended (ra_output r) \<longleftrightarrow>
           ra_eof_idx r \<noteq> two64 - 1 \<and> ra_next_assembled_idx r = length S"
    using w st by (simp_all add: ra_wide_def)
  show ?thesis
  proof (cases e)
    case (RaPush data index eof)
    then have d: "slice_at S index data" "eof \<longrightarrow> index + length data = length S"
      using p by simp_all
    then obtain r' where r': "push_substring r data index eof = Inr r'"
        "ra_next_assembled_idx r' \<notin> ra_have r'"
        "bs_input_ended (ra_output r') \<longleftrightarrow> ra_eof_idx r' \<noteq> two64 - 1 \<and> ra_next_assembled_idx r' = length S"
        "ra_have r' = ra_have r \<union> {index ..< index + length data}"
        "ra_eof_idx r' \<noteq> two64 - 1 \<longleftrightarrow> ra_eof_idx r \<noteq> two64 - 1 \<or> eof"
      using ra_wide_push [OF st(2-4) safe(3) r d] by blast
    then show ?thesis
      using RaPush st(1) safe(2,3) by (simp add: ra_wide_def ra_abst_def ra_spec_def)
  next
    case (RaRead n)
    then show ?thesis
      using ra_read_spec [OF st(2), of n] st(1) r safe(2,3)
      by (simp add: ra_wide_def ra_abst_def ra_spec_def split_beta)
  qed
qed

interpretation ra_refined: refined_machine ra_step "ra_wide S c" "ra_permitted S" ra_abst ra_spec for S c
  by unfold_locales (simp_all add: ra_wide_step)

section \<open>Senders that respect the window\<close>

text \<open>
  The states reached when every push ends inside the window the reassembler offers at that
  time; \<open>H\<close> collects the positions pushed.
\<close>

inductive ra_windowed :: "bytes \<Rightarrow> nat \<Rightarrow> reassembler \<Rightarrow> nat set \<Rightarrow> bool" for S capacity where
  ra_windowed_start: "ra_windowed S capacity (ra_construct capacity) {}"
| ra_windowed_push: "ra_windowed S capacity r H \<Longrightarrow> ra_permitted S (RaPush data index eof) \<Longrightarrow>
    index + length data \<le> ra_edge r \<Longrightarrow> push_substring r data index eof = Inr r' \<Longrightarrow>
    ra_windowed S capacity r' (H \<union> {index ..< index + length data})"
| ra_windowed_read: "ra_windowed S capacity r H \<Longrightarrow>
    ra_windowed S capacity (r\<lparr>ra_output := fst (bs_read (ra_output r) n)\<rparr>) H"

definition ra_tight :: "bytes \<Rightarrow> nat \<Rightarrow> reassembler \<Rightarrow> nat set \<Rightarrow> bool" where
  "ra_tight S c r H \<longleftrightarrow> ra_inv S r \<and> ra_capacity r = c \<and> \<not> bs_error (ra_output r) \<and>
     ra_have r = H \<and> H \<subseteq> {..<ra_edge r} \<and> ra_next_assembled_idx r \<notin> H"

lemma ra_have_next: "{..<ra_next_assembled_idx r} \<subseteq> ra_have r"
  by (auto simp: ra_have_def)

lemma ra_next_le_edge: "ra_inv S r \<Longrightarrow> ra_next_assembled_idx r \<le> ra_edge r"
  using ra_core_invD [of S r] by (auto simp: ra_inv_def ra_edge_def edge_room)

text \<open>An ignored push inside the window brings nothing new.\<close>

lemma ra_full_next:
  assumes t: "ra_tight S c r H" and sl: "slice_at S index data"
    and w: "index + length data \<le> ra_edge r"
    and n: "ra_edge r \<le> clip_front (ra_unassemble_strs r) (ra_next_assembled_idx r) index"
  shows "ra_next_assembled_idx r \<notin> {index ..< index + length data}"
proof
  assume i: "ra_next_assembled_idx r \<in> {index ..< index + length data}"
  have inv: "ra_inv S r" and core: "ra_core_inv S r"
    using t by (simp_all add: ra_tight_def ra_inv_def)
  let ?A = "below index (ra_unassemble_strs r)"
  have "?A = []"
  proof (rule ccontr)
    assume "?A \<noteq> []"
    then obtain k v A where kv: "?A = (k, v) # A"
      by (cases ?A) auto
    then have "k \<le> index" "(k, v) \<in> set (ra_unassemble_strs r)"
      using below_bound [of k v index "ra_unassemble_strs r"]
        set_takeWhileD [of "(k, v)" "\<lambda>(k, _). k \<le> index" "ra_unassemble_strs r"]
      unfolding below_def
      by auto
    moreover note entries_ok_entry [OF ra_core_invD(4) [OF core] this(2)]
    ultimately have "k = ra_next_assembled_idx r" "v \<noteq> []" "(k, v) \<in> set (ra_unassemble_strs r)"
      using i by auto
    then have "ra_next_assembled_idx r \<in> covered (ra_unassemble_strs r)"
      unfolding covered_def by (intro UN_I [of "(k, v)"]) simp_all
    then have "ra_next_assembled_idx r \<in> ra_have r"
      by (simp add: ra_have_def)
    then show False
      using t by (simp add: ra_tight_def)
  qed
  then have "ra_edge r \<le> ra_next_assembled_idx r"
    using push_clip(4) [OF core sl] n i by (simp add: max_def)
  then show False
    using i w by simp
qed

lemma ra_tight_push:
  assumes t: "ra_tight S c r H" and d: "slice_at S index data" "eof \<longrightarrow> index + length data = length S"
    and w: "index + length data \<le> ra_edge r" and res: "push_substring r data index eof = Inr r'"
  shows "ra_tight S c r' (H \<union> {index ..< index + length data})"
proof -
  have r: "ra_inv S r" "\<not> bs_error (ra_output r)" "ra_have r = H" "H \<subseteq> {..<ra_edge r}"
      "ra_next_assembled_idx r \<notin> H"
    using t by (simp_all add: ra_tight_def)
  note P = push_substringD [OF r(1) d res]
  let ?new = "{index ..< index + length data}"
  let ?n = "clip_front (ra_unassemble_strs r) (ra_next_assembled_idx r) index"
  have sub: "?new \<subseteq> {..<ra_edge r}"
    using w by auto
  then have "ra_have r' \<subseteq> {..<ra_edge r}"
    using P(7) r(3,4) by blast
  then have have': "ra_have r' = H \<union> ?new"
    using P(8) [OF r(2)] r(3,4) sub by blast
  have "ra_next_assembled_idx r' \<notin> H \<union> ?new"
  proof (cases "ra_edge r \<le> ?n")
    case True
    then show ?thesis
      using P(9) ra_full_next [OF t d(1) w True] r(5) by simp
  next
    case False
    then show ?thesis
      using P(10) [OF False r(2)] have' sub r(4) by auto
  qed
  then show ?thesis
    using t P(1,3,4,5) have' sub by (auto simp: ra_tight_def)
qed

lemma ra_windowed_tight:
  assumes "length S < two63" "capacity < two63"
  shows "ra_windowed S capacity r H \<Longrightarrow> ra_tight S capacity r H"
proof (induction rule: ra_windowed.induct)
  case ra_windowed_start
  show ?case
    using ra_construct_inv [OF assms]
    by (simp add: ra_tight_def) (simp add: ra_construct_def ra_have_def bs_construct_def)
next
  case (ra_windowed_push r H data index eof r')
  then show ?case
    by (intro ra_tight_push) simp_all
next
  case (ra_windowed_read r H n)
  then show ?case
    using ra_read_spec [of S r n] by (auto simp: ra_tight_def)
qed

lemma first_missing:
  fixes n :: nat
  assumes "{..<n} \<subseteq> H" "n \<notin> H"
  shows "(LEAST i. i \<notin> H) = n"
proof (rule Least_equality)
  show "n \<notin> H"
    by (rule assms(2))
  show "n \<le> i" if "i \<notin> H" for i
    using assms(1) that by (metis lessThan_iff not_le subsetD)
qed

lemma foldl_ra_spec:
  "foldl ra_spec a es = (fst a \<union> (\<Union>e \<in> set es. ra_pushed e), snd a \<or> list_ex ra_pushed_eof es)"
  by (induction es arbitrary: a) (auto simp: ra_spec_def)

section \<open>Properties\<close>

text \<open>
  C8: Stream integrity. Whatever excerpts of a stream S are pushed, in whatever order, with
  duplicates, gaps and overlaps, and however the output is read in between, no call throws or
  fails its assertion; the bytes read so far and then the bytes buffered in the output are a
  prefix of S; the output never holds more than the capacity; and it ends only once all of S
  has been assembled.
\<close>

theorem ra_integrity:
  assumes "length S < two63" "capacity < two63" "list_all (ra_permitted S) es"
  shows "\<exists>r got rest. foldl ra_step (ra_run_init capacity) es = (Inr r, got) \<and>
    S = got @ bs_buffer (ra_output r) @ rest \<and>
    length (bs_buffer (ra_output r)) \<le> capacity \<and>
    (bs_input_ended (ra_output r) \<longrightarrow> rest = [])"
proof -
  obtain r where r: "foldl ra_step (ra_run_init capacity) es =
      (Inr r, take (bs_bytes_read (ra_output r)) S)" "ra_inv S r" "ra_capacity r = capacity"
    using ra_run_safe [OF assms] by (rule ra_safe_cases)
  have core: "ra_core_inv S r" and ended: "bs_input_ended (ra_output r) \<longrightarrow> ra_next_assembled_idx r = length S"
    using r(2) by (simp_all add: ra_inv_def)
  note ok = ra_core_invD [OF core]
  let ?got = "take (bs_bytes_read (ra_output r)) S"
  have "?got @ bs_buffer (ra_output r) = take (ra_next_assembled_idx r) S"
    using ok(1,2) take_slice_at [of S "bs_bytes_read (ra_output r)"] by (simp add: bs_agrees_def)
  then have "S = ?got @ bs_buffer (ra_output r) @ drop (ra_next_assembled_idx r) S"
    by (metis append_assoc append_take_drop_id)
  moreover have "length (bs_buffer (ra_output r)) \<le> capacity"
    using ok(1,3) r(3) by (simp add: bs_agrees_def)
  ultimately show ?thesis
    using r(1) ended by (intro exI [of _ r] exI) auto
qed

theorem ra_integrity_witness:
  "\<exists>r got rest. foldl ra_step (ra_run_init 2) [RaPush [2, 3] 1 False, RaPush [1, 2] 0 False, RaRead 2,
      RaPush [3] 2 True] = (Inr r, got) \<and>
    [1, 2, 3] = got @ bs_buffer (ra_output r) @ rest \<and> length (bs_buffer (ra_output r)) \<le> 2 \<and>
    (bs_input_ended (ra_output r) \<longrightarrow> rest = [])"
  by (rule ra_integrity) (simp_all add: slice_at_def two63_def)

text \<open>
  C9: Delivery in any order. When the window is larger than the stream, the outcome of a run
  depends only on which positions were pushed, not on the order or the overlaps: the bytes
  read and buffered are S up to the first position never pushed, and the output has ended
  exactly when every position and the end were pushed.
\<close>

theorem ra_delivery:
  assumes "length S < capacity" "capacity < two63" "list_all (ra_permitted S) es"
  shows "\<exists>r got. foldl ra_step (ra_run_init capacity) es = (Inr r, got) \<and>
    got @ bs_buffer (ra_output r) = take (LEAST i. i \<notin> (\<Union>e \<in> set es. ra_pushed e)) S \<and>
    (bs_input_ended (ra_output r) \<longleftrightarrow>
       list_ex ra_pushed_eof es \<and> {..<length S} \<subseteq> (\<Union>e \<in> set es. ra_pushed e))"
proof -
  have S: "length S < two63"
    using assms(1,2) by simp
  let ?st = "foldl ra_step (ra_run_init capacity) es"
  have init: "ra_wide S capacity (ra_run_init capacity)"
    using ra_run_init_safe [OF S assms(2)] assms(1)
    by (auto simp: ra_wide_def ra_run_init_def ra_construct_def ra_have_def bs_construct_def)
  then have wide: "ra_wide S capacity ?st"
    using assms(3) by (rule ra_refined.run_inv)
  have "ra_abst (ra_run_init capacity) = ({}, False)"
    by (simp add: ra_abst_def ra_run_init_def ra_construct_def ra_have_def)
  then have abst: "ra_abst ?st = (\<Union>e \<in> set es. ra_pushed e, list_ex ra_pushed_eof es)"
    using ra_refined.run_refines [OF init assms(3)] by (simp add: foldl_ra_spec)
  obtain r where r: "?st = (Inr r, take (bs_bytes_read (ra_output r)) S)" "ra_inv S r"
    using wide unfolding ra_wide_def by (auto elim: ra_safe_cases)
  have core: "ra_core_inv S r"
    using r(2) by (simp add: ra_inv_def)
  note ok = ra_core_invD [OF core]
  let ?H = "\<Union>e \<in> set es. ra_pushed e"
  have H: "ra_have r = ?H" "ra_eof_idx r \<noteq> two64 - 1 \<longleftrightarrow> list_ex ra_pushed_eof es"
    using abst r(1) by (simp_all add: ra_abst_def)
  have nxt: "ra_next_assembled_idx r \<notin> ?H" "bs_input_ended (ra_output r) \<longleftrightarrow>
      ra_eof_idx r \<noteq> two64 - 1 \<and> ra_next_assembled_idx r = length S"
    using wide r(1) H(1) by (simp_all add: ra_wide_def)
  have least: "(LEAST i. i \<notin> ?H) = ra_next_assembled_idx r"
    using ra_have_next [of r] H(1) nxt(1) by (intro first_missing) simp_all
  have "ra_next_assembled_idx r = length S \<longleftrightarrow> {..<length S} \<subseteq> ?H"
    using ra_have_next [of r] H(1) nxt(1) ok(5) by (auto simp: le_less)
  moreover have "take (bs_bytes_read (ra_output r)) S @ bs_buffer (ra_output r) = take (ra_next_assembled_idx r) S"
    using ok(1,2) take_slice_at [of S "bs_bytes_read (ra_output r)"] by (simp add: bs_agrees_def)
  ultimately show ?thesis
    using r(1) nxt(2) H(2) least by auto
qed

theorem ra_delivery_witness:
  "\<exists>r got. foldl ra_step (ra_run_init 4) [RaPush [3] 2 True, RaRead 1, RaPush [1] 0 False] = (Inr r, got) \<and>
    got @ bs_buffer (ra_output r) = [1] \<and> \<not> bs_input_ended (ra_output r)"
proof -
  have l: "(LEAST i. i \<notin> (\<Union>e \<in> set [RaPush [3] 2 True, RaRead 1, RaPush [1] 0 False]. ra_pushed e)) = 1"
    by (rule first_missing) auto
  have "list_all (ra_permitted [1, 2, 3]) [RaPush [3] 2 True, RaRead 1, RaPush [1] 0 False]"
    by (simp add: slice_at_def)
  note d = ra_delivery [OF _ _ this, of 4, unfolded l]
  moreover have "\<not> {..<length [1::byte, 2, 3]} \<subseteq> (\<Union>e \<in> set [RaPush [3] 2 True, RaRead 1, RaPush [1] 0 False]. ra_pushed e)"
    by (auto simp: subset_iff intro!: exI [of _ 1])
  ultimately show ?thesis
    by (simp add: two63_def)
qed

text \<open>
  C23: Inside the window nothing is lost. In every state a run reaches, whatever the capacity,
  one more push leaves the reassembler with exactly the positions it had and the new ones, as
  far as they lie before the edge bytes_read + capacity of its window.
\<close>

theorem ra_window_exact:
  assumes "length S < two63" "capacity < two63" "list_all (ra_permitted S) es"
    and "ra_permitted S (RaPush data index eof)"
  shows "\<exists>r got r'. foldl ra_step (ra_run_init capacity) es = (Inr r, got) \<and>
    push_substring r data index eof = Inr r' \<and> ra_edge r = length got + capacity \<and>
    ra_have r' \<inter> {..<ra_edge r} = (ra_have r \<union> {index ..< index + length data}) \<inter> {..<ra_edge r}"
proof -
  obtain r where r: "foldl ra_step (ra_run_init capacity) es =
      (Inr r, take (bs_bytes_read (ra_output r)) S)" "ra_inv S r" "ra_capacity r = capacity"
      "\<not> bs_error (ra_output r)"
    using ra_run_safe [OF assms(1-3)] by (rule ra_safe_cases)
  have d: "slice_at S index data" "eof \<longrightarrow> index + length data = length S"
    using assms(4) by simp_all
  obtain r' where r': "push_substring r data index eof = Inr r'"
    by (rule push_substring_returns [OF r(2) d])
  have "ra_core_inv S r"
    using r(2) by (simp add: ra_inv_def)
  note ok = ra_core_invD [OF this]
  have "bs_bytes_read (ra_output r) \<le> length S"
    using ok(1) by (auto simp: bs_agrees_def dest: slice_at_bound)
  then have "ra_edge r = length (take (bs_bytes_read (ra_output r)) S) + capacity"
    using ok(3) r(3) by (simp add: ra_edge_def edge_def)
  then show ?thesis
    using r(1) r' push_substringD(8) [OF r(2) d r' r(4)] by blast
qed

theorem ra_window_exact_witness:
  "\<exists>r got r'. foldl ra_step (ra_run_init 2) [RaPush [2] 1 False] = (Inr r, got) \<and>
    push_substring r [1, 2, 3] 0 True = Inr r' \<and> ra_edge r = length got + 2 \<and>
    ra_have r' \<inter> {..<ra_edge r} = (ra_have r \<union> {0 ..< 0 + length [1::byte, 2, 3]}) \<inter> {..<ra_edge r}"
  by (rule ra_window_exact [of "[1, 2, 3]"]) (simp_all add: slice_at_def two63_def)

text \<open>
  C22: Respecting the window is enough. If every push ends inside the window offered at that
  time, then for any capacity the reassembler keeps every position pushed, it has assembled
  the stream up to the first position never pushed, and all it stores (output buffer and
  waiting entries) lies inside the window, so it never holds more than its capacity.
\<close>

theorem ra_windowed_complete:
  assumes "length S < two63" "capacity < two63" "ra_windowed S capacity r H"
  shows "ra_have r = H \<and> bs_bytes_written (ra_output r) = (LEAST i. i \<notin> H) \<and>
    H \<subseteq> {..<bs_bytes_read (ra_output r) + capacity} \<and>
    card (H - {..<bs_bytes_read (ra_output r)}) \<le> capacity"
proof -
  have t: "ra_tight S capacity r H"
    by (rule ra_windowed_tight [OF assms])
  then have r: "ra_inv S r" "ra_capacity r = capacity" "ra_have r = H" "H \<subseteq> {..<ra_edge r}"
      "ra_next_assembled_idx r \<notin> H"
    by (simp_all add: ra_tight_def)
  then have core: "ra_core_inv S r"
    by (simp add: ra_inv_def)
  have e: "ra_edge r = bs_bytes_read (ra_output r) + capacity"
    using ra_core_invD(3) [OF core] r(2) by (simp add: ra_edge_def edge_def)
  have "card (H - {..<bs_bytes_read (ra_output r)}) \<le>
      card {bs_bytes_read (ra_output r) ..< bs_bytes_read (ra_output r) + capacity}"
    using r(4) e by (intro card_mono) auto
  moreover have "(LEAST i. i \<notin> H) = ra_next_assembled_idx r"
    using ra_have_next [of r] r(3,5) by (intro first_missing) simp_all
  ultimately show ?thesis
    using r(3,4) e ra_core_invD(2) [OF core] by simp
qed

text \<open>A call by evaluation.\<close>

lemmas ra_eval = push_substring_def clip_front_def smap_upper_def smap_lower_def store_new_def
  substr_def ra_construct_def bs_defs Let_def add64_def sub64_def to_ssize_def
  of_ssize_def two64_def two63_def nat_mod_distrib

theorem ra_windowed_complete_witness:
  "\<exists>r. ra_windowed [1, 2, 3] 3 r ({} \<union> {1 ..< 1 + length [2::byte, 3]}) \<and> bs_bytes_written (ra_output r) = 0"
proof -
  let ?r = "\<lparr>ra_unassemble_strs = [(1, [2, 3])], ra_next_assembled_idx = 0, ra_unassembled_bytes_num = 2,
     ra_eof_idx = 3, ra_output = bs_construct 3, ra_capacity = 3\<rparr>"
  have "push_substring (ra_construct 3) [2, 3] 1 True = Inr ?r"
    by (simp add: ra_eval)
  then have w: "ra_windowed [1, 2, 3] 3 ?r ({} \<union> {1 ..< 1 + length [2::byte, 3]})"
    by (intro ra_windowed_push [OF ra_windowed_start])
      (simp_all add: slice_at_def ra_edge_def edge_def ra_construct_def bs_construct_def)
  have "(LEAST i. i \<notin> {} \<union> {1 ..< 1 + length [2::byte, 3]}) = 0"
    by (rule first_missing) auto
  then show ?thesis
    using ra_windowed_complete [OF _ _ w] w by (auto simp: two63_def)
qed

section \<open>Behaviour outside the window\<close>

text \<open>
  The header says that bytes beyond the capacity are silently discarded. The code stores data
  that starts inside the window in full: after one push at index 1 to an assembler of capacity 2
  six bytes wait in memory.
\<close>

theorem ra_stores_beyond_capacity:
  "map_sum id ra_unassembled_bytes (push_substring (ra_construct 2) [1, 2, 3, 4, 5, 6] 1 False) = Inr 6"
  by (simp add: ra_eval ra_unassembled_bytes_def)

text \<open>
  \<open>unassembled_bytes\<close> can differ from the number of bytes that wait: when the output is full,
  the remainder of an entry is inserted under the key the entry has, \<open>map::insert\<close> keeps the
  old one, and \<open>erase\<close> then drops it, while the counter was only lowered by what was written.
\<close>

theorem ra_counter_drift:
  "map_sum id (\<lambda>r. (ra_unassemble_strs r, ra_unassembled_bytes r, ra_empty r))
     (push_substring (ra_construct 2) [1, 2, 3, 4] 0 False) = Inr ([], 2, False)"
  by (simp add: ra_eval ra_unassembled_bytes_def ra_empty_def)

text \<open>
  The end of the stream is not recorded when it arrives while the window is full: the push is
  refused before \<open>eof\<close> is looked at, also when all its bytes were assembled before.
\<close>

theorem ra_eof_dropped:
  "map_sum id (\<lambda>r. (bs_buffer (ra_output r), bs_input_ended (ra_output r)))
     (case push_substring (ra_construct 2) [1, 2] 0 False of Inl e \<Rightarrow> Inl e
      | Inr r \<Rightarrow> push_substring r [1, 2] 0 True) = Inr ([1, 2], False)"
  by (simp add: ra_eval)

text \<open>
  A sender that overshoots the window can make the reassembler stop for good. The entry that
  waits at the next index would have to be reached by the final loop, but any push at or after
  that index is clipped to the end of the entry, past the edge, and refused.
\<close>

definition ra_stuck :: reassembler where
  "ra_stuck = \<lparr>ra_unassemble_strs = [(4, [5, 6, 7, 8])], ra_next_assembled_idx = 4,
     ra_unassembled_bytes_num = 4, ra_eof_idx = two64 - 1,
     ra_output = \<lparr>bs_capacity = 4, bs_bytes_written = 4, bs_bytes_read = 4, bs_buffer = [],
       bs_error = False, bs_input_ended = False\<rparr>, ra_capacity = 4\<rparr>"

theorem ra_stuck_reached:
  "foldl ra_step (ra_run_init 4) [RaPush [3, 4, 5, 6, 7, 8] 2 False, RaPush [1, 2] 0 False, RaRead 4] =
    (Inr ra_stuck, [1, 2, 3, 4])"
  by (simp add: ra_eval ra_run_init_def ra_stuck_def)

theorem ra_stuck_forever:
  assumes "4 \<le> index"
  shows "push_substring ra_stuck data index eof = Inr ra_stuck"
proof -
  have "clip_front [(4, [5, 6, 7, 8])] 4 index = max 8 index"
    using assms by (auto simp: clip_front_def smap_upper_def Let_def add64_def two64_def)
  then show ?thesis
    by (simp add: push_substring_def ra_stuck_def smap_lower_def Let_def bs_buffer_size_def
        sub64_small add64_def) (simp add: two64_def sub64_def nat_mod_distrib)
qed

end
