(* ===== verification/Wrapping_Integers.thy ===== *)
theory Wrapping_Integers
  imports Sponge_Prelude
begin

text \<open>
  \<open>WrappingInt32\<close> (\<open>libsponge/wrapping_integers.hh\<close>, \<open>wrapping_integers.cc\<close>): 32-bit sequence
  numbers relative to an initial one, and their translation from and to absolute 64-bit
  numbers. \<open>seq_numbering\<close> is the interface the receiver and the sender rely on.
\<close>

section \<open>The class and its functions\<close>

datatype wrapping_int32 = WrappingInt32 (raw_value: "32 word")

definition wrap :: "nat \<Rightarrow> wrapping_int32 \<Rightarrow> wrapping_int32" where
  "wrap n isn =
     (let isn64 = unat (raw_value isn);
          sum = add64 isn64 n;
          wrapped = word_of_nat (sum mod two32)
      in WrappingInt32 wrapped)"

definition unwrap :: "wrapping_int32 \<Rightarrow> wrapping_int32 \<Rightarrow> nat \<Rightarrow> nat" where
  "unwrap n isn checkpoint =
     (let n64 = unat (raw_value n);
          isn64 = unat (raw_value isn);
          diff = add64 (sub64 n64 isn64) two32 mod two32;
          era = checkpoint div two32;
          abs_seq = add64 diff (era * two32 mod two64)
      in if checkpoint < abs_seq \<and> two31 < sub64 abs_seq checkpoint \<and> two32 \<le> abs_seq
         then sub64 abs_seq two32
         else if abs_seq < checkpoint \<and> two31 < sub64 checkpoint abs_seq
         then add64 abs_seq two32
         else abs_seq)"

definition wint_sub :: "wrapping_int32 \<Rightarrow> wrapping_int32 \<Rightarrow> int" where
  "wint_sub a b = sint (raw_value a - raw_value b)"

definition wint_eq :: "wrapping_int32 \<Rightarrow> wrapping_int32 \<Rightarrow> bool" where
  "wint_eq a b = (raw_value a = raw_value b)"

definition wint_plus :: "wrapping_int32 \<Rightarrow> 32 word \<Rightarrow> wrapping_int32" where
  "wint_plus a b = WrappingInt32 (raw_value a + b)"

definition wint_minus :: "wrapping_int32 \<Rightarrow> 32 word \<Rightarrow> wrapping_int32" where
  "wint_minus a b = wint_plus a (- b)"

section \<open>Arithmetic of the translation\<close>

lemma unat_word32: "unat (w :: 32 word) < two32"
  using unsigned_less [of w] by (simp add: two32_def)

lemma two64_mod: "a mod two64 mod two32 = a mod two32"
  by (simp add: two_powers_eq(1) mod_mult2_eq)

lemma word_of_nat_mod32: "word_of_nat (a mod two32) = (word_of_nat a :: 32 word)"
  by (simp add: word_unat_eq_iff unat_of_nat two32_def)

lemma word_of_nat_mod64: "word_of_nat (a mod two64) = (word_of_nat a :: 32 word)"
  by (metis two64_mod word_of_nat_mod32)

lemma wrap_eq: "wrap n isn = WrappingInt32 (raw_value isn + word_of_nat n)"
  by (simp add: wrap_def Let_def add64_def word_of_nat_mod32 word_of_nat_mod64)

lemma wrap_zero: "wrap 0 isn = isn"
  by (cases isn) (simp add: wrap_eq)

text \<open>The distance from the initial number to \<open>n\<close>, as the code computes it.\<close>

definition wdiff :: "wrapping_int32 \<Rightarrow> wrapping_int32 \<Rightarrow> nat" where
  "wdiff n isn = unat (raw_value n - raw_value isn)"

lemma wdiff_less: "wdiff n isn < two32"
  by (simp add: wdiff_def unat_word32)

lemma wdiff_code: "add64 (sub64 (unat (raw_value n)) (unat (raw_value isn))) two32 mod two32 = wdiff n isn"
proof -
  let ?a = "unat (raw_value n)" and ?b = "unat (raw_value isn)"
  have "int (add64 (sub64 ?a ?b) two32 mod two32) = int (sub64 ?a ?b) mod int two32"
    by (simp add: add64_def two64_mod zmod_int)
  also have "\<dots> = (int ?a - int ?b) mod int two32"
    by (simp add: sub64_def two_powers_eq(1) mod_mod_cancel)
  also have "\<dots> = int (wdiff n isn)"
    by (simp add: wdiff_def uint_nat [symmetric] uint_word_ariths two32_def)
  finally show ?thesis
    by simp
qed

lemma wrap_iff: "wrap m isn = n \<longleftrightarrow> m mod two32 = wdiff n isn"
proof -
  have "wrap m isn = n \<longleftrightarrow> word_of_nat m = raw_value n - raw_value isn"
    by (cases n) (auto simp: wrap_eq algebra_simps)
  also have "\<dots> \<longleftrightarrow> unat (word_of_nat m :: 32 word) = wdiff n isn"
    by (simp add: wdiff_def word_unat_eq_iff)
  finally show ?thesis
    by (simp add: unat_of_nat two32_def)
qed

text \<open>
  The translation with its wrap-around resolved. \<open>base\<close> is the number in the checkpoint's era.
\<close>

definition unwrap_base :: "wrapping_int32 \<Rightarrow> wrapping_int32 \<Rightarrow> nat \<Rightarrow> nat" where
  "unwrap_base n isn checkpoint = checkpoint div two32 * two32 + wdiff n isn"

lemma unwrap_base_bounds:
  assumes "checkpoint < two64"
  shows "unwrap_base n isn checkpoint < two64" "unwrap_base n isn checkpoint mod two32 = wdiff n isn"
    "checkpoint < unwrap_base n isn checkpoint + two32" "unwrap_base n isn checkpoint < checkpoint + two32"
proof -
  have e: "checkpoint div two32 < two32"
    using assms by (simp add: two_powers_eq(1) less_mult_imp_div_less)
  then have "Suc (checkpoint div two32) * two32 \<le> two32 * two32"
    by (intro mult_le_mono1) simp
  then show "unwrap_base n isn checkpoint < two64"
    using wdiff_less [of n isn] unfolding unwrap_base_def two_powers_eq(1) by simp
  show "unwrap_base n isn checkpoint mod two32 = wdiff n isn"
    using wdiff_less [of n isn] by (simp add: unwrap_base_def)
  have c: "checkpoint = checkpoint div two32 * two32 + checkpoint mod two32" "checkpoint mod two32 < two32"
    by simp_all
  show "checkpoint < unwrap_base n isn checkpoint + two32"
    using c unfolding unwrap_base_def by linarith
  show "unwrap_base n isn checkpoint < checkpoint + two32"
    using c wdiff_less [of n isn] unfolding unwrap_base_def by linarith
qed

lemma unwrap_eq:
  fixes n isn checkpoint
  assumes "checkpoint < two64"
  defines "b \<equiv> unwrap_base n isn checkpoint"
  shows "unwrap n isn checkpoint =
    (if checkpoint + two31 < b \<and> two32 \<le> b then b - two32
     else if b + two31 < checkpoint then add64 b two32 else b)"
proof -
  note bb = unwrap_base_bounds [OF assms(1), of n isn, folded b_def]
  have "checkpoint div two32 * two32 \<le> checkpoint"
    by simp
  then have "checkpoint div two32 * two32 < two64"
    using assms(1) by linarith
  then have a: "add64 (wdiff n isn) (checkpoint div two32 * two32 mod two64) = b"
    using bb(1) by (simp add: add64_def b_def unwrap_base_def add.commute)
  have s1: "checkpoint < b \<and> two31 < sub64 b checkpoint \<longleftrightarrow> checkpoint + two31 < b"
    using bb(1) by (auto simp: sub64_small less_diff_conv add.commute)
  have s2: "b < checkpoint \<and> two31 < sub64 checkpoint b \<longleftrightarrow> b + two31 < checkpoint"
    using assms(1) by (auto simp: sub64_small less_diff_conv add.commute)
  have s3: "two32 \<le> b \<Longrightarrow> sub64 b two32 = b - two32"
    using bb(1) by (simp add: sub64_small)
  show ?thesis
    unfolding unwrap_def Let_def wdiff_code a
    using s1 s2 s3 by (auto simp del: two_powers)
qed

lemma unwrap_less: "checkpoint < two64 \<Longrightarrow> unwrap n isn checkpoint < two64"
  using unwrap_base_bounds(1) [of checkpoint n isn] by (auto simp: unwrap_eq)

lemma unwrap_mod: "checkpoint < two64 \<Longrightarrow> unwrap n isn checkpoint mod two32 = wdiff n isn"
  using unwrap_base_bounds(2) [of checkpoint n isn]
  by (auto simp: unwrap_eq add64_def two64_mod le_mod_geq [symmetric])

text \<open>Two numbers with the same remainder that are closer than \<open>two32\<close> are equal.\<close>

lemma mod_same_close:
  fixes a b :: nat
  assumes "a mod k = b mod k" "a < b + k" "b < a + k"
  shows "a = b"
proof -
  have "a = b" if "a mod k = b mod k" "a \<le> b" "b < a + k" for a b :: nat
  proof -
    have "(b - a) mod k = 0"
      using that(1,2) by (metis mod_eq_dvd_iff_nat dvd_imp_mod_0)
    then show "a = b"
      using that(2,3) by (cases "b - a = 0") auto
  qed
  from this [of a b] this [of b a] show ?thesis
    using assms by (cases "a \<le> b") simp_all
qed

lemma unwrap_near:
  assumes "checkpoint + two31 \<le> two64"
  shows "unwrap n isn checkpoint \<le> checkpoint + two31 \<or> unwrap n isn checkpoint < two32"
    "checkpoint \<le> unwrap n isn checkpoint + two31"
proof -
  have c: "checkpoint < two64"
    using assms two_powers(4) by linarith
  note bb = unwrap_base_bounds [OF c, of n isn]
  have "add64 (unwrap_base n isn checkpoint) two32 = unwrap_base n isn checkpoint + two32"
    if "unwrap_base n isn checkpoint + two31 < checkpoint"
    using that assms by (intro add64_small) (simp add: two_powers_eq(3))
  then show "unwrap n isn checkpoint \<le> checkpoint + two31 \<or> unwrap n isn checkpoint < two32"
    "checkpoint \<le> unwrap n isn checkpoint + two31"
    using bb by (auto simp: unwrap_eq [OF c] two_powers_eq(3))
qed

text \<open>A number within \<open>two31\<close> of the checkpoint survives the round trip.\<close>

lemma unwrap_wrap_near:
  assumes cp: "checkpoint + two31 \<le> two64" and m: "m < checkpoint + two31" "checkpoint < m + two31"
  shows "unwrap (wrap m isn) isn checkpoint = m"
proof -
  let ?u = "unwrap (wrap m isn) isn checkpoint"
  have "checkpoint < two64"
    using cp two_powers(4) by linarith
  then have eq: "?u mod two32 = m mod two32"
    by (simp add: unwrap_mod) (simp add: wrap_iff [THEN iffD1])
  note near = unwrap_near [OF cp, of "wrap m isn" isn]
  show ?thesis
  proof (rule mod_same_close [OF eq])
    show "?u < m + two32"
      using near(1) m two_powers_eq(3) by linarith
    show "m < ?u + two32"
      using near(2) m two_powers_eq(3) by linarith
  qed
qed

lemma wrap_unwrap:
  assumes "checkpoint < two64"
  shows "wrap (unwrap n isn checkpoint) isn = n"
  by (simp add: wrap_iff unwrap_mod assms)

section \<open>The numbering interface\<close>

text \<open>
  What the receiver and the sender rely on: numbers near a checkpoint can be sent as 32-bit
  numbers and read back. \<open>near cp m\<close> bounds how far a number may be from the checkpoint.
\<close>

locale seq_numbering =
  fixes enc :: "nat \<Rightarrow> 'w" and dec :: "'w \<Rightarrow> nat \<Rightarrow> nat" and near :: "nat \<Rightarrow> nat \<Rightarrow> bool"
  assumes dec_enc: "near cp m \<Longrightarrow> dec (enc m) cp = m"
begin

lemma enc_inj: "near cp m \<Longrightarrow> near cp n \<Longrightarrow> enc m = enc n \<longleftrightarrow> m = n"
  by (metis dec_enc)

end

definition wrap_near :: "nat \<Rightarrow> nat \<Rightarrow> bool" where
  "wrap_near cp m \<longleftrightarrow> cp + two31 \<le> two64 \<and> m < cp + two31 \<and> cp < m + two31"

interpretation wrap_numbering: seq_numbering "\<lambda>n. wrap n isn" "\<lambda>w. unwrap w isn" wrap_near for isn
  by unfold_locales (simp add: wrap_near_def unwrap_wrap_near)

section \<open>Properties\<close>

text \<open>
  C21: Closest number. For every checkpoint not within two31 of the top of the 64-bit range,
  unwrap returns a number that wraps back to the given 32-bit number, and no other such number
  is closer to the checkpoint.
\<close>

theorem unwrap_closest:
  assumes "checkpoint + two31 \<le> two64" "wrap a isn = n"
  shows "wrap (unwrap n isn checkpoint) isn = n \<and>
    \<bar>int (unwrap n isn checkpoint) - int checkpoint\<bar> \<le> \<bar>int a - int checkpoint\<bar>"
proof
  have c: "checkpoint < two64"
    using assms(1) two_powers(4) by linarith
  then show "wrap (unwrap n isn checkpoint) isn = n"
    by (rule wrap_unwrap)
  let ?u = "unwrap n isn checkpoint"
  note near = unwrap_near [OF assms(1), of n isn]
  have mods: "?u mod two32 = a mod two32"
    using c assms(2) by (simp add: unwrap_mod) (simp add: wrap_iff)
  show "\<bar>int ?u - int checkpoint\<bar> \<le> \<bar>int a - int checkpoint\<bar>"
  proof (cases "a = ?u")
    case False
    then have far: "a + two32 \<le> ?u \<or> ?u + two32 \<le> a"
      using mod_same_close [OF mods] by linarith
    show ?thesis
      using near far two_powers_eq(3) by linarith
  qed simp
qed

theorem unwrap_closest_witness:
  "wrap (unwrap (WrappingInt32 5) (WrappingInt32 7) 10000000000) (WrappingInt32 7) = WrappingInt32 5 \<and>
   \<bar>int (unwrap (WrappingInt32 5) (WrappingInt32 7) 10000000000) - 10000000000\<bar> \<le> \<bar>4294967294 - 10000000000\<bar>"
  using unwrap_closest [of 10000000000 4294967294 "WrappingInt32 7" "WrappingInt32 5"]
  by (simp add: wrap_eq two31_def two64_def)

text \<open>
  Round trip. A number within two31 of the checkpoint survives wrap and unwrap, for any
  initial sequence number; so the translation is unambiguous inside a window of that size.
\<close>

theorem wrap_roundtrip:
  assumes "checkpoint + two31 \<le> two64" "\<bar>int m - int checkpoint\<bar> < int two31"
  shows "unwrap (wrap m isn) isn checkpoint = m"
  using assms by (intro wrap_numbering.dec_enc) (auto simp: wrap_near_def)

theorem wrap_roundtrip_witness:
  "unwrap (wrap 10000000005 (WrappingInt32 7)) (WrappingInt32 7) 10000000000 = 10000000005"
  by (rule wrap_roundtrip) (simp_all add: two31_def two64_def)

text \<open>
  The difference of two wrapped numbers is the distance of the absolute numbers,
  with its sign, as long as the distance fits into a signed 32-bit integer; and adding a
  distance to a wrapped number is the wrapped sum.
\<close>

theorem wint_arith:
  assumes "\<bar>int m - int n\<bar> < int two31"
  shows "wint_sub (wrap m isn) (wrap n isn) = int m - int n \<and>
    wint_plus (wrap n isn) (word_of_nat k) = wrap (n + k) isn \<and>
    wint_minus (wrap (n + k) isn) (word_of_nat k) = wrap n isn"
proof (intro conjI)
  have d: "raw_value (wrap m isn) - raw_value (wrap n isn) = word_of_int (int m - int n)"
    by (simp add: wrap_eq)
  have "signed_take_bit 31 (int m - int n) = int m - int n"
    using assms by (intro signed_take_bit_int_eq_self) (auto simp: two31_def abs_less_iff)
  then have "sint (word_of_int (int m - int n) :: 32 word) = int m - int n"
    by (simp only: sint_sbintrunc') simp
  with d show "wint_sub (wrap m isn) (wrap n isn) = int m - int n"
    by (simp only: wint_sub_def)
  show "wint_plus (wrap n isn) (word_of_nat k) = wrap (n + k) isn"
    by (simp add: wint_plus_def wrap_eq add.assoc)
  show "wint_minus (wrap (n + k) isn) (word_of_nat k) = wrap n isn"
    by (simp add: wint_minus_def wint_plus_def wrap_eq)
qed

theorem wint_arith_witness:
  "wint_sub (wrap 3 (WrappingInt32 4294967294)) (wrap 1 (WrappingInt32 4294967294)) = 2 \<and>
   wint_plus (wrap 1 (WrappingInt32 4294967294)) 2 = wrap 3 (WrappingInt32 4294967294)"
  using wint_arith [of 3 1 "WrappingInt32 4294967294" 2]
  by (simp add: two31_def del: One_nat_def)

text \<open>
  At the very top of the range the correction itself wraps around: the number returned is far
  below the checkpoint although a close one exists.
\<close>

theorem unwrap_top_wraps:
  "unwrap (WrappingInt32 0) (WrappingInt32 0) 18446744073709551615 = 0"
  by (simp add: unwrap_def Let_def add64_def sub64_def two64_def two32_def two31_def nat_mod_distrib)

end
