(* ===== verification/Buffers.thy ===== *)
theory Buffers
  imports Sponge_Prelude
begin

text \<open>
  \<open>Buffer\<close>, \<open>BufferList\<close> and \<open>BufferViewList\<close> (\<open>libsponge/util/buffer.hh\<close>, \<open>buffer.cc\<close>):
  read-only strings that discard bytes from the front without copying. A \<open>Buffer\<close> is a
  possibly absent storage and an offset into it. \<open>front_discard\<close> is the interface the three
  share: discarding \<open>n\<close> bytes is \<open>drop n\<close> on the contents, and an exception when there are
  fewer.
\<close>

section \<open>Buffer\<close>

record buffer =
  buf_storage :: "bytes option"
  buf_starting_offset :: nat

definition buffer_empty :: buffer where
  "buffer_empty = \<lparr>buf_storage = None, buf_starting_offset = 0\<rparr>"

definition buffer_of :: "bytes \<Rightarrow> buffer" where
  "buffer_of str = \<lparr>buf_storage = Some str, buf_starting_offset = 0\<rparr>"

definition buffer_str :: "buffer \<Rightarrow> bytes" where
  "buffer_str b = (case buf_storage b of None \<Rightarrow> [] | Some s \<Rightarrow> drop (buf_starting_offset b) s)"

definition buffer_at :: "buffer \<Rightarrow> nat \<Rightarrow> exn + byte" where
  "buffer_at b n = (if n < length (buffer_str b) then Inr (buffer_str b ! n)
     else Inl (OutOfRange ''string_view::at''))"

definition buffer_size :: "buffer \<Rightarrow> nat" where
  "buffer_size b = length (buffer_str b)"

definition buffer_copy :: "buffer \<Rightarrow> bytes" where
  "buffer_copy b = buffer_str b"

definition buffer_remove_prefix :: "nat \<Rightarrow> buffer \<Rightarrow> exn + buffer" where
  "buffer_remove_prefix n b =
     (if length (buffer_str b) < n then Inl (OutOfRange ''Buffer::remove_prefix'')
      else let b = b\<lparr>buf_starting_offset := add64 (buf_starting_offset b) n\<rparr>
           in Inr (case buf_storage b of
                None \<Rightarrow> b
              | Some s \<Rightarrow> if buf_starting_offset b = length s then b\<lparr>buf_storage := None\<rparr> else b))"

text \<open>The storage is a string of the machine and the offset lies inside it.\<close>

definition buffer_ok :: "buffer \<Rightarrow> bool" where
  "buffer_ok b = (case buf_storage b of None \<Rightarrow> buf_starting_offset b < two64
     | Some s \<Rightarrow> buf_starting_offset b \<le> length s \<and> length s < two64)"

section \<open>BufferList and BufferViewList\<close>

type_synonym buffer_list = "buffer list"
type_synonym buffer_view_list = "bytes list"

definition bl_of_buffer :: "buffer \<Rightarrow> buffer_list" where
  "bl_of_buffer b = [b]"

definition bl_append :: "buffer_list \<Rightarrow> buffer_list \<Rightarrow> buffer_list" where
  "bl_append l other = l @ other"

definition bl_to_buffer :: "buffer_list \<Rightarrow> exn + buffer" where
  "bl_to_buffer l = (case l of [] \<Rightarrow> Inr buffer_empty | [b] \<Rightarrow> Inr b
     | _ \<Rightarrow> Inl (RuntimeError ''BufferList: please use concatenate() to combine a multi-Buffer BufferList into one Buffer''))"

definition bl_concatenate :: "buffer_list \<Rightarrow> bytes" where
  "bl_concatenate l = foldl (\<lambda>ret buf. ret @ buffer_str buf) [] l"

definition bl_size :: "buffer_list \<Rightarrow> nat" where
  "bl_size l = foldl (\<lambda>ret buf. add64 ret (buffer_size buf)) 0 l"

text \<open>
  The loops pop whole elements before they find that there are too few bytes: the list is
  returned beside the exception.
\<close>

fun bl_remove_prefix :: "nat \<Rightarrow> buffer_list \<Rightarrow> buffer_list \<times> exn option" where
  "bl_remove_prefix n [] = (if 0 < n then ([], Some (OutOfRange ''BufferList::remove_prefix'')) else ([], None))"
| "bl_remove_prefix n (b # l) =
     (if 0 < n then
        if n < length (buffer_str b)
        then (case buffer_remove_prefix n b of
                Inl e \<Rightarrow> (b # l, Some e)
              | Inr b' \<Rightarrow> (b' # l, None))
        else bl_remove_prefix (n - length (buffer_str b)) l
      else (b # l, None))"

definition bvl_of_bl :: "buffer_list \<Rightarrow> buffer_view_list" where
  "bvl_of_bl l = map buffer_str l"

definition bvl_of_string :: "bytes \<Rightarrow> buffer_view_list" where
  "bvl_of_string s = [s]"

fun bvl_remove_prefix :: "nat \<Rightarrow> buffer_view_list \<Rightarrow> buffer_view_list \<times> exn option" where
  "bvl_remove_prefix n [] = (if 0 < n then ([], Some (OutOfRange ''BufferListView::remove_prefix'')) else ([], None))"
| "bvl_remove_prefix n (v # l) =
     (if 0 < n then
        if n < length v then (drop n v # l, None)
        else bvl_remove_prefix (n - length v) l
      else (v # l, None))"

definition bvl_size :: "buffer_view_list \<Rightarrow> nat" where
  "bvl_size l = foldl (\<lambda>ret v. add64 ret (length v)) 0 l"

text \<open>The \<open>iovec\<close>s of a \<open>writev\<close>: base (the bytes it points to) and length.\<close>

definition bvl_as_iovecs :: "buffer_view_list \<Rightarrow> (bytes \<times> nat) list" where
  "bvl_as_iovecs l = map (\<lambda>x. (x, length x)) l"

section \<open>The shared contract\<close>

locale front_discard =
  fixes ok :: "'s \<Rightarrow> bool" and contents :: "'s \<Rightarrow> bytes"
    and discard :: "nat \<Rightarrow> 's \<Rightarrow> 's \<times> exn option"
  assumes discard_ok: "ok s \<Longrightarrow> n \<le> length (contents s) \<Longrightarrow>
      snd (discard n s) = None \<and> ok (fst (discard n s)) \<and> contents (fst (discard n s)) = drop n (contents s)"
    and discard_throws: "ok s \<Longrightarrow> length (contents s) < n \<Longrightarrow> \<exists>msg. snd (discard n s) = Some (OutOfRange msg)"
begin

lemma discard_throws_iff: "ok s \<Longrightarrow> snd (discard n s) \<noteq> None \<longleftrightarrow> length (contents s) < n"
  using discard_ok [of s n] discard_throws [of s n] by (cases "length (contents s) < n") auto

text \<open>Discarding in two steps, as a partial write does, is discarding at once.\<close>

lemma discard_twice:
  assumes "ok s" "n + m \<le> length (contents s)"
  shows "contents (fst (discard m (fst (discard n s)))) = contents (fst (discard (n + m) s))"
  using assms discard_ok [of s n] discard_ok [of s "n + m"] discard_ok [of "fst (discard n s)" m]
  by (simp add: add.commute)

end

definition buffer_discard :: "nat \<Rightarrow> buffer \<Rightarrow> buffer \<times> exn option" where
  "buffer_discard n b = (case buffer_remove_prefix n b of Inl e \<Rightarrow> (b, Some e) | Inr b' \<Rightarrow> (b', None))"

lemma buffer_ok_simps [simp]:
  "buffer_ok buffer_empty" "length s < two64 \<Longrightarrow> buffer_ok (buffer_of s)"
  by (simp_all add: buffer_ok_def buffer_empty_def buffer_of_def)

lemma buffer_str_simps [simp]:
  "buffer_str buffer_empty = []" "buffer_str (buffer_of s) = s"
  by (simp_all add: buffer_str_def buffer_empty_def buffer_of_def)

lemma buffer_ok_length: "buffer_ok b \<Longrightarrow> length (buffer_str b) < two64"
  by (auto simp: buffer_ok_def buffer_str_def split: option.splits)

lemma buffer_remove_prefix_spec:
  assumes "buffer_ok b" "n \<le> length (buffer_str b)"
  obtains b' where "buffer_remove_prefix n b = Inr b'" "buffer_ok b'" "buffer_str b' = drop n (buffer_str b)"
proof (cases "buf_storage b")
  case None
  then show ?thesis
    using assms by (intro that) (auto simp: buffer_remove_prefix_def buffer_str_def buffer_ok_def add64_def)
next
  case (Some s)
  have "add64 (buf_starting_offset b) n = buf_starting_offset b + n"
    using assms Some by (intro add64_small) (auto simp: buffer_ok_def buffer_str_def)
  then have "buffer_remove_prefix n b = Inr (if buf_starting_offset b + n = length s
      then b\<lparr>buf_starting_offset := buf_starting_offset b + n, buf_storage := None\<rparr>
      else b\<lparr>buf_starting_offset := buf_starting_offset b + n\<rparr>)"
    using assms Some by (simp add: buffer_remove_prefix_def Let_def)
  then show ?thesis
    by (rule that) (use assms Some in \<open>auto simp: buffer_str_def buffer_ok_def add.commute\<close>)
qed

interpretation buffer_front: front_discard buffer_ok buffer_str buffer_discard
proof unfold_locales
  fix s n assume "buffer_ok s" "n \<le> length (buffer_str s)"
  then obtain b' where "buffer_remove_prefix n s = Inr b'" "buffer_ok b'" "buffer_str b' = drop n (buffer_str s)"
    by (rule buffer_remove_prefix_spec)
  then show "snd (buffer_discard n s) = None \<and> buffer_ok (fst (buffer_discard n s)) \<and>
      buffer_str (fst (buffer_discard n s)) = drop n (buffer_str s)"
    by (simp add: buffer_discard_def)
qed (simp add: buffer_discard_def buffer_remove_prefix_def)

definition bl_ok :: "buffer_list \<Rightarrow> bool" where
  "bl_ok l = list_all buffer_ok l"

lemma bl_concatenate_eq: "bl_concatenate l = concat (map buffer_str l)"
proof -
  have "foldl (\<lambda>ret buf. ret @ buffer_str buf) acc l = acc @ concat (map buffer_str l)" for acc
    by (induction l arbitrary: acc) auto
  then show ?thesis
    by (simp add: bl_concatenate_def)
qed

interpretation bl_front: front_discard bl_ok bl_concatenate bl_remove_prefix
proof unfold_locales
  fix l n assume "bl_ok l" "n \<le> length (bl_concatenate l)"
  then show "snd (bl_remove_prefix n l) = None \<and> bl_ok (fst (bl_remove_prefix n l)) \<and>
      bl_concatenate (fst (bl_remove_prefix n l)) = drop n (bl_concatenate l)"
  proof (induction n l rule: bl_remove_prefix.induct)
    case (2 n b l)
    show ?case
    proof (cases "0 < n \<and> n < length (buffer_str b)")
      case True
      moreover obtain b' where "buffer_remove_prefix n b = Inr b'" "buffer_ok b'"
          "buffer_str b' = drop n (buffer_str b)"
        using True 2 by (auto simp: bl_ok_def intro: buffer_remove_prefix_spec [of b n])
      ultimately show ?thesis
        using 2 by (simp add: bl_ok_def bl_concatenate_eq)
    next
      case False
      then show ?thesis
        using 2 by (cases n) (auto simp: bl_ok_def bl_concatenate_eq)
    qed
  qed (simp add: bl_ok_def bl_concatenate_eq)
next
  fix l n assume "bl_ok l" "length (bl_concatenate l) < n"
  then show "\<exists>msg. snd (bl_remove_prefix n l) = Some (OutOfRange msg)"
    by (induction n l rule: bl_remove_prefix.induct) (auto simp: bl_ok_def bl_concatenate_eq)
qed

interpretation bvl_front: front_discard "\<lambda>_. True" concat bvl_remove_prefix
proof unfold_locales
  fix l :: buffer_view_list and n assume "n \<le> length (concat l)"
  then show "snd (bvl_remove_prefix n l) = None \<and> True \<and>
      concat (fst (bvl_remove_prefix n l)) = drop n (concat l)"
    by (induction n l rule: bvl_remove_prefix.induct) auto
next
  fix l :: buffer_view_list and n assume "length (concat l) < n"
  then show "\<exists>msg. snd (bvl_remove_prefix n l) = Some (OutOfRange msg)"
    by (induction n l rule: bvl_remove_prefix.induct) auto
qed

lemma bl_size_eq: "length (bl_concatenate l) < two64 \<Longrightarrow> bl_size l = length (bl_concatenate l)"
proof -
  have "foldl (\<lambda>ret buf. add64 ret (buffer_size buf)) acc l = acc + length (concat (map buffer_str l))"
    if "acc + length (concat (map buffer_str l)) < two64" for acc
    using that by (induction l arbitrary: acc) (auto simp: buffer_size_def add64_small)
  from this [of 0] show "length (bl_concatenate l) < two64 \<Longrightarrow> ?thesis"
    by (simp add: bl_size_def bl_concatenate_eq)
qed

section \<open>Properties\<close>

text \<open>
  \<open>remove_prefix\<close> on a BufferList drops exactly n bytes of its concatenation, across the
  boundaries of its buffers, and throws out_of_range exactly when it holds fewer than n; a
  view of the list behaves the same.
\<close>

theorem bl_remove_prefix_drop:
  assumes "bl_ok l"
  shows "(case bl_remove_prefix n l of
       (l', None) \<Rightarrow> n \<le> length (bl_concatenate l) \<and> bl_concatenate l' = drop n (bl_concatenate l) \<and>
         concat (fst (bvl_remove_prefix n (bvl_of_bl l))) = bl_concatenate l'
     | (l', Some e) \<Rightarrow> length (bl_concatenate l) < n \<and> e = OutOfRange ''BufferList::remove_prefix'' \<and>
         snd (bvl_remove_prefix n (bvl_of_bl l)) = Some (OutOfRange ''BufferListView::remove_prefix''))"
proof -
  have v: "concat (bvl_of_bl l) = bl_concatenate l"
    by (simp add: bvl_of_bl_def bl_concatenate_eq)
  have e: "length (bl_concatenate l) < n \<Longrightarrow> bl_ok l \<Longrightarrow>
      snd (bl_remove_prefix n l) = Some (OutOfRange ''BufferList::remove_prefix'')" for n l
    by (induction n l rule: bl_remove_prefix.induct) (auto simp: bl_ok_def bl_concatenate_eq)
  have e': "length (concat l) < n \<Longrightarrow>
      snd (bvl_remove_prefix n l) = Some (OutOfRange ''BufferListView::remove_prefix'')" for n l
    by (induction n l rule: bvl_remove_prefix.induct) auto
  show ?thesis
  proof (cases "length (bl_concatenate l) < n")
    case True
    then show ?thesis
      using e [OF True assms] e' [of "bvl_of_bl l" n] v by (simp add: split_beta)
  next
    case False
    then show ?thesis
      using bl_front.discard_ok [OF assms, of n] bvl_front.discard_ok [of n "bvl_of_bl l"] v
      by (simp add: split_beta)
  qed
qed

theorem bl_remove_prefix_drop_witness:
  "case bl_remove_prefix 3 [buffer_of [1, 2], buffer_of [3, 4]] of
       (l', None) \<Rightarrow> bl_concatenate l' = [4]
     | (l', Some e) \<Rightarrow> False"
  using bl_remove_prefix_drop [of "[buffer_of [1, 2], buffer_of [3, 4]]" 3]
  by (simp add: bl_ok_def bl_concatenate_def two64_def split: prod.splits option.splits)

end
