(* ===== verification/Net_Parser.thy ===== *)
theory Net_Parser
  imports Buffers "HOL-Library.State_Monad"
begin

text \<open>
  \<open>ParseResult\<close>, \<open>NetParser\<close> and \<open>NetUnparser\<close> (\<open>libsponge/util/parser.hh\<close>, \<open>parser.cc\<close>).
  A method of the parser is a state-monadic function on its record. \<open>parses m d v d'\<close> is the
  judgement the header codecs are proved with: on a parser without error whose remaining input
  is \<open>d\<close>, \<open>m\<close> returns \<open>v\<close> and leaves \<open>d'\<close>, without error.
\<close>

section \<open>ParseResult\<close>

datatype parse_result = NoError | BadChecksum | PacketTooShort | WrongIPVersion
  | HeaderTooShort | TruncatedPacket | Unsupported

text \<open>The values of the enumeration, in the order of its declaration.\<close>

fun parse_result_index :: "parse_result \<Rightarrow> nat" where
  "parse_result_index NoError = 0"
| "parse_result_index BadChecksum = 1"
| "parse_result_index PacketTooShort = 2"
| "parse_result_index WrongIPVersion = 3"
| "parse_result_index HeaderTooShort = 4"
| "parse_result_index TruncatedPacket = 5"
| "parse_result_index Unsupported = 6"

instantiation parse_result :: linorder
begin

definition less_eq_parse_result :: "parse_result \<Rightarrow> parse_result \<Rightarrow> bool" where
  "less_eq_parse_result a b \<longleftrightarrow> parse_result_index a \<le> parse_result_index b"

definition less_parse_result :: "parse_result \<Rightarrow> parse_result \<Rightarrow> bool" where
  "less_parse_result a b \<longleftrightarrow> parse_result_index a < parse_result_index b"

instance
proof
  fix a b :: parse_result
  show "a \<le> b \<Longrightarrow> b \<le> a \<Longrightarrow> a = b"
    by (cases a; cases b) (simp_all add: less_eq_parse_result_def)
qed (auto simp: less_eq_parse_result_def less_parse_result_def)

end

text \<open>The table has one name fewer than the enumeration has values.\<close>

definition parse_result_names :: "string list" where
  "parse_result_names = [''NoError'', ''BadChecksum'', ''PacketTooShort'', ''WrongIPVersion'',
     ''HeaderTooShort'', ''TruncatedPacket'']"

definition parse_result_as_string :: "parse_result \<Rightarrow> exn + string" where
  "parse_result_as_string r =
     (let i = parse_result_index r
      in if i < length parse_result_names then Inr (parse_result_names ! i)
         else Inl (UndefinedBehaviour ''as_string: read past the end of _names''))"

section \<open>NetParser\<close>

record net_parser =
  np_buffer :: buffer
  np_error :: parse_result

type_synonym 'a parser = "(net_parser, 'a) state"

definition np_construct :: "buffer \<Rightarrow> net_parser" where
  "np_construct buffer = \<lparr>np_buffer = buffer, np_error = NoError\<rparr>"

definition np_has_error :: "net_parser \<Rightarrow> bool" where
  "np_has_error p = (np_error p \<noteq> NoError)"

definition np_check_size :: "nat \<Rightarrow> net_parser \<Rightarrow> net_parser" where
  "np_check_size n p =
     (if buffer_size (np_buffer p) < n then p\<lparr>np_error := PacketTooShort\<rparr> else p)"

text \<open>
  \<open>Buffer::remove_prefix\<close> throws on a buffer that is too short; the parser calls it after
  \<open>_check_size\<close>, so that branch (which leaves the buffer alone here) is not reached, see
  \<open>np_discard_no_throw\<close>.
\<close>

definition np_discard :: "nat \<Rightarrow> net_parser \<Rightarrow> net_parser" where
  "np_discard n p = (case buffer_remove_prefix n (np_buffer p) of
     Inl e \<Rightarrow> p | Inr b \<Rightarrow> p\<lparr>np_buffer := b\<rparr>)"

text \<open>\<open>_parse_int<T>\<close>, for a type of \<open>len\<close> bytes, in network byte order.\<close>

definition parse_int :: "'a::len word parser" where
  "parse_int = State (\<lambda>p.
     let len = LENGTH('a) div 8;
         p = np_check_size len p
     in if np_has_error p then (0, p)
        else let ret = foldl (\<lambda>ret i. push_bit 8 ret + ucast (buffer_str (np_buffer p) ! i)) 0 [0..<len]
             in (ret, np_discard len p))"

definition parse_u32 :: "32 word parser" where "parse_u32 = parse_int"
definition parse_u16 :: "16 word parser" where "parse_u16 = parse_int"
definition parse_u8 :: "byte parser" where "parse_u8 = parse_int"

definition parse_remove_prefix :: "nat \<Rightarrow> unit parser" where
  "parse_remove_prefix n = State (\<lambda>p.
     let p = np_check_size n p in if np_has_error p then ((), p) else ((), np_discard n p))"

text \<open>Reading the parser's own state: \<open>buffer()\<close>, \<open>get_error()\<close>.\<close>

definition parse_buffer :: "buffer parser" where
  "parse_buffer = State (\<lambda>p. (np_buffer p, p))"

definition parse_get_error :: "parse_result parser" where
  "parse_get_error = State (\<lambda>p. (np_error p, p))"

section \<open>NetUnparser\<close>

definition unparse_int :: "bytes \<Rightarrow> 'a::len word \<Rightarrow> bytes" where
  "unparse_int s val =
     (let len = LENGTH('a) div 8
      in foldl (\<lambda>s i. s @ [ucast (and (drop_bit ((len - i - 1) * 8) val) 0xff)]) s [0..<len])"

definition unparse_u32 :: "bytes \<Rightarrow> 32 word \<Rightarrow> bytes" where "unparse_u32 = unparse_int"
definition unparse_u16 :: "bytes \<Rightarrow> 16 word \<Rightarrow> bytes" where "unparse_u16 = unparse_int"
definition unparse_u8 :: "bytes \<Rightarrow> byte \<Rightarrow> bytes" where "unparse_u8 = unparse_int"

section \<open>Big-endian numbers\<close>

definition be_val :: "bytes \<Rightarrow> nat" where
  "be_val bs = foldl (\<lambda>n b. n * 256 + unat b) 0 bs"

definition be_bytes :: "nat \<Rightarrow> nat \<Rightarrow> bytes" where
  "be_bytes k n = map (\<lambda>i. word_of_nat (n div 256 ^ (k - i - 1))) [0..<k]"

lemma length_be_bytes [simp]: "length (be_bytes k n) = k"
  by (simp add: be_bytes_def)

lemma be_val_Cons: "be_val (b # bs) = unat b * 256 ^ length bs + be_val bs"
proof -
  have "foldl (\<lambda>n b. n * 256 + unat b) acc bs = acc * 256 ^ length bs + be_val bs" for acc
  proof (induction bs arbitrary: acc)
    case (Cons b bs)
    show ?case
      using Cons [of "acc * 256 + unat b"] Cons [of "unat b"] by (simp add: be_val_def algebra_simps)
  qed (simp add: be_val_def)
  from this [of "unat b"] show ?thesis
    by (simp add: be_val_def)
qed

lemma be_bytes_Suc: "be_bytes (Suc k) n = word_of_nat (n div 256 ^ k) # be_bytes k n"
  by (simp add: be_bytes_def upt_conv_Cons map_Suc_upt [symmetric] del: upt_Suc)

lemma be_val_bytes: "be_val (be_bytes k n) = n mod 256 ^ k"
proof (induction k)
  case (Suc k)
  have "n mod 256 ^ Suc k = (n div 256 ^ k) mod 256 * 256 ^ k + n mod 256 ^ k"
    using mod_mult2_eq [of n "256 ^ k" 256] by (simp add: mult.commute)
  then show ?case
    using Suc by (simp add: be_bytes_Suc be_val_Cons unat_of_nat)
qed (simp add: be_bytes_def be_val_def)

lemma foldl_be_val: "foldl (\<lambda>ret b. push_bit 8 ret + ucast b) (0 :: 'a::len word) bs = word_of_nat (be_val bs)"
proof -
  have "foldl (\<lambda>ret b. push_bit 8 ret + ucast b) (word_of_nat n :: 'a word) bs =
      word_of_nat (foldl (\<lambda>n b. n * 256 + unat b) n bs)" for n
  proof (induction bs arbitrary: n)
    case (Cons b bs)
    have "push_bit 8 (word_of_nat n :: 'a word) + ucast b = word_of_nat (n * 256 + unat b)"
      by (simp add: push_bit_eq_mult)
    then show ?case
      using Cons [of "n * 256 + unat b"] by (simp only: foldl_Cons)
  qed simp
  from this [of 0] show ?thesis
    by (simp add: be_val_def)
qed

lemma unparse_int_eq: "unparse_int s (val :: 'a::len word) = s @ be_bytes (LENGTH('a) div 8) (unat val)"
proof -
  have "ucast (and (drop_bit m val) 0xff) = (word_of_nat (unat val div 2 ^ m) :: byte)" for m
  proof -
    have "ucast (and (drop_bit m val) 0xff) = (ucast (drop_bit m val) :: byte)"
    proof (rule bit_word_eqI)
      fix n
      assume n: "n < LENGTH(8)"
      have ff: "(0xff :: 'a word) = mask 8"
        by (simp add: mask_eq_exp_minus_1)
      show "bit (ucast (and (drop_bit m val) 0xff) :: byte) n = bit (ucast (drop_bit m val) :: byte) n"
        unfolding ff using n by (auto simp: bit_simps dest: bit_imp_le_length)
    qed
    also have "\<dots> = word_of_nat (unat (drop_bit m val))"
      by (simp only: of_nat_unat)
    finally show ?thesis
      unfolding unat_drop_bit_eq unfolding drop_bit_eq_div [of m "unat val"] .
  qed
  moreover have "(256 :: nat) ^ k = 2 ^ (k * 8)" for k
    using power_mult [of "2 :: nat" 8 k] by (simp add: mult.commute)
  moreover have "foldl (\<lambda>s i. s @ [f i]) s xs = s @ map f xs" for f :: "nat \<Rightarrow> byte" and xs
    by (induction xs arbitrary: s) simp_all
  ultimately show ?thesis
    by (simp add: unparse_int_def be_bytes_def Let_def)
qed

section \<open>What the methods do\<close>

text \<open>\<open>np_at p d\<close>: no error so far, and the input left is \<open>d\<close>.\<close>

definition np_at :: "net_parser \<Rightarrow> bytes \<Rightarrow> bool" where
  "np_at p d \<longleftrightarrow> np_error p = NoError \<and> buffer_ok (np_buffer p) \<and> buffer_str (np_buffer p) = d"

definition parses :: "'a parser \<Rightarrow> bytes \<Rightarrow> 'a \<Rightarrow> bytes \<Rightarrow> bool" where
  "parses m d v d' \<longleftrightarrow> (\<forall>p. np_at p d \<longrightarrow> fst (run_state m p) = v \<and> np_at (snd (run_state m p)) d')"

lemma parses_bind:
  assumes "parses m d v d'" "parses (f v) d' w d''"
  shows "parses (State_Monad.bind m f) d w d''"
  using assms by (auto simp: parses_def split_beta)

lemma parses_return: "parses (State_Monad.return v) d v d"
  by (simp add: parses_def)

lemma np_construct_at: "buffer_ok b \<Longrightarrow> np_at (np_construct b) (buffer_str b)"
  by (simp add: np_at_def np_construct_def)

lemma np_discard_no_throw:
  "np_at p d \<Longrightarrow> n \<le> length d \<Longrightarrow> \<exists>b. buffer_remove_prefix n (np_buffer p) = Inr b"
  by (auto simp: np_at_def elim: buffer_remove_prefix_spec)

lemma np_discard_at:
  assumes "np_at p d" "n \<le> length d"
  shows "np_at (np_discard n p) (drop n d)"
proof -
  obtain b where "buffer_remove_prefix n (np_buffer p) = Inr b" "buffer_ok b" "buffer_str b = drop n d"
    using assms buffer_remove_prefix_spec [of "np_buffer p" n] by (auto simp: np_at_def)
  then show ?thesis
    using assms by (simp add: np_at_def np_discard_def)
qed

lemma parse_int_short:
  assumes "length (buffer_str (np_buffer p)) < LENGTH('a::len) div 8"
  shows "run_state (parse_int :: 'a word parser) p = (0, p\<lparr>np_error := PacketTooShort\<rparr>)"
  using assms by (simp add: parse_int_def np_check_size_def np_has_error_def buffer_size_def Let_def)

text \<open>An error is sticky: after it every method returns zero and consumes nothing.\<close>

lemma parse_int_error:
  assumes "np_error p \<noteq> NoError"
  shows "fst (run_state (parse_int :: 'a::len word parser) p) = 0"
    "np_buffer (snd (run_state (parse_int :: 'a word parser) p)) = np_buffer p"
    "np_error (snd (run_state (parse_int :: 'a word parser) p)) \<noteq> NoError"
  using assms by (simp_all add: parse_int_def np_check_size_def np_has_error_def Let_def)

lemma parse_remove_prefix_error:
  assumes "np_error p \<noteq> NoError"
  shows "np_buffer (snd (run_state (parse_remove_prefix n) p)) = np_buffer p"
    "np_error (snd (run_state (parse_remove_prefix n) p)) \<noteq> NoError"
  using assms by (simp_all add: parse_remove_prefix_def np_check_size_def np_has_error_def Let_def)

lemma parses_int:
  fixes k :: nat
  defines "k \<equiv> LENGTH('a::len) div 8"
  assumes "k \<le> length d"
  shows "parses (parse_int :: 'a word parser) d (word_of_nat (be_val (take k d))) (drop k d)"
proof -
  have "fst (run_state (parse_int :: 'a word parser) p) = word_of_nat (be_val (take k d)) \<and>
      np_at (snd (run_state (parse_int :: 'a word parser) p)) (drop k d)" if p: "np_at p d" for p
  proof -
    have b: "buffer_str (np_buffer p) = d" "np_error p = NoError"
      using p by (simp_all add: np_at_def)
    have "take k d = map ((!) d) [0..<k]"
      using assms(2) by (auto intro: nth_equalityI)
    then have "foldl (\<lambda>ret i. push_bit 8 ret + ucast (d ! i)) (0 :: 'a word) [0..<k] = word_of_nat (be_val (take k d))"
      by (simp only: foldl_be_val [symmetric] foldl_map)
    then show ?thesis
      using b assms np_discard_at [OF p assms(2)]
      by (simp add: parse_int_def np_check_size_def np_has_error_def buffer_size_def Let_def)
  qed
  then show ?thesis
    by (simp add: parses_def)
qed

lemma parses_remove_prefix:
  "n \<le> length d \<Longrightarrow> parses (parse_remove_prefix n) d () (drop n d)"
  using np_discard_at [of _ d n]
  by (auto simp: parses_def parse_remove_prefix_def np_check_size_def np_has_error_def buffer_size_def np_at_def Let_def)

lemma parses_get_error: "parses parse_get_error d NoError d"
  by (simp add: parses_def parse_get_error_def np_at_def)

lemma parses_buffer_bind:
  assumes "\<And>b. buffer_str b = d \<Longrightarrow> parses (f b) d v d'"
  shows "parses (State_Monad.bind parse_buffer f) d v d'"
  using assms by (auto simp: parses_def parse_buffer_def np_at_def)

text \<open>Parsing what was unparsed.\<close>

lemma parses_unparse_int:
  assumes "LENGTH('a::len) = 8 * k"
  shows "parses parse_int (be_bytes (LENGTH('a) div 8) (unat (w :: 'a word)) @ d) w d"
proof -
  have "(256 :: nat) ^ k = 2 ^ LENGTH('a)"
    using assms power_mult [of "2 :: nat" 8 k] by simp
  then have "be_val (be_bytes k (unat w)) = unat w"
    using unsigned_less [of w] by (simp add: be_val_bytes)
  then show ?thesis
    using parses_int [where 'a = 'a, of "be_bytes k (unat w) @ d"] assms by simp
qed

lemmas parses_u32 = parses_unparse_int [where 'a = 32 and k = 4, folded parse_u32_def, simplified]
lemmas parses_u16 = parses_unparse_int [where 'a = 16 and k = 2, folded parse_u16_def, simplified]

lemma parses_u8: "parses parse_u8 (w # d) w d"
  using parses_unparse_int [where 'a = 8 and k = 1, of w d, folded parse_u8_def] by (simp add: be_bytes_def)

text \<open>One step of a header's parser.\<close>

lemmas parses_step = parses_u32 [THEN parses_bind] parses_u16 [THEN parses_bind] parses_u8 [THEN parses_bind]

lemma unparse_eqs [simp]:
  "unparse_u32 s v = s @ be_bytes 4 (unat v)" "unparse_u16 s w = s @ be_bytes 2 (unat w)"
  "unparse_u8 s x = s @ [x]"
  by (simp_all add: unparse_u32_def unparse_u16_def unparse_u8_def unparse_int_eq be_bytes_def)

text \<open>
  \<open>demands n m\<close>: on a parser with fewer than \<open>n\<close> bytes, or one that has already met the end
  of its input, \<open>m\<close> ends with the error PacketTooShort.
\<close>

definition demands :: "nat \<Rightarrow> 'a parser \<Rightarrow> bool" where
  "demands n m \<longleftrightarrow> (\<forall>p. buffer_ok (np_buffer p) \<and>
     (np_error p = PacketTooShort \<or> np_error p = NoError \<and> length (buffer_str (np_buffer p)) < n) \<longrightarrow>
     np_error (snd (run_state m p)) = PacketTooShort)"

lemma demands_zero: "(\<And>p. np_error p = PacketTooShort \<Longrightarrow> np_error (snd (run_state m p)) = PacketTooShort) \<Longrightarrow> demands 0 m"
  by (auto simp: demands_def)

lemma demands_return: "demands 0 (State_Monad.return v)"
  by (simp add: demands_def)

lemma demands_get_error: "(\<And>e. demands 0 (f e)) \<Longrightarrow> demands 0 (State_Monad.bind parse_get_error f)"
  by (simp add: demands_def parse_get_error_def)

lemma demands_int_bind:
  fixes f :: "'a::len word \<Rightarrow> 'b parser"
  assumes "\<And>v. demands n (f v)"
  shows "demands (LENGTH('a) div 8 + n) (State_Monad.bind parse_int f)"
  unfolding demands_def
proof (intro allI impI)
  fix p :: net_parser
  assume p: "buffer_ok (np_buffer p) \<and> (np_error p = PacketTooShort \<or>
      np_error p = NoError \<and> length (buffer_str (np_buffer p)) < LENGTH('a) div 8 + n)"
  define q where "q = snd (run_state (parse_int :: 'a word parser) p)"
  define v where "v = fst (run_state (parse_int :: 'a word parser) p)"
  have "buffer_ok (np_buffer q) \<and> (np_error q = PacketTooShort \<or>
      np_error q = NoError \<and> length (buffer_str (np_buffer q)) < n)"
  proof (cases "np_error p = PacketTooShort \<or> length (buffer_str (np_buffer p)) < LENGTH('a) div 8")
    case True
    then have "q = p \<or> q = p\<lparr>np_error := PacketTooShort\<rparr>" "np_error q = PacketTooShort"
      unfolding q_def by (auto simp: parse_int_def np_check_size_def np_has_error_def buffer_size_def Let_def)
    then show ?thesis
      using p by auto
  next
    case False
    then have "np_at p (buffer_str (np_buffer p))" "LENGTH('a) div 8 \<le> length (buffer_str (np_buffer p))"
      using p by (auto simp: np_at_def)
    then have "np_at q (drop (LENGTH('a) div 8) (buffer_str (np_buffer p)))"
      using parses_int [where 'a = 'a, of "buffer_str (np_buffer p)"] by (simp add: parses_def q_def)
    then show ?thesis
      using p False by (auto simp: np_at_def)
  qed
  then have "np_error (snd (run_state (f v) q)) = PacketTooShort"
    using assms [of v] by (simp add: demands_def)
  then show "np_error (snd (run_state (State_Monad.bind parse_int f) p)) = PacketTooShort"
    by (simp add: q_def v_def split_beta)
qed

lemma demands_u32: "(\<And>v. demands n (f v)) \<Longrightarrow> demands (4 + n) (State_Monad.bind parse_u32 f)"
  using demands_int_bind [of n f] by (simp add: parse_u32_def)

lemma demands_u16: "(\<And>v. demands n (f v)) \<Longrightarrow> demands (2 + n) (State_Monad.bind parse_u16 f)"
  using demands_int_bind [of n f] by (simp add: parse_u16_def)

lemma demands_u8: "(\<And>v. demands n (f v)) \<Longrightarrow> demands (1 + n) (State_Monad.bind parse_u8 f)"
  using demands_int_bind [of n f] by (simp add: parse_u8_def)

lemma demands_remove_prefix:
  "(\<And>v. demands 0 (f v)) \<Longrightarrow> demands 0 (State_Monad.bind (parse_remove_prefix n) f)"
  by (auto simp: demands_def parse_remove_prefix_def np_check_size_def np_has_error_def Let_def)

section \<open>The codec interface\<close>

text \<open>
  What a header offers its packet: a parser and a serialiser that are inverse on well-formed
  headers, whatever bytes follow; the parser's own verdict is \<open>NoError\<close> there.
\<close>

locale codec =
  fixes wf :: "'h \<Rightarrow> bool" and ser :: "'h \<Rightarrow> exn + bytes" and par :: "'h \<Rightarrow> (parse_result \<times> 'h) parser"
    and strip :: "'h \<Rightarrow> 'h" and follow :: "'h \<Rightarrow> bytes \<Rightarrow> bool"
  assumes ser_wf: "wf h \<Longrightarrow> \<exists>s. ser h = Inr s"
    and par_ser: "wf h \<Longrightarrow> ser h = Inr s \<Longrightarrow> follow h rest \<Longrightarrow>
      parses (par h0) (s @ rest) (NoError, strip h) rest"
begin

text \<open>Two well-formed headers with the same bytes have the same contents.\<close>

lemma ser_inj:
  assumes "wf h" "wf g" "ser h = Inr s" "ser g = Inr s" "follow h rest" "follow g rest"
    "length (s @ rest) < two64"
  shows "strip h = strip g"
proof -
  have "np_at (np_construct (buffer_of (s @ rest))) (s @ rest)"
    using np_construct_at [of "buffer_of (s @ rest)"] assms(7) by simp
  then show ?thesis
    using par_ser [OF assms(1,3,5)] par_ser [OF assms(2,4,6)] by (auto simp: parses_def)
qed

end

section \<open>Properties\<close>

text \<open>
  For each of the three widths, parsing the bytes written for a value gives the
  value back and consumes exactly these bytes; on a parser with too few bytes the value is 0,
  the error is PacketTooShort and nothing is consumed.
\<close>

theorem parse_unparse:
  "parses parse_u32 (unparse_u32 [] a @ d) a d \<and> parses parse_u16 (unparse_u16 [] b @ d) b d \<and>
   parses parse_u8 (unparse_u8 [] c @ d) c d \<and>
   (length (buffer_str (np_buffer p)) < 4 \<longrightarrow>
      run_state parse_u32 p = (0, p\<lparr>np_error := PacketTooShort\<rparr>)) \<and>
   (length (buffer_str (np_buffer p)) < 2 \<longrightarrow>
      run_state parse_u16 p = (0, p\<lparr>np_error := PacketTooShort\<rparr>))"
proof (intro conjI impI)
  show "run_state parse_u32 p = (0, p\<lparr>np_error := PacketTooShort\<rparr>)" if "length (buffer_str (np_buffer p)) < 4"
    using that by (simp add: parse_u32_def parse_int_short)
  show "run_state parse_u16 p = (0, p\<lparr>np_error := PacketTooShort\<rparr>)" if "length (buffer_str (np_buffer p)) < 2"
    using that by (simp add: parse_u16_def parse_int_short)
qed (use parses_u32 parses_u16 parses_u8 in \<open>simp_all add: be_bytes_def del: One_nat_def\<close>)

theorem parse_unparse_witness:
  "run_state parse_u32 (np_construct (buffer_of [1, 2])) =
     (0, (np_construct (buffer_of [1, 2]))\<lparr>np_error := PacketTooShort\<rparr>)"
  using parse_unparse [of 0 "[]" 0 0 "np_construct (buffer_of [1, 2])"]
  by (simp add: np_construct_def)

text \<open>
  Asking for the name of \<open>Unsupported\<close> (which \<open>ARPMessage::parse\<close> returns) reads past the end
  of the table; every other result has a name.
\<close>

theorem as_string_unsupported:
  "(\<exists>e. parse_result_as_string r = Inl e) \<longleftrightarrow> r = Unsupported"
  by (cases r) (simp_all add: parse_result_as_string_def parse_result_names_def)

end
