(* ===== verification/Internet_Checksum.thy ===== *)
theory Internet_Checksum
  imports Sponge_Prelude
begin

text \<open>
  \<open>InternetChecksum\<close> (\<open>libsponge/util/util.hh\<close>, \<open>util.cc\<close>): a 32-bit running sum of the data
  taken as 16-bit big-endian words, with a parity flag so that data can be added in pieces, and
  its ones' complement folded to 16 bits. The lemmas relate it to the sum as a natural number
  modulo 65535.
\<close>

unbundle bit_operations_syntax

record internet_checksum =
  ic_sum :: "32 word"
  ic_parity :: bool

definition ic_construct :: "32 word \<Rightarrow> internet_checksum" where
  "ic_construct initial_sum = \<lparr>ic_sum = initial_sum, ic_parity = False\<rparr>"

fun ic_add :: "bytes \<Rightarrow> internet_checksum \<Rightarrow> internet_checksum" where
  "ic_add [] c = c"
| "ic_add (b # data) c =
     (let val = (ucast b :: 16 word);
          val = (if \<not> ic_parity c then push_bit 8 val else val)
      in ic_add data (c\<lparr>ic_sum := ic_sum c + ucast val, ic_parity := \<not> ic_parity c\<rparr>))"

lemma unat_drop_bit: "unat (drop_bit m w) = unat w div 2 ^ m"
  unfolding unat_drop_bit_eq unfolding drop_bit_eq_div [of m "unat w"] ..

text \<open>The loop of \<open>value()\<close>: it ends because the value shrinks while it is above 0xffff.\<close>

lemma fold_less: "0xffff < (ret :: 32 word) \<Longrightarrow> unat (drop_bit 16 ret + (ret AND 0xffff)) < unat ret"
  and unat_fold: "unat (drop_bit 16 (ret :: 32 word) + (ret AND 0xffff)) = unat ret div 65536 + unat ret mod 65536"
proof -
  have hi: "unat (drop_bit 16 ret) = unat ret div 65536"
    unfolding unat_drop_bit by simp
  have "ret AND 0xffff = take_bit 16 ret"
    by (simp add: take_bit_eq_mask mask_eq_exp_minus_1)
  then have lo: "unat (ret AND 0xffff) = unat ret mod 65536"
    by (simp add: take_bit_eq_mod unat_mod_distrib)
  have r: "unat ret < 4294967296"
    using unsigned_less [of ret] by simp
  have "unat ret div 65536 + unat ret mod 65536 < 2 ^ LENGTH(32)"
    using r by simp
  then show sum: "unat (drop_bit 16 ret + (ret AND 0xffff)) = unat ret div 65536 + unat ret mod 65536"
    using hi lo by (simp add: unat_word_ariths)
  assume "0xffff < ret"
  then have "65535 < unat ret"
    by (simp add: word_less_nat_alt)
  then have "0 < unat ret div 65536"
    by (simp add: div_greater_zero_iff)
  then show "unat (drop_bit 16 ret + (ret AND 0xffff)) < unat ret"
    unfolding sum using div_mult_mod_eq [of "unat ret" 65536] by linarith
qed

function ic_fold :: "32 word \<Rightarrow> 32 word" where
  "ic_fold ret = (if 0xffff < ret then ic_fold (drop_bit 16 ret + (ret AND 0xffff)) else ret)"
  by pat_completeness auto
termination
  by (relation "measure unat") (simp, simp only: in_measure fold_less)

declare ic_fold.simps [simp del]

definition ic_value :: "internet_checksum \<Rightarrow> 16 word" where
  "ic_value c = ucast (NOT (ic_fold (ic_sum c)))"

section \<open>The sum as a number\<close>

fun sum16 :: "bool \<Rightarrow> bytes \<Rightarrow> nat" where
  "sum16 parity [] = 0"
| "sum16 parity (b # bs) = (if parity then unat b else unat b * 256) + sum16 (\<not> parity) bs"

lemma ic_add_append: "ic_add (a @ b) c = ic_add b (ic_add a c)"
  by (induction a c rule: ic_add.induct) (simp_all add: Let_def)

lemma ic_add_eq:
  "ic_add bs c = c\<lparr>ic_sum := ic_sum c + word_of_nat (sum16 (ic_parity c) bs),
     ic_parity := (ic_parity c = even (length bs))\<rparr>"
proof (induction bs c rule: ic_add.induct)
  case (2 b data c)
  have "(ucast (push_bit 8 (ucast b :: 16 word)) :: 32 word) = word_of_nat (unat b * 256)"
  proof -
    have "unat b * 256 < 2 ^ LENGTH(16)"
      using unsigned_less [of b] by simp
    then have "unat (push_bit 8 (ucast b :: 16 word)) = unat b * 256"
      by (simp add: push_bit_eq_mult unat_word_ariths unsigned_ucast_eq take_bit_eq_mod)
    then show ?thesis
      by (metis of_nat_unat)
  qed
  moreover have "(ucast (ucast b :: 16 word) :: 32 word) = word_of_nat (unat b)"
    unfolding of_nat_unat by (rule bit_word_eqI) (auto simp: bit_simps dest: bit_imp_le_length)
  ultimately show ?case
    using 2 by (cases "ic_parity c") (auto simp: Let_def)
qed simp

lemma sum16_append: "sum16 p (a @ b) = sum16 p a + sum16 (p = even (length a)) b"
proof (induction p a rule: sum16.induct)
  case (2 p b bs)
  have "((\<not> p) = even (length bs)) = (p = even (length (b # bs)))"
    by auto
  with 2 show ?case
    by simp
qed simp

lemma sum16_zeros [simp]: "sum16 p (replicate n 0) = 0"
  by (induction n arbitrary: p) auto

lemma unat_byte: "unat (b :: byte) \<le> 255"
  using unsigned_less [of b, where 'a = nat] by simp

lemma sum16_bound: "sum16 p bs \<le> 65280 * length bs"
proof (induction p bs rule: sum16.induct)
  case (2 p b bs)
  then show ?case
    using unat_byte [of b] by auto
qed simp

lemma ic_fold_unat:
  "unat (ic_fold r) = (if unat r = 0 then 0 else (unat r - 1) mod 65535 + 1)"
proof (induction r rule: ic_fold.induct)
  case (1 r)
  show ?case
  proof (cases "0xffff < r")
    case True
    let ?n = "unat r" and ?m = "unat (drop_bit 16 r + (r AND 0xffff))"
    have n: "65535 < ?n"
      using True by (simp add: word_less_nat_alt)
    have m: "?m = ?n div 65536 + ?n mod 65536"
      by (rule unat_fold)
    have "0 < ?n div 65536"
      using n by (simp add: div_greater_zero_iff)
    moreover have "?n = ?n div 65536 * 65536 + ?n mod 65536"
      by simp
    ultimately have "?n - 1 = (?m - 1) + ?n div 65536 * 65535" and "?m \<noteq> 0"
      unfolding m by linarith+
    moreover have "(?m - 1 + ?n div 65536 * 65535) mod 65535 = (?m - 1) mod 65535"
      by (rule mod_mult_self1)
    ultimately have "(?n - 1) mod 65535 = (?m - 1) mod 65535"
      by (simp only:)
    then show ?thesis
      using 1 [OF True] True n \<open>?m \<noteq> 0\<close> by (simp add: ic_fold.simps [of r])
  next
    case False
    then have "unat r \<le> 65535"
      by (simp add: word_less_nat_alt)
    then show ?thesis
      using False by (simp add: ic_fold.simps [of r])
  qed
qed

lemma ic_fold_le: "unat (ic_fold r) \<le> 65535"
  by (auto simp: ic_fold_unat Suc_le_eq)

lemma unat_not: "unat (NOT (x :: 'a::len word)) = 2 ^ LENGTH('a) - 1 - unat x"
proof -
  have "NOT x = - 1 - x"
    by (simp add: not_eq_complement)
  moreover have "x \<le> - 1"
    by simp
  ultimately show ?thesis
    by (simp add: unat_sub unsigned_minus_1_eq_mask mask_eq_exp_minus_1)
qed

lemma low16: "(f :: nat) \<le> 65535 \<Longrightarrow> (4294967295 - f) mod 65536 = 65535 - f"
proof -
  assume "f \<le> 65535"
  then have "4294967295 - f = (65535 - f) + 65535 * 65536"
    by linarith
  then have "(4294967295 - f) mod 65536 = (65535 - f) mod 65536"
    by (simp only: mod_mult_self1)
  then show ?thesis
    by simp
qed

lemma unat_ic_value: "unat (ic_value c) = 65535 - unat (ic_fold (ic_sum c))"
proof -
  have "unat (ic_value c) = take_bit LENGTH(16) (2 ^ LENGTH(32) - 1 - unat (ic_fold (ic_sum c)))"
    unfolding ic_value_def unsigned_ucast_eq unat_not ..
  also have "\<dots> = (4294967295 - unat (ic_fold (ic_sum c))) mod 65536"
    unfolding take_bit_eq_mod by simp
  finally show ?thesis
    unfolding low16 [OF ic_fold_le] .
qed

text \<open>The checksum of data whose 16-bit words sum up to \<open>n\<close>, the pseudo-header included.\<close>

definition cksum_nat :: "nat \<Rightarrow> nat" where
  "cksum_nat n = (if n = 0 then 65535 else 65534 - (n - 1) mod 65535)"

lemma ic_value_nat:
  assumes "unat (ic_sum c) + sum16 (ic_parity c) bs < 4294967296"
  shows "unat (ic_value (ic_add bs c)) = cksum_nat (unat (ic_sum c) + sum16 (ic_parity c) bs)"
proof -
  have "unat (ic_sum (ic_add bs c)) = unat (ic_sum c) + sum16 (ic_parity c) bs"
    using assms by (simp add: ic_add_eq unat_word_ariths unat_of_nat mod_add_right_eq)
  then show ?thesis
    by (auto simp: unat_ic_value ic_fold_unat cksum_nat_def)
qed

text \<open>Putting the checksum into the data (instead of zero) makes the checksum zero.\<close>

lemma cksum_nat_Suc: "cksum_nat (Suc k) = 65534 - k mod 65535"
  by (simp add: cksum_nat_def)

lemma cksum_nat_verifies: "cksum_nat (n + cksum_nat n) = 0"
proof (cases n)
  case (Suc k)
  have "k mod 65535 < 65535"
    by (rule mod_less_divisor) simp
  then have "k + (65534 - k mod 65535) = 65534 + k div 65535 * 65535"
    using div_mult_mod_eq [of k 65535] by linarith
  then have "(k + (65534 - k mod 65535)) mod 65535 = 65534 mod 65535"
    by (simp only: mod_mult_self1)
  then show ?thesis
    unfolding Suc add_Suc cksum_nat_Suc by simp
qed (simp add: cksum_nat_def)

lemma cksum_nat_zero_iff: "cksum_nat n = 0 \<longleftrightarrow> 0 < n \<and> n mod 65535 = 0"
proof (cases n)
  case (Suc m)
  have "m mod 65535 = 65534 \<longleftrightarrow> Suc m mod 65535 = 0"
    by (simp add: mod_Suc)
  moreover have "m mod 65535 < 65535"
    by (rule mod_less_divisor) simp
  ultimately show ?thesis
    using Suc by (auto simp: cksum_nat_def)
qed (simp add: cksum_nat_def)

text \<open>Filling in the checksum at an even position.\<close>

lemma checksum_zero:
  assumes "even (length a)" "unat init + 65280 * (length a + 2 + length b) < 4294967296 - 65536"
  shows "(let c = ic_value (ic_add b (ic_add [0, 0] (ic_add a (ic_construct init)))) in
    unat c = cksum_nat (unat init + sum16 False (a @ [0, 0] @ b)) \<and>
    ic_value (ic_add (a @ [ucast (drop_bit 8 c), ucast c] @ b) (ic_construct init)) = 0)"
proof -
  let ?z = "a @ [0, 0] @ b"
  define c where "c = ic_value (ic_add b (ic_add [0, 0] (ic_add a (ic_construct init))))"
  have c: "c = ic_value (ic_add ?z (ic_construct init))"
    by (simp only: c_def ic_add_append)
  have "sum16 False ?z \<le> 65280 * (length a + 2 + length b)"
    using sum16_bound [of False ?z] by (simp add: algebra_simps)
  then have n: "unat init + sum16 False ?z < 4294967296 - 65536"
    using assms(2) by linarith
  then have uc: "unat c = cksum_nat (unat init + sum16 False ?z)"
    using ic_value_nat [of "ic_construct init" ?z] by (simp add: c ic_construct_def)
  let ?w = "a @ [ucast (drop_bit 8 c), ucast c] @ b"
  have "unat (ucast (drop_bit 8 c) :: byte) * 256 + unat (ucast c :: byte) = unat c"
  proof -
    have "unat c < 65536"
      using unsigned_less [of c] by simp
    then have "unat c div 256 < 256"
      by simp
    then have "unat (ucast (drop_bit 8 c) :: byte) = unat c div 256"
      unfolding unsigned_ucast_eq unat_drop_bit take_bit_eq_mod by simp
    moreover have "unat (ucast c :: byte) = unat c mod 256"
      unfolding unsigned_ucast_eq take_bit_eq_mod by simp
    ultimately show ?thesis
      by simp
  qed
  then have s: "sum16 False ?w = sum16 False ?z + unat c"
    using assms(1) by (simp add: sum16_append)
  have "unat c < 65536"
    using unsigned_less [of c] by simp
  then have "unat (ic_value (ic_add ?w (ic_construct init))) = cksum_nat (unat init + sum16 False ?z + unat c)"
    using ic_value_nat [of "ic_construct init" ?w] n s by (simp add: ic_construct_def add.assoc)
  then have "ic_value (ic_add ?w (ic_construct init)) = 0"
    unfolding uc cksum_nat_verifies by (simp add: unat_eq_zero)
  then show ?thesis
    using uc by (simp add: c_def Let_def)
qed

section \<open>Data in pieces\<close>

text \<open>One checksum object to which the pieces are added one after the other.\<close>

definition ic_add_all :: "bytes list \<Rightarrow> internet_checksum \<Rightarrow> internet_checksum" where
  "ic_add_all pieces c = foldl (\<lambda>c d. ic_add d c) c pieces"

lemma ic_add_all_concat: "ic_add_all pieces c = ic_add (concat pieces) c"
  unfolding ic_add_all_def by (induction pieces arbitrary: c) (simp_all add: ic_add_append)

section \<open>Properties\<close>

text \<open>
  C37: The checksum. Let data be added to a checksum object in any pieces, of odd and even lengths
  alike, and let the 32-bit sum not overflow. The value is then that of the data added at once: the
  ones' complement of the sum of the initial sum and the 16-bit big-endian words of the whole data.
  If the data has two zero bytes at an even position and they are replaced by the value, then the
  checksum of the result, again added in any pieces, is zero, as a receiver expects.
\<close>

theorem checksum_verifies:
  assumes "unat init + 65280 * length (concat pieces) < 4294967296 - 65536"
  shows "(let c = ic_value (ic_add_all pieces (ic_construct init)) in
    c = ic_value (ic_add (concat pieces) (ic_construct init)) \<and>
    unat c = cksum_nat (unat init + sum16 False (concat pieces)) \<and>
    (\<forall>a b pieces'. even (length a) \<and> concat pieces = a @ [0, 0] @ b \<and>
      concat pieces' = a @ [ucast (drop_bit 8 c), ucast c] @ b \<longrightarrow>
      ic_value (ic_add_all pieces' (ic_construct init)) = 0))"
  unfolding Let_def
proof (intro conjI allI impI)
  let ?c = "ic_value (ic_add_all pieces (ic_construct init))"
  show c: "?c = ic_value (ic_add (concat pieces) (ic_construct init))"
    unfolding ic_add_all_concat ..
  show "unat ?c = cksum_nat (unat init + sum16 False (concat pieces))"
    using ic_value_nat [of "ic_construct init" "concat pieces"] sum16_bound [of False "concat pieces"] assms
    unfolding c by (simp add: ic_construct_def)
  fix a b pieces'
  assume z: "even (length a) \<and> concat pieces = a @ [0, 0] @ b \<and>
    concat pieces' = a @ [ucast (drop_bit 8 ?c), ucast ?c] @ b"
  then have "unat init + 65280 * (length a + 2 + length b) < 4294967296 - 65536"
    using assms by (simp add: algebra_simps)
  then show "ic_value (ic_add_all pieces' (ic_construct init)) = 0"
    using checksum_zero [of a init b] z c unfolding ic_add_all_concat Let_def
    by (simp only: ic_add_append)
qed

text \<open>Pieces of three, one and two bytes, the zero bytes split between the first two.\<close>

theorem checksum_verifies_witness:
  "ic_value (ic_add_all [[0x12, 0x34, 0], [0], [0x56, 0x78]] (ic_construct 0)) = 0x9753 \<and>
   ic_value (ic_add_all [[0x12, 0x34, 0x97], [0x53, 0x56, 0x78]] (ic_construct 0)) = 0"
proof -
  have v: "ic_value (ic_add_all [[0x12, 0x34, 0], [0], [0x56, 0x78]] (ic_construct 0)) = 0x9753"
    by (simp add: ic_add_all_def ic_construct_def ic_value_def ic_fold.simps Let_def)
  show ?thesis
    using checksum_verifies [of 0 "[[0x12, 0x34, 0], [0], [0x56, 0x78]]"] v
    by (auto simp: Let_def dest: spec [where x = "[0x12, 0x34]"])
qed

end
