(* ===== verification/Tcp_Segment.thy ===== *)
theory Tcp_Segment
  imports Net_Parser Internet_Checksum Wrapping_Integers
begin

text \<open>
  \<open>TCPHeader\<close> and \<open>TCPSegment\<close> (\<open>libsponge/tcp_helpers/tcp_header.cc\<close>,
  \<open>tcp_segment.cc\<close>): the segment the sender, the receiver and the connection exchange, and its
  wire format. The header is an instance of \<open>codec\<close>; the segment's round trip rests on it and
  on the checksum.
\<close>

section \<open>TCPHeader\<close>

record tcp_header =
  th_sport :: "16 word"
  th_dport :: "16 word"
  th_seqno :: wrapping_int32
  th_ackno :: wrapping_int32
  th_doff :: byte
  th_urg :: bool
  th_ack :: bool
  th_psh :: bool
  th_rst :: bool
  th_syn :: bool
  th_fin :: bool
  th_win :: "16 word"
  th_cksum :: "16 word"
  th_uptr :: "16 word"

abbreviation tcp_header_length :: nat where
  "tcp_header_length \<equiv> 20"

definition tcp_header_default :: tcp_header where
  "tcp_header_default = \<lparr>th_sport = 0, th_dport = 0, th_seqno = WrappingInt32 0,
     th_ackno = WrappingInt32 0, th_doff = word_of_nat (tcp_header_length div 4), th_urg = False,
     th_ack = False, th_psh = False, th_rst = False, th_syn = False, th_fin = False, th_win = 0,
     th_cksum = 0, th_uptr = 0\<rparr>"

definition tcp_header_parse :: "tcp_header \<Rightarrow> (parse_result \<times> tcp_header) parser" where
  "tcp_header_parse h = do {
     sport \<leftarrow> parse_u16;
     dport \<leftarrow> parse_u16;
     seqno \<leftarrow> parse_u32;
     ackno \<leftarrow> parse_u32;
     off \<leftarrow> parse_u8;
     let doff = drop_bit 4 off;
     fl_b \<leftarrow> parse_u8;
     win \<leftarrow> parse_u16;
     cksum \<leftarrow> parse_u16;
     uptr \<leftarrow> parse_u16;
     let h = h\<lparr>th_sport := sport, th_dport := dport, th_seqno := WrappingInt32 seqno,
       th_ackno := WrappingInt32 ackno, th_doff := doff,
       th_urg := (fl_b AND 0x20 \<noteq> 0), th_ack := (fl_b AND 0x10 \<noteq> 0), th_psh := (fl_b AND 0x08 \<noteq> 0),
       th_rst := (fl_b AND 0x04 \<noteq> 0), th_syn := (fl_b AND 0x02 \<noteq> 0), th_fin := (fl_b AND 0x01 \<noteq> 0),
       th_win := win, th_cksum := cksum, th_uptr := uptr\<rparr>;
     if doff < 5 then State_Monad.return (HeaderTooShort, h)
     else do {
       parse_remove_prefix (unat doff * 4 - tcp_header_length);
       e \<leftarrow> parse_get_error;
       State_Monad.return (if e \<noteq> NoError then e else NoError, h)
     }
   }"

text \<open>The byte that holds the flags.\<close>

definition tcp_flags_byte :: "tcp_header \<Rightarrow> byte" where
  "tcp_flags_byte h =
     (if th_urg h then 0x20 else 0) OR (if th_ack h then 0x10 else 0) OR (if th_psh h then 0x08 else 0) OR
     (if th_rst h then 0x04 else 0) OR (if th_syn h then 0x02 else 0) OR (if th_fin h then 0x01 else 0)"

text \<open>\<open>string::resize\<close>, filling up with zero bytes.\<close>

definition string_resize :: "nat \<Rightarrow> bytes \<Rightarrow> bytes" where
  "string_resize n s = take n s @ replicate (n - length s) 0"

definition tcp_header_serialize :: "tcp_header \<Rightarrow> exn + bytes" where
  "tcp_header_serialize h =
     (if th_doff h < 5 then Inl (RuntimeError ''TCP header too short'')
      else let ret = [];
               ret = unparse_u16 ret (th_sport h);
               ret = unparse_u16 ret (th_dport h);
               ret = unparse_u32 ret (raw_value (th_seqno h));
               ret = unparse_u32 ret (raw_value (th_ackno h));
               ret = unparse_u8 ret (push_bit 4 (th_doff h));
               ret = unparse_u8 ret (tcp_flags_byte h);
               ret = unparse_u16 ret (th_win h);
               ret = unparse_u16 ret (th_cksum h);
               ret = unparse_u16 ret (th_uptr h)
           in Inr (string_resize (4 * unat (th_doff h)) ret))"

text \<open>\<open>operator==\<close>, which leaves out the ports and the checksum.\<close>

definition tcp_header_eq :: "tcp_header \<Rightarrow> tcp_header \<Rightarrow> bool" where
  "tcp_header_eq a b \<longleftrightarrow> wint_eq (th_seqno a) (th_seqno b) \<and> wint_eq (th_ackno a) (th_ackno b) \<and>
     th_doff a = th_doff b \<and> th_urg a = th_urg b \<and> th_ack a = th_ack b \<and> th_psh a = th_psh b \<and>
     th_rst a = th_rst b \<and> th_syn a = th_syn b \<and> th_fin a = th_fin b \<and> th_win a = th_win b \<and>
     th_uptr a = th_uptr b"

section \<open>TCPSegment\<close>

record tcp_segment =
  seg_header :: tcp_header
  seg_payload :: buffer

definition tcp_segment_default :: tcp_segment where
  "tcp_segment_default = \<lparr>seg_header = tcp_header_default, seg_payload = buffer_empty\<rparr>"

definition length_in_sequence_space :: "tcp_segment \<Rightarrow> nat" where
  "length_in_sequence_space seg = length (buffer_str (seg_payload seg)) +
     (if th_syn (seg_header seg) then 1 else 0) + (if th_fin (seg_header seg) then 1 else 0)"

definition tcp_segment_parse :: "tcp_segment \<Rightarrow> buffer \<Rightarrow> 32 word \<Rightarrow> parse_result \<times> tcp_segment" where
  "tcp_segment_parse seg buf datagram_layer_checksum =
     (let check = ic_add (buffer_str buf) (ic_construct datagram_layer_checksum)
      in if ic_value check \<noteq> 0 then (BadChecksum, seg)
         else let ((_, h), p) = run_state (tcp_header_parse (seg_header seg)) (np_construct buf)
              in (np_error p, \<lparr>seg_header = h, seg_payload = np_buffer p\<rparr>))"

definition tcp_segment_serialize :: "tcp_segment \<Rightarrow> 32 word \<Rightarrow> exn + buffer_list" where
  "tcp_segment_serialize seg datagram_layer_checksum =
     (let header_out = (seg_header seg)\<lparr>th_cksum := 0\<rparr>;
          check = ic_construct datagram_layer_checksum
      in case tcp_header_serialize header_out of
           Inl e \<Rightarrow> Inl e
         | Inr s \<Rightarrow>
             let check = ic_add s check;
                 check = ic_add (buffer_str (seg_payload seg)) check;
                 header_out = header_out\<lparr>th_cksum := ic_value check\<rparr>
             in (case tcp_header_serialize header_out of
                   Inl e \<Rightarrow> Inl e
                 | Inr s' \<Rightarrow>
                     let ret = [];
                         ret = bl_append ret (bl_of_buffer (buffer_of s'));
                         ret = bl_append ret (bl_of_buffer (seg_payload seg))
                     in Inr ret))"

lemma string_resize_ge: "length s \<le> n \<Longrightarrow> string_resize n s = s @ replicate (n - length s) 0"
  by (simp add: string_resize_def)

section \<open>The header is a codec\<close>

definition tcp_header_wf :: "tcp_header \<Rightarrow> bool" where
  "tcp_header_wf h \<longleftrightarrow> 5 \<le> th_doff h \<and> th_doff h \<le> 15"

lemma tcp_flags_bits:
  "(tcp_flags_byte h AND 0x20 \<noteq> 0) = th_urg h" "(tcp_flags_byte h AND 0x10 \<noteq> 0) = th_ack h"
  "(tcp_flags_byte h AND 0x08 \<noteq> 0) = th_psh h" "(tcp_flags_byte h AND 0x04 \<noteq> 0) = th_rst h"
  "(tcp_flags_byte h AND 0x02 \<noteq> 0) = th_syn h" "(tcp_flags_byte h AND 0x01 \<noteq> 0) = th_fin h"
  by (simp_all add: tcp_flags_byte_def bit.conj_disj_distrib2 split: if_split)

lemma doff_shift: "(d :: byte) \<le> 15 \<Longrightarrow> drop_bit 4 (push_bit 4 d) = d"
  by (rule word_unat_eq_iff [THEN iffD2])
    (simp add: unat_drop_bit push_bit_eq_mult unat_word_ariths word_le_nat_alt)

lemma doff_bounds: "tcp_header_wf h \<Longrightarrow> 5 \<le> unat (th_doff h) \<and> unat (th_doff h) \<le> 15"
  by (simp add: tcp_header_wf_def word_le_nat_alt)

text \<open>The fixed part of the header: 20 bytes, the checksum at offset 16.\<close>

definition tcp_header_front :: "tcp_header \<Rightarrow> bytes" where
  "tcp_header_front h = be_bytes 2 (unat (th_sport h)) @ be_bytes 2 (unat (th_dport h)) @
     be_bytes 4 (unat (raw_value (th_seqno h))) @ be_bytes 4 (unat (raw_value (th_ackno h))) @
     [push_bit 4 (th_doff h)] @ [tcp_flags_byte h] @ be_bytes 2 (unat (th_win h))"

lemma length_tcp_header_front [simp]: "length (tcp_header_front h) = 16"
  by (simp add: tcp_header_front_def)

lemma tcp_header_serialize_eq:
  assumes "tcp_header_wf h"
  shows "tcp_header_serialize h = Inr (tcp_header_front h @ be_bytes 2 (unat (th_cksum h)) @
    be_bytes 2 (unat (th_uptr h)) @ replicate (4 * unat (th_doff h) - 20) 0)"
proof -
  have "\<not> th_doff h < 5"
    using assms by (simp add: tcp_header_wf_def not_less)
  then have "tcp_header_serialize h = Inr (string_resize (4 * unat (th_doff h))
      (tcp_header_front h @ be_bytes 2 (unat (th_cksum h)) @ be_bytes 2 (unat (th_uptr h))))"
    by (simp add: tcp_header_serialize_def tcp_header_front_def Let_def)
  then show ?thesis
    using doff_bounds [OF assms] by (simp add: string_resize_ge)
qed

lemma tcp_header_parses:
  assumes "tcp_header_wf h"
  shows "parses (tcp_header_parse h0) (tcp_header_front h @ be_bytes 2 (unat (th_cksum h)) @
    be_bytes 2 (unat (th_uptr h)) @ replicate (4 * unat (th_doff h) - 20) 0 @ rest) (NoError, h) rest"
proof -
  have d: "drop_bit 4 (push_bit 4 (th_doff h)) = th_doff h" "\<not> th_doff h < 5"
    using assms by (simp_all add: tcp_header_wf_def doff_shift not_less)
  have z: "parses (parse_remove_prefix (unat (th_doff h) * 4 - 20))
      (replicate (4 * unat (th_doff h) - 20) 0 @ rest) () rest"
    using parses_remove_prefix [of "unat (th_doff h) * 4 - 20" "replicate (4 * unat (th_doff h) - 20) 0 @ rest"]
    by (simp add: mult.commute)
  show ?thesis
    unfolding tcp_header_parse_def tcp_header_front_def append_assoc append_Cons append_Nil Let_def
    apply (rule parses_step)+
    apply (simp only: d if_False)
    apply (rule parses_bind [OF z] parses_bind [OF parses_get_error])+
    apply (simp add: tcp_flags_bits)
    apply (cases h0; cases h; simp add: parses_return)
    done
qed

interpretation tcp_codec: codec tcp_header_wf tcp_header_serialize tcp_header_parse id "\<lambda>_ _. True"
proof unfold_locales
  fix h s rest h0 assume "tcp_header_wf h" "tcp_header_serialize h = Inr s"
  then show "parses (tcp_header_parse h0) (s @ rest) (NoError, id h) rest"
    using tcp_header_parses [of h h0 rest] tcp_header_serialize_eq [of h] by auto
qed (simp add: tcp_header_serialize_eq)

section \<open>The segments of a peer\<close>

text \<open>
  A segment of a peer that sends the stream \<open>S\<close> from \<open>isn\<close> on, at the absolute sequence number
  \<open>a\<close>: SYN has number 0, byte \<open>i\<close> has number \<open>i + 1\<close>, FIN comes after the last byte. Segments
  that occupy no number (acknowledgments) may carry any number up to the one after FIN.
\<close>

definition seg_carries :: "bytes \<Rightarrow> wrapping_int32 \<Rightarrow> nat \<Rightarrow> tcp_segment \<Rightarrow> bool" where
  "seg_carries S isn a seg \<longleftrightarrow>
     (let h = seg_header seg; d = buffer_str (seg_payload seg)
      in th_seqno h = wrap a isn \<and>
         (if length_in_sequence_space seg = 0 then a \<le> length S + 2
          else (th_syn h \<longleftrightarrow> a = 0) \<and>
            slice_at S (if th_syn h then 0 else a - 1) d \<and>
            (th_fin h \<longrightarrow> (if th_syn h then 0 else a - 1) + length d = length S)))"

section \<open>The segment's round trip\<close>

text \<open>The header with the checksum the code computes for the segment.\<close>

definition tcp_cksum :: "tcp_segment \<Rightarrow> 32 word \<Rightarrow> 16 word" where
  "tcp_cksum seg init = ic_value (ic_add (buffer_str (seg_payload seg))
     (ic_add (projr (tcp_header_serialize ((seg_header seg)\<lparr>th_cksum := 0\<rparr>))) (ic_construct init)))"

lemma be_bytes_2: "be_bytes 2 (unat (w :: 16 word)) = [ucast (drop_bit 8 w), ucast w]"
proof -
  have "(ucast (drop_bit 8 w) :: byte) = word_of_nat (unat (drop_bit 8 w))"
    by (simp only: of_nat_unat)
  then have "word_of_nat (unat w div 256) = (ucast (drop_bit 8 w) :: byte)"
    by (simp only: unat_drop_bit) simp
  moreover have "[0..<2] = [0, 1::nat]"
    by (simp add: upt_rec)
  ultimately show ?thesis
    by (simp add: be_bytes_def)
qed

text \<open>Segments the program builds: a well-formed header and a payload that fits a datagram.\<close>

definition tcp_segment_wf :: "tcp_segment \<Rightarrow> bool" where
  "tcp_segment_wf seg \<longleftrightarrow> tcp_header_wf (seg_header seg) \<and> length (buffer_str (seg_payload seg)) \<le> 65000"

text \<open>Any buffer with the bytes of a serialised segment parses to the segment.\<close>

lemma tcp_segment_codec:
  assumes "tcp_segment_wf seg" "unat init \<le> 1000000"
  shows "\<exists>l. tcp_segment_serialize seg init = Inr l \<and>
    length (bl_concatenate l) = 4 * unat (th_doff (seg_header seg)) + length (buffer_str (seg_payload seg)) \<and>
    (\<forall>b seg0. buffer_ok b \<and> buffer_str b = bl_concatenate l \<longrightarrow>
      (\<exists>p. tcp_segment_parse seg0 b init =
          (NoError, \<lparr>seg_header = (seg_header seg)\<lparr>th_cksum := tcp_cksum seg init\<rparr>, seg_payload = p\<rparr>) \<and>
        buffer_ok p \<and> buffer_str p = buffer_str (seg_payload seg)))"
proof -
  let ?hz = "(seg_header seg)\<lparr>th_cksum := 0\<rparr>"
  define c where "c = tcp_cksum seg init"
  let ?h = "(seg_header seg)\<lparr>th_cksum := c\<rparr>"
  define d where "d = buffer_str (seg_payload seg)"
  have wf: "tcp_header_wf ?hz" "tcp_header_wf ?h" and len: "length d \<le> 65000"
    using assms(1) by (simp_all add: tcp_segment_wf_def tcp_header_wf_def d_def)
  define a b where "a = tcp_header_front ?h" and
    "b = be_bytes 2 (unat (th_uptr (seg_header seg))) @ replicate (4 * unat (th_doff (seg_header seg)) - 20) 0"
  have front: "tcp_header_front ?hz = a"
    by (simp add: a_def tcp_header_front_def tcp_flags_byte_def)
  have ser0: "tcp_header_serialize ?hz = Inr (a @ [0, 0] @ b)"
    using tcp_header_serialize_eq [OF wf(1)] front be_bytes_2 [of 0] by (simp add: b_def be_bytes_2)
  have ser: "tcp_header_serialize ?h = Inr (a @ [ucast (drop_bit 8 c), ucast c] @ b)"
    using tcp_header_serialize_eq [OF wf(2)] by (simp add: a_def b_def be_bytes_2)
  have c: "c = ic_value (ic_add (b @ d) (ic_add [0, 0] (ic_add a (ic_construct init))))"
    by (simp add: c_def tcp_cksum_def ser0 d_def ic_add_append)
  let ?bytes = "a @ [ucast (drop_bit 8 c), ucast c] @ b @ d"
  have lens: "length a = 16" "length b \<le> 42"
    using doff_bounds [OF wf(2)] by (simp_all add: a_def b_def le_diff_conv)
  have "unat init + 65280 * (length a + 2 + length (b @ d)) < 4294967296 - 65536"
    using assms(2) len lens by simp
  then have ok: "ic_value (ic_add ?bytes (ic_construct init)) = 0"
    using checksum_zero [of a init "b @ d"] lens(1) c by (simp add: Let_def)
  have "tcp_segment_serialize seg init = Inr [buffer_of (a @ [ucast (drop_bit 8 c), ucast c] @ b), seg_payload seg]"
    using ser0 ser c by (simp add: tcp_segment_serialize_def Let_def bl_append_def bl_of_buffer_def
        ic_add_append d_def [symmetric])
  moreover have "bl_concatenate [buffer_of (a @ [ucast (drop_bit 8 c), ucast c] @ b), seg_payload seg] = ?bytes"
    by (simp add: bl_concatenate_eq d_def)
  moreover have "length ?bytes = 4 * unat (th_doff (seg_header seg)) + length d"
    using doff_bounds [OF wf(2)] by (simp add: lens(1)) (simp add: b_def, arith)
  moreover have "\<exists>p. tcp_segment_parse seg0 bf init = (NoError, \<lparr>seg_header = ?h, seg_payload = p\<rparr>) \<and> buffer_ok p \<and> buffer_str p = d"
    if "buffer_ok bf" "buffer_str bf = ?bytes" for bf seg0
  proof -
    have "parses (tcp_header_parse (seg_header seg0)) ?bytes (NoError, ?h) d"
      using tcp_codec.par_ser [OF wf(2) ser TrueI, of "seg_header seg0" d] by simp
    moreover have "np_at (np_construct bf) ?bytes"
      using np_construct_at [OF that(1)] that(2) by simp
    ultimately show ?thesis
      using ok that(2) by (auto simp: tcp_segment_parse_def parses_def np_at_def Let_def split_beta)
  qed
  ultimately show ?thesis
    by (auto simp: c_def d_def)
qed

section \<open>Properties\<close>

text \<open>
  C27: Segment round trip. Serialising a well-formed segment never throws, and parsing the
  bytes with the same pseudo-header checksum returns NoError, every field of the header with
  the checksum filled in, and the payload.
\<close>

theorem tcp_segment_roundtrip:
  assumes "tcp_segment_wf seg" "unat init \<le> 1000000"
  shows "\<exists>l. tcp_segment_serialize seg init = Inr l \<and>
    (let (r, seg') = tcp_segment_parse seg0 (buffer_of (bl_concatenate l)) init in
     r = NoError \<and> seg_header seg' = (seg_header seg)\<lparr>th_cksum := tcp_cksum seg init\<rparr> \<and>
     buffer_str (seg_payload seg') = buffer_str (seg_payload seg))"
proof -
  obtain l where l: "tcp_segment_serialize seg init = Inr l"
    "length (bl_concatenate l) = 4 * unat (th_doff (seg_header seg)) + length (buffer_str (seg_payload seg))"
    "\<And>b seg0. buffer_ok b \<Longrightarrow> buffer_str b = bl_concatenate l \<Longrightarrow>
      \<exists>p. tcp_segment_parse seg0 b init =
          (NoError, \<lparr>seg_header = (seg_header seg)\<lparr>th_cksum := tcp_cksum seg init\<rparr>, seg_payload = p\<rparr>) \<and>
        buffer_ok p \<and> buffer_str p = buffer_str (seg_payload seg)"
    using tcp_segment_codec [OF assms] by blast
  have "length (bl_concatenate l) < two64"
    using l(2) assms(1) doff_bounds [of "seg_header seg"] by (simp add: tcp_segment_wf_def two64_def)
  then show ?thesis
    using l(1) l(3) [of "buffer_of (bl_concatenate l)" seg0] by auto
qed

theorem tcp_segment_roundtrip_witness:
  "\<exists>l. tcp_segment_serialize (tcp_segment_default\<lparr>seg_payload := buffer_of [1, 2, 3]\<rparr>) 7 = Inr l \<and>
    (let (r, seg') = tcp_segment_parse tcp_segment_default (buffer_of (bl_concatenate l)) 7 in
     r = NoError \<and>
     seg_header seg' = tcp_header_default\<lparr>th_cksum := tcp_cksum (tcp_segment_default\<lparr>seg_payload := buffer_of [1, 2, 3]\<rparr>) 7\<rparr> \<and>
     buffer_str (seg_payload seg') = [1, 2, 3])"
  using tcp_segment_roundtrip [of "tcp_segment_default\<lparr>seg_payload := buffer_of [1, 2, 3]\<rparr>" 7 tcp_segment_default]
  by (simp add: tcp_segment_default_def tcp_segment_wf_def tcp_header_wf_def tcp_header_default_def)

lemma tcp_header_demands: "demands 20 (tcp_header_parse h)"
proof -
  have "demands (2 + (2 + (4 + (4 + (1 + (1 + (2 + (2 + (2 + 0))))))))) (tcp_header_parse h)"
    unfolding tcp_header_parse_def Let_def
    by (intro demands_u16 demands_u32 demands_u8 impI)
      (auto intro!: demands_remove_prefix demands_get_error demands_return split: if_split)
  then show ?thesis
    by simp
qed

text \<open>
  C38: Rejection. A segment whose checksum does not verify is rejected with BadChecksum and
  leaves the object as it was; one that verifies but is shorter than the fixed header is
  rejected with PacketTooShort.
\<close>

theorem tcp_segment_parse_errors:
  assumes "buffer_ok buf"
  shows "(if ic_value (ic_add (buffer_str buf) (ic_construct init)) \<noteq> 0
    then tcp_segment_parse seg buf init = (BadChecksum, seg)
    else length (buffer_str buf) < 20 \<longrightarrow> fst (tcp_segment_parse seg buf init) = PacketTooShort)"
proof -
  have "np_error (snd (run_state (tcp_header_parse (seg_header seg)) (np_construct buf))) = PacketTooShort"
    if "length (buffer_str buf) < 20"
    using tcp_header_demands [of "seg_header seg"] assms that by (simp add: demands_def np_construct_def)
  then show ?thesis
    by (simp add: tcp_segment_parse_def Let_def split_beta)
qed

theorem tcp_segment_parse_errors_witness:
  "tcp_segment_parse tcp_segment_default (buffer_of [0, 1]) 0 = (BadChecksum, tcp_segment_default) \<and>
   fst (tcp_segment_parse tcp_segment_default (buffer_of [0xff, 0xff]) 0) = PacketTooShort"
  using tcp_segment_parse_errors [of "buffer_of [0, 1]" 0 tcp_segment_default]
    tcp_segment_parse_errors [of "buffer_of [0xff, 0xff]" 0 tcp_segment_default]
  by (simp add: two64_def ic_construct_def ic_value_def ic_fold.simps Let_def)

text \<open>
  The verdict of the header's own parser is dropped by the segment: a segment whose data offset
  is below the minimum of five words is accepted when its checksum verifies.
\<close>

definition tcp_header_bytes :: "tcp_header \<Rightarrow> bytes" where
  "tcp_header_bytes h = tcp_header_front h @ be_bytes 2 (unat (th_cksum h)) @ be_bytes 2 (unat (th_uptr h))"

lemma tcp_header_parses_short:
  assumes "th_doff h < 5"
  shows "parses (tcp_header_parse h0) (tcp_header_bytes h @ rest) (HeaderTooShort, h) rest"
proof -
  have d: "drop_bit 4 (push_bit 4 (th_doff h)) = th_doff h"
    using assms by (intro doff_shift) (simp add: word_le_nat_alt word_less_nat_alt)
  show ?thesis
    unfolding tcp_header_parse_def tcp_header_bytes_def tcp_header_front_def append_assoc append_Cons append_Nil Let_def
    apply (rule parses_step)+
    apply (simp add: assms d tcp_flags_bits)
    apply (cases h0; cases h; simp add: parses_return)
    done
qed

theorem tcp_short_offset_accepted:
  assumes "th_doff h < 5" "length rest \<le> 65000"
    and "ic_value (ic_add (tcp_header_bytes h @ rest) (ic_construct init)) = 0"
  shows "fst (run_state (tcp_header_parse h0) (np_construct (buffer_of (tcp_header_bytes h @ rest)))) = (HeaderTooShort, h)"
    and "fst (tcp_segment_parse seg0 (buffer_of (tcp_header_bytes h @ rest)) init) = NoError"
proof -
  have at: "np_at (np_construct (buffer_of (tcp_header_bytes h @ rest))) (tcp_header_bytes h @ rest)"
    using np_construct_at [of "buffer_of (tcp_header_bytes h @ rest)"] assms(2)
    by (simp add: two64_def tcp_header_bytes_def)
  then show "fst (run_state (tcp_header_parse h0) (np_construct (buffer_of (tcp_header_bytes h @ rest)))) = (HeaderTooShort, h)"
    using tcp_header_parses_short [OF assms(1), of h0 rest] by (simp add: parses_def)
  show "fst (tcp_segment_parse seg0 (buffer_of (tcp_header_bytes h @ rest)) init) = NoError"
    using at tcp_header_parses_short [OF assms(1), of "seg_header seg0" rest] assms(3)
    by (simp add: parses_def tcp_segment_parse_def np_at_def Let_def split_beta)
qed

end
