(* ===== verification/Tcp_Receiver.thy ===== *)
theory Tcp_Receiver
  imports Reassembler_Runs Tcp_Segment
begin

text \<open>
  \<open>TCPReceiver\<close> (\<open>libsponge/tcp_receiver.hh\<close>, \<open>tcp_receiver.cc\<close>): translates segments into
  pushes to the reassembler and computes the acknowledgment number and the window.
  The receiver's promises are proved for peers that send the segments of one stream
  (\<open>seg_carries\<close>), in any order.
\<close>

section \<open>State and operations\<close>

record tcp_receiver =
  tr_reassembler :: reassembler
  tr_capacity :: nat
  tr_syn_received :: bool
  tr_isn :: wrapping_int32

definition tr_construct :: "nat \<Rightarrow> tcp_receiver" where
  "tr_construct capacity = \<lparr>tr_reassembler = ra_construct capacity, tr_capacity = capacity,
     tr_syn_received = False, tr_isn = WrappingInt32 0\<rparr>"

definition tr_stream_out :: "tcp_receiver \<Rightarrow> byte_stream" where
  "tr_stream_out r = ra_output (tr_reassembler r)"

definition tr_push :: "tcp_receiver \<Rightarrow> bytes \<Rightarrow> nat \<Rightarrow> bool \<Rightarrow> exn + tcp_receiver" where
  "tr_push r data index eof = (case push_substring (tr_reassembler r) data index eof of
     Inl e \<Rightarrow> Inl e | Inr ra \<Rightarrow> Inr (r\<lparr>tr_reassembler := ra\<rparr>))"

definition tr_segment_received :: "tcp_receiver \<Rightarrow> tcp_segment \<Rightarrow> exn + tcp_receiver" where
  "tr_segment_received r seg =
     (let header = seg_header seg;
          r = (if th_syn header then r\<lparr>tr_syn_received := True, tr_isn := th_seqno header\<rparr> else r)
      in if \<not> tr_syn_received r then Inr r
         else let checkpoint = add64 (bs_bytes_written (tr_stream_out r)) 1;
                  abs_seqno = unwrap (th_seqno header) (tr_isn r) checkpoint;
                  stream_index = add64 (sub64 abs_seqno 1) (if th_syn header then 1 else 0)
              in if th_syn header \<and> buffer_size (seg_payload seg) = 0
                 then if th_fin header then tr_push r [] 0 True else Inr r
                 else tr_push r (buffer_copy (seg_payload seg)) stream_index (th_fin header))"

definition tr_ackno :: "tcp_receiver \<Rightarrow> wrapping_int32 option" where
  "tr_ackno r =
     (if \<not> tr_syn_received r then None
      else let abs_ack = add64 (bs_bytes_written (tr_stream_out r)) 1;
               abs_ack = (if bs_input_ended (tr_stream_out r) then add64 abs_ack 1 else abs_ack)
           in Some (wrap abs_ack (tr_isn r)))"

definition tr_window_size :: "tcp_receiver \<Rightarrow> nat" where
  "tr_window_size r = sub64 (tr_capacity r) (bs_buffer_size (tr_stream_out r))"

definition tr_unassembled_bytes :: "tcp_receiver \<Rightarrow> nat" where
  "tr_unassembled_bytes r = ra_unassembled_bytes (tr_reassembler r)"

section \<open>Pushes that bring nothing\<close>

text \<open>
  A segment without payload can carry a number outside the stream (before SYN, after FIN); the
  push it turns into is beyond the stream's end and empty.
\<close>

definition ra_idle_push :: "bytes \<Rightarrow> bytes \<Rightarrow> nat \<Rightarrow> bool \<Rightarrow> bool" where
  "ra_idle_push S data index eof \<longleftrightarrow> data = [] \<and> \<not> eof \<and> length S < index \<and> index < two64"

lemma below_all:
  assumes "entries_ok S nxt m" "nxt \<le> length S" "length S < index"
  shows "below index m = m" "above index m = []" "entries_end nxt m \<le> length S"
proof -
  have "k \<le> index" if "(k, v) \<in> set m" for k v
    using entries_ok_entry(4) [OF assms(1) that] entries_end_le [OF assms(1,2)] assms(3) by simp
  then show "below index m = m" "above index m = []"
    by (auto simp: below_def above_def)
  show "entries_end nxt m \<le> length S"
    using entries_end_le [OF assms(1,2)] .
qed

lemma push_idle_unfold:
  assumes inv: "ra_core_inv S r" and idle: "ra_idle_push S data index eof"
  shows "push_substring r data index eof = (if ra_edge r \<le> index then Inr r
     else case assemble_loop (ra_unassemble_strs r) (ra_output r) (ra_next_assembled_idx r)
                     (ra_unassembled_bytes_num r) of
                Inl e \<Rightarrow> Inl e
              | Inr (m, out, nxt, num) \<Rightarrow> Inr (finish False (add64 index (length data))
                  (r\<lparr>ra_unassemble_strs := m, ra_output := out,
                     ra_next_assembled_idx := nxt, ra_unassembled_bytes_num := num\<rparr>)))"
proof -
  note ok = ra_core_invD [OF inv]
  let ?m = "ra_unassemble_strs r" and ?nxt = "ra_next_assembled_idx r"
  have i: "length S < index" "data = []" "\<not> eof"
    using idle by (simp_all add: ra_idle_push_def)
  note b = below_all [OF ok(4,5) i(1)]
  have n: "clip_front ?m ?nxt index = index"
    using clip_front_eq [OF ok(4,5,6), of index] b i(1) by simp
  then have "take (smap_lower index ?m) ?m = ?m" "drop (smap_lower index ?m) ?m = []"
    using smap_lower_split [OF ok(4), of index] clip_front_eq [OF ok(4,5,6), of index] b by simp_all
  then show ?thesis
    using n i ra_core_inv_edge [OF inv]
    by (simp add: push_substring_def Let_def to_ssize_def finish_def cong: sum.case_cong)
qed

lemma push_idle_spec:
  assumes inv: "ra_inv S r" and idle: "ra_idle_push S data index eof"
  shows "\<exists>r'. push_substring r data index eof = Inr r' \<and> ra_inv S r' \<and>
    bs_bytes_read (ra_output r') = bs_bytes_read (ra_output r) \<and>
    ra_capacity r' = ra_capacity r \<and> ra_edge r' = ra_edge r \<and>
    bs_error (ra_output r') = bs_error (ra_output r) \<and>
    ra_next_assembled_idx r \<le> ra_next_assembled_idx r'"
proof (cases "ra_edge r \<le> index")
  case False
  have core: "ra_core_inv S r"
    using inv by (simp add: ra_inv_def)
  note ok = ra_core_invD [OF core]
  obtain m out nxt num where al: "assemble_loop (ra_unassemble_strs r) (ra_output r)
      (ra_next_assembled_idx r) (ra_unassembled_bytes_num r) = Inr (m, out, nxt, num)"
    and out: "entries_ok S nxt m" "bs_agrees S out" "nxt = bs_bytes_written out"
      "ra_next_assembled_idx r \<le> nxt" "bs_capacity out = bs_capacity (ra_output r)"
      "bs_bytes_read out = bs_bytes_read (ra_output r)" "bs_error out = bs_error (ra_output r)"
      "bs_input_ended out = bs_input_ended (ra_output r)"
    using assemble_loop_spec [OF ok(4,1,2), of "ra_unassembled_bytes_num r"] by blast
  let ?r3 = "r\<lparr>ra_unassemble_strs := m, ra_output := out, ra_next_assembled_idx := nxt,
      ra_unassembled_bytes_num := num\<rparr>"
  have core3: "ra_core_inv S ?r3"
    using out ok(3) by (simp add: ra_core_inv_def)
  have "bs_input_ended out \<longrightarrow> nxt = length S"
    using inv out(4,8) ra_core_invD(5) [OF core3] by (auto simp: ra_inv_def)
  then have "ra_inv S (finish False (add64 index (length data)) ?r3)"
    using inv by (intro finish_inv core3) (auto simp: ra_inv_def)
  moreover have "ra_edge ?r3 = ra_edge r"
    using out(5,6) by (simp add: ra_edge_def edge_def)
  ultimately show ?thesis
    using push_idle_unfold [OF core idle] False al out(4,6,7)
    by (intro exI [of _ "finish False (add64 index (length data)) ?r3"]) simp
qed (use inv push_idle_unfold [OF _ idle, of r] in \<open>simp add: ra_inv_def\<close>)

section \<open>One segment\<close>

definition tr_push_ok :: "bytes \<Rightarrow> bytes \<Rightarrow> nat \<Rightarrow> bool \<Rightarrow> bool" where
  "tr_push_ok S data index eof \<longleftrightarrow>
     slice_at S index data \<and> (eof \<longrightarrow> index + length data = length S) \<or> ra_idle_push S data index eof"

definition tr_inv :: "bytes \<Rightarrow> wrapping_int32 \<Rightarrow> nat \<Rightarrow> tcp_receiver \<Rightarrow> bool" where
  "tr_inv S isn c r \<longleftrightarrow> ra_inv S (tr_reassembler r) \<and> ra_capacity (tr_reassembler r) = c \<and>
     tr_capacity r = c \<and> (tr_syn_received r \<longrightarrow> tr_isn r = isn)"

text \<open>What a step must not do: go back, or move the right edge of the window to the left.\<close>

definition tr_mono :: "tcp_receiver \<Rightarrow> tcp_receiver \<Rightarrow> bool" where
  "tr_mono r r' \<longleftrightarrow> bs_bytes_written (tr_stream_out r) \<le> bs_bytes_written (tr_stream_out r') \<and>
     bs_bytes_read (tr_stream_out r) \<le> bs_bytes_read (tr_stream_out r') \<and>
     ra_edge (tr_reassembler r) \<le> ra_edge (tr_reassembler r') \<and>
     (tr_syn_received r \<longrightarrow> tr_syn_received r') \<and>
     bs_error (tr_stream_out r') = bs_error (tr_stream_out r)"

lemma tr_mono_refl [simp]: "tr_mono r r"
  by (simp add: tr_mono_def)

lemma tr_push_spec:
  assumes inv: "tr_inv S isn c r" and p: "tr_push_ok S data index eof"
  shows "\<exists>r'. tr_push r data index eof = Inr r' \<and> tr_inv S isn c r' \<and> tr_mono r r' \<and>
    bs_bytes_read (tr_stream_out r') = bs_bytes_read (tr_stream_out r)"
proof -
  have ra: "ra_inv S (tr_reassembler r)"
    using inv by (simp add: tr_inv_def)
  obtain ra' where ra': "push_substring (tr_reassembler r) data index eof = Inr ra'" "ra_inv S ra'"
      "bs_bytes_read (ra_output ra') = bs_bytes_read (tr_stream_out r)"
      "ra_capacity ra' = ra_capacity (tr_reassembler r)" "ra_edge ra' = ra_edge (tr_reassembler r)"
      "bs_error (ra_output ra') = bs_error (tr_stream_out r)"
      "ra_next_assembled_idx (tr_reassembler r) \<le> ra_next_assembled_idx ra'"
  proof (cases "ra_idle_push S data index eof")
    case True
    then show thesis
      using push_idle_spec [OF ra True] that by (auto simp: tr_stream_out_def)
  next
    case False
    then have d: "slice_at S index data" "eof \<longrightarrow> index + length data = length S"
      using p by (simp_all add: tr_push_ok_def)
    obtain ra' where r: "push_substring (tr_reassembler r) data index eof = Inr ra'"
      by (rule push_substring_returns [OF ra d])
    show thesis
      using push_substringD(1-6) [OF ra d r] by (intro that [OF r]) (simp_all add: tr_stream_out_def)
  qed
  have "ra_next_assembled_idx ra' = bs_bytes_written (ra_output ra')"
    "ra_next_assembled_idx (tr_reassembler r) = bs_bytes_written (ra_output (tr_reassembler r))"
    using ra ra'(2) by (simp_all add: ra_inv_def ra_core_inv_def)
  then show ?thesis
    using inv ra' by (intro exI [of _ "r\<lparr>tr_reassembler := ra'\<rparr>"])
      (simp add: tr_push_def tr_inv_def tr_mono_def tr_stream_out_def)
qed

definition tr_near :: "tcp_receiver \<Rightarrow> nat \<Rightarrow> bool" where
  "tr_near r a \<longleftrightarrow> wrap_near (bs_bytes_written (tr_stream_out r) + 1) a"

lemma sub64_zero_one: "sub64 0 1 = two64 - 1" "add64 (sub64 0 1) 1 = 0" "add64 (two64 - 1) 0 = two64 - 1"
  by (simp_all add: sub64_def add64_def two64_def nat_mod_distrib)

lemma tr_inv_bounds:
  assumes "tr_inv S isn c r"
  shows "bs_bytes_written (tr_stream_out r) \<le> length S" "length S < two63"
  using assms ra_core_invD(2,5,6) [of S "tr_reassembler r"]
  by (auto simp: tr_inv_def ra_inv_def tr_stream_out_def)

text \<open>The translation of a segment into a push.\<close>

lemma seg_push_ok:
  assumes inv: "tr_inv S isn c r" and seg: "seg_carries S isn a seg" and near: "tr_near r a"
    and isn: "tr_isn r = isn"
  defines "h \<equiv> seg_header seg"
  defines "index \<equiv> add64 (sub64 (unwrap (th_seqno h) (tr_isn r)
        (add64 (bs_bytes_written (tr_stream_out r)) 1)) 1) (if th_syn h then 1 else 0)"
  shows "tr_push_ok S (buffer_str (seg_payload seg)) index (th_fin h)"
    and "th_syn h \<Longrightarrow> index = 0"
proof -
  note b = tr_inv_bounds [OF inv]
  have S: "length S + 2 < two64"
    using b(2) by (simp add: two63_def two64_def)
  have "add64 (bs_bytes_written (tr_stream_out r)) 1 = bs_bytes_written (tr_stream_out r) + 1"
    using b S by (intro add64_small) simp
  moreover have "th_seqno h = wrap a isn"
    using seg by (simp add: seg_carries_def Let_def h_def)
  ultimately have u: "unwrap (th_seqno h) (tr_isn r) (add64 (bs_bytes_written (tr_stream_out r)) 1) = a"
    using near isn by (simp add: tr_near_def wrap_numbering.dec_enc)
  have i: "index = (if th_syn h then add64 (sub64 a 1) 1 else add64 (sub64 a 1) 0)"
    using u by (simp add: index_def)
  show syn: "th_syn h \<Longrightarrow> index = 0"
    using seg i sub64_zero_one(2) by (auto simp: seg_carries_def Let_def h_def length_in_sequence_space_def split: if_splits)
  have pos: "index = a - 1" if "\<not> th_syn h" "0 < a" "a \<le> length S + 2"
    using that i S by (simp add: sub64_small add64_small)
  have zero: "index = two64 - 1" if "\<not> th_syn h" "a = 0"
    using that i sub64_zero_one by simp
  show "tr_push_ok S (buffer_str (seg_payload seg)) index (th_fin h)"
  proof (cases "length_in_sequence_space seg = 0")
    case True
    then have e: "buffer_str (seg_payload seg) = []" "\<not> th_fin h" "\<not> th_syn h" "a \<le> length S + 2"
      using seg by (auto simp: seg_carries_def Let_def h_def length_in_sequence_space_def split: if_splits)
    show ?thesis
    proof (cases "a = 0")
      case True
      have "length S < two64 - 1" "two64 - 1 < two64"
        using S by linarith+
      then show ?thesis
        using zero e True unfolding tr_push_ok_def ra_idle_push_def by metis
    next
      case False
      then have "index = a - 1"
        using pos e by simp
      then show ?thesis
        using e S b(2) by (auto simp: tr_push_ok_def ra_idle_push_def less_two63_64)
    qed
  next
    case False
    then have d: "th_syn h \<longleftrightarrow> a = 0" "slice_at S (if th_syn h then 0 else a - 1) (buffer_str (seg_payload seg))"
      "th_fin h \<longrightarrow> (if th_syn h then 0 else a - 1) + length (buffer_str (seg_payload seg)) = length S"
      using seg False unfolding seg_carries_def Let_def h_def by metis+
    have "index = (if th_syn h then 0 else a - 1)"
      using syn pos d(1) slice_at_bound [OF d(2)] by (cases "th_syn h") auto
    then show ?thesis
      using d by (simp add: tr_push_ok_def)
  qed
qed

lemma tr_segment_received_spec:
  assumes inv: "tr_inv S isn c r" and seg: "seg_carries S isn a seg" and near: "tr_near r a"
  shows "\<exists>r'. tr_segment_received r seg = Inr r' \<and> tr_inv S isn c r' \<and> tr_mono r r' \<and>
    bs_bytes_read (tr_stream_out r') = bs_bytes_read (tr_stream_out r) \<and>
    tr_syn_received r' = (tr_syn_received r \<or> th_syn (seg_header seg))"
proof -
  let ?h = "seg_header seg"
  define r1 where "r1 = (if th_syn ?h then r\<lparr>tr_syn_received := True, tr_isn := th_seqno ?h\<rparr> else r)"
  have "th_syn ?h \<Longrightarrow> th_seqno ?h = isn"
    using seg by (auto simp: seg_carries_def Let_def length_in_sequence_space_def wrap_zero split: if_splits)
  then have r1: "tr_inv S isn c r1" "tr_mono r r1" "tr_stream_out r1 = tr_stream_out r" "tr_near r1 a"
      "tr_syn_received r1 = (tr_syn_received r \<or> th_syn ?h)"
    using inv near by (auto simp: r1_def tr_inv_def tr_mono_def tr_stream_out_def tr_near_def)
  show ?thesis
  proof (cases "tr_syn_received r1")
    case True
    then have isn: "tr_isn r1 = isn"
      using r1(1) by (simp add: tr_inv_def)
    note p = seg_push_ok [OF r1(1) seg r1(4) isn]
    have push: "\<exists>r'. tr_push r1 d i f = Inr r' \<and> tr_inv S isn c r' \<and> tr_mono r r' \<and>
        bs_bytes_read (tr_stream_out r') = bs_bytes_read (tr_stream_out r) \<and>
        tr_syn_received r' = tr_syn_received r1" if p: "tr_push_ok S d i f" for d i f
    proof -
      obtain r' where r': "tr_push r1 d i f = Inr r'" "tr_inv S isn c r'" "tr_mono r1 r'"
          "bs_bytes_read (tr_stream_out r') = bs_bytes_read (tr_stream_out r1)"
        using tr_push_spec [OF r1(1) p] by blast
      moreover have "tr_syn_received r' = tr_syn_received r1"
        using r'(1) by (auto simp: tr_push_def split: sum.splits)
      moreover have "tr_mono r r'"
        using r1(2) r'(3) by (auto simp: tr_mono_def)
      ultimately show ?thesis
        using r1(3) by auto
    qed
    define i where "i = add64 (sub64 (unwrap (th_seqno ?h) (tr_isn r1)
        (add64 (bs_bytes_written (tr_stream_out r1)) 1)) 1) (if th_syn ?h then 1 else 0)"
    have rec: "tr_segment_received r seg =
        (if th_syn ?h \<and> buffer_str (seg_payload seg) = []
         then if th_fin ?h then tr_push r1 [] 0 True else Inr r1
         else tr_push r1 (buffer_str (seg_payload seg)) i (th_fin ?h))"
      unfolding tr_segment_received_def Let_def r1_def [symmetric] i_def [symmetric]
        buffer_size_def buffer_copy_def using True by simp
    have p0: "tr_push_ok S [] 0 True" if "th_syn ?h" "th_fin ?h" "buffer_str (seg_payload seg) = []"
      using p that by simp
    show ?thesis
      unfolding rec using push [OF p(1), folded i_def] push [OF p0] r1 by auto
  next
    case False
    then have "r1 = r" "tr_segment_received r seg = Inr r1"
      using r1(5) by (auto simp: tr_segment_received_def Let_def r1_def)
    then show ?thesis
      using inv r1(5) by auto
  qed
qed

section \<open>Runs\<close>

text \<open>
  The states a receiver reaches from genuine segments, each within \<open>two31\<close> of the number it
  waits for when it arrives (older and newer duplicates are allowed within that distance), and
  from reads of its output; \<open>got\<close> is what was read.
\<close>

definition tr_read :: "tcp_receiver \<Rightarrow> nat \<Rightarrow> tcp_receiver" where
  "tr_read r n = r\<lparr>tr_reassembler := (tr_reassembler r)\<lparr>ra_output := fst (bs_read (tr_stream_out r) n)\<rparr>\<rparr>"

inductive rcv_run :: "bytes \<Rightarrow> wrapping_int32 \<Rightarrow> nat \<Rightarrow> tcp_receiver \<Rightarrow> bytes \<Rightarrow> bool" for S isn c where
  rcv_start: "rcv_run S isn c (tr_construct c) []"
| rcv_segment: "rcv_run S isn c r got \<Longrightarrow> seg_carries S isn a seg \<Longrightarrow> tr_near r a \<Longrightarrow>
    tr_segment_received r seg = Inr r' \<Longrightarrow> rcv_run S isn c r' got"
| rcv_read: "rcv_run S isn c r got \<Longrightarrow> rcv_run S isn c (tr_read r n) (got @ snd (bs_read (tr_stream_out r) n))"

lemma tr_read_spec:
  assumes "tr_inv S isn c r"
  shows "tr_inv S isn c (tr_read r n) \<and> tr_mono r (tr_read r n) \<and>
    take (bs_bytes_read (tr_stream_out (tr_read r n))) S =
      take (bs_bytes_read (tr_stream_out r)) S @ snd (bs_read (tr_stream_out r) n)"
proof -
  have ra: "ra_inv S (tr_reassembler r)"
    using assms by (simp add: tr_inv_def)
  note s = ra_read_spec [OF ra, of n]
  have "bs_bytes_read (ra_output (tr_reassembler r)) \<le> bs_bytes_read (fst (bs_read (ra_output (tr_reassembler r)) n))"
    using bs_source.get_pos [of S "ra_output (tr_reassembler r)" n] ra by (simp add: ra_inv_def ra_core_inv_def)
  moreover have "bs_bytes_written (fst (bs_read (ra_output (tr_reassembler r)) n)) =
      bs_bytes_written (ra_output (tr_reassembler r))"
    by (auto simp: bs_defs Let_def)
  ultimately show ?thesis
    using assms s ra by (auto simp: tr_inv_def tr_read_def tr_stream_out_def tr_mono_def)
qed

lemma tr_construct_inv:
  assumes "length S < two63" "c < two63"
  shows "tr_inv S isn c (tr_construct c)"
  using ra_construct_inv [OF assms] by (simp add: tr_inv_def tr_construct_def) (simp add: ra_construct_def)

lemma rcv_run_inv:
  assumes "length S < two63" "c < two63"
  shows "rcv_run S isn c r got \<Longrightarrow> tr_inv S isn c r \<and> got = take (bs_bytes_read (tr_stream_out r)) S"
proof (induction rule: rcv_run.induct)
  case rcv_start
  show ?case
    using tr_construct_inv [OF assms]
    by (simp add: tr_construct_def tr_stream_out_def ra_construct_def bs_construct_def)
next
  case (rcv_segment r got a seg r')
  then show ?case
    using tr_segment_received_spec [of S isn c r a seg] by auto
next
  case (rcv_read r got n)
  then show ?case
    using tr_read_spec [of S isn c r n] by simp
qed

lemma tr_inv_stream:
  assumes "tr_inv S isn c r"
  shows "take (bs_bytes_read (tr_stream_out r)) S @ bs_buffer (tr_stream_out r) =
      take (bs_bytes_written (tr_stream_out r)) S"
    "length (bs_buffer (tr_stream_out r)) \<le> c" "c < two63"
    "bs_bytes_written (tr_stream_out r) = bs_bytes_read (tr_stream_out r) + length (bs_buffer (tr_stream_out r))"
    "bs_input_ended (tr_stream_out r) \<longrightarrow> bs_bytes_written (tr_stream_out r) = length S"
    "ra_edge (tr_reassembler r) = bs_bytes_read (tr_stream_out r) + c"
proof -
  have inv: "ra_inv S (tr_reassembler r)"
    using assms by (simp add: tr_inv_def)
  then have core: "ra_core_inv S (tr_reassembler r)"
    by (simp add: ra_inv_def)
  note ok = ra_core_invD [OF core]
  show "take (bs_bytes_read (tr_stream_out r)) S @ bs_buffer (tr_stream_out r) =
      take (bs_bytes_written (tr_stream_out r)) S"
    using ok(1) take_slice_at [of S "bs_bytes_read (tr_stream_out r)"] by (simp add: bs_agrees_def tr_stream_out_def)
  show "length (bs_buffer (tr_stream_out r)) \<le> c" "c < two63"
    "bs_bytes_written (tr_stream_out r) = bs_bytes_read (tr_stream_out r) + length (bs_buffer (tr_stream_out r))"
    "ra_edge (tr_reassembler r) = bs_bytes_read (tr_stream_out r) + c"
    using ok(1,3) assms by (auto simp: bs_agrees_def tr_stream_out_def tr_inv_def ra_edge_def edge_def)
  show "bs_input_ended (tr_stream_out r) \<longrightarrow> bs_bytes_written (tr_stream_out r) = length S"
    using inv ok(2) by (simp add: ra_inv_def tr_stream_out_def)
qed

section \<open>Properties\<close>

text \<open>In a short stream every genuine segment is near.\<close>

lemma seg_carries_bound: "seg_carries S isn n seg \<Longrightarrow> n \<le> length S + 2"
  by (auto simp: seg_carries_def slice_at_def Let_def split: if_splits)

lemma seg_carries_near:
  assumes "tr_inv S isn c r" "seg_carries S isn a seg" "length S + 2 < two31"
  shows "tr_near r a"
  using tr_inv_bounds(1) [OF assms(1)] seg_carries_bound [OF assms(2)] assms(3)
  by (simp add: tr_near_def wrap_near_def two31_def two64_def)

text \<open>
  C11: Receiver integrity. Genuine segments of a peer's stream S below 2^63 bytes arrive in any order, with any
  losses and duplicates, each with a number less than 2^31 away from the one the receiver waits
  for when it arrives (sequence numbers wrap around, so the code cannot tell those further away
  apart), and in between the output is read. In every state reached the receiver accepts the next
  such segment without an exception; what was read and what is buffered is a prefix of S; and its
  stream has ended only when all of S was assembled. If S has less than 2^31 - 2 bytes, the
  distance is no restriction: every genuine segment is accepted and continues the run.
\<close>

theorem receiver_integrity:
  assumes "length S < two63" "c < two63" "rcv_run S isn c r got"
  shows "(\<forall>a seg. seg_carries S isn a seg \<and> (tr_near r a \<or> length S + 2 < two31) \<longrightarrow>
      (\<exists>r'. tr_segment_received r seg = Inr r' \<and> rcv_run S isn c r' got)) \<and>
    (\<exists>rest. S = got @ bs_buffer (tr_stream_out r) @ rest \<and>
       (bs_input_ended (tr_stream_out r) \<longrightarrow> rest = []))"
proof -
  have inv: "tr_inv S isn c r" and got: "got = take (bs_bytes_read (tr_stream_out r)) S"
    using rcv_run_inv [OF assms] by simp_all
  note s = tr_inv_stream [OF inv]
  have "S = (got @ bs_buffer (tr_stream_out r)) @ drop (bs_bytes_written (tr_stream_out r)) S"
    unfolding got s(1) by simp
  moreover have "\<exists>r'. tr_segment_received r seg = Inr r' \<and> rcv_run S isn c r' got"
    if "seg_carries S isn a seg" "tr_near r a \<or> length S + 2 < two31" for a seg
  proof -
    have near: "tr_near r a"
      using that seg_carries_near [OF inv that(1)] by blast
    then show ?thesis
      using tr_segment_received_spec [OF inv that(1)] rcv_segment [OF assms(3) that(1)] by blast
  qed
  ultimately show ?thesis
    using s(5) by (intro conjI) (blast, fastforce)
qed

text \<open>
  C16: Acknowledgment and window. In every state reached from genuine segments, each less than 2^31
  away from the number waited for when it arrived, the receiver acknowledges, relative to the peer's initial
  number, exactly the bytes assembled in order (read or buffered), one more for SYN and one more
  for FIN once the stream has ended; nothing before a SYN; and it advertises the capacity less
  what is buffered.
\<close>

theorem receiver_acknowledges:
  assumes "length S < two63" "c < two63" "rcv_run S isn c r got"
  shows "tr_ackno r = (if tr_syn_received r
      then Some (wrap (length got + length (bs_buffer (tr_stream_out r)) + 1 +
        (if bs_input_ended (tr_stream_out r) then 1 else 0)) isn)
      else None) \<and>
    tr_window_size r = c - length (bs_buffer (tr_stream_out r))"
proof -
  have inv: "tr_inv S isn c r" and got: "got = take (bs_bytes_read (tr_stream_out r)) S"
    using rcv_run_inv [OF assms] by simp_all
  note s = tr_inv_stream [OF inv] and b = tr_inv_bounds [OF inv]
  let ?w = "bs_bytes_written (tr_stream_out r)"
  have "?w + 2 < two64"
    using b by (simp add: two63_def two64_def)
  then have "add64 ?w 1 = ?w + 1" "add64 (?w + 1) 1 = ?w + 2"
    by (simp_all add: add64_small)
  moreover have "length got + length (bs_buffer (tr_stream_out r)) = ?w"
    using s(4) b(1) by (simp add: got min_def)
  moreover have "tr_syn_received r \<longrightarrow> tr_isn r = isn" "tr_capacity r = c"
    using inv by (simp_all add: tr_inv_def)
  ultimately show ?thesis
    using s(2,3) by (simp add: tr_ackno_def tr_window_size_def bs_buffer_size_def Let_def sub64_small less_two63_64)
qed

text \<open>
  The window does not shrink. A genuine segment never moves the acknowledgment back or the
  right edge of the window (the first number not accepted) to the left, whatever it carries.
\<close>

theorem receiver_window_never_shrinks:
  assumes "length S < two63" "c < two63" "rcv_run S isn c r got" "seg_carries S isn a seg" "tr_near r a"
  shows "\<exists>r'. tr_segment_received r seg = Inr r' \<and>
    bs_bytes_written (tr_stream_out r) \<le> bs_bytes_written (tr_stream_out r') \<and>
    bs_bytes_written (tr_stream_out r) + tr_window_size r \<le> bs_bytes_written (tr_stream_out r') + tr_window_size r'"
proof -
  have inv: "tr_inv S isn c r"
    using rcv_run_inv [OF assms(1-3)] by simp
  obtain r' where r': "tr_segment_received r seg = Inr r'" "tr_inv S isn c r'" "tr_mono r r'"
    using tr_segment_received_spec [OF inv assms(4,5)] by blast
  have w: "bs_bytes_written (tr_stream_out r) + tr_window_size r = ra_edge (tr_reassembler r)"
    if "tr_inv S isn c r" for r
    using tr_inv_stream [OF that] that
    by (simp add: tr_window_size_def bs_buffer_size_def sub64_small less_two63_64 tr_inv_def)
  show ?thesis
    using r' w [OF inv] w [OF r'(2)] by (auto simp: tr_mono_def)
qed

section \<open>Witnesses\<close>

definition syn_segment :: "wrapping_int32 \<Rightarrow> tcp_segment" where
  "syn_segment isn = \<lparr>seg_header = tcp_header_default\<lparr>th_syn := True, th_seqno := isn\<rparr>, seg_payload = buffer_empty\<rparr>"

definition data_segment :: "wrapping_int32 \<Rightarrow> bytes \<Rightarrow> tcp_segment" where
  "data_segment seqno d = \<lparr>seg_header = tcp_header_default\<lparr>th_seqno := seqno\<rparr>, seg_payload = buffer_of d\<rparr>"

definition rcv_example :: tcp_receiver where
  "rcv_example = (tr_construct 10)\<lparr>tr_syn_received := True, tr_isn := WrappingInt32 5\<rparr>"

lemma rcv_example_run: "rcv_run [1, 2, 3] (WrappingInt32 5) 10 rcv_example []"
proof (rule rcv_segment [OF rcv_start])
  show "seg_carries [1, 2, 3] (WrappingInt32 5) 0 (syn_segment (WrappingInt32 5))"
    by (simp add: seg_carries_def syn_segment_def length_in_sequence_space_def tcp_header_default_def wrap_zero)
  show "tr_near (tr_construct 10) 0"
    by (simp add: tr_near_def wrap_near_def tr_construct_def tr_stream_out_def ra_construct_def bs_construct_def
        two31_def two64_def)
  show "tr_segment_received (tr_construct 10) (syn_segment (WrappingInt32 5)) = Inr rcv_example"
    by (simp add: tr_segment_received_def syn_segment_def rcv_example_def tcp_header_default_def Let_def buffer_size_def)
qed

lemma rcv_example_segment:
  "seg_carries [1, 2, 3] (WrappingInt32 5) 2 (data_segment (WrappingInt32 7) [2, 3])" "tr_near rcv_example 2"
proof -
  show "seg_carries [1, 2, 3] (WrappingInt32 5) 2 (data_segment (WrappingInt32 7) [2, 3])"
    by (simp add: seg_carries_def data_segment_def length_in_sequence_space_def tcp_header_default_def wrap_eq slice_at_def)
  show "tr_near rcv_example 2"
    by (simp add: tr_near_def wrap_near_def rcv_example_def tr_construct_def tr_stream_out_def ra_construct_def
        bs_construct_def two31_def two64_def)
qed

theorem receiver_integrity_witness:
  "\<exists>r'. tr_segment_received rcv_example (data_segment (WrappingInt32 7) [2, 3]) = Inr r'"
  using receiver_integrity [OF _ _ rcv_example_run] rcv_example_segment by (auto simp: two63_def)

theorem receiver_acknowledges_witness:
  "tr_ackno rcv_example = Some (WrappingInt32 6) \<and> tr_window_size rcv_example = 10"
  using receiver_acknowledges [OF _ _ rcv_example_run]
  by (simp add: two63_def wrap_eq rcv_example_def tr_construct_def tr_stream_out_def ra_construct_def bs_construct_def)

theorem receiver_window_never_shrinks_witness:
  "\<exists>r'. tr_segment_received rcv_example (data_segment (WrappingInt32 7) [2, 3]) = Inr r' \<and>
    bs_bytes_written (tr_stream_out rcv_example) \<le> bs_bytes_written (tr_stream_out r') \<and>
    bs_bytes_written (tr_stream_out rcv_example) + tr_window_size rcv_example \<le>
      bs_bytes_written (tr_stream_out r') + tr_window_size r'"
  by (rule receiver_window_never_shrinks [OF _ _ rcv_example_run rcv_example_segment]) (simp_all add: two63_def)

text \<open>
  A second SYN is not checked against the first: it replaces the initial sequence number of a
  connection that is under way, and with it the meaning of every acknowledgment.
\<close>

theorem receiver_second_syn:
  assumes "th_syn (seg_header seg)" "\<not> th_fin (seg_header seg)" "buffer_str (seg_payload seg) = []"
  shows "tr_segment_received r seg = Inr (r\<lparr>tr_syn_received := True, tr_isn := th_seqno (seg_header seg)\<rparr>)"
  using assms by (simp add: tr_segment_received_def Let_def buffer_size_def)

end
