(* ===== verification/Tcp_Sender.thy ===== *)
theory Tcp_Sender
  imports Byte_Stream Tcp_Segment
begin

text \<open>
  \<open>TCPSender\<close> (\<open>libsponge/tcp_sender.hh\<close>, \<open>tcp_sender.cc\<close>): cuts the outgoing stream into
  segments as far as the peer's window allows, keeps what is not acknowledged and sends the
  oldest of it again when the timer runs out. The loops are \<open>ts_fill_loop\<close> (proved to end) and
  \<open>ts_pop_acked\<close>. The sender's promises hold for arbitrary acknowledgments.
\<close>

section \<open>State and operations\<close>

abbreviation MAX_PAYLOAD_SIZE :: nat where
  "MAX_PAYLOAD_SIZE \<equiv> 1000"

record tcp_sender =
  ts_isn :: wrapping_int32
  ts_fin_sent :: bool
  ts_initial_retransmission_timeout :: nat
  ts_segments_out :: "tcp_segment list"
  ts_current_rto :: nat
  ts_stream :: byte_stream
  ts_next_seqno :: nat
  ts_last_ack_seqno :: nat
  ts_time_elapsed :: nat
  ts_timer_running :: bool
  ts_consecutive_retransmissions :: nat
  ts_segments_outstanding :: "tcp_segment list"
  ts_window_size :: "16 word"

text \<open>\<open>random\<close> stands for the number drawn from \<open>std::random_device\<close>.\<close>

definition ts_construct :: "nat \<Rightarrow> 16 word \<Rightarrow> wrapping_int32 option \<Rightarrow> 32 word \<Rightarrow> tcp_sender" where
  "ts_construct capacity retx_timeout fixed_isn random = \<lparr>
     ts_isn = (case fixed_isn of Some isn \<Rightarrow> isn | None \<Rightarrow> WrappingInt32 random),
     ts_fin_sent = False, ts_initial_retransmission_timeout = unat retx_timeout, ts_segments_out = [],
     ts_current_rto = unat retx_timeout, ts_stream = bs_construct capacity, ts_next_seqno = 0,
     ts_last_ack_seqno = 0, ts_time_elapsed = 0, ts_timer_running = False,
     ts_consecutive_retransmissions = 0, ts_segments_outstanding = [], ts_window_size = 1\<rparr>"

definition ts_bytes_in_flight :: "tcp_sender \<Rightarrow> nat" where
  "ts_bytes_in_flight s = sub64 (ts_next_seqno s) (ts_last_ack_seqno s)"

text \<open>The window \<open>fill_window\<close> works with; it is not changed by the loop.\<close>

definition ts_current_window :: "tcp_sender \<Rightarrow> nat" where
  "ts_current_window s = (if ts_window_size s = 0 then 1 else unat (ts_window_size s))"

text \<open>The segment the loop of \<open>fill_window\<close> builds next: SYN, payload, FIN.\<close>

definition ts_build_segment :: "tcp_sender \<Rightarrow> tcp_sender \<times> tcp_segment" where
  "ts_build_segment s =
     (let seg = (if ts_next_seqno s = 0
            then tcp_segment_default\<lparr>seg_header := tcp_header_default\<lparr>th_syn := True\<rparr>\<rparr>
            else tcp_segment_default);
          window_remain = sub64 (ts_current_window s) (ts_bytes_in_flight s);
          payload_capacity = sub64 window_remain (if th_syn (seg_header seg) then 1 else 0);
          (stream, payload) = bs_read (ts_stream s) (min payload_capacity MAX_PAYLOAD_SIZE);
          s = s\<lparr>ts_stream := stream\<rparr>;
          seg = seg\<lparr>seg_payload := buffer_of payload\<rparr>
      in if \<not> ts_fin_sent s \<and> bs_eof (ts_stream s) \<and> length_in_sequence_space seg < window_remain
         then (s\<lparr>ts_fin_sent := True\<rparr>, seg\<lparr>seg_header := (seg_header seg)\<lparr>th_fin := True\<rparr>\<rparr>)
         else (s, seg))"

text \<open>Numbering it, queueing it for sending and for retransmission, and starting the timer.\<close>

definition ts_enqueue :: "tcp_sender \<Rightarrow> tcp_segment \<Rightarrow> tcp_sender" where
  "ts_enqueue s seg =
     (let seg = seg\<lparr>seg_header := (seg_header seg)\<lparr>th_seqno := wrap (ts_next_seqno s) (ts_isn s)\<rparr>\<rparr>;
          s = s\<lparr>ts_segments_out := ts_segments_out s @ [seg],
                ts_segments_outstanding := ts_segments_outstanding s @ [seg],
                ts_next_seqno := add64 (ts_next_seqno s) (length_in_sequence_space seg)\<rparr>
      in if \<not> ts_timer_running s then s\<lparr>ts_timer_running := True, ts_time_elapsed := 0\<rparr> else s)"

text \<open>
  The body of the loop; the flag tells whether the loop goes on (\<open>False\<close> is one of the two
  \<open>break\<close>s).
\<close>

definition ts_fill_body :: "tcp_sender \<Rightarrow> tcp_sender \<times> bool" where
  "ts_fill_body s =
     (let (s, seg) = ts_build_segment s
      in if length_in_sequence_space seg = 0 then (s, False)
         else (ts_enqueue s seg, \<not> th_fin (seg_header seg)))"

text \<open>
  The loop ends: a body after which it goes on has used up at least one number of the window,
  and never more than was left. This holds for any state, wrapped-around counters included.
\<close>

lemma bs_read_length: "length (snd (bs_read s n)) \<le> n"
  by (auto simp: bs_defs Let_def)

lemma ts_current_window_bounds: "0 < ts_current_window s" "ts_current_window s < two64"
proof -
  have "unat (ts_window_size s) < 65536"
    using unsigned_less [of "ts_window_size s"] by simp
  then show "ts_current_window s < two64"
    by (simp add: ts_current_window_def two64_def)
  show "0 < ts_current_window s"
    by (simp add: ts_current_window_def unat_gt_0)
qed

text \<open>The segment the body builds, with the wrap-around of its window arithmetic resolved.\<close>

definition fb_room :: "tcp_sender \<Rightarrow> nat" where
  "fb_room s = ts_current_window s - ts_bytes_in_flight s"

definition fb_read :: "tcp_sender \<Rightarrow> byte_stream \<times> bytes" where
  "fb_read s = bs_read (ts_stream s)
     (min (fb_room s - (if ts_next_seqno s = 0 then 1 else 0)) MAX_PAYLOAD_SIZE)"

definition fb_fin :: "tcp_sender \<Rightarrow> bool" where
  "fb_fin s \<longleftrightarrow> \<not> ts_fin_sent s \<and> bs_eof (fst (fb_read s)) \<and>
     length (snd (fb_read s)) + (if ts_next_seqno s = 0 then 1 else 0) < fb_room s"

definition fb_seg :: "tcp_sender \<Rightarrow> tcp_segment" where
  "fb_seg s = \<lparr>seg_header = tcp_header_default\<lparr>th_syn := (ts_next_seqno s = 0), th_fin := fb_fin s,
       th_seqno := wrap (ts_next_seqno s) (ts_isn s)\<rparr>, seg_payload = buffer_of (snd (fb_read s))\<rparr>"

definition fb_len :: "tcp_sender \<Rightarrow> nat" where
  "fb_len s = length_in_sequence_space (fb_seg s)"

lemma fb_len_eq:
  "fb_len s = length (snd (fb_read s)) + (if ts_next_seqno s = 0 then 1 else 0) + (if fb_fin s then 1 else 0)"
  by (simp add: fb_len_def fb_seg_def length_in_sequence_space_def tcp_header_default_def)

lemma ts_fill_body_eq:
  assumes fl: "ts_bytes_in_flight s < ts_current_window s"
  shows "ts_fill_body s =
    (if fb_len s = 0 then (s\<lparr>ts_stream := fst (fb_read s), ts_fin_sent := ts_fin_sent s \<or> fb_fin s\<rparr>, False)
     else (s\<lparr>ts_stream := fst (fb_read s), ts_fin_sent := ts_fin_sent s \<or> fb_fin s,
          ts_segments_out := ts_segments_out s @ [fb_seg s],
          ts_segments_outstanding := ts_segments_outstanding s @ [fb_seg s],
          ts_next_seqno := add64 (ts_next_seqno s) (fb_len s),
          ts_timer_running := True,
          ts_time_elapsed := (if ts_timer_running s then ts_time_elapsed s else 0)\<rparr>, \<not> fb_fin s))"
proof -
  have room: "sub64 (ts_current_window s) (ts_bytes_in_flight s) = fb_room s" "0 < fb_room s" "fb_room s < two64"
    using fl ts_current_window_bounds(2) [of s] by (simp_all add: sub64_small fb_room_def)
  then have cap: "sub64 (fb_room s) (if ts_next_seqno s = 0 then 1 else 0) =
      fb_room s - (if ts_next_seqno s = 0 then 1 else 0)"
    by (simp add: sub64_small)
  define seg where "seg = \<lparr>seg_header = tcp_header_default\<lparr>th_syn := (ts_next_seqno s = 0), th_fin := fb_fin s\<rparr>,
      seg_payload = buffer_of (snd (fb_read s))\<rparr>"
  have len: "length_in_sequence_space seg = fb_len s" "th_fin (seg_header seg) = fb_fin s"
    by (simp_all add: seg_def fb_len_eq length_in_sequence_space_def)
  have "ts_build_segment s = (s\<lparr>ts_stream := fst (fb_read s), ts_fin_sent := ts_fin_sent s \<or> fb_fin s\<rparr>, seg)"
  proof (cases "ts_next_seqno s = 0")
    case True
    then show ?thesis
      using room cap by (cases s) (auto simp: ts_build_segment_def Let_def tcp_segment_default_def
          tcp_header_default_def fb_read_def fb_fin_def seg_def split_beta length_in_sequence_space_def)
  next
    case False
    then show ?thesis
      using room cap by (cases s) (auto simp: ts_build_segment_def Let_def tcp_segment_default_def
          tcp_header_default_def fb_read_def fb_fin_def seg_def split_beta length_in_sequence_space_def)
  qed
  moreover have "ts_enqueue (s\<lparr>ts_stream := fst (fb_read s), ts_fin_sent := ts_fin_sent s \<or> fb_fin s\<rparr>) seg =
      s\<lparr>ts_stream := fst (fb_read s), ts_fin_sent := ts_fin_sent s \<or> fb_fin s,
          ts_segments_out := ts_segments_out s @ [fb_seg s],
          ts_segments_outstanding := ts_segments_outstanding s @ [fb_seg s],
          ts_next_seqno := add64 (ts_next_seqno s) (fb_len s),
          ts_timer_running := True,
          ts_time_elapsed := (if ts_timer_running s then ts_time_elapsed s else 0)\<rparr>"
    by (simp add: ts_enqueue_def Let_def seg_def fb_seg_def fb_len_def length_in_sequence_space_def)
  ultimately show ?thesis
    by (simp add: ts_fill_body_def len)
qed

lemma fb_len_le:
  assumes "ts_bytes_in_flight s < ts_current_window s"
  shows "fb_len s \<le> fb_room s"
proof -
  have "length (snd (fb_read s)) \<le> fb_room s - (if ts_next_seqno s = 0 then 1 else 0)"
    using bs_read_length [of "ts_stream s"] unfolding fb_read_def by (rule order_trans) simp
  moreover have "0 < fb_room s"
    using assms by (simp add: fb_room_def)
  ultimately show ?thesis
    by (auto simp: fb_len_eq fb_fin_def split: if_splits)
qed

lemma ts_fill_body_window:
  assumes fl: "ts_bytes_in_flight s < ts_current_window s" and b: "ts_fill_body s = (s', go)"
  shows "ts_window_size s' = ts_window_size s" "ts_last_ack_seqno s' = ts_last_ack_seqno s"
    "ts_bytes_in_flight s' = ts_bytes_in_flight s + fb_len s" "go \<Longrightarrow> 0 < fb_len s"
proof -
  have "ts_bytes_in_flight s + fb_len s < two64"
    using fb_len_le [OF fl] fl ts_current_window_bounds(2) [of s] by (simp add: fb_room_def)
  then have "sub64 (add64 (ts_next_seqno s) (fb_len s)) (ts_last_ack_seqno s) = ts_bytes_in_flight s + fb_len s"
    by (simp add: sub64_add64 ts_bytes_in_flight_def)
  then show "ts_window_size s' = ts_window_size s" "ts_last_ack_seqno s' = ts_last_ack_seqno s"
    "ts_bytes_in_flight s' = ts_bytes_in_flight s + fb_len s" "go \<Longrightarrow> 0 < fb_len s"
    using ts_fill_body_eq [OF fl] b by (auto simp: ts_bytes_in_flight_def split: if_splits)
qed

function ts_fill_loop :: "tcp_sender \<Rightarrow> tcp_sender" where
  "ts_fill_loop s =
     (if ts_bytes_in_flight s < ts_current_window s
      then let (s', go) = ts_fill_body s in if go then ts_fill_loop s' else s'
      else s)"
  by pat_completeness auto

termination
proof (relation "measure (\<lambda>s. ts_current_window s - ts_bytes_in_flight s)")
  fix s s' x go
  assume fl: "ts_bytes_in_flight s < ts_current_window s" and b: "x = ts_fill_body s" "(s', go) = x" and go
  have w: "ts_current_window s' = ts_current_window s" "ts_bytes_in_flight s' = ts_bytes_in_flight s + fb_len s"
      "0 < fb_len s"
    using ts_fill_body_window [OF fl, of s' go] b \<open>go\<close> by (simp_all add: ts_current_window_def)
  then show "(s', s) \<in> measure (\<lambda>s. ts_current_window s - ts_bytes_in_flight s)"
    using fl by simp
qed simp

declare ts_fill_loop.simps [simp del]

definition ts_fill_window :: "tcp_sender \<Rightarrow> tcp_sender" where
  "ts_fill_window s = (if ts_fin_sent s then s else ts_fill_loop s)"

text \<open>The loop of \<open>ack_received\<close> that drops acknowledged segments.\<close>

fun ts_pop_acked :: "wrapping_int32 \<Rightarrow> nat \<Rightarrow> nat \<Rightarrow> tcp_segment list \<Rightarrow> tcp_segment list" where
  "ts_pop_acked isn next_seqno abs_ack [] = []"
| "ts_pop_acked isn next_seqno abs_ack (seg # segs) =
     (let seg_len = length_in_sequence_space seg;
          seg_abs_seq = unwrap (th_seqno (seg_header seg)) isn next_seqno
      in if add64 seg_abs_seq seg_len \<le> abs_ack then ts_pop_acked isn next_seqno abs_ack segs
         else seg # segs)"

definition ts_ack_received :: "tcp_sender \<Rightarrow> wrapping_int32 \<Rightarrow> 16 word \<Rightarrow> tcp_sender" where
  "ts_ack_received s ackno window_size =
     (let abs_ack = unwrap ackno (ts_isn s) (ts_next_seqno s)
      in if ts_next_seqno s < abs_ack then s
         else let s = s\<lparr>ts_window_size := window_size\<rparr>;
                  is_new_data = ts_last_ack_seqno s < abs_ack;
                  s = (if is_new_data then s\<lparr>ts_last_ack_seqno := abs_ack,
                         ts_current_rto := ts_initial_retransmission_timeout s,
                         ts_consecutive_retransmissions := 0, ts_time_elapsed := 0\<rparr> else s);
                  s = s\<lparr>ts_segments_outstanding :=
                         ts_pop_acked (ts_isn s) (ts_next_seqno s) abs_ack (ts_segments_outstanding s)\<rparr>;
                  s = ts_fill_window s
              in if ts_segments_outstanding s = [] then s\<lparr>ts_timer_running := False, ts_time_elapsed := 0\<rparr>
                 else if is_new_data then s\<lparr>ts_timer_running := True\<rparr>
                 else s)"

definition ts_tick :: "tcp_sender \<Rightarrow> nat \<Rightarrow> tcp_sender" where
  "ts_tick s ms_since_last_tick =
     (if \<not> ts_timer_running s then s
      else let s = s\<lparr>ts_time_elapsed := add32 (ts_time_elapsed s) ms_since_last_tick\<rparr>
           in if ts_current_rto s \<le> ts_time_elapsed s \<and> ts_segments_outstanding s \<noteq> []
              then let s = s\<lparr>ts_segments_out := ts_segments_out s @ [hd (ts_segments_outstanding s)]\<rparr>;
                       s = (if 0 < ts_window_size s then s\<lparr>ts_current_rto := mul32 (ts_current_rto s) 2\<rparr> else s)
                   in s\<lparr>ts_consecutive_retransmissions := add32 (ts_consecutive_retransmissions s) 1,
                        ts_time_elapsed := 0\<rparr>
              else s)"

definition ts_send_empty_segment :: "tcp_sender \<Rightarrow> tcp_sender" where
  "ts_send_empty_segment s =
     (let seg = tcp_segment_default\<lparr>seg_header := tcp_header_default\<lparr>th_seqno := wrap (ts_next_seqno s) (ts_isn s)\<rparr>\<rparr>
      in s\<lparr>ts_segments_out := ts_segments_out s @ [seg]\<rparr>)"

definition ts_next_seqno_relative :: "tcp_sender \<Rightarrow> wrapping_int32" where
  "ts_next_seqno_relative s = wrap (ts_next_seqno s) (ts_isn s)"

section \<open>The invariant\<close>

text \<open>
  \<open>W\<close> is everything the application has written. The outstanding segments carry, without a
  gap, the numbers from some \<open>a\<close> on (at most the last acknowledgment, which lies inside the
  first of them) to \<open>next_seqno\<close>.
\<close>

fun ts_tiles :: "bytes \<Rightarrow> wrapping_int32 \<Rightarrow> nat \<Rightarrow> tcp_segment list \<Rightarrow> nat \<Rightarrow> bool" where
  "ts_tiles W isn a [] b = (a = b)"
| "ts_tiles W isn a (seg # segs) b =
     (seg_carries W isn a seg \<and> 0 < length_in_sequence_space seg \<and> length_in_sequence_space seg \<le> 65535 \<and>
      ts_tiles W isn (a + length_in_sequence_space seg) segs b)"

definition seg_ok :: "bytes \<Rightarrow> wrapping_int32 \<Rightarrow> bool \<Rightarrow> tcp_segment \<Rightarrow> bool" where
  "seg_ok W isn fin seg \<longleftrightarrow> (\<exists>a. seg_carries W isn a seg) \<and> (th_fin (seg_header seg) \<longrightarrow> fin)"

definition ts_front :: "bytes \<Rightarrow> tcp_sender \<Rightarrow> nat \<Rightarrow> bool" where
  "ts_front W s a \<longleftrightarrow> ts_tiles W (ts_isn s) a (ts_segments_outstanding s) (ts_next_seqno s) \<and>
     a \<le> ts_last_ack_seqno s \<and>
     (ts_segments_outstanding s \<noteq> [] \<longrightarrow>
       ts_last_ack_seqno s < a + length_in_sequence_space (hd (ts_segments_outstanding s)))"

definition ts_core_inv :: "bytes \<Rightarrow> tcp_sender \<Rightarrow> bool" where
  "ts_core_inv W s \<longleftrightarrow> bs_agrees W (ts_stream s) \<and> bs_bytes_written (ts_stream s) = length W \<and>
     (if ts_next_seqno s = 0 then bs_bytes_read (ts_stream s) = 0 \<and> \<not> ts_fin_sent s
      else ts_next_seqno s = 1 + bs_bytes_read (ts_stream s) + (if ts_fin_sent s then 1 else 0)) \<and>
     (ts_fin_sent s \<longrightarrow> bs_input_ended (ts_stream s) \<and> bs_buffer (ts_stream s) = []) \<and>
     ts_last_ack_seqno s \<le> ts_next_seqno s \<and> ts_next_seqno s - ts_last_ack_seqno s \<le> 65535 \<and>
     (\<exists>a. ts_front W s a) \<and>
     (ts_segments_outstanding s \<noteq> [] \<longrightarrow> ts_timer_running s) \<and>
     (\<forall>seg \<in> set (ts_segments_out s) \<union> set (ts_segments_outstanding s). seg_ok W (ts_isn s) (ts_fin_sent s) seg)"

definition ts_inv :: "bytes \<Rightarrow> tcp_sender \<Rightarrow> bool" where
  "ts_inv W s \<longleftrightarrow> ts_core_inv W s \<and> (ts_timer_running s \<longrightarrow> ts_segments_outstanding s \<noteq> [])"

lemma ts_tiles_append:
  "ts_tiles W isn a (xs @ ys) c \<longleftrightarrow> (\<exists>b. ts_tiles W isn a xs b \<and> ts_tiles W isn b ys c)"
  by (induction W isn a xs c rule: ts_tiles.induct) auto

lemma ts_tiles_le: "ts_tiles W isn a segs b \<Longrightarrow> a \<le> b"
  by (induction W isn a segs b rule: ts_tiles.induct) auto

lemma ts_core_invD:
  assumes "ts_core_inv W s"
  shows "bs_agrees W (ts_stream s)" "bs_bytes_written (ts_stream s) = length W"
    "ts_next_seqno s \<le> length W + 2" "length W + 2 < two63 + 2" "ts_next_seqno s < two64"
    "ts_last_ack_seqno s \<le> ts_next_seqno s"
    "ts_bytes_in_flight s = ts_next_seqno s - ts_last_ack_seqno s"
proof -
  show a: "bs_agrees W (ts_stream s)" "bs_bytes_written (ts_stream s) = length W"
    using assms by (simp_all add: ts_core_inv_def)
  then have "bs_bytes_read (ts_stream s) \<le> length W"
    by (auto simp: bs_agrees_def dest: slice_at_bound)
  then show n: "ts_next_seqno s \<le> length W + 2"
    using assms by (auto simp: ts_core_inv_def split: if_splits)
  show w: "length W + 2 < two63 + 2"
    using a by (simp add: bs_agrees_def)
  then show n64: "ts_next_seqno s < two64"
    using n by (simp add: two63_def two64_def)
  show l: "ts_last_ack_seqno s \<le> ts_next_seqno s"
    using assms by (simp add: ts_core_inv_def)
  then show "ts_bytes_in_flight s = ts_next_seqno s - ts_last_ack_seqno s"
    using n64 by (simp add: ts_bytes_in_flight_def sub64_small)
qed

lemma ts_current_window_le: "ts_current_window s \<le> 65535"
proof -
  have "unat (ts_window_size s) < 65536"
    using unsigned_less [of "ts_window_size s"] by simp
  then show ?thesis
    by (simp add: ts_current_window_def)
qed

lemma seg_ok_fin: "seg_ok W isn fin seg \<Longrightarrow> (fin \<Longrightarrow> fin') \<Longrightarrow> seg_ok W isn fin' seg"
  by (auto simp: seg_ok_def)

text \<open>What the body of the loop reads and builds.\<close>

lemma fb_read_spec:
  assumes inv: "ts_core_inv W s"
  shows "bs_agrees W (fst (fb_read s))" "bs_bytes_written (fst (fb_read s)) = length W"
    "bs_bytes_read (fst (fb_read s)) = bs_bytes_read (ts_stream s) + length (snd (fb_read s))"
    "slice_at W (bs_bytes_read (ts_stream s)) (snd (fb_read s))"
    "bs_input_ended (fst (fb_read s)) = bs_input_ended (ts_stream s)"
    "bs_error (fst (fb_read s)) = bs_error (ts_stream s)"
    "bs_capacity (fst (fb_read s)) = bs_capacity (ts_stream s)"
proof -
  note a = ts_core_invD(1,2) [OF inv]
  show "bs_agrees W (fst (fb_read s))" "slice_at W (bs_bytes_read (ts_stream s)) (snd (fb_read s))"
    "bs_bytes_read (fst (fb_read s)) = bs_bytes_read (ts_stream s) + length (snd (fb_read s))"
    unfolding fb_read_def using bs_source.get_agrees [OF a(1)] bs_source.get_slice [OF a(1)]
      bs_source.get_pos [OF a(1)] by simp_all
  show "bs_bytes_written (fst (fb_read s)) = length W" "bs_input_ended (fst (fb_read s)) = bs_input_ended (ts_stream s)"
    "bs_error (fst (fb_read s)) = bs_error (ts_stream s)" "bs_capacity (fst (fb_read s)) = bs_capacity (ts_stream s)"
    using a(2) by (auto simp: fb_read_def bs_defs Let_def)
qed

lemma fb_seg_spec:
  assumes inv: "ts_core_inv W s" and nf: "\<not> ts_fin_sent s" and len: "0 < fb_len s"
  shows "seg_carries W (ts_isn s) (ts_next_seqno s) (fb_seg s)"
    "ts_next_seqno s + fb_len s = 1 + bs_bytes_read (fst (fb_read s)) + (if fb_fin s then 1 else 0)"
    "add64 (ts_next_seqno s) (fb_len s) = ts_next_seqno s + fb_len s"
    "fb_fin s \<Longrightarrow> bs_input_ended (fst (fb_read s)) \<and> bs_buffer (fst (fb_read s)) = []"
proof -
  note r = fb_read_spec [OF inv] and b = ts_core_invD [OF inv]
  have n: "ts_next_seqno s = 0 \<longrightarrow> bs_bytes_read (ts_stream s) = 0"
    "ts_next_seqno s \<noteq> 0 \<longrightarrow> ts_next_seqno s = 1 + bs_bytes_read (ts_stream s)"
    using inv nf by (auto simp: ts_core_inv_def split: if_splits)
  show fin: "fb_fin s \<Longrightarrow> bs_input_ended (fst (fb_read s)) \<and> bs_buffer (fst (fb_read s)) = []"
    by (simp add: fb_fin_def bs_eof_def bs_buffer_empty_def)
  have end_eq: "fb_fin s \<Longrightarrow> bs_bytes_read (ts_stream s) + length (snd (fb_read s)) = length W"
    using fin r(1-3) by (simp add: bs_agrees_def)
  have pos: "(if ts_next_seqno s = 0 then 0 else ts_next_seqno s - 1) = bs_bytes_read (ts_stream s)"
    using n by auto
  have h: "th_syn (seg_header (fb_seg s)) = (ts_next_seqno s = 0)" "th_fin (seg_header (fb_seg s)) = fb_fin s"
    "th_seqno (seg_header (fb_seg s)) = wrap (ts_next_seqno s) (ts_isn s)"
    "buffer_str (seg_payload (fb_seg s)) = snd (fb_read s)"
    by (simp_all add: fb_seg_def)
  show "seg_carries W (ts_isn s) (ts_next_seqno s) (fb_seg s)"
    using len r(4) end_eq pos unfolding seg_carries_def Let_def h fb_len_def by auto
  show sum: "ts_next_seqno s + fb_len s = 1 + bs_bytes_read (fst (fb_read s)) + (if fb_fin s then 1 else 0)"
    using n r(3) by (auto simp: fb_len_eq)
  have "bs_bytes_read (fst (fb_read s)) \<le> length W"
    using r(1) by (auto simp: bs_agrees_def dest: slice_at_bound)
  then have "ts_next_seqno s + fb_len s < two64"
    using sum b(4) by (simp add: two63_def two64_def split: if_splits)
  then show "add64 (ts_next_seqno s) (fb_len s) = ts_next_seqno s + fb_len s"
    by (rule add64_small)
qed

text \<open>What \<open>fill_window\<close> leaves alone, and what it appends.\<close>

definition ts_filled :: "tcp_sender \<Rightarrow> tcp_sender \<Rightarrow> bool" where
  "ts_filled s s' \<longleftrightarrow> ts_isn s' = ts_isn s \<and> ts_last_ack_seqno s' = ts_last_ack_seqno s \<and>
     ts_window_size s' = ts_window_size s \<and> ts_current_rto s' = ts_current_rto s \<and>
     ts_initial_retransmission_timeout s' = ts_initial_retransmission_timeout s \<and>
     ts_consecutive_retransmissions s' = ts_consecutive_retransmissions s \<and>
     (ts_fin_sent s \<longrightarrow> ts_fin_sent s') \<and> ts_next_seqno s \<le> ts_next_seqno s' \<and>
     bs_error (ts_stream s') = bs_error (ts_stream s) \<and>
     bs_input_ended (ts_stream s') = bs_input_ended (ts_stream s) \<and>
     bs_capacity (ts_stream s') = bs_capacity (ts_stream s) \<and>
     bs_bytes_written (ts_stream s') = bs_bytes_written (ts_stream s) \<and>
     (\<exists>new. ts_segments_out s' = ts_segments_out s @ new \<and>
        ts_segments_outstanding s' = ts_segments_outstanding s @ new)"

lemma ts_filled_refl: "ts_filled s s"
  by (simp add: ts_filled_def)

lemma ts_filled_trans: "ts_filled s t \<Longrightarrow> ts_filled t u \<Longrightarrow> ts_filled s u"
  by (auto simp: ts_filled_def)

lemma ts_front_snoc:
  assumes "ts_front W s a" "seg_carries W (ts_isn s) (ts_next_seqno s) seg"
    "0 < length_in_sequence_space seg" "length_in_sequence_space seg \<le> 65535"
    "ts_segments_outstanding s = [] \<longrightarrow> ts_last_ack_seqno s = ts_next_seqno s"
    and s': "ts_isn s' = ts_isn s" "ts_last_ack_seqno s' = ts_last_ack_seqno s"
      "ts_segments_outstanding s' = ts_segments_outstanding s @ [seg]"
      "ts_next_seqno s' = ts_next_seqno s + length_in_sequence_space seg"
  shows "ts_front W s' a"
  using assms by (cases "ts_segments_outstanding s") (auto simp: ts_front_def ts_tiles_append)

lemma ts_front_empty: "ts_core_inv W s \<Longrightarrow> ts_segments_outstanding s = [] \<Longrightarrow> ts_last_ack_seqno s = ts_next_seqno s"
  by (auto simp: ts_core_inv_def ts_front_def)

lemma ts_fill_body_inv:
  assumes inv: "ts_core_inv W s" and nf: "\<not> ts_fin_sent s"
    and fl: "ts_bytes_in_flight s < ts_current_window s" and b: "ts_fill_body s = (s', go)"
  shows "ts_core_inv W s'" "ts_filled s s'" "go \<Longrightarrow> \<not> ts_fin_sent s'"
    "ts_bytes_in_flight s' \<le> ts_current_window s"
    "\<not> go \<Longrightarrow> ts_fin_sent s' \<or> bs_error (ts_stream s') \<or>
      bs_buffer (ts_stream s') = [] \<and> \<not> bs_input_ended (ts_stream s')"
proof -
  note r = fb_read_spec [OF inv] and D = ts_core_invD [OF inv]
  note eq = ts_fill_body_eq [OF fl]
  note fillb = ts_fill_body_window(3) [OF fl b]
  show "ts_bytes_in_flight s' \<le> ts_current_window s"
    using fillb fb_len_le [OF fl] fl by (simp add: fb_room_def)
  have "fb_len s \<le> 65535"
    using fb_len_le [OF fl] ts_current_window_le [of s] by (simp add: fb_room_def)
  have "ts_core_inv W s' \<and> ts_filled s s' \<and> (go \<longrightarrow> \<not> ts_fin_sent s') \<and>
    (\<not> go \<longrightarrow> ts_fin_sent s' \<or> bs_error (ts_stream s') \<or>
      bs_buffer (ts_stream s') = [] \<and> \<not> bs_input_ended (ts_stream s'))"
  proof (cases "fb_len s = 0")
    case True
    then have z: "ts_next_seqno s \<noteq> 0" "snd (fb_read s) = []" "\<not> fb_fin s"
      by (auto simp: fb_len_eq split: if_splits)
    have s': "s' = s\<lparr>ts_stream := fst (fb_read s)\<rparr>" "\<not> go"
      using eq b True nf z(3) by auto
    have "0 < min (fb_room s - (if ts_next_seqno s = 0 then 1 else 0)) MAX_PAYLOAD_SIZE"
      using fl z(1) by (simp add: fb_room_def)
    then have "bs_error (ts_stream s) \<or> bs_buffer (ts_stream s) = []"
      using z(2) by (auto simp: fb_read_def bs_defs Let_def min_def split: if_splits)
    moreover have "bs_buffer (fst (fb_read s)) = []" if "bs_buffer (ts_stream s) = []"
      using that by (auto simp: fb_read_def bs_defs Let_def)
    moreover have "\<not> bs_input_ended (ts_stream s)" if "bs_buffer (fst (fb_read s)) = []"
      using that z nf fl r(5) by (auto simp: fb_fin_def bs_eof_def bs_buffer_empty_def fb_room_def)
    moreover have "ts_front W s' a" if "ts_front W s a" for a
      using that by (simp add: ts_front_def s')
    ultimately show ?thesis
      using inv r z nf by (auto simp: s' ts_core_inv_def ts_filled_def)
  next
    case False
    then have len: "0 < fb_len s"
      by simp
    note f = fb_seg_spec [OF inv nf len]
    have s': "s' = s\<lparr>ts_stream := fst (fb_read s), ts_fin_sent := fb_fin s,
          ts_segments_out := ts_segments_out s @ [fb_seg s],
          ts_segments_outstanding := ts_segments_outstanding s @ [fb_seg s],
          ts_next_seqno := ts_next_seqno s + fb_len s,
          ts_timer_running := True,
          ts_time_elapsed := (if ts_timer_running s then ts_time_elapsed s else 0)\<rparr>" "go = (\<not> fb_fin s)"
      using eq b False nf f(3) by auto
    obtain a where a: "ts_front W s a"
      using inv by (auto simp: ts_core_inv_def)
    have "ts_front W s' a"
      using ts_front_empty [OF inv] \<open>fb_len s \<le> 65535\<close> len
      by (intro ts_front_snoc [OF a f(1)]) (simp_all add: s' fb_len_def)
    moreover have "seg_ok W (ts_isn s) (fb_fin s) (fb_seg s)"
      using f(1) by (auto simp: seg_ok_def fb_seg_def)
    moreover have "seg_ok W (ts_isn s) (fb_fin s) seg" if "seg \<in> set (ts_segments_out s) \<union> set (ts_segments_outstanding s)" for seg
      using inv that nf by (auto simp: ts_core_inv_def intro: seg_ok_fin)
    moreover have "ts_next_seqno s + fb_len s - ts_last_ack_seqno s \<le> 65535"
      using fillb fb_len_le [OF fl] fl ts_current_window_le [of s] D(6,7) by (simp add: fb_room_def)
    ultimately show ?thesis
      using r f(2,4) D(2,6) len nf by (auto simp: s' ts_core_inv_def ts_filled_def)
  qed
  then show "ts_core_inv W s'" "ts_filled s s'" "go \<Longrightarrow> \<not> ts_fin_sent s'"
    "\<not> go \<Longrightarrow> ts_fin_sent s' \<or> bs_error (ts_stream s') \<or>
      bs_buffer (ts_stream s') = [] \<and> \<not> bs_input_ended (ts_stream s')"
    by auto
qed

lemma ts_fill_loop_spec:
  "ts_core_inv W s \<Longrightarrow> \<not> ts_fin_sent s \<Longrightarrow>
    ts_core_inv W (ts_fill_loop s) \<and> ts_filled s (ts_fill_loop s) \<and>
    ts_bytes_in_flight (ts_fill_loop s) \<le> max (ts_bytes_in_flight s) (ts_current_window s) \<and>
    (ts_fin_sent (ts_fill_loop s) \<or> ts_current_window s \<le> ts_bytes_in_flight (ts_fill_loop s) \<or>
     bs_error (ts_stream (ts_fill_loop s)) \<or>
     bs_buffer (ts_stream (ts_fill_loop s)) = [] \<and> \<not> bs_input_ended (ts_stream (ts_fill_loop s)))"
proof (induction s rule: ts_fill_loop.induct)
  case (1 s)
  show ?case
  proof (cases "ts_bytes_in_flight s < ts_current_window s")
    case True
    obtain s' go where b: "ts_fill_body s = (s', go)"
      by fastforce
    note B = ts_fill_body_inv [OF "1.prems" True b]
    have w: "ts_current_window s' = ts_current_window s"
      using B(2) by (simp add: ts_filled_def ts_current_window_def)
    show ?thesis
    proof (cases go)
      case go: True
      then have "ts_fill_loop s = ts_fill_loop s'"
        using True b by (simp add: ts_fill_loop.simps [of s])
      then show ?thesis
        using "1.IH" [OF True b [symmetric] refl go B(1) B(3) [OF go]] w B(2,4) ts_filled_trans
        by (simp only:) auto
    next
      case False
      then have "ts_fill_loop s = s'"
        using True b by (simp add: ts_fill_loop.simps [of s])
      then show ?thesis
        using B False by auto
    qed
  next
    case False
    then have "ts_fill_loop s = s"
      by (simp add: ts_fill_loop.simps [of s])
    then show ?thesis
      using "1.prems" False by (simp add: ts_filled_refl)
  qed
qed

lemma ts_fill_window_spec:
  assumes "ts_core_inv W s"
  shows "ts_core_inv W (ts_fill_window s)" "ts_filled s (ts_fill_window s)"
    "ts_bytes_in_flight (ts_fill_window s) \<le> max (ts_bytes_in_flight s) (ts_current_window s)"
    "ts_fin_sent (ts_fill_window s) \<or> ts_current_window s \<le> ts_bytes_in_flight (ts_fill_window s) \<or>
     bs_error (ts_stream (ts_fill_window s)) \<or>
     bs_buffer (ts_stream (ts_fill_window s)) = [] \<and> \<not> bs_input_ended (ts_stream (ts_fill_window s))"
  using ts_fill_loop_spec [OF assms] assms by (auto simp: ts_fill_window_def ts_filled_refl)

text \<open>Without new segments the timer is as it was; with new ones it runs.\<close>

lemma ts_fill_loop_timer:
  "ts_timer_running (ts_fill_loop s) \<longrightarrow> ts_timer_running s \<or> ts_segments_outstanding (ts_fill_loop s) \<noteq> []"
proof (induction s rule: ts_fill_loop.induct)
  case (1 s)
  show ?case
  proof (cases "ts_bytes_in_flight s < ts_current_window s")
    case True
    obtain s' go where b: "ts_fill_body s = (s', go)"
      by fastforce
    then have s': "ts_timer_running s' \<longrightarrow> ts_timer_running s \<or> ts_segments_outstanding s' \<noteq> []"
      using ts_fill_body_eq [OF True] by (auto split: if_splits)
    have more: "ts_segments_outstanding s' \<noteq> [] \<longrightarrow> ts_segments_outstanding (ts_fill_loop s') \<noteq> []" for s'
    proof (induction s' rule: ts_fill_loop.induct)
      case (1 s)
      then show ?case
        using ts_fill_body_eq [of s] by (subst ts_fill_loop.simps) (auto simp: split_beta)
    qed
    show ?thesis
      using "1.IH" [OF True b [symmetric] refl] True b s' more [of s']
      by (subst (1 2) ts_fill_loop.simps) auto
  qed (simp add: ts_fill_loop.simps [of s])
qed

lemma ts_fill_window_inv:
  assumes "ts_inv W s"
  shows "ts_inv W (ts_fill_window s)"
  using assms ts_fill_window_spec(1) [of W s] ts_fill_loop_timer [of s]
    ts_fill_window_spec(2) [of W s]
  by (auto simp: ts_inv_def ts_fill_window_def ts_filled_def)

section \<open>Acknowledgments\<close>

text \<open>
  The unwrapping of the sender's own segments is exact, because they lie within a window's
  length of \<open>next_seqno\<close>.
\<close>

lemma ts_pop_acked_spec:
  assumes "ts_tiles W isn a segs n" "n < a + 200000" "n + two31 \<le> two64"
  shows "\<exists>a' dropped. segs = dropped @ ts_pop_acked isn n k segs \<and>
    ts_tiles W isn a' (ts_pop_acked isn n k segs) n \<and>
    (if dropped = [] then a' = a else a' \<le> k \<and> a + length_in_sequence_space (hd segs) \<le> k) \<and>
    (ts_pop_acked isn n k segs \<noteq> [] \<longrightarrow>
      k < a' + length_in_sequence_space (hd (ts_pop_acked isn n k segs)))"
  using assms
proof (induction segs arbitrary: a)
  case (Cons seg segs)
  let ?l = "length_in_sequence_space seg"
  have t: "seg_carries W isn a seg" "0 < ?l" "ts_tiles W isn (a + ?l) segs n"
    using Cons.prems(1) by simp_all
  have "a + ?l \<le> n"
    using ts_tiles_le [OF t(3)] .
  then have near: "wrap_near n a"
    using Cons.prems(2,3) by (simp add: wrap_near_def two31_def)
  have "th_seqno (seg_header seg) = wrap a isn"
    using t(1) by (simp add: seg_carries_def Let_def)
  then have u: "unwrap (th_seqno (seg_header seg)) isn n = a"
    using near by (simp add: wrap_numbering.dec_enc)
  have "a + ?l < two64"
    using \<open>a + ?l \<le> n\<close> Cons.prems(3) two_powers(4) by linarith
  then have pop: "ts_pop_acked isn n k (seg # segs) = (if a + ?l \<le> k then ts_pop_acked isn n k segs else seg # segs)"
    by (simp add: u Let_def add64_small)
  show ?case
  proof (cases "a + ?l \<le> k")
    case True
    have "n < a + ?l + 200000"
      using Cons.prems(2) by simp
    then obtain a' dropped where IH: "segs = dropped @ ts_pop_acked isn n k segs"
        "ts_tiles W isn a' (ts_pop_acked isn n k segs) n"
        "if dropped = [] then a' = a + ?l else a' \<le> k \<and> a + ?l + length_in_sequence_space (hd segs) \<le> k"
        "ts_pop_acked isn n k segs \<noteq> [] \<longrightarrow> k < a' + length_in_sequence_space (hd (ts_pop_acked isn n k segs))"
      using Cons.IH [OF t(3) _ Cons.prems(3)] by blast
    then have "seg # segs = (seg # dropped) @ ts_pop_acked isn n k segs" "a' \<le> k"
      using True by (auto split: if_splits)
    then show ?thesis
      unfolding pop using True IH(2,4) by (intro exI [of _ a'] exI [of _ "seg # dropped"]) simp
  next
    case False
    then show ?thesis
      unfolding pop using Cons.prems(1) by (intro exI [of _ a] exI [of _ "[]"]) simp
  qed
qed simp

text \<open>The state in the middle of \<open>ack_received\<close>, before the window is filled again.\<close>

definition ts_acked :: "tcp_sender \<Rightarrow> nat \<Rightarrow> 16 word \<Rightarrow> tcp_sender" where
  "ts_acked s abs_ack window_size =
     (let s = s\<lparr>ts_window_size := window_size\<rparr>;
          s = (if ts_last_ack_seqno s < abs_ack then s\<lparr>ts_last_ack_seqno := abs_ack,
                 ts_current_rto := ts_initial_retransmission_timeout s,
                 ts_consecutive_retransmissions := 0, ts_time_elapsed := 0\<rparr> else s)
      in s\<lparr>ts_segments_outstanding :=
             ts_pop_acked (ts_isn s) (ts_next_seqno s) abs_ack (ts_segments_outstanding s)\<rparr>)"

lemma ts_ack_received_eq:
  "ts_ack_received s ackno w =
    (let k = unwrap ackno (ts_isn s) (ts_next_seqno s); f = ts_fill_window (ts_acked s k w)
     in if ts_next_seqno s < k then s
        else if ts_segments_outstanding f = [] then f\<lparr>ts_timer_running := False, ts_time_elapsed := 0\<rparr>
        else if ts_last_ack_seqno s < k then f\<lparr>ts_timer_running := True\<rparr> else f)"
  by (simp add: ts_ack_received_def ts_acked_def Let_def)

lemma ts_acked_inv:
  assumes inv: "ts_core_inv W s" and k: "k \<le> ts_next_seqno s"
  shows "ts_core_inv W (ts_acked s k w)"
proof -
  note D = ts_core_invD [OF inv]
  obtain a where a: "ts_front W s a"
    using inv by (auto simp: ts_core_inv_def)
  have n: "ts_next_seqno s + two31 \<le> two64"
    using D(3,4) by (simp add: two31_def two63_def two64_def)
  have "ts_next_seqno s < a + 200000"
  proof (cases "ts_segments_outstanding s")
    case Nil
    then show ?thesis
      using a by (simp add: ts_front_def)
  next
    case (Cons seg segs)
    then have "ts_last_ack_seqno s < a + 65535"
      using a by (auto simp: ts_front_def)
    moreover have "ts_next_seqno s - ts_last_ack_seqno s \<le> 65535"
      using inv by (simp add: ts_core_inv_def)
    ultimately show ?thesis
      by linarith
  qed
  then obtain a' dropped where p: "ts_segments_outstanding s =
        dropped @ ts_pop_acked (ts_isn s) (ts_next_seqno s) k (ts_segments_outstanding s)"
      "ts_tiles W (ts_isn s) a' (ts_pop_acked (ts_isn s) (ts_next_seqno s) k (ts_segments_outstanding s)) (ts_next_seqno s)"
      "if dropped = [] then a' = a else a' \<le> k \<and> a + length_in_sequence_space (hd (ts_segments_outstanding s)) \<le> k"
      "ts_pop_acked (ts_isn s) (ts_next_seqno s) k (ts_segments_outstanding s) \<noteq> [] \<longrightarrow>
        k < a' + length_in_sequence_space (hd (ts_pop_acked (ts_isn s) (ts_next_seqno s) k (ts_segments_outstanding s)))"
    using ts_pop_acked_spec [of W "ts_isn s" a "ts_segments_outstanding s" "ts_next_seqno s" k] a n
    by (auto simp: ts_front_def)
  let ?out = "ts_pop_acked (ts_isn s) (ts_next_seqno s) k (ts_segments_outstanding s)"
  have sub: "set ?out \<subseteq> set (ts_segments_outstanding s)"
    using p(1) by (metis Un_upper2 set_append)
  have last: "ts_last_ack_seqno s < a + length_in_sequence_space (hd (ts_segments_outstanding s))"
    if "ts_segments_outstanding s \<noteq> []"
    using a that by (simp add: ts_front_def)
  have front: "ts_front W (ts_acked s k w) a'"
  proof (cases "ts_last_ack_seqno s < k")
    case True
    then show ?thesis
      using p a by (auto simp: ts_front_def ts_acked_def Let_def split: if_splits)
  next
    case False
    have "dropped = []"
    proof (rule ccontr)
      assume "dropped \<noteq> []"
      then have "ts_segments_outstanding s \<noteq> []" "a + length_in_sequence_space (hd (ts_segments_outstanding s)) \<le> k"
        using p(1,3) by (metis append_is_Nil_conv, simp)
      then show False
        using last False by simp
    qed
    then have "?out = ts_segments_outstanding s" "a' = a"
      using p(1,3) by simp_all
    then show ?thesis
      using a False by (simp add: ts_front_def ts_acked_def Let_def)
  qed
  show ?thesis
    using inv front sub k D(6) by (auto simp: ts_core_inv_def ts_acked_def Let_def)
qed

lemma ts_acked_frame [simp]:
  "ts_isn (ts_acked s k w) = ts_isn s" "ts_next_seqno (ts_acked s k w) = ts_next_seqno s"
  "ts_fin_sent (ts_acked s k w) = ts_fin_sent s" "ts_stream (ts_acked s k w) = ts_stream s"
  "ts_window_size (ts_acked s k w) = w" "ts_segments_out (ts_acked s k w) = ts_segments_out s"
  "ts_last_ack_seqno (ts_acked s k w) = max k (ts_last_ack_seqno s)"
  by (simp_all add: ts_acked_def Let_def)

lemma ts_front_timer [simp]:
  "ts_front W (f\<lparr>ts_timer_running := b\<rparr>) a = ts_front W f a"
  "ts_front W (f\<lparr>ts_timer_running := b, ts_time_elapsed := t\<rparr>) a = ts_front W f a"
  by (simp_all add: ts_front_def)

lemma ts_timer_core_inv:
  assumes "ts_core_inv W f" "ts_segments_outstanding f \<noteq> [] \<longrightarrow> b"
  shows "ts_core_inv W (f\<lparr>ts_timer_running := b\<rparr>)" "ts_core_inv W (f\<lparr>ts_timer_running := b, ts_time_elapsed := t\<rparr>)"
  using assms by (auto simp: ts_core_inv_def)

lemma ts_ack_received_inv:
  assumes "ts_inv W s"
  shows "ts_inv W (ts_ack_received s ackno w)"
proof (cases "ts_next_seqno s < unwrap ackno (ts_isn s) (ts_next_seqno s)")
  case False
  let ?f = "ts_fill_window (ts_acked s (unwrap ackno (ts_isn s) (ts_next_seqno s)) w)"
  have core: "ts_core_inv W ?f"
    using assms False by (intro ts_fill_window_spec(1) ts_acked_inv) (simp_all add: ts_inv_def)
  then show ?thesis
    using False ts_timer_core_inv [OF core, of False] ts_timer_core_inv [OF core, of True]
    by (auto simp: ts_ack_received_eq Let_def ts_inv_def)
qed (use assms in \<open>simp add: ts_ack_received_eq Let_def\<close>)

section \<open>The other operations\<close>

lemma ts_tick_inv:
  assumes "ts_inv W s"
  shows "ts_inv W (ts_tick s ms)"
proof -
  have "hd (ts_segments_outstanding s) \<in> set (ts_segments_outstanding s)" if "ts_segments_outstanding s \<noteq> []"
    using that by simp
  then show ?thesis
    using assms by (auto simp: ts_tick_def Let_def ts_inv_def ts_core_inv_def ts_front_def)
qed

lemma ts_send_empty_segment_inv:
  assumes "ts_inv W s"
  shows "ts_inv W (ts_send_empty_segment s)"
proof -
  have "ts_next_seqno s \<le> length W + 2"
    using assms ts_core_invD(3) [of W s] by (simp add: ts_inv_def)
  then have "seg_ok W (ts_isn s) (ts_fin_sent s) (tcp_segment_default\<lparr>seg_header :=
      tcp_header_default\<lparr>th_seqno := wrap (ts_next_seqno s) (ts_isn s)\<rparr>\<rparr>)"
    by (auto simp: seg_ok_def seg_carries_def tcp_segment_default_def tcp_header_default_def
        length_in_sequence_space_def)
  then show ?thesis
    using assms by (auto simp: ts_send_empty_segment_def Let_def ts_inv_def ts_core_inv_def ts_front_def)
qed

text \<open>Writing more of the stream keeps what was said of the segments sent before.\<close>

lemma seg_carries_mono: "seg_carries W isn a seg \<Longrightarrow> \<not> th_fin (seg_header seg) \<Longrightarrow> seg_carries (W @ x) isn a seg"
  by (auto simp: seg_carries_def Let_def slice_at_mono split: if_splits)

lemma seg_ok_mono: "seg_ok W isn fin seg \<Longrightarrow> (fin \<Longrightarrow> x = [] \<and> fin') \<Longrightarrow> seg_ok (W @ x) isn fin' seg"
  by (cases fin) (auto simp: seg_ok_def intro: seg_carries_mono)

lemma ts_tiles_mono:
  "ts_tiles W isn a segs b \<Longrightarrow> \<forall>seg \<in> set segs. \<not> th_fin (seg_header seg) \<Longrightarrow> ts_tiles (W @ x) isn a segs b"
  by (induction W isn a segs b rule: ts_tiles.induct) (auto intro: seg_carries_mono)

lemma bs_write_extends:
  assumes "bs_agrees W b" "bs_bytes_written b = length W" "length (W @ take (snd (bs_write b data)) data) < two63"
  shows "bs_agrees (W @ take (snd (bs_write b data)) data) (fst (bs_write b data))"
    "bs_bytes_written (fst (bs_write b data)) = length (W @ take (snd (bs_write b data)) data)"
    "bs_input_ended b \<Longrightarrow> snd (bs_write b data) = 0 \<and> fst (bs_write b data) = b"
proof -
  let ?x = "take (snd (bs_write b data)) data"
  have a: "bs_agrees (W @ ?x) b"
    using assms(1,3) by (simp add: bs_agrees_def slice_at_mono)
  have sl: "slice_at (W @ ?x) (bs_bytes_written b) ?x"
    using assms(2) slice_at_end by simp
  show "bs_agrees (W @ ?x) (fst (bs_write b data))"
    by (rule bs_sink.put_agrees [OF a sl])
  show "bs_bytes_written (fst (bs_write b data)) = length (W @ ?x)"
    using bs_sink.put_pos [OF a sl] bs_sink.put_le [OF a, of data] assms(2) by (simp add: min_def)
  show "bs_input_ended b \<Longrightarrow> snd (bs_write b data) = 0 \<and> fst (bs_write b data) = b"
    by (simp add: bs_write_def)
qed

lemma ts_write_inv:
  assumes inv: "ts_inv W s" and n: "bs_write (ts_stream s) data = (b, n)"
    and len: "length (W @ take n data) < two63"
  shows "ts_inv (W @ take n data) (s\<lparr>ts_stream := b\<rparr>)" "ts_fin_sent s \<Longrightarrow> n = 0"
proof -
  have core: "ts_core_inv W s"
    using inv by (simp add: ts_inv_def)
  note D = ts_core_invD(1,2) [OF core]
  have x: "bs_agrees (W @ take n data) b" "bs_bytes_written b = length (W @ take n data)"
    "bs_input_ended (ts_stream s) \<Longrightarrow> n = 0 \<and> b = ts_stream s"
    using bs_write_extends [OF D, of data] n len by simp_all
  have same: "bs_bytes_read b = bs_bytes_read (ts_stream s)" "bs_input_ended b = bs_input_ended (ts_stream s)"
    using n by (auto simp: bs_write_def Let_def split: if_splits)
  show fin: "ts_fin_sent s \<Longrightarrow> n = 0"
    using x(3) core by (simp add: ts_core_inv_def)
  have ok: "seg_ok (W @ take n data) (ts_isn s) (ts_fin_sent s) seg"
    if "seg \<in> set (ts_segments_out s) \<union> set (ts_segments_outstanding s)" for seg
    using core that fin by (auto simp: ts_core_inv_def intro!: seg_ok_mono)
  obtain a where a: "ts_front W s a"
    using core by (auto simp: ts_core_inv_def)
  have "ts_front (W @ take n data) s a"
  proof (cases "ts_fin_sent s")
    case False
    then have "\<forall>seg \<in> set (ts_segments_outstanding s). \<not> th_fin (seg_header seg)"
      using core by (auto simp: ts_core_inv_def seg_ok_def)
    then show ?thesis
      using a ts_tiles_mono by (simp add: ts_front_def)
  qed (use a fin in simp)
  then have "\<exists>a. ts_front (W @ take n data) (s\<lparr>ts_stream := b\<rparr>) a"
    by (auto simp: ts_front_def)
  moreover have "ts_fin_sent s \<longrightarrow> bs_buffer b = []"
    using x(3) core by (auto simp: ts_core_inv_def)
  ultimately show "ts_inv (W @ take n data) (s\<lparr>ts_stream := b\<rparr>)"
    using inv x(1,2) same ok by (auto simp: ts_inv_def ts_core_inv_def)
qed

lemma ts_stream_flags_inv:
  "ts_inv W s \<Longrightarrow> ts_inv W (s\<lparr>ts_stream := bs_end_input (ts_stream s)\<rparr>)"
  "ts_inv W s \<Longrightarrow> ts_inv W (s\<lparr>ts_stream := bs_set_error (ts_stream s)\<rparr>)"
  by (auto simp: ts_inv_def ts_core_inv_def ts_front_def bs_agrees_def bs_end_input_def bs_set_error_def)

lemma ts_pop_inv: "ts_inv W s \<Longrightarrow> ts_inv W (s\<lparr>ts_segments_out := tl (ts_segments_out s)\<rparr>)"
  by (cases "ts_segments_out s") (auto simp: ts_inv_def ts_core_inv_def ts_front_def)

lemma ts_construct_inv:
  "capacity < two63 \<Longrightarrow> ts_inv [] (ts_construct capacity retx fixed random)"
  by (simp add: ts_inv_def ts_core_inv_def ts_construct_def ts_front_def bs_construct_def bs_agrees_def)

section \<open>Runs\<close>

text \<open>
  Everything the owner of a sender can do: write to and end its stream, call its methods with
  any arguments (acknowledgments from the network are not trusted), and take segments off its
  queue. A run remembers what was accepted from the writer and what was taken off the queue.
\<close>

datatype ts_event = TsWrite bytes | TsEndInput | TsFillWindow | TsAck wrapping_int32 "16 word"
  | TsTick nat | TsSendEmpty | TsPop

record ts_run =
  tsr_sender :: tcp_sender
  tsr_written :: bytes
  tsr_sent :: "tcp_segment list"

fun ts_run_step :: "ts_run \<Rightarrow> ts_event \<Rightarrow> ts_run" where
  "ts_run_step q (TsWrite data) = (let (b, n) = bs_write (ts_stream (tsr_sender q)) data
     in q\<lparr>tsr_sender := (tsr_sender q)\<lparr>ts_stream := b\<rparr>, tsr_written := tsr_written q @ take n data\<rparr>)"
| "ts_run_step q TsEndInput =
     q\<lparr>tsr_sender := (tsr_sender q)\<lparr>ts_stream := bs_end_input (ts_stream (tsr_sender q))\<rparr>\<rparr>"
| "ts_run_step q TsFillWindow = q\<lparr>tsr_sender := ts_fill_window (tsr_sender q)\<rparr>"
| "ts_run_step q (TsAck ackno window_size) = q\<lparr>tsr_sender := ts_ack_received (tsr_sender q) ackno window_size\<rparr>"
| "ts_run_step q (TsTick ms) = q\<lparr>tsr_sender := ts_tick (tsr_sender q) ms\<rparr>"
| "ts_run_step q TsSendEmpty = q\<lparr>tsr_sender := ts_send_empty_segment (tsr_sender q)\<rparr>"
| "ts_run_step q TsPop =
     q\<lparr>tsr_sender := (tsr_sender q)\<lparr>ts_segments_out := tl (ts_segments_out (tsr_sender q))\<rparr>,
       tsr_sent := tsr_sent q @ take 1 (ts_segments_out (tsr_sender q))\<rparr>"

definition ts_run_init :: "nat \<Rightarrow> 16 word \<Rightarrow> wrapping_int32 \<Rightarrow> ts_run" where
  "ts_run_init capacity retx_timeout isn = \<lparr>tsr_sender = ts_construct capacity retx_timeout (Some isn) 0,
     tsr_written = [], tsr_sent = []\<rparr>"

definition ts_run_inv :: "wrapping_int32 \<Rightarrow> ts_run \<Rightarrow> bool" where
  "ts_run_inv isn q \<longleftrightarrow> (length (tsr_written q) < two63 \<longrightarrow>
     ts_inv (tsr_written q) (tsr_sender q) \<and> ts_isn (tsr_sender q) = isn \<and>
     (\<forall>seg \<in> set (tsr_sent q). seg_ok (tsr_written q) isn (ts_fin_sent (tsr_sender q)) seg))"

lemma ts_ack_received_frame:
  assumes "ts_inv W s"
  shows "ts_isn (ts_ack_received s ackno w) = ts_isn s" "ts_fin_sent s \<Longrightarrow> ts_fin_sent (ts_ack_received s ackno w)"
    "ts_next_seqno s \<le> ts_next_seqno (ts_ack_received s ackno w)"
proof -
  let ?k = "unwrap ackno (ts_isn s) (ts_next_seqno s)"
  have "ts_filled (ts_acked s ?k w) (ts_fill_window (ts_acked s ?k w))" if "?k \<le> ts_next_seqno s"
    using assms that by (intro ts_fill_window_spec(2) [of W] ts_acked_inv) (simp_all add: ts_inv_def)
  then show "ts_isn (ts_ack_received s ackno w) = ts_isn s"
    "ts_fin_sent s \<Longrightarrow> ts_fin_sent (ts_ack_received s ackno w)"
    "ts_next_seqno s \<le> ts_next_seqno (ts_ack_received s ackno w)"
    by (auto simp: ts_ack_received_eq Let_def ts_filled_def not_less)
qed

lemma ts_tick_frame [simp]:
  "ts_isn (ts_tick s ms) = ts_isn s" "ts_fin_sent (ts_tick s ms) = ts_fin_sent s"
  "ts_stream (ts_tick s ms) = ts_stream s" "ts_next_seqno (ts_tick s ms) = ts_next_seqno s"
  "ts_last_ack_seqno (ts_tick s ms) = ts_last_ack_seqno s"
  "ts_segments_outstanding (ts_tick s ms) = ts_segments_outstanding s"
  "ts_window_size (ts_tick s ms) = ts_window_size s"
  by (simp_all add: ts_tick_def Let_def)

lemma ts_send_empty_frame [simp]:
  "ts_isn (ts_send_empty_segment s) = ts_isn s" "ts_fin_sent (ts_send_empty_segment s) = ts_fin_sent s"
  "ts_stream (ts_send_empty_segment s) = ts_stream s"
  by (simp_all add: ts_send_empty_segment_def)

lemma ts_run_step_written: "\<exists>x. tsr_written (ts_run_step q e) = tsr_written q @ x"
  by (cases e) (auto simp: split_beta)

lemma ts_run_step_inv:
  assumes "ts_run_inv isn q"
  shows "ts_run_inv isn (ts_run_step q e)"
  unfolding ts_run_inv_def
proof (rule impI)
  assume len': "length (tsr_written (ts_run_step q e)) < two63"
  define s W where "s = tsr_sender q" and "W = tsr_written q"
  have "length W < two63"
    using len' ts_run_step_written [of q e] by (auto simp: W_def)
  then have inv: "ts_inv W s" "ts_isn s = isn"
      and sent: "\<forall>seg \<in> set (tsr_sent q). seg_ok W isn (ts_fin_sent s) seg"
    using assms by (simp_all add: ts_run_inv_def s_def W_def)
  have core: "ts_core_inv W s"
    using inv by (simp add: ts_inv_def)
  let ?P = "\<lambda>W s sent. ts_inv W s \<and> ts_isn s = isn \<and> (\<forall>seg \<in> set sent. seg_ok W isn (ts_fin_sent s) seg)"
  have keep: "?P W s' (tsr_sent q)" if "ts_inv W s'" "ts_isn s' = isn" "ts_fin_sent s \<longrightarrow> ts_fin_sent s'" for s'
    using that sent by (auto intro: seg_ok_fin)
  have "?P (tsr_written (ts_run_step q e)) (tsr_sender (ts_run_step q e)) (tsr_sent (ts_run_step q e))"
  proof (cases e)
    case (TsWrite data)
    obtain b n where w: "bs_write (ts_stream s) data = (b, n)"
      by fastforce
    have "length (W @ take n data) < two63"
      using len' TsWrite w by (simp add: s_def W_def)
    note wi = ts_write_inv [OF inv(1) w this]
    have "seg_ok (W @ take n data) isn (ts_fin_sent s) seg" if "seg \<in> set (tsr_sent q)" for seg
      by (rule seg_ok_mono [of W isn "ts_fin_sent s"]) (use sent that wi(2) in auto)
    then show ?thesis
      using TsWrite w wi(1) inv(2) by (simp add: s_def [symmetric] W_def [symmetric])
  next
    case TsFillWindow
    then show ?thesis
      using keep [OF ts_fill_window_inv [OF inv(1)]] ts_fill_window_spec(2) [OF core] inv(2)
      by (simp add: s_def [symmetric] W_def [symmetric] ts_filled_def)
  next
    case (TsAck ackno w)
    then show ?thesis
      using keep [OF ts_ack_received_inv [OF inv(1)]] ts_ack_received_frame [OF inv(1)] inv(2)
      by (simp add: s_def [symmetric] W_def [symmetric])
  next
    case TsPop
    have "seg \<in> set (ts_segments_out s)" if "seg \<in> set (take 1 (ts_segments_out s))" for seg
      using that by (rule in_set_takeD)
    then have "seg_ok W isn (ts_fin_sent s) seg" if "seg \<in> set (take 1 (ts_segments_out s))" for seg
      using core inv(2) that by (auto simp: ts_core_inv_def)
    then show ?thesis
      using TsPop ts_pop_inv [OF inv(1)] inv(2) sent by (auto simp: s_def [symmetric] W_def [symmetric])
  next
    case TsEndInput
    then show ?thesis
      using keep [OF ts_stream_flags_inv(1) [OF inv(1)]] inv(2) by (simp add: s_def [symmetric] W_def [symmetric])
  next
    case (TsTick ms)
    then show ?thesis
      using keep [OF ts_tick_inv [OF inv(1)]] inv(2) by (simp add: s_def [symmetric] W_def [symmetric])
  next
    case TsSendEmpty
    then show ?thesis
      using keep [OF ts_send_empty_segment_inv [OF inv(1)]] inv(2) by (simp add: s_def [symmetric] W_def [symmetric])
  qed
  then show "ts_inv (tsr_written (ts_run_step q e)) (tsr_sender (ts_run_step q e)) \<and>
     ts_isn (tsr_sender (ts_run_step q e)) = isn \<and>
     (\<forall>seg \<in> set (tsr_sent (ts_run_step q e)).
        seg_ok (tsr_written (ts_run_step q e)) isn (ts_fin_sent (tsr_sender (ts_run_step q e))) seg)" .
qed

interpretation ts_machine: machine ts_run_step "ts_run_inv isn" "\<lambda>_. True" for isn
  by unfold_locales (rule ts_run_step_inv)

lemma ts_run_inv_reached:
  assumes "capacity < two63"
  shows "ts_run_inv isn (foldl ts_run_step (ts_run_init capacity retx isn) es)"
proof (rule ts_machine.run_inv)
  show "ts_run_inv isn (ts_run_init capacity retx isn)"
    using ts_construct_inv [OF assms, of retx "Some isn" 0]
    by (simp add: ts_run_inv_def ts_run_init_def) (simp add: ts_construct_def)
qed (simp add: list_all_iff)

section \<open>Properties\<close>

text \<open>
  C10: Every segment is genuine. Whatever calls the sender gets, with whatever acknowledgments,
  every segment it ever queued, first transmissions and retransmissions alike, carries the
  right piece of what the application wrote under the right sequence number: SYN exactly on
  number 0, FIN only directly after the last byte.
\<close>

theorem sender_genuine:
  assumes "capacity < two63"
    and "length (tsr_written (foldl ts_run_step (ts_run_init capacity retx isn) es)) < two63"
  shows "let q = foldl ts_run_step (ts_run_init capacity retx isn) es in
    \<forall>seg \<in> set (tsr_sent q) \<union> set (ts_segments_out (tsr_sender q)).
      \<exists>a. seg_carries (tsr_written q) isn a seg"
  using ts_run_inv_reached [OF assms(1), of isn retx es] assms(2)
  by (auto simp: Let_def ts_run_inv_def ts_inv_def ts_core_inv_def seg_ok_def)

lemma ts_tiles_cover:
  "ts_tiles W isn a segs b \<Longrightarrow> a \<le> n \<Longrightarrow> n < b \<Longrightarrow>
    \<exists>seg \<in> set segs. \<exists>c. seg_carries W isn c seg \<and> c \<le> n \<and> n < c + length_in_sequence_space seg"
proof (induction W isn a segs b rule: ts_tiles.induct)
  case (2 W isn a seg segs b)
  then show ?case
    by (cases "n < a + length_in_sequence_space seg") auto
qed simp

text \<open>
  C15: Nothing unacknowledged is forgotten. In every state a run reaches, the acknowledged
  number is at most the next one and within 65535 of it, every number in between is carried by
  a segment that is kept for retransmission, and the timer runs exactly while there is one.
\<close>

theorem sender_keeps_unacknowledged:
  assumes "capacity < two63"
    and "length (tsr_written (foldl ts_run_step (ts_run_init capacity retx isn) es)) < two63"
  shows "let q = foldl ts_run_step (ts_run_init capacity retx isn) es; s = tsr_sender q in
    ts_last_ack_seqno s \<le> ts_next_seqno s \<and> ts_next_seqno s \<le> ts_last_ack_seqno s + 65535 \<and>
    (\<forall>n \<in> {ts_last_ack_seqno s ..< ts_next_seqno s}. \<exists>seg \<in> set (ts_segments_outstanding s).
       \<exists>a. seg_carries (tsr_written q) isn a seg \<and> a \<le> n \<and> n < a + length_in_sequence_space seg) \<and>
    (ts_timer_running s \<longleftrightarrow> ts_segments_outstanding s \<noteq> [])"
proof -
  define q where "q = foldl ts_run_step (ts_run_init capacity retx isn) es"
  define s where "s = tsr_sender q"
  have inv: "ts_inv (tsr_written q) s" "ts_isn s = isn"
    using ts_run_inv_reached [OF assms(1), of isn retx es] assms(2)
    by (simp_all add: ts_run_inv_def q_def s_def)
  obtain a where a: "ts_front (tsr_written q) s a"
    using inv(1) by (auto simp: ts_inv_def ts_core_inv_def)
  have "\<exists>seg \<in> set (ts_segments_outstanding s). \<exists>a. seg_carries (tsr_written q) isn a seg \<and>
      a \<le> n \<and> n < a + length_in_sequence_space seg"
    if "n \<in> {ts_last_ack_seqno s ..< ts_next_seqno s}" for n
    using ts_tiles_cover [of "tsr_written q" isn a "ts_segments_outstanding s" "ts_next_seqno s" n]
      a inv(2) that by (auto simp: ts_front_def)
  then show ?thesis
    using inv(1) by (auto simp: Let_def q_def [symmetric] s_def [symmetric] ts_inv_def ts_core_inv_def)
qed

text \<open>
  C24: The window is respected and used. From any state of a run, fill_window never brings
  more numbers into flight than the peer's window allows (counting a zero window as one) unless
  they were in flight before, and it stops only when the window is full, the FIN is sent, the
  stream has failed, or there is nothing to send.
\<close>

theorem sender_fills_window:
  assumes "ts_inv W s"
  shows "let s' = ts_fill_window s in
    ts_bytes_in_flight s' \<le> max (ts_bytes_in_flight s) (max 1 (unat (ts_window_size s))) \<and>
    (ts_fin_sent s' \<or> max 1 (unat (ts_window_size s)) \<le> ts_bytes_in_flight s' \<or> bs_error (ts_stream s') \<or>
     bs_buffer (ts_stream s') = [] \<and> \<not> bs_input_ended (ts_stream s'))"
proof -
  have "ts_current_window s = max 1 (unat (ts_window_size s))"
    using unat_gt_0 [of "ts_window_size s"] by (auto simp: ts_current_window_def max_def)
  then show ?thesis
    using ts_fill_window_spec(3,4) [of W s] assms by (simp add: ts_inv_def Let_def)
qed

text \<open>
  Acknowledgments. In any state of a run, an acknowledgment of a number k that was sent
  and is not yet acknowledged moves the left edge to k, resets the timeout to its initial value
  and the retransmission count to zero, and leaves no outstanding segment that k covers; one of
  a number beyond the next to be sent changes nothing.
\<close>

theorem sender_ack:
  assumes "ts_inv W s" "k \<le> ts_next_seqno s + 1000000" "ts_last_ack_seqno s < k"
  shows "let s' = ts_ack_received s (wrap k (ts_isn s)) w in
    if k \<le> ts_next_seqno s
    then ts_last_ack_seqno s' = k \<and> ts_window_size s' = w \<and>
      ts_current_rto s' = ts_initial_retransmission_timeout s \<and> ts_consecutive_retransmissions s' = 0 \<and>
      (\<exists>a. ts_tiles W (ts_isn s) a (ts_segments_outstanding s') (ts_next_seqno s') \<and> a \<le> k \<and>
        (ts_segments_outstanding s' \<noteq> [] \<longrightarrow> k < a + length_in_sequence_space (hd (ts_segments_outstanding s'))))
    else s' = s"
proof -
  have core: "ts_core_inv W s"
    using assms(1) by (simp add: ts_inv_def)
  note D = ts_core_invD [OF core]
  have "ts_next_seqno s - ts_last_ack_seqno s \<le> 65535"
    using core by (simp add: ts_core_inv_def)
  then have "wrap_near (ts_next_seqno s) k"
    using assms(2,3) D(3,4) by (simp add: wrap_near_def two31_def two63_def two64_def)
  then have u: "unwrap (wrap k (ts_isn s)) (ts_isn s) (ts_next_seqno s) = k"
    by (rule wrap_numbering.dec_enc)
  show ?thesis
  proof (cases "k \<le> ts_next_seqno s")
    case True
    let ?f = "ts_fill_window (ts_acked s k w)" and ?s' = "ts_ack_received s (wrap k (ts_isn s)) w"
    have f: "ts_filled (ts_acked s k w) ?f"
      by (rule ts_fill_window_spec(2) [OF ts_acked_inv [OF core True]])
    have acked: "ts_current_rto (ts_acked s k w) = ts_initial_retransmission_timeout s"
      "ts_consecutive_retransmissions (ts_acked s k w) = 0"
      using assms(3) by (simp_all add: ts_acked_def)
    have s': "ts_last_ack_seqno ?s' = k" "ts_window_size ?s' = w" "ts_isn ?s' = ts_isn s"
      "ts_current_rto ?s' = ts_initial_retransmission_timeout s" "ts_consecutive_retransmissions ?s' = 0"
      using f acked u True assms(3) by (auto simp: ts_ack_received_eq Let_def ts_filled_def max_def)
    obtain a where "ts_front W ?s' a"
      using ts_ack_received_inv [OF assms(1), of "wrap k (ts_isn s)" w]
      unfolding ts_inv_def ts_core_inv_def by blast
    then show ?thesis
      using s' True by (auto simp: Let_def ts_front_def)
  qed (simp add: ts_ack_received_eq Let_def u)
qed

section \<open>Retransmission\<close>

text \<open>
  Time passes in ticks of any sizes. A period is a list of ticks of which the last one, and no
  earlier one, reaches the timeout; \<open>ts_timeout s n\<close> is the timeout after \<open>n\<close> retransmissions.
\<close>

definition tick_period :: "nat \<Rightarrow> nat list \<Rightarrow> bool" where
  "tick_period timeout ds \<longleftrightarrow> ds \<noteq> [] \<and> sum_list (butlast ds) < timeout \<and> timeout \<le> sum_list ds \<and> sum_list ds < two32"

definition ts_timeout :: "tcp_sender \<Rightarrow> nat \<Rightarrow> nat" where
  "ts_timeout s n = (if 0 < ts_window_size s then ts_current_rto s * 2 ^ n else ts_current_rto s)"

lemma ts_timeout_elapsed [simp]: "ts_timeout (s\<lparr>ts_time_elapsed := t\<rparr>) n = ts_timeout s n"
  by (simp add: ts_timeout_def)

lemma ts_timeout_Suc: "ts_timeout s (Suc n) = (if 0 < ts_window_size s then ts_timeout s n * 2 else ts_timeout s n)"
  by (simp add: ts_timeout_def)

lemma ts_timeout_mono: "m \<le> n \<Longrightarrow> ts_timeout s m \<le> ts_timeout s n"
  by (simp add: ts_timeout_def power_increasing)

lemma ts_timeout_zero [simp]: "ts_timeout s 0 = ts_current_rto s"
  by (simp add: ts_timeout_def)

lemma tick_periodE:
  assumes "tick_period timeout ds"
  obtains es d where "ds = es @ [d]" "sum_list es < timeout" "timeout \<le> sum_list es + d" "sum_list es + d < two32"
proof
  show "ds = butlast ds @ [last ds]"
    using assms by (simp add: tick_period_def)
  moreover have "sum_list ds = sum_list (butlast ds) + last ds"
    using arg_cong [OF calculation, of sum_list] by simp
  ultimately show "sum_list (butlast ds) < timeout" "timeout \<le> sum_list (butlast ds) + last ds"
    "sum_list (butlast ds) + last ds < two32"
    using assms by (simp_all add: tick_period_def)
qed

text \<open>One tick with the timer running: short of the timeout, and reaching it.\<close>

lemma ts_tick_quiet:
  assumes "ts_timer_running s" "ts_time_elapsed s + d < ts_current_rto s" "ts_current_rto s < two32"
  shows "ts_tick s d = s\<lparr>ts_time_elapsed := ts_time_elapsed s + d\<rparr>"
  using assms by (simp add: ts_tick_def Let_def add32_def)

lemma ts_tick_expire:
  assumes "ts_timer_running s" "ts_segments_outstanding s = seg # segs"
    and "ts_current_rto s \<le> ts_time_elapsed s + d" "ts_time_elapsed s + d < two32"
    and "ts_timeout s 1 < two32" "Suc (ts_consecutive_retransmissions s) < two32"
  shows "ts_tick s d = s\<lparr>ts_segments_out := ts_segments_out s @ [seg], ts_current_rto := ts_timeout s 1,
    ts_consecutive_retransmissions := Suc (ts_consecutive_retransmissions s), ts_time_elapsed := 0\<rparr>"
  using assms by (cases "0 < ts_window_size s") (simp_all add: ts_tick_def Let_def add32_def mul32_def ts_timeout_def)

lemma ts_ticks_quiet:
  "ts_timer_running s \<Longrightarrow> ts_time_elapsed s + sum_list ds < ts_current_rto s \<Longrightarrow> ts_current_rto s < two32 \<Longrightarrow>
    foldl ts_tick s ds = s\<lparr>ts_time_elapsed := ts_time_elapsed s + sum_list ds\<rparr>"
proof (induction ds arbitrary: s)
  case (Cons d ds)
  then show ?case
    using ts_tick_quiet [of s d] by (simp add: add.assoc)
qed simp

lemma ts_ticks_period:
  assumes "ts_timer_running s" "ts_segments_outstanding s = seg # segs" "ts_time_elapsed s = 0"
    and "tick_period (ts_current_rto s) ds" "ts_timeout s 1 < two32" "Suc (ts_consecutive_retransmissions s) < two32"
  shows "foldl ts_tick s ds = s\<lparr>ts_segments_out := ts_segments_out s @ [seg], ts_current_rto := ts_timeout s 1,
    ts_consecutive_retransmissions := Suc (ts_consecutive_retransmissions s), ts_time_elapsed := 0\<rparr>"
proof -
  obtain es d where ds: "ds = es @ [d]" "sum_list es < ts_current_rto s" "ts_current_rto s \<le> sum_list es + d"
    "sum_list es + d < two32"
    by (rule tick_periodE [OF assms(4)])
  have "ts_current_rto s < two32"
    using ds by linarith
  then have "foldl ts_tick s es = s\<lparr>ts_time_elapsed := sum_list es\<rparr>"
    using ts_ticks_quiet [of s es] assms(1,3) ds(2) by simp
  then show ?thesis
    using ts_tick_expire [of "s\<lparr>ts_time_elapsed := sum_list es\<rparr>" seg segs d] assms ds
    by simp
qed

text \<open>
  C25: Retransmission and backoff. A sender with something outstanding gets no acknowledgment, and
  time passes in ticks of any sizes since its timer was started. The oldest outstanding segment is
  queued again at exactly those ticks at which the time since the last such tick (at first, since
  the start) reaches the timeout, and at no other. While the window is open each timeout is twice
  the one before it, so that the n-th comes after 2^(n-1) times the first one; while the window is
  zero all are equal. Every one is counted; nothing else that is outstanding changes. Timeouts,
  what is counted up to them and the number of retransmissions fit the 32-bit fields.
\<close>

theorem sender_backoff:
  assumes "ts_timer_running s" "ts_segments_outstanding s = seg # segs" "ts_time_elapsed s = 0"
    and "\<forall>i < length ps. tick_period (ts_timeout s i) (ps ! i)" "sum_list q < ts_timeout s (length ps)"
    and "ts_timeout s (length ps) < two32" "ts_consecutive_retransmissions s + length ps < two32"
  shows "let s' = foldl ts_tick s (concat ps @ q) in
    ts_segments_out s' = ts_segments_out s @ replicate (length ps) seg \<and>
    ts_segments_outstanding s' = seg # segs \<and> ts_current_rto s' = ts_timeout s (length ps) \<and>
    ts_consecutive_retransmissions s' = ts_consecutive_retransmissions s + length ps \<and>
    ts_time_elapsed s' = sum_list q"
  using assms
proof (induction ps arbitrary: s)
  case Nil
  then show ?case
    using ts_ticks_quiet [of s q] by (simp add: Let_def)
next
  case (Cons p ps)
  let ?t = "s\<lparr>ts_segments_out := ts_segments_out s @ [seg], ts_current_rto := ts_timeout s 1,
    ts_consecutive_retransmissions := Suc (ts_consecutive_retransmissions s), ts_time_elapsed := 0\<rparr>"
  have timeout: "ts_timeout ?t n = ts_timeout s (Suc n)" for n
    by (simp add: ts_timeout_def)
  have "ts_timeout s 1 \<le> ts_timeout s (length (p # ps))"
    by (simp add: ts_timeout_def)
  then have one: "ts_timeout s 1 < two32"
    using Cons.prems(6) by linarith
  have "tick_period (ts_current_rto s) p"
    using Cons.prems(4) [rule_format, of 0] by simp
  then have first: "foldl ts_tick s p = ?t"
    using ts_ticks_period [OF Cons.prems(1-3)] Cons.prems(7) one by simp
  have "tick_period (ts_timeout ?t i) (ps ! i)" if "i < length ps" for i
    unfolding timeout using Cons.prems(4) [rule_format, of "Suc i"] that by simp
  then have rest: "\<forall>i < length ps. tick_period (ts_timeout ?t i) (ps ! i)"
    by blast
  show ?case
    using Cons.IH [OF _ _ _ rest, unfolded timeout] Cons.prems by (simp add: first Let_def)
qed

section \<open>Witnesses\<close>

text \<open>A sender that has sent its SYN, computed from the code's definitions.\<close>

definition ts_example :: tcp_sender where
  "ts_example = ts_fill_window (ts_construct 10 1000 (Some (WrappingInt32 5)) 0)"

definition ts_example_syn :: tcp_segment where
  "ts_example_syn = \<lparr>seg_header = tcp_header_default\<lparr>th_syn := True, th_seqno := WrappingInt32 5\<rparr>,
     seg_payload = buffer_of []\<rparr>"

lemma ts_example_eq:
  "ts_example = (ts_construct 10 1000 (Some (WrappingInt32 5)) 0)\<lparr>ts_segments_out := [ts_example_syn],
     ts_segments_outstanding := [ts_example_syn], ts_next_seqno := 1, ts_timer_running := True\<rparr>"
proof -
  have "ts_fill_loop (ts_construct 10 1000 (Some (WrappingInt32 5)) 0) =
    (ts_construct 10 1000 (Some (WrappingInt32 5)) 0)\<lparr>ts_segments_out := [ts_example_syn],
     ts_segments_outstanding := [ts_example_syn], ts_next_seqno := 1, ts_timer_running := True\<rparr>"
    by (simp add: ts_fill_loop.simps ts_fill_body_def ts_build_segment_def ts_enqueue_def Let_def
        ts_construct_def ts_current_window_def ts_bytes_in_flight_def sub64_def add64_def bs_defs two64_def
        length_in_sequence_space_def tcp_segment_default_def tcp_header_default_def ts_example_syn_def
        wrap_zero nat_mod_distrib)
  then show ?thesis
    by (simp add: ts_example_def ts_fill_window_def ts_construct_def)
qed

lemma ts_example_inv: "ts_inv [] ts_example"
  unfolding ts_example_def by (intro ts_fill_window_inv ts_construct_inv) (simp add: two63_def)

lemma ts_example_written:
  "tsr_written (foldl ts_run_step (ts_run_init 10 1000 (WrappingInt32 5)) [TsWrite [1, 2, 3], TsFillWindow]) = [1, 2, 3]"
  by (simp add: ts_run_init_def ts_construct_def bs_defs Let_def sub64_def two64_def nat_mod_distrib)

lemma ts_example_run:
  "foldl ts_run_step (ts_run_init 10 1000 (WrappingInt32 5)) [TsFillWindow] =
    \<lparr>tsr_sender = ts_example, tsr_written = [], tsr_sent = []\<rparr>"
  by (simp add: ts_run_init_def ts_example_def)

theorem sender_genuine_witness:
  "\<exists>a. seg_carries [] (WrappingInt32 5) a ts_example_syn"
  using sender_genuine [of 10 1000 "WrappingInt32 5" "[TsFillWindow]"]
  unfolding ts_example_run Let_def by (simp add: two63_def ts_example_eq)

theorem sender_keeps_unacknowledged_witness:
  "let s = tsr_sender (foldl ts_run_step (ts_run_init 10 1000 (WrappingInt32 5)) [TsWrite [1, 2, 3], TsFillWindow]) in
    ts_timer_running s \<longleftrightarrow> ts_segments_outstanding s \<noteq> []"
  using sender_keeps_unacknowledged [of 10 1000 "WrappingInt32 5" "[TsWrite [1, 2, 3], TsFillWindow]"]
  unfolding ts_example_written Let_def by (simp add: two63_def)

theorem sender_fills_window_witness:
  "ts_bytes_in_flight (ts_fill_window ts_example) \<le> 1"
  using sender_fills_window [OF ts_example_inv]
  by (simp add: Let_def ts_example_eq ts_construct_def ts_bytes_in_flight_def sub64_def two64_def nat_mod_distrib)

theorem sender_ack_witness:
  "ts_last_ack_seqno (ts_ack_received ts_example (WrappingInt32 6) 20) = 1"
  using sender_ack [OF ts_example_inv, of 1 20] by (simp add: Let_def ts_example_eq ts_construct_def wrap_eq)

text \<open>Timeouts after 1000, 2000 and 4000 milliseconds, the first two reached in several ticks.\<close>

theorem sender_backoff_witness:
  "ts_current_rto (foldl ts_tick ts_example [400, 599, 1, 1999, 500, 4000, 7999]) = 8000 \<and>
   ts_segments_out (foldl ts_tick ts_example [400, 599, 1, 1999, 500, 4000, 7999]) = ts_example_syn # replicate 3 ts_example_syn"
proof -
  let ?ps = "[[400, 599, 1], [1999, 500], [4000]] :: nat list list"
  have s: "ts_timer_running ts_example" "ts_segments_outstanding ts_example = ts_example_syn # []"
    "ts_time_elapsed ts_example = 0" "ts_timeout ts_example n = 1000 * 2 ^ n" "ts_consecutive_retransmissions ts_example = 0"
    "ts_segments_out ts_example = [ts_example_syn]" for n
    by (simp_all add: ts_example_eq ts_construct_def ts_timeout_def)
  have "\<forall>i < length ?ps. tick_period (ts_timeout ts_example i) (?ps ! i)"
    by (auto simp: s(4) tick_period_def two32_def less_Suc_eq)
  moreover have "sum_list [7999] < ts_timeout ts_example (length ?ps)" "ts_timeout ts_example (length ?ps) < two32"
    "ts_consecutive_retransmissions ts_example + length ?ps < two32"
    by (simp_all add: s(4,5) two32_def)
  ultimately show ?thesis
    using sender_backoff [OF s(1-3), of ?ps "[7999]"] by (simp add: s(4,6) Let_def numeral_3_eq_3)
qed

end
