(* ===== verification/Tcp_State.thy ===== *)
theory Tcp_State
  imports Tcp_Receiver Tcp_Sender
begin

text \<open>
  \<open>TCPState\<close> (\<open>libsponge/tcp_helpers/tcp_state.hh\<close>, \<open>tcp_state.cc\<close>): the summary of a sender
  and a receiver that the connection bases its decisions on, and the official states of the
  TCP specification written as such summaries. The summaries are proved to mean what their
  texts say.
\<close>

section \<open>Summaries\<close>

text \<open>The string constants of \<open>TCPReceiverStateSummary\<close> and \<open>TCPSenderStateSummary\<close>.\<close>

datatype receiver_summary = RCV_ERROR | RCV_LISTEN | RCV_SYN_RECV | RCV_FIN_RECV

datatype sender_summary = SND_ERROR | SND_CLOSED | SND_SYN_SENT | SND_SYN_ACKED | SND_FIN_SENT | SND_FIN_ACKED

fun receiver_summary_text :: "receiver_summary \<Rightarrow> string" where
  "receiver_summary_text RCV_ERROR = ''error (connection was reset)''"
| "receiver_summary_text RCV_LISTEN = ''waiting for SYN: ackno is empty''"
| "receiver_summary_text RCV_SYN_RECV = ''SYN received (ackno exists), and input to stream hasn't ended''"
| "receiver_summary_text RCV_FIN_RECV = ''input to stream has ended''"

fun sender_summary_text :: "sender_summary \<Rightarrow> string" where
  "sender_summary_text SND_ERROR = ''error (connection was reset)''"
| "sender_summary_text SND_CLOSED = ''waiting for stream to begin (no SYN sent)''"
| "sender_summary_text SND_SYN_SENT = ''stream started but nothing acknowledged''"
| "sender_summary_text SND_SYN_ACKED = ''stream ongoing''"
| "sender_summary_text SND_FIN_SENT = ''stream finished (FIN sent) but not fully acknowledged''"
| "sender_summary_text SND_FIN_ACKED = ''stream finished and fully acknowledged''"

text \<open>Comparing the texts, as the code does, is comparing the summaries.\<close>

lemma summary_text_inj: "inj receiver_summary_text" "inj sender_summary_text"
proof -
  show "inj receiver_summary_text"
  proof (rule injI)
    fix a b assume "receiver_summary_text a = receiver_summary_text b"
    then show "a = b"
      by (cases a; cases b) simp_all
  qed
  show "inj sender_summary_text"
  proof (rule injI)
    fix a b assume "sender_summary_text a = sender_summary_text b"
    then show "a = b"
      by (cases a; cases b) simp_all
  qed
qed

definition state_summary_receiver :: "tcp_receiver \<Rightarrow> receiver_summary" where
  "state_summary_receiver receiver =
     (if bs_error (tr_stream_out receiver) then RCV_ERROR
      else if tr_ackno receiver = None then RCV_LISTEN
      else if bs_input_ended (tr_stream_out receiver) then RCV_FIN_RECV
      else RCV_SYN_RECV)"

definition state_summary_sender :: "tcp_sender \<Rightarrow> sender_summary" where
  "state_summary_sender sender =
     (if bs_error (ts_stream sender) then SND_ERROR
      else if ts_next_seqno sender = 0 then SND_CLOSED
      else if ts_next_seqno sender = ts_bytes_in_flight sender then SND_SYN_SENT
      else if \<not> bs_eof (ts_stream sender) then SND_SYN_ACKED
      else if ts_next_seqno sender < add64 (bs_bytes_written (ts_stream sender)) 2 then SND_SYN_ACKED
      else if ts_bytes_in_flight sender \<noteq> 0 then SND_FIN_SENT
      else SND_FIN_ACKED)"

section \<open>States\<close>

record tcp_state =
  st_sender :: sender_summary
  st_receiver :: receiver_summary
  st_active :: bool
  st_linger_after_streams_finish :: bool

datatype official_state = LISTEN | SYN_RCVD | SYN_SENT | ESTABLISHED | CLOSE_WAIT | LAST_ACK
  | FIN_WAIT_1 | FIN_WAIT_2 | CLOSING | TIME_WAIT | CLOSED | RESET

definition tcp_state_construct :: "tcp_sender \<Rightarrow> tcp_receiver \<Rightarrow> bool \<Rightarrow> bool \<Rightarrow> tcp_state" where
  "tcp_state_construct sender receiver active linger =
     \<lparr>st_sender = state_summary_sender sender, st_receiver = state_summary_receiver receiver,
      st_active = active, st_linger_after_streams_finish = (if active then linger else False)\<rparr>"

fun tcp_state_of_official :: "official_state \<Rightarrow> tcp_state" where
  "tcp_state_of_official LISTEN = \<lparr>st_sender = SND_CLOSED, st_receiver = RCV_LISTEN,
     st_active = True, st_linger_after_streams_finish = True\<rparr>"
| "tcp_state_of_official SYN_RCVD = \<lparr>st_sender = SND_SYN_SENT, st_receiver = RCV_SYN_RECV,
     st_active = True, st_linger_after_streams_finish = True\<rparr>"
| "tcp_state_of_official SYN_SENT = \<lparr>st_sender = SND_SYN_SENT, st_receiver = RCV_LISTEN,
     st_active = True, st_linger_after_streams_finish = True\<rparr>"
| "tcp_state_of_official ESTABLISHED = \<lparr>st_sender = SND_SYN_ACKED, st_receiver = RCV_SYN_RECV,
     st_active = True, st_linger_after_streams_finish = True\<rparr>"
| "tcp_state_of_official CLOSE_WAIT = \<lparr>st_sender = SND_SYN_ACKED, st_receiver = RCV_FIN_RECV,
     st_active = True, st_linger_after_streams_finish = False\<rparr>"
| "tcp_state_of_official LAST_ACK = \<lparr>st_sender = SND_FIN_SENT, st_receiver = RCV_FIN_RECV,
     st_active = True, st_linger_after_streams_finish = False\<rparr>"
| "tcp_state_of_official CLOSING = \<lparr>st_sender = SND_FIN_SENT, st_receiver = RCV_FIN_RECV,
     st_active = True, st_linger_after_streams_finish = True\<rparr>"
| "tcp_state_of_official FIN_WAIT_1 = \<lparr>st_sender = SND_FIN_SENT, st_receiver = RCV_SYN_RECV,
     st_active = True, st_linger_after_streams_finish = True\<rparr>"
| "tcp_state_of_official FIN_WAIT_2 = \<lparr>st_sender = SND_FIN_ACKED, st_receiver = RCV_SYN_RECV,
     st_active = True, st_linger_after_streams_finish = True\<rparr>"
| "tcp_state_of_official TIME_WAIT = \<lparr>st_sender = SND_FIN_ACKED, st_receiver = RCV_FIN_RECV,
     st_active = True, st_linger_after_streams_finish = True\<rparr>"
| "tcp_state_of_official RESET = \<lparr>st_sender = SND_ERROR, st_receiver = RCV_ERROR,
     st_active = False, st_linger_after_streams_finish = False\<rparr>"
| "tcp_state_of_official CLOSED = \<lparr>st_sender = SND_FIN_ACKED, st_receiver = RCV_FIN_RECV,
     st_active = False, st_linger_after_streams_finish = False\<rparr>"

definition bool_text :: "bool \<Rightarrow> string" where
  "bool_text b = (if b then ''1'' else ''0'')"

definition tcp_state_eq :: "tcp_state \<Rightarrow> tcp_state \<Rightarrow> bool" where
  "tcp_state_eq a b \<longleftrightarrow> st_active a = st_active b \<and>
     st_linger_after_streams_finish a = st_linger_after_streams_finish b \<and>
     sender_summary_text (st_sender a) = sender_summary_text (st_sender b) \<and>
     receiver_summary_text (st_receiver a) = receiver_summary_text (st_receiver b)"

definition tcp_state_name :: "tcp_state \<Rightarrow> string" where
  "tcp_state_name s = ''sender=`'' @ sender_summary_text (st_sender s) @ ''`, receiver=`'' @
     receiver_summary_text (st_receiver s) @ ''`, active='' @ bool_text (st_active s) @
     '', linger_after_streams_finish='' @ bool_text (st_linger_after_streams_finish s)"

text \<open>\<open>operator==\<close> is equality of the states.\<close>

lemma tcp_state_eq_iff: "tcp_state_eq a b \<longleftrightarrow> a = b"
  using summary_text_inj by (auto simp: tcp_state_eq_def inj_eq)

section \<open>Properties\<close>

text \<open>
  The sender's summary. In every state of a sender's run without an error, the summary
  says where its stream stands: CLOSED before anything was sent, SYN_SENT while not even the
  SYN is acknowledged, SYN_ACKED until the FIN is sent, FIN_SENT until all is acknowledged, and
  FIN_ACKED once the FIN after the last byte written is acknowledged.
\<close>

theorem sender_summary_meaning:
  assumes "ts_inv W s" "\<not> bs_error (ts_stream s)"
  shows "state_summary_sender s =
    (if ts_next_seqno s = 0 then SND_CLOSED
     else if ts_last_ack_seqno s = 0 then SND_SYN_SENT
     else if \<not> ts_fin_sent s then SND_SYN_ACKED
     else if ts_last_ack_seqno s < length W + 2 then SND_FIN_SENT
     else SND_FIN_ACKED)"
proof -
  have core: "ts_core_inv W s"
    using assms(1) by (simp add: ts_inv_def)
  note D = ts_core_invD [OF core]
  have flight: "ts_bytes_in_flight s = ts_next_seqno s - ts_last_ack_seqno s"
    using D(7) .
  have w: "add64 (bs_bytes_written (ts_stream s)) 2 = length W + 2"
    using D(2,4) by (simp add: add64_small two63_def two64_def)
  have eof: "bs_eof (ts_stream s) \<Longrightarrow> bs_bytes_read (ts_stream s) = length W"
    using D(1,2) by (simp add: bs_eof_def bs_buffer_empty_def bs_agrees_def)
  have fin: "ts_fin_sent s \<Longrightarrow> bs_eof (ts_stream s)"
    using core by (simp add: ts_core_inv_def bs_eof_def bs_buffer_empty_def)
  have n: "ts_next_seqno s \<noteq> 0 \<Longrightarrow>
      ts_next_seqno s = 1 + bs_bytes_read (ts_stream s) + (if ts_fin_sent s then 1 else 0)"
    using core by (simp add: ts_core_inv_def)
  show ?thesis
  proof (cases "ts_next_seqno s = 0")
    case False
    show ?thesis
      using False assms(2) n [OF False] eof fin D(6) w flight
      by (cases "ts_fin_sent s"; cases "bs_eof (ts_stream s)") (auto simp: state_summary_sender_def)
  qed (use assms(2) in \<open>simp add: state_summary_sender_def\<close>)
qed

theorem sender_summary_meaning_witness:
  "state_summary_sender ts_example = SND_SYN_SENT"
  using sender_summary_meaning [OF ts_example_inv]
  by (simp add: ts_example_eq ts_construct_def bs_construct_def)

text \<open>
  The official states are told apart: no two of the twelve states have equal summaries,
  neither by operator== nor by their names.
\<close>

theorem official_states_distinct:
  "tcp_state_eq (tcp_state_of_official a) (tcp_state_of_official b) = (a = b)"
  by (cases a; cases b) (simp_all add: tcp_state_eq_iff)

end
