(* ===== verification/Tcp_Connection.thy ===== *)
theory Tcp_Connection
  imports Tcp_State
begin

text \<open>
  \<open>TCPConnection\<close> (\<open>libsponge/tcp_connection.hh\<close>, \<open>tcp_connection.cc\<close>): one peer of a TCP
  connection, a sender and a receiver joined by the rules for acknowledging, resetting and
  closing. The handlers are \<open>tc_segment_received\<close>, \<open>tc_tick\<close>, \<open>tc_connect\<close>, \<open>tc_write\<close>,
  \<open>tc_end_input_stream\<close> and the destructor \<open>tc_destroy\<close>. Every one of them keeps the sender's
  invariant (\<open>conn_step\<close>) and the meaning of being over (\<open>conn_over\<close>).
\<close>

section \<open>State\<close>

record tcp_config =
  cfg_rt_timeout :: "16 word"
  cfg_recv_capacity :: nat
  cfg_send_capacity :: nat
  cfg_fixed_isn :: "wrapping_int32 option"

abbreviation MAX_RETX_ATTEMPTS :: nat where
  "MAX_RETX_ATTEMPTS \<equiv> 8"

definition tcp_config_default :: tcp_config where
  "tcp_config_default = \<lparr>cfg_rt_timeout = 1000, cfg_recv_capacity = 64000, cfg_send_capacity = 64000,
     cfg_fixed_isn = None\<rparr>"

record tcp_connection =
  tc_cfg :: tcp_config
  tc_receiver :: tcp_receiver
  tc_sender :: tcp_sender
  tc_segments_out :: "tcp_segment list"
  tc_linger_after_streams_finish :: bool
  tc_is_active :: bool
  tc_time_since_last_segment_received :: nat

text \<open>\<open>random\<close> is what the sender draws when the configuration fixes no initial number.\<close>

definition tc_construct :: "tcp_config \<Rightarrow> 32 word \<Rightarrow> tcp_connection" where
  "tc_construct cfg random = \<lparr>tc_cfg = cfg, tc_receiver = tr_construct (cfg_recv_capacity cfg),
     tc_sender = ts_construct (cfg_send_capacity cfg) (cfg_rt_timeout cfg) (cfg_fixed_isn cfg) random,
     tc_segments_out = [], tc_linger_after_streams_finish = True, tc_is_active = True,
     tc_time_since_last_segment_received = 0\<rparr>"

section \<open>Accessors\<close>

definition tc_remaining_outbound_capacity :: "tcp_connection \<Rightarrow> nat" where
  "tc_remaining_outbound_capacity c = bs_remaining_capacity (ts_stream (tc_sender c))"

definition tc_bytes_in_flight :: "tcp_connection \<Rightarrow> nat" where
  "tc_bytes_in_flight c = ts_bytes_in_flight (tc_sender c)"

definition tc_unassembled_bytes :: "tcp_connection \<Rightarrow> nat" where
  "tc_unassembled_bytes c = tr_unassembled_bytes (tc_receiver c)"

definition tc_inbound_stream :: "tcp_connection \<Rightarrow> byte_stream" where
  "tc_inbound_stream c = tr_stream_out (tc_receiver c)"

definition tc_active :: "tcp_connection \<Rightarrow> bool" where
  "tc_active c =
     (if \<not> tc_is_active c then False
      else let out = ts_stream (tc_sender c);
               streams_closed = (bs_input_ended (tr_stream_out (tc_receiver c)) \<and> bs_eof out \<and>
                 ts_bytes_in_flight (tc_sender c) = 0 \<and>
                 ts_next_seqno (tc_sender c) = add64 (bs_bytes_written out) 2)
           in if streams_closed
              then if \<not> tc_linger_after_streams_finish c then False
                   else if 10 * unat (cfg_rt_timeout (tc_cfg c)) \<le> tc_time_since_last_segment_received c then False
                   else True
              else True)"

definition tc_state :: "tcp_connection \<Rightarrow> tcp_state" where
  "tc_state c = tcp_state_construct (tc_sender c) (tc_receiver c) (tc_active c)
     (tc_linger_after_streams_finish c)"

section \<open>Operations\<close>

text \<open>The body of the loop of \<open>_send_segments\<close>: the receiver's fields of an outgoing segment.\<close>

definition tc_stamp :: "tcp_receiver \<Rightarrow> tcp_segment \<Rightarrow> tcp_segment" where
  "tc_stamp receiver seg = (case tr_ackno receiver of
     None \<Rightarrow> seg
   | Some ackno \<Rightarrow> seg\<lparr>seg_header := (seg_header seg)\<lparr>th_ack := True, th_ackno := ackno,
       th_win := of_nat (if 65535 < tr_window_size receiver then 65535 else tr_window_size receiver)\<rparr>\<rparr>)"

fun tc_send_loop :: "tcp_receiver \<Rightarrow> tcp_segment list \<Rightarrow> tcp_segment list \<Rightarrow> tcp_segment list" where
  "tc_send_loop receiver [] out = out"
| "tc_send_loop receiver (seg # segs) out = tc_send_loop receiver segs (out @ [tc_stamp receiver seg])"

definition tc_send_segments :: "tcp_connection \<Rightarrow> tcp_connection" where
  "tc_send_segments c = c\<lparr>
     tc_segments_out := tc_send_loop (tc_receiver c) (ts_segments_out (tc_sender c)) (tc_segments_out c),
     tc_sender := (tc_sender c)\<lparr>ts_segments_out := []\<rparr>\<rparr>"

definition tr_set_error :: "tcp_receiver \<Rightarrow> tcp_receiver" where
  "tr_set_error r = r\<lparr>tr_reassembler := (tr_reassembler r)\<lparr>ra_output := bs_set_error (tr_stream_out r)\<rparr>\<rparr>"

definition tc_rst_segment :: "tcp_sender \<Rightarrow> tcp_segment" where
  "tc_rst_segment sender = tcp_segment_default\<lparr>seg_header :=
     tcp_header_default\<lparr>th_rst := True, th_seqno := ts_next_seqno_relative sender\<rparr>\<rparr>"

definition tc_set_rst_state :: "tcp_connection \<Rightarrow> bool \<Rightarrow> tcp_connection" where
  "tc_set_rst_state c send_rst =
     (let c = (if send_rst then c\<lparr>tc_segments_out := tc_segments_out c @ [tc_rst_segment (tc_sender c)]\<rparr> else c)
      in c\<lparr>tc_receiver := tr_set_error (tc_receiver c),
           tc_sender := (tc_sender c)\<lparr>ts_stream := bs_set_error (ts_stream (tc_sender c))\<rparr>,
           tc_is_active := False\<rparr>)"

definition tc_connect :: "tcp_connection \<Rightarrow> tcp_connection" where
  "tc_connect c = tc_send_segments
     (c\<lparr>tc_sender := ts_fill_window (tc_sender c), tc_is_active := True\<rparr>)"

definition tc_write :: "tcp_connection \<Rightarrow> bytes \<Rightarrow> tcp_connection \<times> nat" where
  "tc_write c data =
     (let (stream, written) = bs_write (ts_stream (tc_sender c)) data;
          c = c\<lparr>tc_sender := ts_fill_window ((tc_sender c)\<lparr>ts_stream := stream\<rparr>)\<rparr>
      in (tc_send_segments c, written))"

definition tc_end_input_stream :: "tcp_connection \<Rightarrow> tcp_connection" where
  "tc_end_input_stream c =
     (let sender = (tc_sender c)\<lparr>ts_stream := bs_end_input (ts_stream (tc_sender c))\<rparr>
      in tc_send_segments (c\<lparr>tc_sender := ts_fill_window sender\<rparr>))"

definition tc_tick :: "tcp_connection \<Rightarrow> nat \<Rightarrow> tcp_connection" where
  "tc_tick c ms_since_last_tick =
     (if \<not> tc_is_active c then c
      else let c = c\<lparr>tc_time_since_last_segment_received :=
                       add64 (tc_time_since_last_segment_received c) ms_since_last_tick,
                     tc_sender := ts_tick (tc_sender c) ms_since_last_tick\<rparr>
           in if MAX_RETX_ATTEMPTS < ts_consecutive_retransmissions (tc_sender c)
              then tc_set_rst_state c True
              else let c = tc_send_segments c
                   in if \<not> tc_active c then c\<lparr>tc_is_active := False\<rparr> else c)"

text \<open>The replies of \<open>segment_received\<close>: to a segment with numbers, and to a keep-alive.\<close>

definition tc_reply :: "tcp_connection \<Rightarrow> tcp_segment \<Rightarrow> tcp_connection" where
  "tc_reply c seg =
     (let c = (if 0 < length_in_sequence_space seg
               then let sender = ts_fill_window (tc_sender c)
                    in c\<lparr>tc_sender := (if ts_segments_out sender = [] then ts_send_empty_segment sender else sender)\<rparr>
               else c);
          c = (case tr_ackno (tc_receiver c) of
                 None \<Rightarrow> c
               | Some ackno \<Rightarrow>
                   if length_in_sequence_space seg = 0 \<and> wint_eq (th_seqno (seg_header seg)) (wint_minus ackno 1)
                   then c\<lparr>tc_sender := ts_send_empty_segment (tc_sender c)\<rparr> else c)
      in tc_send_segments c)"

definition tc_segment_received :: "tcp_connection \<Rightarrow> tcp_segment \<Rightarrow> exn + tcp_connection" where
  "tc_segment_received c seg =
     (if \<not> tc_is_active c then Inr c
      else let c = c\<lparr>tc_time_since_last_segment_received := 0\<rparr>
           in if th_rst (seg_header seg) then Inr (tc_set_rst_state c False)
              else case tr_segment_received (tc_receiver c) seg of
                Inl e \<Rightarrow> Inl e
              | Inr receiver \<Rightarrow>
                  let c = c\<lparr>tc_receiver := receiver\<rparr>;
                      c = (if th_ack (seg_header seg)
                           then c\<lparr>tc_sender := ts_ack_received (tc_sender c) (th_ackno (seg_header seg))
                                    (th_win (seg_header seg))\<rparr>
                           else c)
                  in if state_summary_receiver (tc_receiver c) = RCV_SYN_RECV \<and> ts_next_seqno (tc_sender c) = 0
                     then Inr (tc_connect c)
                     else let c = (if state_summary_receiver (tc_receiver c) = RCV_FIN_RECV \<and>
                                      state_summary_sender (tc_sender c) = SND_SYN_ACKED
                                   then c\<lparr>tc_linger_after_streams_finish := False\<rparr> else c)
                          in Inr (tc_reply c seg))"

definition tc_destroy :: "tcp_connection \<Rightarrow> tcp_connection" where
  "tc_destroy c = (if tc_active c then tc_set_rst_state c True else c)"

lemma tc_send_loop_eq: "tc_send_loop receiver segs out = out @ map (tc_stamp receiver) segs"
  by (induction receiver segs out rule: tc_send_loop.induct) simp_all

lemma tc_send_segments_eq: "tc_send_segments c = c\<lparr>
     tc_segments_out := tc_segments_out c @ map (tc_stamp (tc_receiver c)) (ts_segments_out (tc_sender c)),
     tc_sender := (tc_sender c)\<lparr>ts_segments_out := []\<rparr>\<rparr>"
  by (simp add: tc_send_segments_def tc_send_loop_eq)

lemma tc_stamp_frame [simp]:
  "th_seqno (seg_header (tc_stamp r seg)) = th_seqno (seg_header seg)"
  "th_syn (seg_header (tc_stamp r seg)) = th_syn (seg_header seg)"
  "th_fin (seg_header (tc_stamp r seg)) = th_fin (seg_header seg)"
  "th_rst (seg_header (tc_stamp r seg)) = th_rst (seg_header seg)"
  "seg_payload (tc_stamp r seg) = seg_payload seg"
  "length_in_sequence_space (tc_stamp r seg) = length_in_sequence_space seg"
  by (auto simp: tc_stamp_def length_in_sequence_space_def split: option.splits)

lemma seg_ok_stamp [simp]: "seg_ok W isn fin (tc_stamp r seg) = seg_ok W isn fin seg"
  unfolding seg_ok_def seg_carries_def Let_def tc_stamp_frame ..

section \<open>The sending side\<close>

text \<open>
  \<open>conn_ok W isn c\<close>: the sender's invariant, and the queue holds only genuine segments.
  \<open>conn_kept c c'\<close>: what every operation leaves alone or only moves forward.
\<close>

definition conn_ok :: "bytes \<Rightarrow> wrapping_int32 \<Rightarrow> tcp_connection \<Rightarrow> bool" where
  "conn_ok W isn c \<longleftrightarrow> ts_inv W (tc_sender c) \<and> ts_isn (tc_sender c) = isn \<and>
     (\<forall>seg \<in> set (tc_segments_out c). seg_ok W isn (ts_fin_sent (tc_sender c)) seg)"

definition snd_kept :: "tcp_sender \<Rightarrow> tcp_sender \<Rightarrow> bool" where
  "snd_kept s s' \<longleftrightarrow> ts_isn s' = ts_isn s \<and> (ts_fin_sent s \<longrightarrow> ts_fin_sent s') \<and>
     (bs_input_ended (ts_stream s) \<longrightarrow> bs_input_ended (ts_stream s')) \<and>
     (bs_error (ts_stream s) \<longrightarrow> bs_error (ts_stream s'))"

definition snd_step :: "bytes \<Rightarrow> tcp_sender \<Rightarrow> tcp_sender \<Rightarrow> bool" where
  "snd_step W s s' \<longleftrightarrow> (ts_inv W s \<longrightarrow> ts_inv W s' \<and> snd_kept s s')"

lemma snd_kept_refl [simp]: "snd_kept s s"
  by (simp add: snd_kept_def)

lemma snd_kept_trans: "snd_kept s t \<Longrightarrow> snd_kept t u \<Longrightarrow> snd_kept s u"
  by (simp add: snd_kept_def)

lemma snd_step_refl [simp]: "snd_step W s s"
  by (simp add: snd_step_def)

lemma snd_step_trans: "snd_step W s t \<Longrightarrow> snd_step W t u \<Longrightarrow> snd_step W s u"
  by (auto simp: snd_step_def intro: snd_kept_trans)

lemma snd_kept_filled: "ts_filled s t \<Longrightarrow> snd_kept s t"
  by (simp add: ts_filled_def snd_kept_def)

lemma snd_step_fill: "snd_step W s (ts_fill_window s)"
  using ts_fill_window_inv [of W s] ts_fill_window_spec(2) [of W s]
  by (auto simp: snd_step_def ts_inv_def intro: snd_kept_filled)

lemma snd_step_ack: "snd_step W s (ts_ack_received s ackno w)"
proof -
  have "snd_kept s (ts_ack_received s ackno w)" if inv: "ts_inv W s"
  proof (cases "ts_next_seqno s < unwrap ackno (ts_isn s) (ts_next_seqno s)")
    case False
    have "ts_core_inv W s"
      using inv by (simp add: ts_inv_def)
    then have "ts_filled (ts_acked s (unwrap ackno (ts_isn s) (ts_next_seqno s)) w)
        (ts_fill_window (ts_acked s (unwrap ackno (ts_isn s) (ts_next_seqno s)) w))"
      using False by (intro ts_fill_window_spec(2) ts_acked_inv) simp_all
    then show ?thesis
      using False by (auto simp: ts_ack_received_eq Let_def ts_filled_def snd_kept_def)
  qed (simp add: ts_ack_received_eq Let_def)
  then show ?thesis
    using ts_ack_received_inv [of W s] by (simp add: snd_step_def)
qed

lemma snd_step_tick: "snd_step W s (ts_tick s ms)"
  using ts_tick_inv [of W s] by (simp add: snd_step_def snd_kept_def)

lemma snd_step_empty: "snd_step W s (ts_send_empty_segment s)"
  using ts_send_empty_segment_inv [of W s] by (simp add: snd_step_def snd_kept_def)

lemma snd_step_sent: "snd_step W s (s\<lparr>ts_segments_out := []\<rparr>)"
  by (auto simp: snd_step_def snd_kept_def ts_inv_def ts_core_inv_def ts_front_def)

lemma snd_step_flags: "snd_step W s (s\<lparr>ts_stream := bs_end_input (ts_stream s)\<rparr>)"
    "snd_step W s (s\<lparr>ts_stream := bs_set_error (ts_stream s)\<rparr>)"
  using ts_stream_flags_inv [of W s] by (auto simp: snd_step_def snd_kept_def bs_end_input_def bs_set_error_def)

definition conn_step :: "bytes \<Rightarrow> tcp_connection \<Rightarrow> tcp_connection \<Rightarrow> bool" where
  "conn_step W c c' \<longleftrightarrow> (\<forall>isn. conn_ok W isn c \<longrightarrow> conn_ok W isn c' \<and> snd_kept (tc_sender c) (tc_sender c'))"

lemma conn_step_refl [simp]: "conn_step W c c"
  by (simp add: conn_step_def)

lemma conn_step_trans [trans]: "conn_step W c d \<Longrightarrow> conn_step W d e \<Longrightarrow> conn_step W c e"
  unfolding conn_step_def by (blast intro: snd_kept_trans)

lemma conn_step_sender: "snd_step W (tc_sender c) s \<Longrightarrow> conn_step W c (c\<lparr>tc_sender := s\<rparr>)"
  by (auto simp: conn_step_def conn_ok_def snd_step_def snd_kept_def intro: seg_ok_fin)

lemma conn_step_frame [simp]:
  "conn_step W c (c\<lparr>tc_receiver := r\<rparr>)" "conn_step W c (c\<lparr>tc_linger_after_streams_finish := l\<rparr>)"
  "conn_step W c (c\<lparr>tc_is_active := a\<rparr>)" "conn_step W c (c\<lparr>tc_time_since_last_segment_received := n\<rparr>)"
  by (simp_all add: conn_step_def conn_ok_def)

lemma conn_step_send: "conn_step W c (tc_send_segments c)"
proof -
  have "conn_ok W isn (tc_send_segments c) \<and> snd_kept (tc_sender c) (tc_sender (tc_send_segments c))"
    if ok: "conn_ok W isn c" for isn
  proof -
    have "ts_inv W ((tc_sender c)\<lparr>ts_segments_out := []\<rparr>)"
      using snd_step_sent [of W "tc_sender c"] ok by (simp add: snd_step_def conn_ok_def)
    moreover have "\<forall>seg \<in> set (ts_segments_out (tc_sender c)). seg_ok W isn (ts_fin_sent (tc_sender c)) seg"
      using ok by (auto simp: conn_ok_def ts_inv_def ts_core_inv_def)
    ultimately show ?thesis
      using ok by (auto simp: tc_send_segments_eq conn_ok_def snd_kept_def)
  qed
  then show ?thesis
    by (simp add: conn_step_def)
qed

lemma seg_ok_rst:
  assumes "ts_inv W s"
  shows "seg_ok W (ts_isn s) fin (tc_rst_segment s)"
proof -
  have "ts_core_inv W s"
    using assms by (simp add: ts_inv_def)
  then have "seg_carries W (ts_isn s) (ts_next_seqno s) (tc_rst_segment s)"
    using ts_core_invD(3) [of W s] by (simp add: seg_carries_def tc_rst_segment_def tcp_segment_default_def
        tcp_header_default_def length_in_sequence_space_def ts_next_seqno_relative_def)
  then show ?thesis
    by (auto simp: seg_ok_def tc_rst_segment_def tcp_segment_default_def tcp_header_default_def)
qed

lemma conn_step_rst: "conn_step W c (tc_set_rst_state c b)"
proof -
  have "conn_step W c (c\<lparr>tc_segments_out := tc_segments_out c @ [tc_rst_segment (tc_sender c)]\<rparr>)" (is "conn_step W c ?d")
    using seg_ok_rst [of W "tc_sender c"] by (auto simp: conn_step_def conn_ok_def)
  moreover have "conn_step W d (tc_set_rst_state d False)" for d
    using conn_step_sender [OF snd_step_flags(2), of W d]
    by (auto simp: conn_step_def conn_ok_def tc_set_rst_state_def Let_def)
  moreover have "tc_set_rst_state c b = tc_set_rst_state (if b then ?d else c) False"
    by (simp add: tc_set_rst_state_def Let_def)
  ultimately show ?thesis
    by (auto intro: conn_step_trans)
qed

lemma conn_step_connect: "conn_step W c (tc_connect c)"
proof -
  have "conn_step W c (c\<lparr>tc_sender := ts_fill_window (tc_sender c)\<rparr>)"
    by (rule conn_step_sender [OF snd_step_fill])
  also have "conn_step W (c\<lparr>tc_sender := ts_fill_window (tc_sender c)\<rparr>)
      (c\<lparr>tc_sender := ts_fill_window (tc_sender c), tc_is_active := True\<rparr>)"
    by (rule conn_step_frame)
  finally show ?thesis
    unfolding tc_connect_def by (rule conn_step_trans [OF _ conn_step_send])
qed

lemma conn_step_end_input: "conn_step W c (tc_end_input_stream c)"
  unfolding tc_end_input_stream_def Let_def
  by (rule conn_step_trans [OF conn_step_sender conn_step_send])
    (rule snd_step_trans [OF snd_step_flags(1) snd_step_fill])

lemma conn_step_tick: "conn_step W c (tc_tick c ms)"
proof -
  let ?d = "c\<lparr>tc_time_since_last_segment_received := add64 (tc_time_since_last_segment_received c) ms,
      tc_sender := ts_tick (tc_sender c) ms\<rparr>"
  have d: "conn_step W c ?d"
    using conn_step_trans [OF conn_step_frame(4) conn_step_sender [OF snd_step_tick]] by fastforce
  have "conn_step W c (tc_set_rst_state ?d True)" "conn_step W c (tc_send_segments ?d)"
    "conn_step W c ((tc_send_segments ?d)\<lparr>tc_is_active := False\<rparr>)"
    by (rule conn_step_trans [OF d conn_step_rst] conn_step_trans [OF d conn_step_send]
        conn_step_trans [OF conn_step_trans [OF d conn_step_send] conn_step_frame(3)])+
  then show ?thesis
    by (simp add: tc_tick_def Let_def)
qed

lemma conn_step_destroy: "conn_step W c (tc_destroy c)"
  by (simp add: tc_destroy_def conn_step_rst)

lemma conn_step_reply: "conn_step W c (tc_reply c seg)"
proof -
  define d where "d = (if 0 < length_in_sequence_space seg
    then let sender = ts_fill_window (tc_sender c)
         in c\<lparr>tc_sender := (if ts_segments_out sender = [] then ts_send_empty_segment sender else sender)\<rparr>
    else c)"
  define e where "e = (case tr_ackno (tc_receiver d) of None \<Rightarrow> d
    | Some ackno \<Rightarrow> if length_in_sequence_space seg = 0 \<and> wint_eq (th_seqno (seg_header seg)) (wint_minus ackno 1)
        then d\<lparr>tc_sender := ts_send_empty_segment (tc_sender d)\<rparr> else d)"
  have "conn_step W c d"
    unfolding d_def Let_def
    by (auto intro!: conn_step_sender intro: snd_step_fill snd_step_trans [OF snd_step_fill snd_step_empty])
  moreover have "conn_step W d e"
    unfolding e_def by (auto split: option.splits intro!: conn_step_sender intro: snd_step_empty)
  moreover have "tc_reply c seg = tc_send_segments e"
    by (simp only: tc_reply_def Let_def d_def e_def)
  ultimately show ?thesis
    by (auto intro: conn_step_trans conn_step_send)
qed

lemma conn_step_received:
  assumes "tc_segment_received c seg = Inr c'"
  shows "conn_step W c c'"
proof (cases "tc_is_active c \<and> \<not> th_rst (seg_header seg)")
  case False
  let ?d = "c\<lparr>tc_time_since_last_segment_received := 0\<rparr>"
  have "conn_step W c (tc_set_rst_state ?d False)"
    by (rule conn_step_trans [OF conn_step_frame(4) conn_step_rst])
  then show ?thesis
    using assms False by (auto simp: tc_segment_received_def Let_def split: if_splits)
next
  case True
  then obtain r where r: "tr_segment_received (tc_receiver c) seg = Inr r"
    using assms by (auto simp: tc_segment_received_def Let_def split: sum.splits)
  define d where "d = (if th_ack (seg_header seg)
     then c\<lparr>tc_time_since_last_segment_received := 0, tc_receiver := r,
       tc_sender := ts_ack_received (tc_sender c) (th_ackno (seg_header seg)) (th_win (seg_header seg))\<rparr>
     else c\<lparr>tc_time_since_last_segment_received := 0, tc_receiver := r\<rparr>)"
  have "conn_step W c (c\<lparr>tc_time_since_last_segment_received := 0, tc_receiver := r\<rparr>)" (is "conn_step W c ?e")
    by (rule conn_step_trans [OF conn_step_frame(4) conn_step_frame(1)])
  moreover have "conn_step W ?e (?e\<lparr>tc_sender := ts_ack_received (tc_sender ?e) a w\<rparr>)" for a w
    by (rule conn_step_sender [OF snd_step_ack])
  ultimately have d: "conn_step W c d"
    unfolding d_def by (auto intro: conn_step_trans)
  have "c' = tc_connect d \<or> c' = tc_reply d seg \<or> c' = tc_reply (d\<lparr>tc_linger_after_streams_finish := False\<rparr>) seg"
    using assms True r by (auto simp: tc_segment_received_def Let_def d_def split: if_splits)
  then show ?thesis
    by (auto intro: conn_step_trans [OF d] conn_step_connect conn_step_reply
        conn_step_trans [OF conn_step_trans [OF d conn_step_frame(2)] conn_step_reply])
qed

text \<open>Writing is the one operation that makes the stream longer.\<close>

lemma conn_write:
  assumes ok: "conn_ok W isn c" and w: "tc_write c data = (c', n)" and len: "length (W @ take n data) < two63"
  shows "conn_ok (W @ take n data) isn c' \<and> snd_kept (tc_sender c) (tc_sender c') \<and>
    tc_receiver c' = tc_receiver c \<and> (ts_fin_sent (tc_sender c) \<longrightarrow> n = 0)"
proof -
  obtain b where b: "bs_write (ts_stream (tc_sender c)) data = (b, n)"
    and c': "c' = tc_send_segments (c\<lparr>tc_sender := ts_fill_window ((tc_sender c)\<lparr>ts_stream := b\<rparr>)\<rparr>)"
    using w by (auto simp: tc_write_def Let_def split: prod.splits)
  let ?W = "W @ take n data" and ?s = "(tc_sender c)\<lparr>ts_stream := b\<rparr>"
  have inv: "ts_inv W (tc_sender c)"
    using ok by (simp add: conn_ok_def)
  note wi = ts_write_inv [OF inv b len]
  have kept: "snd_kept (tc_sender c) ?s"
    using b by (auto simp: snd_kept_def bs_write_def Let_def split: if_splits)
  have "seg_ok ?W isn (ts_fin_sent (tc_sender c)) seg" if "seg \<in> set (tc_segments_out c)" for seg
    by (rule seg_ok_mono [of W isn "ts_fin_sent (tc_sender c)"]) (use ok that wi(2) in \<open>auto simp: conn_ok_def\<close>)
  then have "conn_ok ?W isn (c\<lparr>tc_sender := ?s\<rparr>)"
    using ok wi(1) by (simp add: conn_ok_def)
  moreover have "conn_step ?W (c\<lparr>tc_sender := ?s\<rparr>) c'"
    unfolding c' using conn_step_trans [OF conn_step_sender [OF snd_step_fill] conn_step_send, of ?W "c\<lparr>tc_sender := ?s\<rparr>"]
    by simp
  ultimately show ?thesis
    using kept wi(2) by (auto simp: conn_step_def c' tc_send_segments_eq intro: snd_kept_trans)
qed

section \<open>Closing\<close>

text \<open>The two ways for a connection to be over.\<close>

definition conn_clean :: "bytes \<Rightarrow> tcp_connection \<Rightarrow> bool" where
  "conn_clean W c \<longleftrightarrow> bs_input_ended (tc_inbound_stream c) \<and> bs_eof (ts_stream (tc_sender c)) \<and>
     ts_next_seqno (tc_sender c) = length W + 2 \<and> ts_last_ack_seqno (tc_sender c) = length W + 2"

definition conn_failed :: "tcp_connection \<Rightarrow> bool" where
  "conn_failed c \<longleftrightarrow> bs_error (ts_stream (tc_sender c)) \<and> bs_error (tc_inbound_stream c)"

lemma inactive_clean:
  assumes ok: "conn_ok W isn c" and a: "tc_is_active c" "\<not> tc_active c"
  shows "conn_clean W c"
proof -
  have "ts_core_inv W (tc_sender c)"
    using ok by (simp add: conn_ok_def ts_inv_def)
  note D = ts_core_invD [OF this]
  have "add64 (bs_bytes_written (ts_stream (tc_sender c))) 2 = length W + 2"
    using D(2,4) by (simp add: add64_small two63_def two64_def)
  then show ?thesis
    using a D(6,7) by (auto simp: conn_clean_def tc_active_def tc_inbound_stream_def Let_def split: if_splits)
qed

lemma conn_clean_fin:
  assumes "conn_ok W isn c" "conn_clean W c"
  shows "ts_fin_sent (tc_sender c)"
  using assms unfolding conn_clean_def conn_ok_def ts_inv_def ts_core_inv_def bs_agrees_def
  by (auto simp: bs_eof_def bs_buffer_empty_def dest: slice_at_bound split: if_splits)

lemma tc_set_rst_state_failed: "conn_failed (tc_set_rst_state c b)"
  by (simp add: conn_failed_def tc_set_rst_state_def tc_inbound_stream_def tr_set_error_def tr_stream_out_def
      bs_set_error_def Let_def)

definition conn_over :: "bytes \<Rightarrow> tcp_connection \<Rightarrow> bool" where
  "conn_over W c \<longleftrightarrow> tc_is_active c \<or> conn_failed c \<or> conn_clean W c"

lemma conn_over_fill:
  assumes ok: "conn_ok W isn c" and over: "conn_over W c"
  shows "conn_over W (tc_send_segments (c\<lparr>tc_sender := ts_fill_window (tc_sender c)\<rparr>))"
proof -
  have "snd_kept (tc_sender c) (ts_fill_window (tc_sender c))"
    using ok snd_step_fill [of W "tc_sender c"] by (simp add: conn_ok_def snd_step_def)
  moreover have "conn_clean W c \<Longrightarrow> ts_fill_window (tc_sender c) = tc_sender c"
    using conn_clean_fin [OF ok] by (simp add: ts_fill_window_def)
  ultimately show ?thesis
    using over by (auto simp: conn_over_def conn_failed_def conn_clean_def tc_send_segments_eq
        tc_inbound_stream_def snd_kept_def)
qed

lemma conn_over_write:
  assumes ok: "conn_ok W isn c" and over: "conn_over W c" and w: "tc_write c data = (c', n)"
  shows "conn_over (W @ take n data) c'"
proof (cases "tc_is_active c")
  case True
  then show ?thesis
    using w by (auto simp: conn_over_def tc_write_def Let_def tc_send_segments_eq split: prod.splits)
next
  case False
  then have "bs_error (ts_stream (tc_sender c)) \<or> bs_input_ended (ts_stream (tc_sender c))"
    using over by (auto simp: conn_over_def conn_failed_def conn_clean_def bs_eof_def)
  then have "bs_write (ts_stream (tc_sender c)) data = (ts_stream (tc_sender c), 0)"
    by (auto simp: bs_write_def)
  then have "n = 0" "c' = tc_send_segments (c\<lparr>tc_sender := ts_fill_window (tc_sender c)\<rparr>)"
    using w by (simp_all add: tc_write_def)
  then show ?thesis
    using conn_over_fill [OF ok over] by simp
qed

lemma conn_over_end_input:
  assumes ok: "conn_ok W isn c" and over: "conn_over W c"
  shows "conn_over W (tc_end_input_stream c)"
proof -
  let ?c = "c\<lparr>tc_sender := (tc_sender c)\<lparr>ts_stream := bs_end_input (ts_stream (tc_sender c))\<rparr>\<rparr>"
  have "conn_ok W isn ?c"
    using ok conn_step_sender [OF snd_step_flags(1), of W c] by (simp add: conn_step_def)
  moreover have "conn_over W ?c"
    using over by (auto simp: conn_over_def conn_failed_def conn_clean_def tc_inbound_stream_def bs_end_input_def
        bs_eof_def bs_buffer_empty_def)
  ultimately show ?thesis
    using conn_over_fill [of W isn ?c] by (simp add: tc_end_input_stream_def Let_def)
qed

lemma conn_over_tick:
  assumes ok: "conn_ok W isn c" and over: "conn_over W c"
  shows "conn_over W (tc_tick c ms)"
proof (cases "tc_is_active c")
  case True
  let ?d = "c\<lparr>tc_time_since_last_segment_received := add64 (tc_time_since_last_segment_received c) ms,
      tc_sender := ts_tick (tc_sender c) ms\<rparr>"
  have "conn_step W c ?d"
    using conn_step_trans [OF conn_step_frame(4) conn_step_sender [OF snd_step_tick]] by fastforce
  then have d: "conn_ok W isn (tc_send_segments ?d)"
    using ok conn_step_trans [OF _ conn_step_send] by (simp add: conn_step_def)
  have "conn_over W ((tc_send_segments ?d)\<lparr>tc_is_active := False\<rparr>)" if "\<not> tc_active (tc_send_segments ?d)"
    using inactive_clean [OF d _ that] True
    by (simp add: conn_over_def conn_clean_def tc_inbound_stream_def tc_send_segments_eq)
  moreover have "conn_over W (tc_set_rst_state ?d True)"
    using tc_set_rst_state_failed by (simp add: conn_over_def)
  moreover have "conn_over W (tc_send_segments ?d)"
    using True by (simp add: conn_over_def tc_send_segments_eq)
  ultimately show ?thesis
    using True by (simp add: tc_tick_def Let_def)
qed (use over in \<open>simp add: tc_tick_def\<close>)

lemma tc_is_active_kept [simp]:
  "tc_is_active (tc_send_segments c) = tc_is_active c" "tc_is_active (tc_connect c)"
  "tc_is_active (tc_reply c seg) = tc_is_active c"
  by (auto simp: tc_send_segments_eq tc_connect_def tc_reply_def Let_def split: option.splits)

lemma conn_over_received:
  assumes "conn_over W c" "tc_segment_received c seg = Inr c'"
  shows "conn_over W c'"
  using assms tc_set_rst_state_failed [of "c\<lparr>tc_time_since_last_segment_received := 0\<rparr>" False]
  by (auto simp: tc_segment_received_def Let_def conn_over_def split: if_splits sum.splits)

end
