(* ===== verification/Connection_Behaviour.thy ===== *)
theory Connection_Behaviour
  imports Tcp_Connection
begin

text \<open>
  What a connection does: the three-way handshake through the official states, the
  acknowledgment of everything that occupies sequence numbers, and giving up after too many
  retransmissions. The states on the way are computed from the code's definitions.
\<close>

section \<open>The three-way handshake\<close>

definition tc_syn :: "wrapping_int32 \<Rightarrow> tcp_segment" where
  "tc_syn isn = \<lparr>seg_header = tcp_header_default\<lparr>th_syn := True, th_seqno := isn\<rparr>, seg_payload = buffer_of []\<rparr>"

lemma ts_fill_fresh:
  "ts_fill_window (ts_construct n rto fixed rnd) = (let s = ts_construct n rto fixed rnd
    in s\<lparr>ts_segments_out := [tc_syn (ts_isn s)], ts_segments_outstanding := [tc_syn (ts_isn s)], ts_next_seqno := 1,
      ts_timer_running := True\<rparr>)"
  by (simp add: ts_fill_window_def ts_fill_loop.simps ts_fill_body_def ts_build_segment_def ts_enqueue_def Let_def
      ts_construct_def ts_current_window_def ts_bytes_in_flight_def sub64_def add64_def bs_defs two64_def
      length_in_sequence_space_def tcp_segment_default_def tcp_header_default_def tc_syn_def
      wrap_zero nat_mod_distrib)

text \<open>Once the SYN is sent, \<open>fill_window\<close> does nothing while there is nothing to send.\<close>

lemma ts_fill_idle:
  assumes "ts_next_seqno s \<noteq> 0" "bs_buffer (ts_stream s) = []" "\<not> bs_input_ended (ts_stream s)"
    "bs_bytes_read (ts_stream s) < two64"
  shows "ts_fill_window s = s"
proof (cases "ts_fin_sent s \<or> \<not> ts_bytes_in_flight s < ts_current_window s")
  case False
  have r: "fb_read s = (ts_stream s, [])"
    using assms(2-4) by (cases "ts_stream s") (auto simp: fb_read_def bs_defs Let_def add64_def)
  then have "fb_len s = 0" "\<not> fb_fin s"
    using assms by (simp_all add: fb_len_eq fb_fin_def bs_eof_def)
  then show ?thesis
    using False r ts_fill_body_eq [of s] by (simp add: ts_fill_window_def ts_fill_loop.simps)
qed (auto simp: ts_fill_window_def ts_fill_loop.simps)

text \<open>The receiver's part: a bare SYN, then a bare acknowledgment.\<close>

definition tr_opened :: "nat \<Rightarrow> wrapping_int32 \<Rightarrow> tcp_receiver" where
  "tr_opened n isn = (tr_construct n)\<lparr>tr_syn_received := True, tr_isn := isn\<rparr>"

lemma tr_bare_syn:
  assumes "th_syn (seg_header seg)" "\<not> th_fin (seg_header seg)" "buffer_str (seg_payload seg) = []"
  shows "tr_segment_received (tr_construct n) seg = Inr (tr_opened n (th_seqno (seg_header seg)))"
  using assms by (simp add: tr_segment_received_def tr_opened_def Let_def buffer_size_def)

lemma push_nothing: "push_substring (ra_construct n) [] 0 False = Inr (ra_construct n)"
  by (simp add: ra_eval)

lemma tr_bare_ack:
  assumes "\<not> th_syn (seg_header seg)" "\<not> th_fin (seg_header seg)" "buffer_str (seg_payload seg) = []"
    and "th_seqno (seg_header seg) = wrap 1 isn"
  shows "tr_segment_received (tr_opened n isn) seg = Inr (tr_opened n isn)"
proof -
  have "wrap_near 1 1"
    by (simp add: wrap_near_def two31_def two64_def)
  then have u: "unwrap (wrap 1 isn) isn 1 = 1"
    by (rule wrap_numbering.dec_enc)
  have "bs_bytes_written (tr_stream_out (tr_opened n isn)) = 0" "tr_isn (tr_opened n isn) = isn"
    "tr_syn_received (tr_opened n isn)" "tr_reassembler (tr_opened n isn) = ra_construct n"
    by (simp_all add: tr_opened_def tr_construct_def tr_stream_out_def ra_construct_def bs_construct_def)
  moreover have "add64 0 1 = 1" "add64 (sub64 1 1) 0 = 0"
    by (simp_all add: add64_def two64_def)
  moreover have "tr_opened n isn\<lparr>tr_reassembler := ra_construct n\<rparr> = tr_opened n isn"
    by (simp add: tr_opened_def tr_construct_def)
  ultimately show ?thesis
    using assms u by (simp add: tr_segment_received_def tr_push_def Let_def push_nothing buffer_copy_def)
qed

lemma tr_opened_ackno: "tr_ackno (tr_opened n isn) = Some (wrap 1 isn)"
    "tr_ackno (tr_construct n) = None"
    "state_summary_receiver (tr_opened n isn) = RCV_SYN_RECV"
    "state_summary_receiver (tr_construct n) = RCV_LISTEN"
    "\<not> bs_input_ended (tr_stream_out (tr_opened n isn))"
    "\<not> bs_input_ended (tr_stream_out (tr_construct n))"
  by (simp_all add: tr_ackno_def tr_opened_def tr_construct_def tr_stream_out_def ra_construct_def bs_construct_def
      state_summary_receiver_def Let_def add64_def two64_def)

text \<open>The sender's part: the SYN is sent, then acknowledged.\<close>

definition ts_opened :: "nat \<Rightarrow> 16 word \<Rightarrow> wrapping_int32 option \<Rightarrow> 32 word \<Rightarrow> 16 word \<Rightarrow> tcp_sender" where
  "ts_opened n rto fixed rnd w = (ts_construct n rto fixed rnd)\<lparr>ts_next_seqno := 1, ts_last_ack_seqno := 1,
     ts_window_size := w\<rparr>"

definition ts_syn_sent :: "nat \<Rightarrow> 16 word \<Rightarrow> wrapping_int32 option \<Rightarrow> 32 word \<Rightarrow> tcp_sender" where
  "ts_syn_sent n rto fixed rnd = (let s = ts_construct n rto fixed rnd
    in s\<lparr>ts_segments_outstanding := [tc_syn (ts_isn s)], ts_next_seqno := 1, ts_timer_running := True\<rparr>)"

lemma ts_opened_fill: "ts_fill_window (ts_opened n rto fixed rnd w) = ts_opened n rto fixed rnd w"
  by (rule ts_fill_idle) (simp_all add: ts_opened_def ts_construct_def bs_construct_def)

lemma ts_syn_acked:
  "ts_ack_received (ts_syn_sent n rto fixed rnd) (wrap 1 (ts_isn (ts_construct n rto fixed rnd))) w =
    ts_opened n rto fixed rnd w"
proof -
  define isn where "isn = ts_isn (ts_construct n rto fixed rnd)"
  have "wrap_near 1 1" "wrap_near 1 0"
    by (simp_all add: wrap_near_def two31_def two64_def)
  then have u: "unwrap (wrap 1 isn) isn 1 = 1" "unwrap (wrap 0 isn) isn 1 = 0"
    by (auto intro: wrap_numbering.dec_enc)
  have len: "length_in_sequence_space (tc_syn isn) = 1" "th_seqno (seg_header (tc_syn isn)) = wrap 0 isn"
    by (simp_all add: tc_syn_def length_in_sequence_space_def tcp_header_default_def wrap_zero)
  have s: "ts_isn (ts_syn_sent n rto fixed rnd) = isn" "ts_next_seqno (ts_syn_sent n rto fixed rnd) = 1"
    "ts_last_ack_seqno (ts_syn_sent n rto fixed rnd) = 0"
    "ts_segments_outstanding (ts_syn_sent n rto fixed rnd) = [tc_syn isn]"
    by (simp_all add: ts_syn_sent_def isn_def Let_def) (simp add: ts_construct_def)
  have pop: "ts_pop_acked isn 1 1 [tc_syn isn] = []"
    using u len by (simp add: Let_def add64_def two64_def)
  let ?s = "(ts_opened n rto fixed rnd w)\<lparr>ts_timer_running := True\<rparr>"
  have f: "ts_fill_window ?s = ?s"
    by (rule ts_fill_idle) (simp_all add: ts_opened_def ts_construct_def bs_construct_def)
  have e: "(ts_syn_sent n rto fixed rnd)\<lparr>ts_window_size := w, ts_last_ack_seqno := 1,
      ts_current_rto := ts_initial_retransmission_timeout (ts_syn_sent n rto fixed rnd),
      ts_consecutive_retransmissions := 0, ts_time_elapsed := 0, ts_segments_outstanding := []\<rparr> = ?s"
    by (simp add: ts_syn_sent_def ts_opened_def ts_construct_def)
  have "ts_segments_outstanding ?s = []" "?s\<lparr>ts_timer_running := False, ts_time_elapsed := 0\<rparr> = ts_opened n rto fixed rnd w"
    by (simp_all add: ts_opened_def ts_construct_def)
  then show ?thesis
    by (simp add: ts_ack_received_def Let_def s u pop e f isn_def [symmetric] del: ts_pop_acked.simps One_nat_def)
qed


text \<open>The connections on the way, each with an empty queue.\<close>

definition tc_with :: "tcp_config \<Rightarrow> 32 word \<Rightarrow> tcp_receiver \<Rightarrow> tcp_sender \<Rightarrow> tcp_connection" where
  "tc_with cfg rnd r s = (tc_construct cfg rnd)\<lparr>tc_receiver := r, tc_sender := s\<rparr>"

abbreviation cfg_sender :: "(nat \<Rightarrow> 16 word \<Rightarrow> wrapping_int32 option \<Rightarrow> 'a) \<Rightarrow> tcp_config \<Rightarrow> 'a" where
  "cfg_sender f cfg \<equiv> f (cfg_send_capacity cfg) (cfg_rt_timeout cfg) (cfg_fixed_isn cfg)"

definition cfg_isn :: "tcp_config \<Rightarrow> 32 word \<Rightarrow> wrapping_int32" where
  "cfg_isn cfg rnd = ts_isn (cfg_sender ts_construct cfg rnd)"

lemma ts_syn_sent_eq: "ts_fill_window (cfg_sender ts_construct cfg rnd) =
    (cfg_sender ts_syn_sent cfg rnd)\<lparr>ts_segments_out := [tc_syn (cfg_isn cfg rnd)]\<rparr>"
    "ts_segments_out (cfg_sender ts_syn_sent cfg rnd) = []"
    "(cfg_sender ts_syn_sent cfg rnd)\<lparr>ts_segments_out := []\<rparr> = cfg_sender ts_syn_sent cfg rnd"
    "(cfg_sender ts_opened cfg rnd w)\<lparr>ts_segments_out := []\<rparr> = cfg_sender ts_opened cfg rnd w"
    "ts_segments_out (cfg_sender ts_opened cfg rnd w) = []"
  by (simp_all add: ts_fill_fresh ts_syn_sent_def ts_opened_def cfg_isn_def Let_def) (simp_all add: ts_construct_def)

lemma tc_construct_listens: "tc_state (tc_construct cfg rnd) = tcp_state_of_official LISTEN"
  by (simp add: tc_state_def tcp_state_construct_def tc_active_def tc_construct_def tr_opened_ackno
      state_summary_sender_def ts_construct_def bs_construct_def)

lemma handshake_states:
  "tc_state (tc_with cfg rnd (tr_construct n) (cfg_sender ts_syn_sent cfg rnd)) = tcp_state_of_official SYN_SENT"
  "tc_state (tc_with cfg rnd (tr_opened n isn) (cfg_sender ts_syn_sent cfg rnd)) = tcp_state_of_official SYN_RCVD"
  "tc_state (tc_with cfg rnd (tr_opened n isn) (cfg_sender ts_opened cfg rnd w)) = tcp_state_of_official ESTABLISHED"
proof -
  have a: "state_summary_sender (cfg_sender ts_syn_sent cfg rnd) = SND_SYN_SENT"
    "state_summary_sender (cfg_sender ts_opened cfg rnd w) = SND_SYN_ACKED"
    by (simp_all add: state_summary_sender_def ts_syn_sent_def ts_opened_def ts_construct_def ts_bytes_in_flight_def
        bs_construct_def Let_def sub64_def two64_def nat_mod_distrib bs_eof_def)
  have b: "tc_active (tc_with cfg rnd r s)" if "\<not> bs_input_ended (tr_stream_out r)" for r s
    using that by (simp add: tc_active_def tc_with_def tc_construct_def)
  show "tc_state (tc_with cfg rnd (tr_construct n) (cfg_sender ts_syn_sent cfg rnd)) = tcp_state_of_official SYN_SENT"
    "tc_state (tc_with cfg rnd (tr_opened n isn) (cfg_sender ts_syn_sent cfg rnd)) = tcp_state_of_official SYN_RCVD"
    "tc_state (tc_with cfg rnd (tr_opened n isn) (cfg_sender ts_opened cfg rnd w)) = tcp_state_of_official ESTABLISHED"
    using a b tr_opened_ackno by (simp_all add: tc_state_def tcp_state_construct_def) (simp_all add: tc_with_def tc_construct_def)
qed

definition synack_of :: "tcp_config \<Rightarrow> wrapping_int32 \<Rightarrow> wrapping_int32 \<Rightarrow> tcp_segment" where
  "synack_of cfg isn peer = tc_stamp (tr_opened (cfg_recv_capacity cfg) peer) (tc_syn isn)"

definition ack_of :: "tcp_config \<Rightarrow> wrapping_int32 \<Rightarrow> wrapping_int32 \<Rightarrow> tcp_segment" where
  "ack_of cfg isn peer = tc_stamp (tr_opened (cfg_recv_capacity cfg) peer)
     (tcp_segment_default\<lparr>seg_header := tcp_header_default\<lparr>th_seqno := wrap 1 isn\<rparr>\<rparr>)"

lemma handshake_segments:
  "th_syn (seg_header (synack_of cfg isn peer))" "\<not> th_fin (seg_header (synack_of cfg isn peer))"
  "\<not> th_rst (seg_header (synack_of cfg isn peer))"
  "th_ack (seg_header (synack_of cfg isn peer))" "th_ackno (seg_header (synack_of cfg isn peer)) = wrap 1 peer"
  "th_seqno (seg_header (synack_of cfg isn peer)) = isn" "buffer_str (seg_payload (synack_of cfg isn peer)) = []"
  "length_in_sequence_space (synack_of cfg isn peer) = 1"
  "\<not> th_syn (seg_header (ack_of cfg isn peer))" "\<not> th_fin (seg_header (ack_of cfg isn peer))"
  "\<not> th_rst (seg_header (ack_of cfg isn peer))"
  "th_ack (seg_header (ack_of cfg isn peer))" "th_ackno (seg_header (ack_of cfg isn peer)) = wrap 1 peer"
  "th_seqno (seg_header (ack_of cfg isn peer)) = wrap 1 isn" "buffer_str (seg_payload (ack_of cfg isn peer)) = []"
  "length_in_sequence_space (ack_of cfg isn peer) = 0"
  by (simp_all add: synack_of_def ack_of_def tc_syn_def tcp_segment_default_def tcp_header_default_def
      tc_stamp_def tr_opened_ackno length_in_sequence_space_def)

lemma tc_connect_fresh: "tc_connect (tc_construct ca ra) =
    (tc_with ca ra (tr_construct (cfg_recv_capacity ca)) (cfg_sender ts_syn_sent ca ra))
      \<lparr>tc_segments_out := [tc_syn (cfg_isn ca ra)]\<rparr>"
  by (simp add: tc_connect_def tc_construct_def tc_send_segments_eq tc_with_def ts_syn_sent_eq
      tc_stamp_def tr_opened_ackno)

lemma tc_listen_syn: "tc_segment_received (tc_construct cb rb) (tc_syn isn) =
    Inr ((tc_with cb rb (tr_opened (cfg_recv_capacity cb) isn) (cfg_sender ts_syn_sent cb rb))
      \<lparr>tc_segments_out := [synack_of cb (cfg_isn cb rb) isn]\<rparr>)"
proof -
  have "tr_segment_received (tr_construct (cfg_recv_capacity cb)) (tc_syn isn) = Inr (tr_opened (cfg_recv_capacity cb) isn)"
    using tr_bare_syn [of "tc_syn isn"] by (simp add: tc_syn_def tcp_header_default_def)
  moreover have "ts_next_seqno (cfg_sender ts_construct cb rb) = 0"
    by (simp add: ts_construct_def)
  ultimately show ?thesis
    by (simp add: tc_segment_received_def tc_construct_def Let_def tr_opened_ackno tc_connect_def tc_send_segments_eq
        tc_with_def ts_syn_sent_eq synack_of_def) (simp add: tc_syn_def tcp_header_default_def)
qed

lemma tc_syn_sent_synack: "tc_segment_received
      (tc_with ca ra (tr_construct (cfg_recv_capacity ca)) (cfg_sender ts_syn_sent ca ra)) (synack_of cb isn (cfg_isn ca ra)) =
    Inr ((tc_with ca ra (tr_opened (cfg_recv_capacity ca) isn)
        (cfg_sender ts_opened ca ra (th_win (seg_header (synack_of cb isn (cfg_isn ca ra))))))
      \<lparr>tc_segments_out := [ack_of ca (cfg_isn ca ra) isn]\<rparr>)"
proof -
  let ?seg = "synack_of cb isn (cfg_isn ca ra)"
  let ?s = "cfg_sender ts_opened ca ra (th_win (seg_header ?seg))"
  have r: "tr_segment_received (tr_construct (cfg_recv_capacity ca)) ?seg = Inr (tr_opened (cfg_recv_capacity ca) isn)"
    using tr_bare_syn [of ?seg] handshake_segments by simp
  have s: "ts_ack_received (cfg_sender ts_syn_sent ca ra) (wrap 1 (cfg_isn ca ra)) w = cfg_sender ts_opened ca ra w" for w
    unfolding cfg_isn_def by (rule ts_syn_acked)
  have e: "ts_next_seqno ?s = 1" "ts_send_empty_segment ?s = ?s\<lparr>ts_segments_out :=
      [tcp_segment_default\<lparr>seg_header := tcp_header_default\<lparr>th_seqno := wrap 1 (cfg_isn ca ra)\<rparr>\<rparr>]\<rparr>"
    by (simp_all add: ts_send_empty_segment_def ts_opened_def cfg_isn_def) (simp add: ts_construct_def)
  show ?thesis
    by (simp add: tc_segment_received_def tc_with_def tc_construct_def Let_def handshake_segments r s e tr_opened_ackno
        tc_reply_def ts_opened_fill ts_syn_sent_eq tc_send_segments_eq ack_of_def del: One_nat_def)
qed

lemma tc_syn_rcvd_ack: "tc_segment_received
      (tc_with cb rb (tr_opened (cfg_recv_capacity cb) isn) (cfg_sender ts_syn_sent cb rb)) (ack_of ca isn (cfg_isn cb rb)) =
    Inr (tc_with cb rb (tr_opened (cfg_recv_capacity cb) isn)
        (cfg_sender ts_opened cb rb (th_win (seg_header (ack_of ca isn (cfg_isn cb rb))))))"
proof -
  let ?seg = "ack_of ca isn (cfg_isn cb rb)"
  have r: "tr_segment_received (tr_opened (cfg_recv_capacity cb) isn) ?seg = Inr (tr_opened (cfg_recv_capacity cb) isn)"
    using tr_bare_ack [of ?seg] handshake_segments by simp
  have s: "ts_ack_received (cfg_sender ts_syn_sent cb rb) (wrap 1 (cfg_isn cb rb)) w = cfg_sender ts_opened cb rb w" for w
    unfolding cfg_isn_def by (rule ts_syn_acked)
  have n: "\<not> wint_eq (wrap 1 isn) (wint_minus (wrap 1 isn) 1)"
    by (simp add: wint_eq_def wint_minus_def wint_plus_def)
  have e: "ts_next_seqno (cfg_sender ts_opened cb rb w) = 1" for w
    by (simp add: ts_opened_def)
  show ?thesis
    by (simp add: tc_segment_received_def tc_with_def tc_construct_def Let_def handshake_segments r s e n tr_opened_ackno
        tc_reply_def ts_syn_sent_eq tc_send_segments_eq del: One_nat_def)
qed


text \<open>
  C19: Three-way handshake. For any two configurations and initial numbers, connecting sends
  one SYN; a fresh connection answers it with one SYN/ACK; the first answers that with one ACK;
  and the second needs nothing more. The four states on the way are the official SYN_SENT,
  SYN_RCVD and, on both sides, ESTABLISHED.
\<close>

theorem connection_handshake:
  "\<exists>syn synack ack b a' b'. let a = tc_connect (tc_construct ca ra) in
    tc_segments_out a = [syn] \<and>
    tc_segment_received (tc_construct cb rb) syn = Inr b \<and> tc_segments_out b = [synack] \<and>
    tc_segment_received (a\<lparr>tc_segments_out := []\<rparr>) synack = Inr a' \<and> tc_segments_out a' = [ack] \<and>
    tc_segment_received (b\<lparr>tc_segments_out := []\<rparr>) ack = Inr b' \<and> tc_segments_out b' = [] \<and>
    tc_state (tc_construct cb rb) = tcp_state_of_official LISTEN \<and>
    tc_state a = tcp_state_of_official SYN_SENT \<and> tc_state b = tcp_state_of_official SYN_RCVD \<and>
    tc_state a' = tcp_state_of_official ESTABLISHED \<and> tc_state b' = tcp_state_of_official ESTABLISHED"
proof -
  have q: "tc_state (c\<lparr>tc_segments_out := out\<rparr>) = tc_state c" for c out
    by (simp add: tc_state_def tc_active_def)
  have w: "(tc_with cfg rnd r s)\<lparr>tc_segments_out := []\<rparr> = tc_with cfg rnd r s" "tc_segments_out (tc_with cfg rnd r s) = []"
    for cfg rnd r s by (simp_all add: tc_with_def tc_construct_def)
  let ?ia = "cfg_isn ca ra" and ?ib = "cfg_isn cb rb"
  let ?wb = "th_win (seg_header (synack_of cb ?ib ?ia))" and ?wa = "th_win (seg_header (ack_of ca ?ia ?ib))"
  let ?b = "tc_with cb rb (tr_opened (cfg_recv_capacity cb) ?ia) (cfg_sender ts_syn_sent cb rb)"
  let ?a' = "tc_with ca ra (tr_opened (cfg_recv_capacity ca) ?ib) (cfg_sender ts_opened ca ra ?wb)"
  show ?thesis
    unfolding Let_def tc_connect_fresh
    by (rule exI [of _ "tc_syn ?ia"], rule exI [of _ "synack_of cb ?ib ?ia"], rule exI [of _ "ack_of ca ?ia ?ib"],
        rule exI [of _ "?b\<lparr>tc_segments_out := [synack_of cb ?ib ?ia]\<rparr>"],
        rule exI [of _ "?a'\<lparr>tc_segments_out := [ack_of ca ?ia ?ib]\<rparr>"],
        rule exI [of _ "tc_with cb rb (tr_opened (cfg_recv_capacity cb) ?ia) (cfg_sender ts_opened cb rb ?wa)"])
      (simp add: q w tc_construct_listens tc_listen_syn tc_syn_sent_synack tc_syn_rcvd_ack handshake_states)
qed

section \<open>Acknowledging\<close>

text \<open>A sender that has sent nothing yet sends at least its SYN.\<close>

lemma ts_fill_syn:
  assumes "ts_core_inv W s" "ts_next_seqno s = 0"
  shows "ts_segments_out (ts_fill_window s) \<noteq> []"
proof -
  have keep: "ts_segments_out s' \<noteq> [] \<longrightarrow> ts_segments_out (ts_fill_loop s') \<noteq> []" for s'
  proof (induction s' rule: ts_fill_loop.induct)
    case (1 s)
    then show ?case
      using ts_fill_body_eq [of s] by (subst ts_fill_loop.simps) (auto simp: split_beta)
  qed
  have fl: "ts_bytes_in_flight s < ts_current_window s" "\<not> ts_fin_sent s"
    using ts_core_invD(6,7) [OF assms(1)] assms ts_current_window_bounds(1) [of s] by (simp_all add: ts_core_inv_def)
  have "0 < fb_len s"
    using assms(2) by (simp add: fb_len_eq)
  then have "ts_segments_out (fst (ts_fill_body s)) \<noteq> []"
    by (simp add: ts_fill_body_eq [OF fl(1)])
  then show ?thesis
    using fl keep [of "fst (ts_fill_body s)"]
    by (subst ts_fill_window_def, subst ts_fill_loop.simps) (auto simp: split_beta)
qed

definition tc_acks :: "tcp_connection \<Rightarrow> tcp_connection \<Rightarrow> bool" where
  "tc_acks c c' \<longleftrightarrow> (\<exists>new. new \<noteq> [] \<and> tc_segments_out c' = tc_segments_out c @ new \<and>
     list_all (\<lambda>seg. th_ack (seg_header seg) \<and> Some (th_ackno (seg_header seg)) = tr_ackno (tc_receiver c') \<and>
       unat (th_win (seg_header seg)) = min 65535 (tr_window_size (tc_receiver c'))) new)"

lemma unat_win: "\<not> 65535 < n \<Longrightarrow> unat (word_of_nat n :: 16 word) = n"
  by (simp add: unat_of_nat take_bit_eq_mod)

lemma tc_acks_send:
  assumes "tr_ackno (tc_receiver c) \<noteq> None" "ts_segments_out (tc_sender c) \<noteq> []"
  shows "tc_acks c (tc_send_segments c)"
  unfolding tc_acks_def using assms
  by (intro exI [of _ "map (tc_stamp (tc_receiver c)) (ts_segments_out (tc_sender c))"])
    (auto simp: tc_send_segments_eq tc_stamp_def list_all_iff unat_win)

lemma tc_acks_reply:
  assumes "tr_ackno (tc_receiver c) = Some ackno" "0 < length_in_sequence_space seg \<or> th_seqno (seg_header seg) = wint_minus ackno 1"
  shows "tc_acks c (tc_reply c seg)"
proof -
  let ?s = "if 0 < length_in_sequence_space seg
    then (if ts_segments_out (ts_fill_window (tc_sender c)) = [] then ts_send_empty_segment (ts_fill_window (tc_sender c))
          else ts_fill_window (tc_sender c))
    else ts_send_empty_segment (tc_sender c)"
  have "ts_segments_out ?s \<noteq> []"
    by (simp add: ts_send_empty_segment_def)
  moreover have "tc_reply c seg = tc_send_segments (c\<lparr>tc_sender := ?s\<rparr>)"
    using assms by (auto simp: tc_reply_def Let_def wint_eq_def)
  ultimately show ?thesis
    using tc_acks_send [of "c\<lparr>tc_sender := ?s\<rparr>"] assms(1) by (simp add: tc_acks_def)
qed

lemma tc_set_rst_reset: "tc_state (tc_set_rst_state c send_rst) = tcp_state_of_official RESET"
  by (simp add: tc_set_rst_state_def Let_def tc_state_def tcp_state_construct_def tc_active_def
      state_summary_sender_def state_summary_receiver_def bs_set_error_def tr_set_error_def tr_stream_out_def)

lemma tc_received_acks:
  assumes "conn_ok W isn c" "tc_is_active c" "\<not> th_rst (seg_header seg)" "tc_segment_received c seg = Inr c'"
    and "tr_ackno (tc_receiver c') = Some ackno"
    and "0 < length_in_sequence_space seg \<or> th_seqno (seg_header seg) = wint_minus ackno 1"
  shows "tc_acks c c'"
proof -
  obtain r where r: "tr_segment_received (tc_receiver c) seg = Inr r"
    using assms(2-4) by (auto simp: tc_segment_received_def Let_def split: sum.splits)
  define d where "d = (if th_ack (seg_header seg)
     then c\<lparr>tc_time_since_last_segment_received := 0, tc_receiver := r,
       tc_sender := ts_ack_received (tc_sender c) (th_ackno (seg_header seg)) (th_win (seg_header seg))\<rparr>
     else c\<lparr>tc_time_since_last_segment_received := 0, tc_receiver := r\<rparr>)"
  define e where "e = (if state_summary_receiver r = RCV_FIN_RECV \<and> state_summary_sender (tc_sender d) = SND_SYN_ACKED
     then d\<lparr>tc_linger_after_streams_finish := False\<rparr> else d)"
  have d: "tc_receiver d = r" "tc_segments_out d = tc_segments_out c" "tc_receiver e = r"
      "tc_segments_out e = tc_segments_out c"
    by (simp_all add: d_def e_def)
  have c': "c' = (if state_summary_receiver r = RCV_SYN_RECV \<and> ts_next_seqno (tc_sender d) = 0
      then tc_connect d else tc_reply e seg)"
    using assms(2-4) r by (auto simp: tc_segment_received_def Let_def d_def e_def)
  have "tc_receiver c' = r"
    using d by (simp add: c' tc_connect_def tc_reply_def tc_send_segments_eq Let_def split: option.splits)
  then have ackno: "tr_ackno r = Some ackno"
    using assms(5) by simp
  have "ts_inv W (tc_sender d)"
    using assms(1) ts_ack_received_inv by (auto simp: conn_ok_def d_def)
  then have "ts_next_seqno (tc_sender d) = 0 \<Longrightarrow> tc_acks d (tc_connect d)"
    using ts_fill_syn [of W "tc_sender d"] ackno d(1)
      tc_acks_send [of "d\<lparr>tc_sender := ts_fill_window (tc_sender d), tc_is_active := True\<rparr>"]
    by (simp add: tc_connect_def ts_inv_def tc_acks_def)
  moreover have "tc_acks e (tc_reply e seg)"
    using tc_acks_reply [of e ackno seg] ackno assms(6) d(3) by simp
  ultimately show ?thesis
    using c' d by (auto simp: tc_acks_def)
qed

lemma tc_received_cases:
  assumes "tc_is_active c" "\<not> th_rst (seg_header seg)"
  shows "tr_segment_received (tc_receiver c) seg = Inl e \<Longrightarrow> tc_segment_received c seg = Inl e"
    and "tr_segment_received (tc_receiver c) seg = Inr r \<Longrightarrow> \<exists>c'. tc_segment_received c seg = Inr c' \<and> tc_receiver c' = r"
  using assms by (auto simp: tc_segment_received_def Let_def tc_connect_def tc_reply_def tc_send_segments_eq split: option.splits)


section \<open>Giving up\<close>

text \<open>
  A connection that waits for an acknowledgment of \<open>seg\<close>: \<open>w\<close> tells whether the window is open,
  \<open>k\<close> counts the retransmissions, \<open>t\<close> is the time since the timer was started.
\<close>

definition tc_waits :: "bool \<Rightarrow> nat \<Rightarrow> nat \<Rightarrow> nat \<Rightarrow> tcp_segment \<Rightarrow> tcp_connection \<Rightarrow> bool" where
  "tc_waits w k rto t seg c \<longleftrightarrow> (let s = tc_sender c in
     tc_is_active c \<and> ts_timer_running s \<and> (\<exists>segs. ts_segments_outstanding s = seg # segs) \<and>
     (0 < ts_window_size s) = w \<and> ts_consecutive_retransmissions s = k \<and> ts_current_rto s = rto \<and>
     ts_time_elapsed s = t \<and> ts_segments_out s = [] \<and> ts_bytes_in_flight s \<noteq> 0)"

text \<open>From \<open>c\<close> to \<open>d\<close> the segments \<open>new\<close> were sent, and the receiver is the same.\<close>

definition tc_sent :: "tcp_segment list \<Rightarrow> tcp_connection \<Rightarrow> tcp_connection \<Rightarrow> bool" where
  "tc_sent new c d \<longleftrightarrow> tc_receiver d = tc_receiver c \<and> tc_segments_out d = tc_segments_out c @ new"

lemma tc_sent_trans: "tc_sent xs c d \<Longrightarrow> tc_sent ys d e \<Longrightarrow> tc_sent (xs @ ys) c e"
  by (simp add: tc_sent_def)

lemma tc_waits_active: "tc_waits w k rto t seg c \<Longrightarrow> tc_active c"
  by (simp add: tc_waits_def tc_active_def Let_def)

text \<open>A tick short of the timeout, one that reaches it, and the one that reaches the ninth.\<close>

lemma tc_waits_quiet:
  assumes "tc_waits w k rto t seg c" "k \<le> MAX_RETX_ATTEMPTS" "t + d < rto" "rto < two32"
  shows "tc_waits w k rto (t + d) seg (tc_tick c d) \<and> tc_sent [] c (tc_tick c d)"
proof -
  have "ts_tick (tc_sender c) d = (tc_sender c)\<lparr>ts_time_elapsed := t + d\<rparr>"
    using ts_tick_quiet [of "tc_sender c" d] assms by (simp add: tc_waits_def Let_def)
  then show ?thesis
    using assms(1,2) by (auto simp: tc_tick_def Let_def tc_waits_def tc_sent_def tc_send_segments_eq tc_active_def ts_bytes_in_flight_def)
qed

lemma tc_waits_tick:
  assumes "tc_waits w k rto t seg c" "rto \<le> t + d" "t + d < two32" "(if w then rto * 2 else rto) < two32" "k \<le> MAX_RETX_ATTEMPTS"
  shows "ts_tick (tc_sender c) d = (tc_sender c)\<lparr>ts_segments_out := [seg],
    ts_current_rto := (if w then rto * 2 else rto), ts_consecutive_retransmissions := Suc k, ts_time_elapsed := 0\<rparr>"
proof -
  obtain segs where "ts_segments_outstanding (tc_sender c) = seg # segs"
    using assms(1) by (auto simp: tc_waits_def Let_def)
  moreover have "rto < two32"
    using assms(4) by (cases w) auto
  moreover have "Suc k < two32" "ts_timeout (tc_sender c) 1 = (if w then rto * 2 else rto)"
    using assms(1,5) by (auto simp: tc_waits_def Let_def two32_def ts_timeout_def)
  ultimately show ?thesis
    using ts_tick_expire [of "tc_sender c" seg segs d] assms by (auto simp: tc_waits_def Let_def)
qed

lemma tc_waits_expire:
  assumes "tc_waits w k rto t seg c" "rto \<le> t + d" "t + d < two32" "(if w then rto * 2 else rto) < two32" "k < MAX_RETX_ATTEMPTS"
  shows "tc_waits w (Suc k) (if w then rto * 2 else rto) 0 seg (tc_tick c d) \<and>
    tc_sent [tc_stamp (tc_receiver c) seg] c (tc_tick c d)"
  using assms(1,5) tc_waits_tick [OF assms(1-4)]
  by (auto simp: tc_tick_def Let_def tc_waits_def tc_sent_def tc_send_segments_eq tc_active_def ts_bytes_in_flight_def)

lemma tc_waits_ninth:
  assumes "tc_waits w MAX_RETX_ATTEMPTS rto t seg c" "rto \<le> t + d" "t + d < two32" "(if w then rto * 2 else rto) < two32"
  shows "\<not> tc_is_active (tc_tick c d) \<and> tc_state (tc_tick c d) = tcp_state_of_official RESET \<and>
    tc_segments_out (tc_tick c d) = tc_segments_out c @ [tc_rst_segment (tc_sender c)]"
proof -
  have t: "tc_tick c d = tc_set_rst_state (c\<lparr>
      tc_time_since_last_segment_received := add64 (tc_time_since_last_segment_received c) d,
      tc_sender := (tc_sender c)\<lparr>ts_segments_out := [seg], ts_current_rto := (if w then rto * 2 else rto),
        ts_consecutive_retransmissions := 9, ts_time_elapsed := 0\<rparr>\<rparr>) True"
    using assms(1) tc_waits_tick [OF assms] by (simp add: tc_tick_def tc_waits_def Let_def)
  show ?thesis
    unfolding t tc_set_rst_reset
    by (simp add: tc_set_rst_state_def Let_def tc_rst_segment_def ts_next_seqno_relative_def)
qed

lemma tc_ticks_over: "\<not> tc_is_active c \<Longrightarrow> foldl tc_tick c ds = c"
  by (induction ds) (simp_all add: tc_tick_def)

text \<open>The same for lists of ticks.\<close>

lemma tc_waits_ticks:
  "tc_waits w k rto t seg c \<Longrightarrow> k \<le> MAX_RETX_ATTEMPTS \<Longrightarrow> t + sum_list ds < rto \<Longrightarrow> rto < two32 \<Longrightarrow>
    tc_waits w k rto (t + sum_list ds) seg (foldl tc_tick c ds) \<and> tc_sent [] c (foldl tc_tick c ds)"
proof (induction ds arbitrary: t c)
  case Nil
  then show ?case
    by (simp add: tc_sent_def)
next
  case (Cons d ds)
  have "tc_waits w k rto (t + d) seg (tc_tick c d)" "tc_sent [] c (tc_tick c d)"
    using tc_waits_quiet [OF Cons.prems(1,2), of d] Cons.prems(3,4) by simp_all
  then show ?case
    using Cons.IH [of "t + d" "tc_tick c d"] Cons.prems(2-4) tc_sent_trans [of "[]" c _ "[]"] by (simp add: add.assoc)
qed

lemma tc_waits_period:
  assumes "tc_waits w k rto 0 seg c" "tick_period rto ds" "(if w then rto * 2 else rto) < two32"
  shows "k < MAX_RETX_ATTEMPTS \<Longrightarrow> tc_waits w (Suc k) (if w then rto * 2 else rto) 0 seg (foldl tc_tick c ds) \<and>
      tc_sent [tc_stamp (tc_receiver c) seg] c (foldl tc_tick c ds)"
    and "k = MAX_RETX_ATTEMPTS \<Longrightarrow> \<exists>rst. th_rst (seg_header rst) \<and> \<not> tc_is_active (foldl tc_tick c ds) \<and>
      tc_state (foldl tc_tick c ds) = tcp_state_of_official RESET \<and> tc_segments_out (foldl tc_tick c ds) = tc_segments_out c @ [rst]"
proof -
  obtain es d where ds: "ds = es @ [d]" "sum_list es < rto" "rto \<le> sum_list es + d" "sum_list es + d < two32"
    by (rule tick_periodE [OF assms(2)])
  have q: "tc_waits w k rto (sum_list es) seg (foldl tc_tick c es)" "tc_sent [] c (foldl tc_tick c es)"
    if "k \<le> MAX_RETX_ATTEMPTS"
    using tc_waits_ticks [OF assms(1) that, of es] ds by simp_all
  show "tc_waits w (Suc k) (if w then rto * 2 else rto) 0 seg (foldl tc_tick c ds) \<and>
      tc_sent [tc_stamp (tc_receiver c) seg] c (foldl tc_tick c ds)" if "k < MAX_RETX_ATTEMPTS"
    using tc_waits_expire [OF q(1) ds(3,4) assms(3) that] q(2) that by (simp add: ds(1) tc_sent_def)
  show "\<exists>rst. th_rst (seg_header rst) \<and> \<not> tc_is_active (foldl tc_tick c ds) \<and>
      tc_state (foldl tc_tick c ds) = tcp_state_of_official RESET \<and> tc_segments_out (foldl tc_tick c ds) = tc_segments_out c @ [rst]"
    if k: "k = MAX_RETX_ATTEMPTS"
    using tc_waits_ninth [OF q(1) [unfolded k] ds(3,4) assms(3)] q(2) k
    by (intro exI [of _ "tc_rst_segment (tc_sender (foldl tc_tick c es))"]) (simp add: ds(1) tc_sent_def tc_rst_segment_def)
qed

lemma periods_snoc:
  "(\<forall>i < length (ps @ [p]). tick_period (ts_timeout s i) ((ps @ [p]) ! i)) \<longleftrightarrow>
    (\<forall>i < length ps. tick_period (ts_timeout s i) (ps ! i)) \<and> tick_period (ts_timeout s (length ps)) p"
  by (auto simp: less_Suc_eq nth_append)

lemma tc_waits_periods:
  assumes "tc_waits (0 < ts_window_size s) 0 (ts_current_rto s) 0 seg c" "length ps \<le> 8"
    and "\<forall>i < length ps. tick_period (ts_timeout s i) (ps ! i)" "ts_timeout s 9 < two32"
  shows "tc_waits (0 < ts_window_size s) (length ps) (ts_timeout s (length ps)) 0 seg (foldl tc_tick c (concat ps)) \<and>
    tc_sent (replicate (length ps) (tc_stamp (tc_receiver c) seg)) c (foldl tc_tick c (concat ps))"
  using assms
proof (induction ps rule: rev_induct)
  case Nil
  then show ?case
    by (simp add: tc_sent_def)
next
  case (snoc p ps)
  let ?d = "foldl tc_tick c (concat ps)"
  have "\<forall>i < length ps. tick_period (ts_timeout s i) (ps ! i)" and p: "tick_period (ts_timeout s (length ps)) p"
    using snoc.prems(3) [unfolded periods_snoc] by simp_all
  then have IH: "tc_waits (0 < ts_window_size s) (length ps) (ts_timeout s (length ps)) 0 seg ?d"
    "tc_sent (replicate (length ps) (tc_stamp (tc_receiver c) seg)) c ?d"
    using snoc.IH snoc.prems(1,2,4) by simp_all
  have "ts_timeout s (Suc (length ps)) \<le> ts_timeout s 9"
    using snoc.prems(2) by (intro ts_timeout_mono) simp
  then have "ts_timeout s (Suc (length ps)) < two32"
    using snoc.prems(4) by linarith
  from tc_waits_period(1) [OF IH(1) p this [unfolded ts_timeout_Suc]] show ?case
    using IH(2) snoc.prems(2) by (simp add: tc_sent_def ts_timeout_Suc replicate_append_same)
qed

lemma conn_in_flight:
  assumes "conn_ok W isn c" "ts_segments_outstanding (tc_sender c) = seg # segs"
  shows "ts_bytes_in_flight (tc_sender c) \<noteq> 0"
proof -
  have core: "ts_core_inv W (tc_sender c)"
    using assms(1) by (simp add: conn_ok_def ts_inv_def)
  then obtain a where "ts_front W (tc_sender c) a"
    by (auto simp: ts_core_inv_def)
  then have "ts_last_ack_seqno (tc_sender c) < ts_next_seqno (tc_sender c)"
    using assms(2) by (auto simp: ts_front_def dest: ts_tiles_le)
  then show ?thesis
    using ts_core_invD(7) [OF core] by simp
qed

text \<open>
  C18: Giving up. The oldest outstanding segment of an active connection in which the sender's
  invariant holds stays unacknowledged while time passes in ticks of any sizes since the timer was
  started, with no retransmission counted yet and nothing waiting to be sent; the window may be open
  (each timeout is then twice the one before) or zero (all are equal). Timeouts and what is counted
  up to them fit the 32-bit clock. At exactly the tick at which a
  timeout is reached, and at no other, the connection sends the segment again, stamped with the
  receiver's fields, for each of the first eight timeouts, and stays active; when the ninth is
  reached it sends a RST in place of it, is in the state RESET, and sends nothing more.
\<close>

theorem connection_gives_up:
  assumes "conn_ok W isn c" "tc_is_active c" "ts_segments_outstanding (tc_sender c) = seg # segs"
    and "ts_consecutive_retransmissions (tc_sender c) = 0" "ts_segments_out (tc_sender c) = []"
    and "ts_time_elapsed (tc_sender c) = 0" "ts_timeout (tc_sender c) 9 < two32"
    and "\<forall>i < length ps. tick_period (ts_timeout (tc_sender c) i) (ps ! i)" "length ps \<le> 9"
    and "length ps \<le> 8 \<longrightarrow> sum_list q < ts_timeout (tc_sender c) (length ps)"
  shows "let c' = foldl tc_tick c (concat ps @ q) in
    if length ps \<le> 8
    then tc_active c' \<and> tc_segments_out c' = tc_segments_out c @ replicate (length ps) (tc_stamp (tc_receiver c) seg)
    else tc_state c' = tcp_state_of_official RESET \<and> (\<exists>rst. th_rst (seg_header rst) \<and>
      tc_segments_out c' = tc_segments_out c @ replicate 8 (tc_stamp (tc_receiver c) seg) @ [rst])"
proof -
  let ?s = "tc_sender c"
  have "ts_inv W ?s"
    using assms(1) by (simp add: conn_ok_def)
  then have start: "tc_waits (0 < ts_window_size ?s) 0 (ts_current_rto ?s) 0 seg c"
    using assms(2-6) conn_in_flight [OF assms(1,3)] by (simp add: tc_waits_def ts_inv_def ts_core_inv_def)
  have nine: "ts_timeout ?s 9 < two32"
    by (fact assms(7))
  have eight: "ts_timeout ?s n < two32" if "n \<le> 9" for n
    using ts_timeout_mono [OF that, of ?s] nine by linarith
  show ?thesis
  proof (cases "length ps \<le> 8")
    case True
    note w = tc_waits_periods [OF start True assms(8) nine]
    have "tc_active (foldl tc_tick c (concat ps @ q)) \<and> tc_sent [] (foldl tc_tick c (concat ps)) (foldl tc_tick c (concat ps @ q))"
      using tc_waits_ticks [OF conjunct1 [OF w] True, of q] True assms(10) eight tc_waits_active by simp blast
    then show ?thesis
      using w True by (simp add: tc_sent_def Let_def)
  next
    case False
    then obtain qs p where ps: "ps = qs @ [p]" "length qs = 8"
      using assms(9) by (cases ps rule: rev_cases) auto
    have "\<forall>i < length qs. tick_period (ts_timeout ?s i) (qs ! i)" and p: "tick_period (ts_timeout ?s 8) p"
      using assms(8) [unfolded ps(1) periods_snoc] by (simp_all add: ps(2))
    note w = tc_waits_periods [OF start _ this(1) nine]
    have rto: "(if 0 < ts_window_size ?s then ts_timeout ?s 8 * 2 else ts_timeout ?s 8) < two32"
      unfolding ts_timeout_Suc [symmetric] using eight by simp
    have "tc_waits (0 < ts_window_size ?s) 8 (ts_timeout ?s 8) 0 seg (foldl tc_tick c (concat qs))"
      "tc_sent (replicate 8 (tc_stamp (tc_receiver c) seg)) c (foldl tc_tick c (concat qs))"
      using w ps(2) by simp_all
    then show ?thesis
      using tc_waits_period(2) [OF _ p rto] tc_ticks_over ps by (fastforce simp: tc_sent_def Let_def)
  qed
qed

section \<open>Witnesses\<close>

definition cfg_example :: tcp_config where
  "cfg_example = tcp_config_default\<lparr>cfg_fixed_isn := Some (WrappingInt32 5)\<rparr>"

lemma cfg_example_conn: "conn_ok [] (WrappingInt32 5) (tc_construct cfg_example 0)"
  using ts_construct_inv [of "cfg_send_capacity cfg_example" "cfg_rt_timeout cfg_example" "Some (WrappingInt32 5)" 0]
  by (simp add: conn_ok_def tc_construct_def cfg_example_def tcp_config_default_def two63_def)
    (simp add: ts_construct_def)


text \<open>A SYN that is never answered, with the timeouts 1000, 2000 and so on, and nothing sent after the RST.\<close>

theorem connection_gives_up_witness:
  "let c = tc_connect (tc_construct cfg_example 0);
       c' = foldl tc_tick c (concat (map (\<lambda>i. [999, 1000 * 2 ^ i - 999]) [0..<9]) @ [100000])
   in tc_state c' = tcp_state_of_official RESET \<and> length (tc_segments_out c') = 10"
proof -
  let ?c = "tc_connect (tc_construct cfg_example 0)" and ?ps = "map (\<lambda>i. [999, 1000 * 2 ^ i - 999]) [0..<9] :: nat list list"
  have conn: "conn_ok [] (WrappingInt32 5) ?c"
    using conn_step_connect [of "[]" "tc_construct cfg_example 0"] cfg_example_conn by (simp add: conn_step_def)
  have c: "tc_is_active ?c" "ts_segments_outstanding (tc_sender ?c) = [tc_syn (WrappingInt32 5)]"
    "ts_consecutive_retransmissions (tc_sender ?c) = 0" "ts_segments_out (tc_sender ?c) = []"
    "ts_time_elapsed (tc_sender ?c) = 0" "ts_timeout (tc_sender ?c) 9 < two32"
    and t: "ts_timeout (tc_sender ?c) i = 1000 * 2 ^ i" "length (tc_segments_out ?c) = 1" for i
    unfolding tc_connect_fresh
    by (simp_all add: tc_construct_def tc_with_def ts_syn_sent_def ts_construct_def Let_def cfg_example_def
        tcp_config_default_def two32_def ts_timeout_def)
  have "tick_period (1000 * 2 ^ i) [999, 1000 * 2 ^ i - 999]" if "i < 9" for i :: nat
  proof -
    have "(1::nat) \<le> 2 ^ i" "(2::nat) ^ i \<le> 512"
      using that power_increasing [of i 9 "2::nat"] by simp_all
    then have "999 < 1000 * (2::nat) ^ i" "1000 * (2::nat) ^ i < two32"
      unfolding two32_def by linarith+
    then show ?thesis
      by (simp add: tick_period_def)
  qed
  then have "\<forall>i < length ?ps. tick_period (ts_timeout (tc_sender ?c) i) (?ps ! i)"
    by (simp add: t(1))
  from connection_gives_up [OF conn c this, of "[100000]"] show ?thesis
    using t(2) by (auto simp: Let_def)
qed

section \<open>Deviations\<close>

text \<open>
  \<open>connect\<close> marks a connection as active again, one that was reset included. And the comment
  in \<open>segment_received\<close> says that an acknowledgment is handled only after the SYN was sent, but
  no such test is made: a bare acknowledgment of the initial number makes a listening
  connection send its SYN.
\<close>

theorem connection_revived:
  "tc_is_active (tc_connect (tc_set_rst_state c send_rst)) \<and>
   state_summary_sender (tc_sender (tc_set_rst_state c send_rst)) = SND_ERROR"
  by (simp add: tc_set_rst_state_def Let_def state_summary_sender_def bs_set_error_def)

theorem listening_ack_sends_syn:
  assumes "th_ack (seg_header seg)" "\<not> th_syn (seg_header seg)" "\<not> th_rst (seg_header seg)" "\<not> th_fin (seg_header seg)"
    and "buffer_str (seg_payload seg) = []" "th_ackno (seg_header seg) = cfg_isn cfg rnd" "th_win (seg_header seg) = 1"
  shows "\<exists>c. tc_segment_received (tc_construct cfg rnd) seg = Inr c \<and> tc_segments_out c = [tc_syn (cfg_isn cfg rnd)]"
proof -
  have "wrap_near 0 0"
    by (simp add: wrap_near_def two31_def two64_def)
  then have "unwrap (wrap 0 (cfg_isn cfg rnd)) (cfg_isn cfg rnd) 0 = 0"
    by (rule wrap_numbering.dec_enc)
  then have u: "unwrap (cfg_isn cfg rnd) (cfg_isn cfg rnd) 0 = 0"
    by (simp add: wrap_zero)
  let ?s = "cfg_sender ts_construct cfg rnd"
  have s: "ts_isn ?s = cfg_isn cfg rnd" "ts_next_seqno ?s = 0" "ts_last_ack_seqno ?s = 0"
    "ts_segments_outstanding ?s = []" "?s\<lparr>ts_window_size := 1\<rparr> = ?s" "?s\<lparr>ts_segments_outstanding := []\<rparr> = ?s"
    by (simp_all add: cfg_isn_def) (simp_all add: ts_construct_def)
  have o: "ts_segments_outstanding (cfg_sender ts_syn_sent cfg rnd) = [tc_syn (cfg_isn cfg rnd)]"
    "ts_next_seqno (cfg_sender ts_syn_sent cfg rnd) = 1"
    by (simp_all add: ts_syn_sent_def cfg_isn_def Let_def)
  have "ts_ack_received ?s (cfg_isn cfg rnd) 1 = (cfg_sender ts_syn_sent cfg rnd)\<lparr>ts_segments_out := [tc_syn (cfg_isn cfg rnd)]\<rparr>"
    by (simp add: ts_ack_received_def Let_def s u ts_syn_sent_eq o)
  moreover have "tr_segment_received (tr_construct n) seg = Inr (tr_construct n)" for n
    using assms(2) by (simp add: tr_segment_received_def tr_construct_def Let_def)
  ultimately show ?thesis
    using assms by (simp add: tc_segment_received_def tc_construct_def Let_def tr_opened_ackno tc_reply_def
        length_in_sequence_space_def tc_send_segments_eq tc_stamp_def)
qed

end
