(* ===== verification/Connection_Runs.thy ===== *)
theory Connection_Runs
  imports Connection_Behaviour
begin

text \<open>
  Connections in their surroundings: an \<open>endpoint\<close> is a connection with its application and
  its network, and two endpoints over a network that loses, delays, reorders and repeats
  segments are the relation \<open>net_run\<close>, which limits how far a delivered segment is from what its
  receiver waits for, and \<open>net_free\<close>, which does not. The streams are proved to arrive intact, and a
  connection to end only by an error or after everything was acknowledged.
\<close>

section \<open>Endpoints\<close>

text \<open>
  A connection with the application that owns it (what it wrote, what it read) and the network
  (every segment taken off its queue so far).
\<close>

record endpoint =
  ep_conn :: tcp_connection
  ep_written :: bytes
  ep_got :: bytes
  ep_sent :: "tcp_segment list"

datatype ep_event = EpConnect | EpWrite bytes | EpEndInput | EpTick nat | EpRead nat | EpTransmit
  | EpDestroy | EpReceive tcp_segment

fun ep_step :: "endpoint \<Rightarrow> ep_event \<Rightarrow> exn + endpoint" where
  "ep_step x EpConnect = Inr (x\<lparr>ep_conn := tc_connect (ep_conn x)\<rparr>)"
| "ep_step x (EpWrite data) = (let (c, n) = tc_write (ep_conn x) data
     in Inr (x\<lparr>ep_conn := c, ep_written := ep_written x @ take n data\<rparr>))"
| "ep_step x EpEndInput = Inr (x\<lparr>ep_conn := tc_end_input_stream (ep_conn x)\<rparr>)"
| "ep_step x (EpTick ms) = Inr (x\<lparr>ep_conn := tc_tick (ep_conn x) ms\<rparr>)"
| "ep_step x (EpRead n) = Inr (x\<lparr>
     ep_conn := (ep_conn x)\<lparr>tc_receiver := tr_read (tc_receiver (ep_conn x)) n\<rparr>,
     ep_got := ep_got x @ snd (bs_read (tc_inbound_stream (ep_conn x)) n)\<rparr>)"
| "ep_step x EpTransmit = Inr (x\<lparr>
     ep_conn := (ep_conn x)\<lparr>tc_segments_out := tl (tc_segments_out (ep_conn x))\<rparr>,
     ep_sent := ep_sent x @ take 1 (tc_segments_out (ep_conn x))\<rparr>)"
| "ep_step x EpDestroy = Inr (x\<lparr>ep_conn := tc_destroy (ep_conn x)\<rparr>)"
| "ep_step x (EpReceive seg) = (case tc_segment_received (ep_conn x) seg of
     Inl e \<Rightarrow> Inl e | Inr c \<Rightarrow> Inr (x\<lparr>ep_conn := c\<rparr>))"

definition ep_init :: "tcp_config \<Rightarrow> 32 word \<Rightarrow> endpoint" where
  "ep_init cfg random = \<lparr>ep_conn = tc_construct cfg random, ep_written = [], ep_got = [], ep_sent = []\<rparr>"

section \<open>Runs of an endpoint\<close>

definition ep_isn :: "endpoint \<Rightarrow> wrapping_int32" where
  "ep_isn x = ts_isn (tc_sender (ep_conn x))"

definition ep_ok :: "wrapping_int32 \<Rightarrow> endpoint \<Rightarrow> bool" where
  "ep_ok isn x \<longleftrightarrow> (length (ep_written x) < two63 \<longrightarrow>
     conn_ok (ep_written x) isn (ep_conn x) \<and> conn_over (ep_written x) (ep_conn x) \<and>
     (\<forall>seg \<in> set (ep_sent x). seg_ok (ep_written x) isn (ts_fin_sent (tc_sender (ep_conn x))) seg))"

text \<open>
  \<open>ep_future x S\<close>: what the application has written may become the stream \<open>S\<close>. Operations
  only narrow the futures down.
\<close>

definition ep_future :: "endpoint \<Rightarrow> bytes \<Rightarrow> bool" where
  "ep_future x S \<longleftrightarrow> length S < two63 \<and> (\<exists>r. S = ep_written x @ r \<and>
     (bs_input_ended (ts_stream (tc_sender (ep_conn x))) \<longrightarrow> r = []))"

lemma ep_future_short: "ep_future x S \<Longrightarrow> length (ep_written x) < two63"
  by (auto simp: ep_future_def)

lemma ep_step_conn:
  assumes "conn_step (ep_written x) (ep_conn x) c" "conn_over (ep_written x) (ep_conn x) \<Longrightarrow>
      conn_ok (ep_written x) isn (ep_conn x) \<Longrightarrow> conn_over (ep_written x) c" "ep_ok isn x"
  shows "ep_ok isn (x\<lparr>ep_conn := c\<rparr>) \<and> (\<forall>S. ep_future (x\<lparr>ep_conn := c\<rparr>) S \<longrightarrow> ep_future x S)"
proof (cases "length (ep_written x) < two63")
  case True
  then have "conn_ok (ep_written x) isn (ep_conn x)" "conn_over (ep_written x) (ep_conn x)"
    using assms(3) by (simp_all add: ep_ok_def)
  then have "conn_ok (ep_written x) isn c" "conn_over (ep_written x) c" "snd_kept (tc_sender (ep_conn x)) (tc_sender c)"
    using assms(1,2) by (auto simp: conn_step_def)
  then show ?thesis
    using assms(3) by (auto simp: ep_ok_def ep_future_def snd_kept_def intro: seg_ok_fin)
qed (auto simp: ep_ok_def ep_future_def)

lemma ep_write_ok:
  assumes ok: "ep_ok isn x" and w: "tc_write (ep_conn x) data = (c, n)"
  shows "ep_ok isn (x\<lparr>ep_conn := c, ep_written := ep_written x @ take n data\<rparr>) \<and>
    (\<forall>S. ep_future (x\<lparr>ep_conn := c, ep_written := ep_written x @ take n data\<rparr>) S \<longrightarrow> ep_future x S)"
proof (cases "length (ep_written x @ take n data) < two63")
  case True
  let ?W = "ep_written x @ take n data"
  have c: "conn_ok (ep_written x) isn (ep_conn x)" "conn_over (ep_written x) (ep_conn x)"
    using ok True by (simp_all add: ep_ok_def)
  note cw = conn_write [OF c(1) w True] and over = conn_over_write [OF c w]
  have "seg_ok ?W isn (ts_fin_sent (tc_sender c)) seg" if "seg \<in> set (ep_sent x)" for seg
    by (rule seg_ok_mono [of "ep_written x" isn "ts_fin_sent (tc_sender (ep_conn x))"])
      (use ok that True cw in \<open>auto simp: ep_ok_def snd_kept_def\<close>)
  moreover have "bs_input_ended (ts_stream (tc_sender (ep_conn x))) \<Longrightarrow> take n data = []"
    using w by (auto simp: tc_write_def bs_write_def Let_def split: prod.splits if_splits)
  ultimately show ?thesis
    using cw over by (auto simp: ep_ok_def ep_future_def snd_kept_def)
next
  case False
  then show ?thesis
    by (auto simp: ep_ok_def ep_future_def)
qed

lemma ep_step_ok:
  assumes ok: "ep_ok isn x" and s: "ep_step x e = Inr x'"
  shows "ep_ok isn x' \<and> (\<forall>S. ep_future x' S \<longrightarrow> ep_future x S)"
proof (cases e)
  case EpConnect
  then show ?thesis
    using s ep_step_conn [OF conn_step_connect _ ok] by (simp add: conn_over_def)
next
  case (EpWrite data)
  then show ?thesis
    using s ep_write_ok [OF ok] by (auto split: prod.splits)
next
  case EpEndInput
  then show ?thesis
    using s ep_step_conn [OF conn_step_end_input _ ok] conn_over_end_input by auto
next
  case (EpTick ms)
  then show ?thesis
    using s ep_step_conn [OF conn_step_tick _ ok] conn_over_tick by auto
next
  case (EpRead n)
  have "bs_error (fst (bs_read b n)) = bs_error b" "bs_input_ended (fst (bs_read b n)) = bs_input_ended b" for b
    by (auto simp: bs_defs Let_def)
  then show ?thesis
    using s EpRead ok by (auto simp: ep_ok_def ep_future_def conn_ok_def conn_over_def conn_failed_def conn_clean_def
        tc_inbound_stream_def tr_read_def tr_stream_out_def)
next
  case EpTransmit
  have "seg \<in> set (tc_segments_out (ep_conn x))" if "seg \<in> set (take 1 (tc_segments_out (ep_conn x)))" for seg
    using that by (rule in_set_takeD)
  moreover have "seg \<in> set (tc_segments_out (ep_conn x))" if "seg \<in> set (tl (tc_segments_out (ep_conn x)))" for seg
    using that by (cases "tc_segments_out (ep_conn x)") simp_all
  ultimately show ?thesis
    using s EpTransmit ok by (auto simp: ep_ok_def ep_future_def conn_ok_def conn_over_def conn_failed_def conn_clean_def
        tc_inbound_stream_def)
next
  case EpDestroy
  then show ?thesis
    using s ep_step_conn [OF conn_step_destroy _ ok] tc_set_rst_state_failed [of "ep_conn x" True]
    by (auto simp: tc_destroy_def conn_over_def)
next
  case (EpReceive seg)
  then obtain c where c: "tc_segment_received (ep_conn x) seg = Inr c" "x' = x\<lparr>ep_conn := c\<rparr>"
    using s by (auto split: sum.splits)
  show ?thesis
    unfolding c(2) using ep_step_conn [OF conn_step_received [OF c(1)] _ ok] conn_over_received c(1) by blast
qed

lemma ep_init_ok:
  assumes "cfg_send_capacity cfg < two63"
  shows "ep_ok (ep_isn (ep_init cfg random)) (ep_init cfg random)"
  using ts_construct_inv [OF assms] by (simp add: ep_ok_def ep_init_def tc_construct_def conn_ok_def ep_isn_def
      conn_over_def)

text \<open>A run is a sequence of events up to the first exception, which ends the program.\<close>

definition ep_bind :: "exn + endpoint \<Rightarrow> ep_event \<Rightarrow> exn + endpoint" where
  "ep_bind q e = (case q of Inl ex \<Rightarrow> Inl ex | Inr x \<Rightarrow> ep_step x e)"

interpretation ep_machine: machine ep_bind "\<lambda>q. case q of Inl ex \<Rightarrow> True | Inr x \<Rightarrow> ep_ok isn x" "\<lambda>_. True" for isn
  by unfold_locales (auto simp: ep_bind_def split: sum.splits dest: ep_step_ok)

lemma ep_run_ok:
  assumes "cfg_send_capacity cfg < two63" "foldl ep_bind (Inr (ep_init cfg random)) es = Inr x"
  shows "ep_ok (ep_isn (ep_init cfg random)) x"
  using ep_machine.run_inv [of "ep_isn (ep_init cfg random)" "Inr (ep_init cfg random)" es] ep_init_ok [OF assms(1)] assms(2)
  by (simp add: list_all_iff)

section \<open>The receiving side\<close>

text \<open>What an endpoint has of the stream \<open>S\<close> its peer sends from the initial number \<open>isn\<close>.\<close>

definition ep_rcv :: "bytes \<Rightarrow> wrapping_int32 \<Rightarrow> nat \<Rightarrow> endpoint \<Rightarrow> bool" where
  "ep_rcv S isn n y \<longleftrightarrow> tr_inv S isn n (tc_receiver (ep_conn y)) \<and>
     ep_got y = take (bs_bytes_read (tc_inbound_stream (ep_conn y))) S"

lemma tr_set_error_inv: "tr_inv S isn n r \<Longrightarrow> tr_inv S isn n (tr_set_error r)"
  by (auto simp: tr_inv_def tr_set_error_def tr_stream_out_def ra_inv_def ra_core_inv_def bs_agrees_def bs_set_error_def)

lemma tr_set_error_frame [simp]:
  "bs_bytes_read (tr_stream_out (tr_set_error r)) = bs_bytes_read (tr_stream_out r)"
  "bs_bytes_written (tr_stream_out (tr_set_error r)) = bs_bytes_written (tr_stream_out r)"
  "bs_buffer (tr_stream_out (tr_set_error r)) = bs_buffer (tr_stream_out r)"
  by (simp_all add: tr_set_error_def tr_stream_out_def bs_set_error_def)

lemma ep_rcv_conn:
  assumes "tc_receiver c = tc_receiver (ep_conn y) \<or> tc_receiver c = tr_set_error (tc_receiver (ep_conn y))"
    and "ep_rcv S isn n y"
  shows "ep_rcv S isn n (y\<lparr>ep_conn := c\<rparr>)"
  using assms tr_set_error_inv [of S isn n "tc_receiver (ep_conn y)"]
  by (auto simp: ep_rcv_def tc_inbound_stream_def)

lemma tc_receiver_kept [simp]:
  "tc_receiver (tc_send_segments c) = tc_receiver c" "tc_receiver (tc_connect c) = tc_receiver c"
  "tc_receiver (tc_end_input_stream c) = tc_receiver c" "tc_receiver (tc_reply c seg) = tc_receiver c"
  "tc_receiver (tc_set_rst_state c b) = tr_set_error (tc_receiver c)"
  by (auto simp: tc_send_segments_eq tc_connect_def tc_end_input_stream_def tc_reply_def tc_set_rst_state_def
      Let_def split: option.splits)

lemma tc_receiver_write: "tc_write c data = (c', n) \<Longrightarrow> tc_receiver c' = tc_receiver c"
  by (auto simp: tc_write_def Let_def split: prod.splits)

lemma tc_receiver_tick:
  "tc_receiver (tc_tick c ms) = tc_receiver c \<or> tc_receiver (tc_tick c ms) = tr_set_error (tc_receiver c)"
  by (simp add: tc_tick_def Let_def)

lemma tc_receiver_destroy:
  "tc_receiver (tc_destroy c) = tc_receiver c \<or> tc_receiver (tc_destroy c) = tr_set_error (tc_receiver c)"
  by (simp add: tc_destroy_def)

text \<open>What an endpoint does by itself does not change what it has received.\<close>

lemma ep_local_rcv:
  assumes "\<forall>seg. e \<noteq> EpReceive seg" "ep_step y e = Inr y'" "ep_rcv S isn n y"
  shows "ep_rcv S isn n y'"
proof (cases e)
  case (EpWrite data)
  obtain c k where w: "tc_write (ep_conn y) data = (c, k)"
    by (cases "tc_write (ep_conn y) data")
  then show ?thesis
    using assms(2,3) EpWrite ep_rcv_conn [of c y] tc_receiver_write [OF w] by (auto simp: ep_rcv_def)
next
  case (EpRead k)
  have "tr_inv S isn n (tc_receiver (ep_conn y))"
    using assms(3) by (simp add: ep_rcv_def)
  from tr_read_spec [OF this, of k] show ?thesis
    using assms(2,3) EpRead by (auto simp: ep_rcv_def tc_inbound_stream_def)
next
  case EpTransmit
  then show ?thesis
    using assms(2,3) by (auto simp: ep_rcv_def tc_inbound_stream_def)
next
  case (EpReceive seg)
  then show ?thesis
    using assms(1) by simp
qed (use assms(2,3) tc_receiver_tick tc_receiver_destroy in \<open>auto intro!: ep_rcv_conn\<close>)

text \<open>A genuine segment of \<open>S\<close> is taken without an exception.\<close>

lemma ep_receive_rcv:
  assumes rcv: "ep_rcv S isn n y" and seg: "seg_carries S isn a seg" and near: "tr_near (tc_receiver (ep_conn y)) a"
  shows "\<exists>y'. ep_step y (EpReceive seg) = Inr y' \<and> ep_rcv S isn n y'"
proof -
  let ?c = "ep_conn y"
  have inv: "tr_inv S isn n (tc_receiver ?c)"
    using rcv by (simp add: ep_rcv_def)
  obtain r where r: "tr_segment_received (tc_receiver ?c) seg = Inr r" "tr_inv S isn n r"
      "bs_bytes_read (tr_stream_out r) = bs_bytes_read (tr_stream_out (tc_receiver ?c))"
    using tr_segment_received_spec [OF inv seg near] by blast
  have "\<exists>c. tc_segment_received ?c seg = Inr c \<and>
      (tc_receiver c = tc_receiver ?c \<or> tc_receiver c = tr_set_error (tc_receiver ?c) \<or> tc_receiver c = r)"
    using r(1) by (auto simp: tc_segment_received_def Let_def)
  then obtain c where c: "tc_segment_received ?c seg = Inr c"
      "tc_receiver c = tc_receiver ?c \<or> tc_receiver c = tr_set_error (tc_receiver ?c) \<or> tc_receiver c = r"
    by blast
  then have "ep_rcv S isn n (y\<lparr>ep_conn := c\<rparr>)"
    using ep_rcv_conn [OF _ rcv, of c] rcv r(2,3) by (auto simp: ep_rcv_def tc_inbound_stream_def)
  then show ?thesis
    using c(1) by simp
qed

section \<open>Two endpoints and a network\<close>

text \<open>
  The network delivers, any number of times and in any order, segments that the peer has sent,
  each no further than half the number space from what its receiver waits for (TCP's
  assumption on the life time of segments). Either endpoint may act; \<open>net_swap\<close> exchanges them.
\<close>

definition net_delivers :: "endpoint \<Rightarrow> endpoint \<Rightarrow> tcp_segment \<Rightarrow> bool" where
  "net_delivers a b seg \<longleftrightarrow> seg \<in> set (ep_sent a) \<and>
     (\<exists>n. seg_carries (ep_written a) (ep_isn a) n seg \<and> tr_near (tc_receiver (ep_conn b)) n)"

inductive net_run :: "endpoint \<Rightarrow> endpoint \<Rightarrow> bool" where
  net_start: "cfg_send_capacity ca < two63 \<Longrightarrow> cfg_recv_capacity ca < two63 \<Longrightarrow>
    cfg_send_capacity cb < two63 \<Longrightarrow> cfg_recv_capacity cb < two63 \<Longrightarrow>
    net_run (ep_init ca ra) (ep_init cb rb)"
| net_swap: "net_run a b \<Longrightarrow> net_run b a"
| net_local: "net_run a b \<Longrightarrow> \<forall>seg. e \<noteq> EpReceive seg \<Longrightarrow> ep_step a e = Inr a' \<Longrightarrow> net_run a' b"
| net_deliver: "net_run a b \<Longrightarrow> net_delivers b a seg \<Longrightarrow> ep_step a (EpReceive seg) = Inr a' \<Longrightarrow> net_run a' b"

text \<open>One direction: the sending side of \<open>a\<close> and the receiving side of \<open>b\<close>.\<close>

definition net_half :: "endpoint \<Rightarrow> endpoint \<Rightarrow> bool" where
  "net_half a b \<longleftrightarrow> (\<exists>isn n. ep_ok isn a \<and> n < two63 \<and> (\<forall>S. ep_future a S \<longrightarrow> ep_rcv S isn n b))"

lemma net_delivers_genuine:
  assumes ok: "ep_ok isn a" and S: "ep_future a S" and d: "net_delivers a b seg"
  shows "\<exists>n. seg_carries S isn n seg \<and> tr_near (tc_receiver (ep_conn b)) n"
proof -
  obtain n where n: "seg_carries (ep_written a) (ep_isn a) n seg" "tr_near (tc_receiver (ep_conn b)) n"
    using d by (auto simp: net_delivers_def)
  obtain r where r: "S = ep_written a @ r" "bs_input_ended (ts_stream (tc_sender (ep_conn a))) \<longrightarrow> r = []"
    using S by (auto simp: ep_future_def)
  have a: "conn_ok (ep_written a) isn (ep_conn a)" "seg_ok (ep_written a) isn (ts_fin_sent (tc_sender (ep_conn a))) seg"
    using ok ep_future_short [OF S] d by (auto simp: ep_ok_def net_delivers_def)
  then have "ep_isn a = isn" "ts_fin_sent (tc_sender (ep_conn a)) \<Longrightarrow> r = []"
    using r(2) by (auto simp: conn_ok_def ep_isn_def ts_inv_def ts_core_inv_def)
  then have "seg_carries S isn n seg"
    using n(1) a(2) seg_carries_mono [of "ep_written a" isn n seg r] r(1) by (auto simp: seg_ok_def)
  then show ?thesis
    using n(2) by blast
qed

lemma net_half_send:
  assumes h: "net_half a b" and s: "ep_step a e = Inr a'"
  shows "net_half a' b"
proof -
  obtain isn n where i: "ep_ok isn a" "n < two63" "\<forall>S. ep_future a S \<longrightarrow> ep_rcv S isn n b"
    using h by (auto simp: net_half_def)
  then show ?thesis
    using ep_step_ok [OF i(1) s] unfolding net_half_def by blast
qed

lemma net_half_local:
  assumes h: "net_half b a" and s: "\<forall>seg. e \<noteq> EpReceive seg" "ep_step a e = Inr a'"
  shows "net_half b a'"
  using h ep_local_rcv [OF s] unfolding net_half_def by blast

lemma net_half_receive:
  assumes h: "net_half b a" and d: "net_delivers b a seg" and s: "ep_step a (EpReceive seg) = Inr a'"
  shows "net_half b a'"
proof -
  obtain isn n where i: "ep_ok isn b" "n < two63" "\<forall>S. ep_future b S \<longrightarrow> ep_rcv S isn n a"
    using h by (auto simp: net_half_def)
  have "ep_rcv S isn n a'" if S: "ep_future b S" for S
  proof -
    obtain m where "seg_carries S isn m seg" "tr_near (tc_receiver (ep_conn a)) m"
      using net_delivers_genuine [OF i(1) S d] by blast
    then show ?thesis
      using ep_receive_rcv [of S isn n a m seg] i(3) S s by auto
  qed
  then show ?thesis
    using i by (auto simp: net_half_def)
qed

lemma net_half_start:
  assumes "cfg_send_capacity ca < two63" "cfg_recv_capacity cb < two63"
  shows "net_half (ep_init ca ra) (ep_init cb rb)"
proof -
  have "ep_rcv S isn (cfg_recv_capacity cb) (ep_init cb rb)" if "ep_future (ep_init ca ra) S" for S isn
    using tr_construct_inv [OF _ assms(2), of S isn] that
    by (simp add: ep_future_def ep_rcv_def ep_init_def tc_construct_def tc_inbound_stream_def)
      (simp add: tr_construct_def tr_stream_out_def ra_construct_def bs_construct_def)
  then show ?thesis
    unfolding net_half_def using ep_init_ok [OF assms(1)] assms(2) by blast
qed

lemma net_run_half: "net_run a b \<Longrightarrow> net_half a b \<and> net_half b a"
proof (induction rule: net_run.induct)
  case (net_local a b e a')
  then show ?case
    using net_half_send net_half_local by blast
next
  case (net_deliver a b seg a')
  then show ?case
    using net_half_send net_half_receive by blast
qed (simp_all add: net_half_start)

text \<open>What has arrived of the stream, and that genuine segments are taken.\<close>

lemma net_half_stream:
  assumes "net_half a b" "Suc (length (ep_written a)) < two63"
  shows "\<exists>rest. ep_written a = ep_got b @ bs_buffer (tc_inbound_stream (ep_conn b)) @ rest \<and>
      (bs_input_ended (tc_inbound_stream (ep_conn b)) \<longrightarrow>
        rest = [] \<and> bs_input_ended (ts_stream (tc_sender (ep_conn a))))"
    and "net_delivers a b seg \<Longrightarrow> \<exists>b'. ep_step b (EpReceive seg) = Inr b'"
proof -
  obtain isn n where i: "ep_ok isn a" "n < two63" "\<forall>S. ep_future a S \<longrightarrow> ep_rcv S isn n b"
    using assms(1) by (auto simp: net_half_def)
  have now: "ep_future a (ep_written a)"
    using assms(2) by (simp add: ep_future_def)
  let ?in = "tc_inbound_stream (ep_conn b)"
  have rcv: "tr_inv S isn n (tc_receiver (ep_conn b))" "ep_got b = take (bs_bytes_read ?in) S"
    if "ep_future a S" for S
    using i(3) that by (simp_all add: ep_rcv_def)
  note st = tr_inv_stream [OF rcv(1), folded tc_inbound_stream_def]
  have ended: "bs_input_ended (ts_stream (tc_sender (ep_conn a)))" if e: "bs_input_ended ?in"
  proof (rule ccontr)
    assume n: "\<not> ?thesis"
    have "ep_future a (ep_written a @ [0])"
      using n assms(2) by (simp add: ep_future_def)
    from st(5) [OF this] st(5) [OF now] e show False
      by simp
  qed
  have "ep_written a = (ep_got b @ bs_buffer ?in) @ drop (bs_bytes_written ?in) (ep_written a)"
    using st(1) [OF now] rcv(2) [OF now] by simp
  moreover have "bs_input_ended ?in \<longrightarrow> drop (bs_bytes_written ?in) (ep_written a) = []"
    using st(5) [OF now] by simp
  ultimately show "\<exists>rest. ep_written a = ep_got b @ bs_buffer ?in @ rest \<and>
      (bs_input_ended ?in \<longrightarrow> rest = [] \<and> bs_input_ended (ts_stream (tc_sender (ep_conn a))))"
    using ended by auto
  show "\<exists>b'. ep_step b (EpReceive seg) = Inr b'" if "net_delivers a b seg"
    using net_delivers_genuine [OF i(1) now that] ep_receive_rcv [OF i(3) [rule_format, OF now]] by blast
qed

section \<open>Every segment of a short stream may be delivered\<close>

lemma ep_step_written: "ep_step x e = Inr x' \<Longrightarrow> \<exists>more. ep_written x' = ep_written x @ more"
  by (cases e) (auto split: prod.splits sum.splits)

definition ep_short :: "endpoint \<Rightarrow> bool" where
  "ep_short x \<longleftrightarrow> length (ep_written x) + 2 < two31"

lemma ep_short_step: "ep_step x e = Inr x' \<Longrightarrow> ep_short x' \<Longrightarrow> ep_short x"
  using ep_step_written [of x e x'] by (auto simp: ep_short_def)

lemma net_run_delivers:
  assumes "net_run a b" "ep_short a" "seg \<in> set (ep_sent a)"
  shows "net_delivers a b seg"
proof -
  obtain isn n where i: "ep_ok isn a" "\<forall>S. ep_future a S \<longrightarrow> ep_rcv S isn n b"
    using net_run_half [OF assms(1)] by (auto simp: net_half_def)
  have len: "length (ep_written a) + 2 < two31" "length (ep_written a) < two63"
    using assms(2) by (simp_all add: ep_short_def two31_def two63_def)
  then have ok: "conn_ok (ep_written a) isn (ep_conn a)"
      "seg_ok (ep_written a) isn (ts_fin_sent (tc_sender (ep_conn a))) seg"
    using i(1) assms(3) by (auto simp: ep_ok_def)
  then obtain m where m: "seg_carries (ep_written a) isn m seg" "ep_isn a = isn"
    by (auto simp: conn_ok_def ep_isn_def ts_inv_def ts_core_inv_def seg_ok_def)
  have "ep_future a (ep_written a)"
    using len by (simp add: ep_future_def)
  then have "tr_inv (ep_written a) isn n (tc_receiver (ep_conn b))"
    using i(2) by (auto simp: ep_rcv_def)
  from seg_carries_near [OF this m(1) len(1)] show ?thesis
    using m assms(3) by (auto simp: net_delivers_def)
qed

text \<open>A network that delivers any segment sent, however late. While both streams are short, it is no other.\<close>

inductive net_free :: "endpoint \<Rightarrow> endpoint \<Rightarrow> bool" where
  free_start: "cfg_send_capacity ca < two63 \<Longrightarrow> cfg_recv_capacity ca < two63 \<Longrightarrow>
    cfg_send_capacity cb < two63 \<Longrightarrow> cfg_recv_capacity cb < two63 \<Longrightarrow>
    net_free (ep_init ca ra) (ep_init cb rb)"
| free_swap: "net_free a b \<Longrightarrow> net_free b a"
| free_local: "net_free a b \<Longrightarrow> \<forall>seg. e \<noteq> EpReceive seg \<Longrightarrow> ep_step a e = Inr a' \<Longrightarrow> net_free a' b"
| free_deliver: "net_free a b \<Longrightarrow> seg \<in> set (ep_sent b) \<Longrightarrow> ep_step a (EpReceive seg) = Inr a' \<Longrightarrow> net_free a' b"

lemma net_free_run: "net_free a b \<Longrightarrow> ep_short a \<Longrightarrow> ep_short b \<Longrightarrow> net_run a b"
proof (induction rule: net_free.induct)
  case (free_deliver a b seg a')
  then have run: "net_run a b"
    using ep_short_step by blast
  then show ?case
    using net_deliver [OF run net_run_delivers [OF net_swap [OF run]]] free_deliver by blast
qed (blast intro: net_start net_swap net_local dest: ep_short_step)+

section \<open>Properties\<close>

text \<open>
  C1: End to end. Two connections, the stream written at the first below 2^63 - 1 bytes and all
  capacities below 2^63, exchange segments over a network that loses, delays, reorders and repeats
  them, where every segment that is delivered has a number less than 2^31 away from
  the one its receiver waits for then (TCP's assumption that a segment does not live longer than
  half the number space takes to be used up); or, when both streams stay below 2^31 - 2 bytes, over
  a network without this limit. Each direction is faithful: what one application read, followed by
  what waits in its connection, is a prefix of what the other wrote; once the inbound stream has
  ended it is everything, and the writer has ended its stream; and no segment within the limit,
  for a stream below 2^31 - 2 bytes no segment that was sent, makes the receiving connection throw.
\<close>

theorem connection_end_to_end:
  assumes "net_run a b \<or> (net_free a b \<and> length (ep_written a) + 2 < two31 \<and> length (ep_written b) + 2 < two31)"
    and "Suc (length (ep_written a)) < two63"
  shows "(\<exists>rest. ep_written a = ep_got b @ bs_buffer (tc_inbound_stream (ep_conn b)) @ rest \<and>
      (bs_input_ended (tc_inbound_stream (ep_conn b)) \<longrightarrow>
        rest = [] \<and> bs_input_ended (ts_stream (tc_sender (ep_conn a))))) \<and>
    (\<forall>seg. net_delivers a b seg \<or> (length (ep_written a) + 2 < two31 \<and> seg \<in> set (ep_sent a)) \<longrightarrow>
      (\<exists>b'. ep_step b (EpReceive seg) = Inr b'))"
proof -
  have run: "net_run a b"
    using assms(1) net_free_run by (auto simp: ep_short_def)
  then have "net_delivers a b seg" if "length (ep_written a) + 2 < two31 \<and> seg \<in> set (ep_sent a)" for seg
    using net_run_delivers that by (auto simp: ep_short_def)
  then show ?thesis
    using net_half_stream [OF conjunct1 [OF net_run_half [OF run]] assms(2)] by blast
qed

text \<open>
  A connection is over in two ways only. After any calls and any segments from the network
  that raised no exception, a connection that is not active has either failed (both its streams
  are in error, after a RST sent or received) or closed cleanly: the peer's stream has ended,
  the application has ended its own, and every byte written and the FIN are acknowledged.
\<close>

theorem connection_over:
  assumes "cfg_send_capacity cfg < two63" "foldl ep_bind (Inr (ep_init cfg random)) es = Inr x"
    and "length (ep_written x) < two63" "\<not> tc_active (ep_conn x)"
  shows "(bs_error (ts_stream (tc_sender (ep_conn x))) \<and> bs_error (tc_inbound_stream (ep_conn x))) \<or>
    (bs_input_ended (tc_inbound_stream (ep_conn x)) \<and> bs_eof (ts_stream (tc_sender (ep_conn x))) \<and>
     ts_last_ack_seqno (tc_sender (ep_conn x)) = length (ep_written x) + 2 \<and>
     ts_next_seqno (tc_sender (ep_conn x)) = length (ep_written x) + 2)"
proof -
  have ok: "conn_ok (ep_written x) (ep_isn (ep_init cfg random)) (ep_conn x)" "conn_over (ep_written x) (ep_conn x)"
    using ep_run_ok [OF assms(1,2)] assms(3) by (simp_all add: ep_ok_def)
  then show ?thesis
    using inactive_clean [OF ok(1) _ assms(4)] by (auto simp: conn_over_def conn_failed_def conn_clean_def)
qed

section \<open>Witnesses\<close>

definition ep_example :: endpoint where
  "ep_example = ep_init cfg_example 0"

definition ep_example_sent :: endpoint where
  "ep_example_sent = ep_example\<lparr>ep_conn := (tc_connect (tc_construct cfg_example 0))\<lparr>tc_segments_out := []\<rparr>,
     ep_sent := [tc_syn (WrappingInt32 5)]\<rparr>"

lemma cfg_example_isn: "cfg_isn cfg_example 0 = WrappingInt32 5"
  by (simp add: cfg_isn_def cfg_example_def ts_construct_def)

lemma ep_example_run: "net_run ep_example_sent ep_example"
proof -
  have "net_run ep_example ep_example"
    unfolding ep_example_def by (rule net_start) (simp_all add: cfg_example_def tcp_config_default_def two63_def)
  then have a: "net_run (ep_example\<lparr>ep_conn := tc_connect (tc_construct cfg_example 0)\<rparr>) ep_example" (is "net_run ?a _")
    by (rule net_local [where e = EpConnect]) (simp_all add: ep_example_def ep_init_def)
  have "ep_step ?a EpTransmit = Inr ep_example_sent"
    by (simp add: tc_connect_fresh ep_example_sent_def cfg_example_isn ep_example_def ep_init_def)
  then show ?thesis
    by (rule net_local [OF a, rotated]) simp
qed

theorem connection_end_to_end_witness:
  "\<exists>b. ep_step ep_example (EpReceive (tc_syn (WrappingInt32 5))) = Inr b"
proof -
  have "length (ep_written ep_example_sent) + 2 < two31" "tc_syn (WrappingInt32 5) \<in> set (ep_sent ep_example_sent)"
    by (simp_all add: ep_example_sent_def ep_example_def ep_init_def two31_def)
  moreover have "Suc (length (ep_written ep_example_sent)) < two63"
    by (simp add: ep_example_sent_def ep_example_def ep_init_def two63_def)
  ultimately show ?thesis
    using connection_end_to_end [OF disjI1 [OF ep_example_run]] by blast
qed

theorem connection_over_witness:
  "bs_error (tc_inbound_stream (tc_destroy (tc_construct cfg_example 0)))"
proof -
  let ?x = "ep_example\<lparr>ep_conn := tc_destroy (tc_construct cfg_example 0)\<rparr>"
  have run: "foldl ep_bind (Inr (ep_init cfg_example 0)) [EpDestroy] = Inr ?x"
    by (simp add: ep_bind_def ep_example_def ep_init_def)
  have "tc_active (tc_construct cfg_example 0)"
    by (simp add: tc_active_def tc_construct_def tr_construct_def tr_stream_out_def ra_construct_def bs_construct_def)
  then have d: "\<not> tc_active (ep_conn ?x)" "\<not> bs_input_ended (tc_inbound_stream (ep_conn ?x))"
    by (simp_all add: tc_destroy_def tc_set_rst_state_def tc_active_def Let_def tc_inbound_stream_def tr_set_error_def
        tc_construct_def tr_construct_def tr_stream_out_def ra_construct_def bs_construct_def bs_set_error_def)
  have l: "cfg_send_capacity cfg_example < two63" "length (ep_written ?x) < two63"
    by (simp_all add: cfg_example_def tcp_config_default_def two63_def ep_example_def ep_init_def)
  have "bs_error (tc_inbound_stream (ep_conn ?x))"
    using connection_over [OF l(1) run l(2) d(1)] d(2) by blast
  then show ?thesis
    by simp
qed

end
