(* ===== verification/Ipv4.thy ===== *)
theory Ipv4
  imports Tcp_Segment
begin

text \<open>
  \<open>IPv4Header\<close> and \<open>IPv4Datagram\<close> (\<open>libsponge/tcp_helpers/ipv4_header.cc\<close>,
  \<open>ipv4_datagram.cc\<close>): the wire format of the network layer. The header is an instance of
  \<open>codec\<close>; the datagram's round trip is proved, and what the datagram's parser accepts is
  stated exactly, since it drops the verdict of the header's parser.
\<close>

section \<open>IPv4Header\<close>

record ipv4_header =
  ip_ver :: byte
  ip_hlen :: byte
  ip_tos :: byte
  ip_len :: "16 word"
  ip_id :: "16 word"
  ip_df :: bool
  ip_mf :: bool
  ip_offset :: "16 word"
  ip_ttl :: byte
  ip_proto :: byte
  ip_cksum :: "16 word"
  ip_src :: "32 word"
  ip_dst :: "32 word"

abbreviation ip_header_length :: nat where
  "ip_header_length \<equiv> 20"

abbreviation PROTO_TCP :: byte where
  "PROTO_TCP \<equiv> 6"

definition ip_header_default :: ipv4_header where
  "ip_header_default = \<lparr>ip_ver = 4, ip_hlen = word_of_nat (ip_header_length div 4), ip_tos = 0,
     ip_len = 0, ip_id = 0, ip_df = True, ip_mf = False, ip_offset = 0, ip_ttl = 128,
     ip_proto = PROTO_TCP, ip_cksum = 0, ip_src = 0, ip_dst = 0\<rparr>"

definition ip_header_parse :: "ipv4_header \<Rightarrow> (parse_result \<times> ipv4_header) parser" where
  "ip_header_parse h = do {
     original_serialized_version \<leftarrow> parse_buffer;
     let data_size = buffer_size original_serialized_version;
     if data_size < ip_header_length then State_Monad.return (PacketTooShort, h)
     else do {
       first_byte \<leftarrow> parse_u8;
       tos \<leftarrow> parse_u8;
       len \<leftarrow> parse_u16;
       id \<leftarrow> parse_u16;
       fo_val \<leftarrow> parse_u16;
       ttl \<leftarrow> parse_u8;
       proto \<leftarrow> parse_u8;
       cksum \<leftarrow> parse_u16;
       src \<leftarrow> parse_u32;
       dst \<leftarrow> parse_u32;
       let h = h\<lparr>ip_ver := drop_bit 4 first_byte, ip_hlen := first_byte AND 0x0f, ip_tos := tos,
         ip_len := len, ip_id := id, ip_df := (fo_val AND 0x4000 \<noteq> 0), ip_mf := (fo_val AND 0x2000 \<noteq> 0),
         ip_offset := fo_val AND 0x1fff, ip_ttl := ttl, ip_proto := proto, ip_cksum := cksum,
         ip_src := src, ip_dst := dst\<rparr>;
       if data_size < 4 * unat (ip_hlen h) then State_Monad.return (PacketTooShort, h)
       else if ip_ver h \<noteq> 4 then State_Monad.return (WrongIPVersion, h)
       else if ip_hlen h < 5 then State_Monad.return (HeaderTooShort, h)
       else if data_size \<noteq> unat (ip_len h) then State_Monad.return (TruncatedPacket, h)
       else do {
         parse_remove_prefix (unat (ip_hlen h) * 4 - ip_header_length);
         e \<leftarrow> parse_get_error;
         if e \<noteq> NoError then State_Monad.return (e, h)
         else let check = ic_add (take (4 * unat (ip_hlen h)) (buffer_str original_serialized_version)) (ic_construct 0)
              in State_Monad.return (if ic_value check \<noteq> 0 then BadChecksum else NoError, h)
       }
     }
   }"

text \<open>The byte of version and header length, and the two bytes of flags and offset.\<close>

definition ip_first_byte :: "ipv4_header \<Rightarrow> byte" where
  "ip_first_byte h = push_bit 4 (ip_ver h) OR (ip_hlen h AND 0xf)"

definition ip_fo_val :: "ipv4_header \<Rightarrow> 16 word" where
  "ip_fo_val h = (if ip_df h then 0x4000 else 0) OR (if ip_mf h then 0x2000 else 0) OR (ip_offset h AND 0x1fff)"

definition ip_header_serialize :: "ipv4_header \<Rightarrow> exn + bytes" where
  "ip_header_serialize h =
     (if ip_ver h \<noteq> 4 then Inl (RuntimeError ''wrong IP version'')
      else if 4 * unat (ip_hlen h) < ip_header_length then Inl (RuntimeError ''IP header too short'')
      else let ret = [];
               ret = unparse_u8 ret (ip_first_byte h);
               ret = unparse_u8 ret (ip_tos h);
               ret = unparse_u16 ret (ip_len h);
               ret = unparse_u16 ret (ip_id h);
               ret = unparse_u16 ret (ip_fo_val h);
               ret = unparse_u8 ret (ip_ttl h);
               ret = unparse_u8 ret (ip_proto h);
               ret = unparse_u16 ret (ip_cksum h);
               ret = unparse_u32 ret (ip_src h);
               ret = unparse_u32 ret (ip_dst h)
           in Inr (string_resize (4 * unat (ip_hlen h)) ret))"

definition ip_payload_length :: "ipv4_header \<Rightarrow> 16 word" where
  "ip_payload_length h = ip_len h - 4 * ucast (ip_hlen h)"

definition ip_pseudo_cksum :: "ipv4_header \<Rightarrow> 32 word" where
  "ip_pseudo_cksum h =
     (let pcksum = drop_bit 16 (ip_src h) + (ip_src h AND 0xffff);
          pcksum = pcksum + (drop_bit 16 (ip_dst h) + (ip_dst h AND 0xffff));
          pcksum = pcksum + ucast (ip_proto h);
          pcksum = pcksum + ucast (ip_payload_length h)
      in pcksum)"

section \<open>IPv4Datagram\<close>

record ipv4_datagram =
  ipd_header :: ipv4_header
  ipd_payload :: buffer_list

definition ip_datagram_default :: ipv4_datagram where
  "ip_datagram_default = \<lparr>ipd_header = ip_header_default, ipd_payload = []\<rparr>"

definition ip_datagram_parse :: "ipv4_datagram \<Rightarrow> buffer \<Rightarrow> parse_result \<times> ipv4_datagram" where
  "ip_datagram_parse d buf =
     (let ((_, h), p) = run_state (ip_header_parse (ipd_header d)) (np_construct buf);
          d = \<lparr>ipd_header = h, ipd_payload = bl_of_buffer (np_buffer p)\<rparr>
      in if bl_size (ipd_payload d) \<noteq> unat (ip_payload_length h) then (PacketTooShort, d)
         else (np_error p, d))"

definition ip_datagram_serialize :: "ipv4_datagram \<Rightarrow> exn + buffer_list" where
  "ip_datagram_serialize d =
     (if bl_size (ipd_payload d) \<noteq> unat (ip_payload_length (ipd_header d))
      then Inl (RuntimeError ''IPv4Datagram::serialize: payload is wrong size'')
      else let header_out = (ipd_header d)\<lparr>ip_cksum := 0\<rparr>
           in case ip_header_serialize header_out of
                Inl e \<Rightarrow> Inl e
              | Inr header_zero_checksum \<Rightarrow>
                  let check = ic_add header_zero_checksum (ic_construct 0);
                      header_out = header_out\<lparr>ip_cksum := ic_value check\<rparr>
                  in (case ip_header_serialize header_out of
                        Inl e \<Rightarrow> Inl e
                      | Inr s \<Rightarrow> Inr (bl_append (bl_append [] (bl_of_buffer (buffer_of s))) (ipd_payload d))))"

section \<open>The bytes of a header\<close>

text \<open>The first ten bytes, the checksum, and the addresses.\<close>

definition ip_header_front :: "ipv4_header \<Rightarrow> bytes" where
  "ip_header_front h = [ip_first_byte h] @ [ip_tos h] @ be_bytes 2 (unat (ip_len h)) @ be_bytes 2 (unat (ip_id h)) @
     be_bytes 2 (unat (ip_fo_val h)) @ [ip_ttl h] @ [ip_proto h]"

definition ip_header_addrs :: "ipv4_header \<Rightarrow> bytes" where
  "ip_header_addrs h = be_bytes 4 (unat (ip_src h)) @ be_bytes 4 (unat (ip_dst h))"

definition ip_header_bytes :: "ipv4_header \<Rightarrow> bytes" where
  "ip_header_bytes h = ip_header_front h @ be_bytes 2 (unat (ip_cksum h)) @ ip_header_addrs h"

lemma length_ip_header [simp]:
  "length (ip_header_front h) = 10" "length (ip_header_addrs h) = 8" "length (ip_header_bytes h) = 20"
  by (simp_all add: ip_header_front_def ip_header_addrs_def ip_header_bytes_def)

text \<open>Every field fits the bits the format has for it.\<close>

definition ip_header_fits :: "ipv4_header \<Rightarrow> bool" where
  "ip_header_fits h \<longleftrightarrow> ip_ver h \<le> 15 \<and> ip_hlen h \<le> 15 \<and> ip_offset h AND 0x1fff = ip_offset h"

lemma nibble: "(b :: byte) \<le> 15 \<Longrightarrow> b AND 0xf = b" "push_bit 4 b AND 0xf = 0"
proof -
  have m: "(0xf :: byte) = mask 4"
    by (simp add: mask_eq_exp_minus_1)
  show "b AND 0xf = b" if "b \<le> 15"
  proof -
    have "unat b mod 2 ^ 4 = unat b"
      using that by (simp add: word_le_nat_alt)
    then have "take_bit 4 b = b"
      by (simp only: word_unat_eq_iff unsigned_take_bit_eq take_bit_eq_mod [of 4 "unat b"])
    then show ?thesis
      unfolding m take_bit_eq_mask [symmetric] .
  qed
  show "push_bit 4 b AND 0xf = 0"
    unfolding m take_bit_eq_mask [symmetric] by (simp add: take_bit_push_bit)
qed

lemma ip_first_byte_fields:
  assumes "ip_header_fits h"
  shows "drop_bit 4 (ip_first_byte h) = ip_ver h" "ip_first_byte h AND 0x0f = ip_hlen h"
proof -
  have b: "ip_ver h \<le> 15" "ip_hlen h \<le> 15"
    using assms by (simp_all add: ip_header_fits_def)
  show "drop_bit 4 (ip_first_byte h) = ip_ver h"
    using b by (simp add: ip_first_byte_def doff_shift)
  show "ip_first_byte h AND 0x0f = ip_hlen h"
    using b nibble by (simp add: ip_first_byte_def bit.conj_disj_distrib2 and.assoc)
qed

lemma ip_fo_val_fields:
  assumes "ip_header_fits h"
  shows "(ip_fo_val h AND 0x4000 \<noteq> 0) = ip_df h" "(ip_fo_val h AND 0x2000 \<noteq> 0) = ip_mf h"
    "ip_fo_val h AND 0x1fff = ip_offset h"
proof -
  have o: "ip_offset h AND 0x1fff = ip_offset h"
    using assms by (simp add: ip_header_fits_def)
  have "(ip_offset h AND 0x1fff) AND 0x4000 = 0" "(ip_offset h AND 0x1fff) AND 0x2000 = 0"
    by (simp_all add: and.assoc)
  then show "(ip_fo_val h AND 0x4000 \<noteq> 0) = ip_df h" "(ip_fo_val h AND 0x2000 \<noteq> 0) = ip_mf h"
    "ip_fo_val h AND 0x1fff = ip_offset h"
    unfolding o by (auto simp: ip_fo_val_def o bit.conj_disj_distrib2)
qed

text \<open>
  What the header's parser answers for a header followed by \<open>rest\<close>, and how much it removes.
\<close>

definition ip_header_verdict :: "ipv4_header \<Rightarrow> bytes \<Rightarrow> parse_result" where
  "ip_header_verdict h rest =
     (if 20 + length rest < 4 * unat (ip_hlen h) then PacketTooShort
      else if ip_ver h \<noteq> 4 then WrongIPVersion
      else if ip_hlen h < 5 then HeaderTooShort
      else if 20 + length rest \<noteq> unat (ip_len h) then TruncatedPacket
      else if ic_value (ic_add (take (4 * unat (ip_hlen h)) (ip_header_bytes h @ rest)) (ic_construct 0)) \<noteq> 0
      then BadChecksum
      else NoError)"

definition ip_header_removed :: "ipv4_header \<Rightarrow> bytes \<Rightarrow> bytes" where
  "ip_header_removed h rest = (if ip_header_verdict h rest \<in> {NoError, BadChecksum}
     then drop (unat (ip_hlen h) * 4 - 20) rest else rest)"

lemma ip_header_parses:
  assumes "ip_header_fits h"
  shows "parses (ip_header_parse g) (ip_header_bytes h @ rest) (ip_header_verdict h rest, h) (ip_header_removed h rest)"
  unfolding ip_header_parse_def
proof (rule parses_buffer_bind, goal_cases)
  case (1 b)
  have size: "buffer_size b = 20 + length rest"
    by (simp add: buffer_size_def 1)
  have fin: "parses (State_Monad.bind (parse_remove_prefix n) (\<lambda>_. State_Monad.bind parse_get_error
      (\<lambda>e. if e \<noteq> NoError then State_Monad.return (e, h) else State_Monad.return (r, h)))) rest (r, h) (drop n rest)"
    if "n \<le> length rest" for n r
    using that by (intro parses_bind [OF parses_remove_prefix] parses_bind [OF parses_get_error])
      (auto intro: parses_return)
  have ret: "parses (State_Monad.return (e, h)) rest (e, h) rest" for e :: parse_result
    by (rule parses_return)
  have upd: "g\<lparr>ip_ver := ip_ver h, ip_hlen := ip_hlen h, ip_tos := ip_tos h, ip_len := ip_len h, ip_id := ip_id h,
      ip_df := ip_df h, ip_mf := ip_mf h, ip_offset := ip_offset h, ip_ttl := ip_ttl h, ip_proto := ip_proto h,
      ip_cksum := ip_cksum h, ip_src := ip_src h, ip_dst := ip_dst h\<rparr> = h"
    by (cases g; cases h) simp
  note small = iffD2 [OF not_less le_add1]
  show ?case
    unfolding Let_def size 1(1) if_not_P [OF small]
    unfolding ip_header_bytes_def ip_header_front_def ip_header_addrs_def append_assoc append_Cons append_Nil
    apply (rule parses_step)+
    apply (simp only: ip_first_byte_fields [OF assms] ip_fo_val_fields [OF assms] upd ipv4_header.simps)
    apply (simp add: ip_header_verdict_def ip_header_removed_def ret ip_header_bytes_def ip_header_front_def
      ip_header_addrs_def)
    using fin by auto
qed


section \<open>The header is a codec\<close>

definition ip_header_wf :: "ipv4_header \<Rightarrow> bool" where
  "ip_header_wf h \<longleftrightarrow> ip_header_fits h \<and> ip_ver h = 4 \<and> 5 \<le> ip_hlen h"

definition ip_options :: "ipv4_header \<Rightarrow> bytes" where
  "ip_options h = replicate (4 * unat (ip_hlen h) - 20) 0"

lemma ip_hlen_bounds: "ip_header_wf h \<Longrightarrow> 5 \<le> unat (ip_hlen h) \<and> unat (ip_hlen h) \<le> 15"
  by (simp add: ip_header_wf_def ip_header_fits_def word_le_nat_alt)

lemma ip_header_serialize_eq:
  assumes "ip_header_wf h"
  shows "ip_header_serialize h = Inr (ip_header_bytes h @ ip_options h)"
proof -
  have "ip_ver h = 4" "\<not> 4 * unat (ip_hlen h) < 20"
    using assms ip_hlen_bounds [OF assms] by (simp_all add: ip_header_wf_def)
  then have "ip_header_serialize h = Inr (string_resize (4 * unat (ip_hlen h)) (ip_header_bytes h))"
    by (simp add: ip_header_serialize_def ip_header_bytes_def ip_header_front_def ip_header_addrs_def Let_def)
  then show ?thesis
    using ip_hlen_bounds [OF assms] by (simp add: string_resize_ge ip_options_def)
qed

text \<open>The payload has the length the header claims, and the checksum verifies.\<close>

definition ip_follow :: "ipv4_header \<Rightarrow> bytes \<Rightarrow> bool" where
  "ip_follow h payload \<longleftrightarrow> 4 * unat (ip_hlen h) + length payload = unat (ip_len h) \<and>
     ic_value (ic_add (ip_header_bytes h @ ip_options h) (ic_construct 0)) = 0"

lemma ip_header_verdict_ok:
  assumes "ip_header_wf h" "ip_follow h payload"
  shows "ip_header_verdict h (ip_options h @ payload) = NoError" "ip_header_removed h (ip_options h @ payload) = payload"
proof -
  have b: "5 \<le> unat (ip_hlen h)" "ip_ver h = 4" "\<not> ip_hlen h < 5"
    using assms(1) ip_hlen_bounds by (auto simp: ip_header_wf_def not_less)
  then have "take (4 * unat (ip_hlen h)) (ip_header_bytes h @ ip_options h @ payload) = ip_header_bytes h @ ip_options h"
    by (simp add: ip_options_def)
  then show v: "ip_header_verdict h (ip_options h @ payload) = NoError"
    using b assms(2) by (simp add: ip_header_verdict_def ip_follow_def ip_options_def)
  show "ip_header_removed h (ip_options h @ payload) = payload"
    using b v by (simp add: ip_header_removed_def) (simp add: ip_options_def mult.commute)
qed

interpretation ip_codec: codec ip_header_wf ip_header_serialize ip_header_parse id ip_follow
proof unfold_locales
  fix h s rest h0 assume h: "ip_header_wf h" "ip_header_serialize h = Inr s" "ip_follow h rest"
  have "ip_header_fits h" "s = ip_header_bytes h @ ip_options h"
    using h(1,2) ip_header_serialize_eq by (auto simp: ip_header_wf_def)
  then show "parses (ip_header_parse h0) (s @ rest) (NoError, id h) rest"
    using ip_header_parses [of h h0 "ip_options h @ rest"] ip_header_verdict_ok [OF h(1,3)] by simp
qed (simp add: ip_header_serialize_eq)

section \<open>Properties\<close>

text \<open>The payload of a datagram has the length its header claims.\<close>

definition ip_datagram_wf :: "ipv4_datagram \<Rightarrow> bool" where
  "ip_datagram_wf d \<longleftrightarrow> ip_header_wf (ipd_header d) \<and>
     4 * unat (ip_hlen (ipd_header d)) + length (bl_concatenate (ipd_payload d)) = unat (ip_len (ipd_header d))"

text \<open>The checksum \<open>serialize\<close> fills in.\<close>

definition ip_cksum_of :: "ipv4_header \<Rightarrow> 16 word" where
  "ip_cksum_of h = ic_value (ic_add (projr (ip_header_serialize (h\<lparr>ip_cksum := 0\<rparr>))) (ic_construct 0))"

lemma ip_payload_length_wf:
  assumes "4 * unat (ip_hlen h) + n = unat (ip_len h)"
  shows "unat (ip_payload_length h) = n"
proof -
  have "unat (ip_len h) < 65536" "unat (ip_hlen h) < 256"
    using unat_16 unsigned_less [of "ip_hlen h"] by simp_all
  then have "unat (4 * ucast (ip_hlen h) :: 16 word) = 4 * unat (ip_hlen h)"
    by (simp add: unat_word_ariths unsigned_ucast_eq take_bit_eq_mod)
  moreover have "(4 * ucast (ip_hlen h) :: 16 word) \<le> ip_len h"
    using assms calculation by (simp add: word_le_nat_alt)
  ultimately show ?thesis
    using assms by (simp add: ip_payload_length_def unat_sub)
qed

lemma ip_serialized:
  assumes "ip_header_wf h"
  shows "ip_header_serialize (h\<lparr>ip_cksum := 0\<rparr>) = Inr (ip_header_front h @ [0, 0] @ ip_header_addrs h @ ip_options h)"
    "ip_header_serialize (h\<lparr>ip_cksum := ip_cksum_of h\<rparr>) =
      Inr (ip_header_bytes (h\<lparr>ip_cksum := ip_cksum_of h\<rparr>) @ ip_options h)"
    "ic_value (ic_add (ip_header_bytes (h\<lparr>ip_cksum := ip_cksum_of h\<rparr>) @ ip_options h) (ic_construct 0)) = 0"
proof -
  have wf: "ip_header_wf (h\<lparr>ip_cksum := c\<rparr>)" for c
    using assms by (simp add: ip_header_wf_def ip_header_fits_def)
  have parts: "ip_header_front (h\<lparr>ip_cksum := c\<rparr>) = ip_header_front h"
    "ip_header_addrs (h\<lparr>ip_cksum := c\<rparr>) = ip_header_addrs h" "ip_options (h\<lparr>ip_cksum := c\<rparr>) = ip_options h" for c
    by (simp_all add: ip_header_front_def ip_header_addrs_def ip_options_def ip_first_byte_def ip_fo_val_def)
  have sel: "ip_cksum (h\<lparr>ip_cksum := c\<rparr>) = c" for c
    by simp
  show z: "ip_header_serialize (h\<lparr>ip_cksum := 0\<rparr>) = Inr (ip_header_front h @ [0, 0] @ ip_header_addrs h @ ip_options h)"
    using ip_header_serialize_eq [OF wf [of 0]] be_bytes_2 [of 0] by (simp add: ip_header_bytes_def parts)
  show "ip_header_serialize (h\<lparr>ip_cksum := ip_cksum_of h\<rparr>) =
      Inr (ip_header_bytes (h\<lparr>ip_cksum := ip_cksum_of h\<rparr>) @ ip_options h)"
    using ip_header_serialize_eq [OF wf] by (simp add: parts)
  let ?b = "ip_header_addrs h @ ip_options h"
  have "length (ip_options h) \<le> 40"
    using ip_hlen_bounds [OF assms] unfolding ip_options_def length_replicate by arith
  then have "unat (0 :: 32 word) + 65280 * (length (ip_header_front h) + 2 + length ?b) < 4294967296 - 65536"
    by simp
  moreover have c: "ic_value (ic_add ?b (ic_add [0, 0] (ic_add (ip_header_front h) (ic_construct 0)))) = ip_cksum_of h"
    by (simp only: ip_cksum_of_def z ic_add_append sum.sel)
  moreover have "even (length (ip_header_front h))"
    by simp
  ultimately have "ic_value (ic_add (ip_header_front h @
      [ucast (drop_bit 8 (ip_cksum_of h)), ucast (ip_cksum_of h)] @ ?b) (ic_construct 0)) = 0"
    using checksum_zero [of "ip_header_front h" 0 ?b] unfolding Let_def c by blast
  then show "ic_value (ic_add (ip_header_bytes (h\<lparr>ip_cksum := ip_cksum_of h\<rparr>) @ ip_options h) (ic_construct 0)) = 0"
    by (simp only: ip_header_bytes_def parts be_bytes_2 append_assoc sel)
qed

text \<open>What \<open>serialize\<close> makes of a well-formed datagram: the header with its checksum, and the payload.\<close>

definition ip_datagram_bytes :: "ipv4_datagram \<Rightarrow> bytes" where
  "ip_datagram_bytes d =
     (let h = ipd_header d
      in ip_header_bytes (h\<lparr>ip_cksum := ip_cksum_of h\<rparr>) @ ip_options h @ bl_concatenate (ipd_payload d))"

lemma ip_datagram_serialized:
  assumes "ip_datagram_wf d"
  shows "\<exists>l. ip_datagram_serialize d = Inr l \<and> bl_concatenate l = ip_datagram_bytes d"
proof -
  let ?h = "(ipd_header d)\<lparr>ip_cksum := ip_cksum_of (ipd_header d)\<rparr>" and ?p = "bl_concatenate (ipd_payload d)"
  have wf: "ip_header_wf (ipd_header d)"
    and len: "4 * unat (ip_hlen (ipd_header d)) + length ?p = unat (ip_len (ipd_header d))"
    using assms by (simp_all add: ip_datagram_wf_def)
  have "length ?p < 65536"
    using len unat_16 [of "ip_len (ipd_header d)"] by simp
  then have size: "bl_size (ipd_payload d) = unat (ip_payload_length (ipd_header d))"
    using ip_payload_length_wf [OF len] bl_size_eq [of "ipd_payload d"] by (simp add: two64_def)
  note s = ip_serialized [OF wf]
  let ?l = "bl_append (bl_append [] (bl_of_buffer (buffer_of (ip_header_bytes ?h @ ip_options (ipd_header d))))) (ipd_payload d)"
  have "ip_datagram_serialize d = Inr ?l"
    using size s by (simp add: ip_datagram_serialize_def Let_def ip_cksum_of_def)
  then show ?thesis
    by (simp add: ip_datagram_bytes_def bl_append_def bl_of_buffer_def bl_concatenate_eq Let_def)
qed

lemma ip_datagram_parse_bytes:
  assumes "ip_datagram_wf d" "buffer_ok b" "buffer_str b = ip_datagram_bytes d"
  shows "\<exists>p. ip_datagram_parse d0 b =
    (NoError, \<lparr>ipd_header = (ipd_header d)\<lparr>ip_cksum := ip_cksum_of (ipd_header d)\<rparr>, ipd_payload = [p]\<rparr>) \<and>
    buffer_ok p \<and> buffer_str p = bl_concatenate (ipd_payload d)"
proof -
  let ?h = "(ipd_header d)\<lparr>ip_cksum := ip_cksum_of (ipd_header d)\<rparr>" and ?p = "bl_concatenate (ipd_payload d)"
  have wf: "ip_header_wf (ipd_header d)" "ip_header_wf ?h"
    and len: "4 * unat (ip_hlen (ipd_header d)) + length ?p = unat (ip_len (ipd_header d))"
    using assms by (simp_all add: ip_datagram_wf_def ip_header_wf_def ip_header_fits_def)
  have short: "length ?p < 65536"
    using len unat_16 [of "ip_len (ipd_header d)"] by simp
  note s = ip_serialized [OF wf(1)]
  let ?s = "ip_header_bytes ?h @ ip_options (ipd_header d)"
  have "ip_follow ?h ?p"
    using len s(3) by (simp add: ip_follow_def ip_options_def)
  then have "parses (ip_header_parse g) (?s @ ?p) (NoError, ?h) ?p" for g
    using ip_codec.par_ser [OF wf(2), of ?s] s(2) by simp
  moreover have "np_at (np_construct b) (?s @ ?p)"
    using np_construct_at [OF assms(2)] assms(3) by (simp add: ip_datagram_bytes_def Let_def)
  moreover have "unat (ip_payload_length ?h) = length ?p"
    using ip_payload_length_wf [of ?h] len by simp
  ultimately show ?thesis
    using short by (auto simp: ip_datagram_parse_def parses_def np_at_def split_beta bl_of_buffer_def Let_def
        bl_size_def buffer_size_def add64_small two64_def)
qed

lemma length_ip_datagram_bytes:
  assumes "ip_datagram_wf d"
  shows "length (ip_datagram_bytes d) = unat (ip_len (ipd_header d))" "length (ip_datagram_bytes d) < 65536"
proof -
  show "length (ip_datagram_bytes d) = unat (ip_len (ipd_header d))"
    using assms ip_hlen_bounds [of "ipd_header d"]
    by (simp add: ip_datagram_wf_def ip_datagram_bytes_def ip_options_def Let_def)
  then show "length (ip_datagram_bytes d) < 65536"
    using unat_16 [of "ip_len (ipd_header d)"] by simp
qed

text \<open>
  C28: Datagram round trip. A datagram with a well-formed header that claims the right length
  is serialized without an exception, and parsing the bytes gives NoError, every header field
  with the checksum filled in, and the payload.
\<close>

theorem ip_datagram_roundtrip:
  assumes "ip_datagram_wf d"
  shows "\<exists>l. ip_datagram_serialize d = Inr l \<and>
    (let (r, d') = ip_datagram_parse d0 (buffer_of (bl_concatenate l)) in
     r = NoError \<and> ipd_header d' = (ipd_header d)\<lparr>ip_cksum := ip_cksum_of (ipd_header d)\<rparr> \<and>
     bl_concatenate (ipd_payload d') = bl_concatenate (ipd_payload d))"
proof -
  obtain l where l: "ip_datagram_serialize d = Inr l" "bl_concatenate l = ip_datagram_bytes d"
    using ip_datagram_serialized [OF assms] by blast
  then show ?thesis
    using ip_datagram_parse_bytes [OF assms, of "buffer_of (bl_concatenate l)" d0] length_ip_datagram_bytes [OF assms]
    by (auto simp: bl_concatenate_eq two64_def)
qed

lemma ip_datagram_parsed:
  assumes "ip_header_fits h" "length rest \<le> 70000"
  shows "fst (ip_datagram_parse d0 (buffer_of (ip_header_bytes h @ rest))) =
      (if length (ip_header_removed h rest) = unat (ip_payload_length h) then NoError else PacketTooShort)"
    "ipd_header (snd (ip_datagram_parse d0 (buffer_of (ip_header_bytes h @ rest)))) = h"
    "bl_size (ipd_payload (snd (ip_datagram_parse d0 (buffer_of (ip_header_bytes h @ rest))))) =
      length (ip_header_removed h rest)"
proof -
  have "np_at (np_construct (buffer_of (ip_header_bytes h @ rest))) (ip_header_bytes h @ rest)"
    using np_construct_at [of "buffer_of (ip_header_bytes h @ rest)"] assms(2) by (simp add: two64_def)
  moreover have "length (ip_header_removed h rest) \<le> length rest"
    by (simp add: ip_header_removed_def)
  then have "length (ip_header_removed h rest) < two64"
    using assms(2) by (simp add: two64_def)
  ultimately show "fst (ip_datagram_parse d0 (buffer_of (ip_header_bytes h @ rest))) =
      (if length (ip_header_removed h rest) = unat (ip_payload_length h) then NoError else PacketTooShort)"
    "ipd_header (snd (ip_datagram_parse d0 (buffer_of (ip_header_bytes h @ rest)))) = h"
    "bl_size (ipd_payload (snd (ip_datagram_parse d0 (buffer_of (ip_header_bytes h @ rest))))) =
      length (ip_header_removed h rest)"
    using ip_header_parses [OF assms(1), of "ipd_header d0" rest]
    by (auto simp: ip_datagram_parse_def parses_def np_at_def split_beta bl_of_buffer_def bl_size_def buffer_size_def
        add64_def Let_def)
qed

lemma ip_header_removed_fits:
  assumes "ip_header_verdict h rest \<in> {NoError, BadChecksum}"
  shows "length (ip_header_removed h rest) = unat (ip_payload_length h)"
proof -
  have v: "5 \<le> unat (ip_hlen h)" "20 + length rest = unat (ip_len h)" "\<not> 20 + length rest < 4 * unat (ip_hlen h)"
    using assms by (auto simp: ip_header_verdict_def not_less word_le_nat_alt split: if_splits)
  then have "length (ip_header_removed h rest) = length rest - (unat (ip_hlen h) * 4 - 20)"
    using assms by (simp add: ip_header_removed_def)
  moreover have "4 * unat (ip_hlen h) + (length rest - (unat (ip_hlen h) * 4 - 20)) = unat (ip_len h)"
    using v by linarith
  ultimately show ?thesis
    using ip_payload_length_wf by simp
qed

text \<open>
  What the datagram's parser answers. For a header followed by any bytes it answers
  NoError exactly when the header's own verdict is NoError or BadChecksum, or the number of
  bytes after the fixed header happens to be the payload length the header claims, and
  PacketTooShort otherwise, whatever the header's verdict was; the header's fields are stored
  as they came. A fresh datagram rejects fewer than 20 bytes with PacketTooShort.
\<close>

theorem ip_datagram_verdict:
  assumes "ip_header_fits h" "length rest \<le> 70000" "length short < 20"
  shows "fst (ip_datagram_parse d (buffer_of (ip_header_bytes h @ rest))) =
      (if ip_header_verdict h rest \<in> {NoError, BadChecksum} \<or> length rest = unat (ip_payload_length h)
       then NoError else PacketTooShort) \<and>
    ipd_header (snd (ip_datagram_parse d (buffer_of (ip_header_bytes h @ rest)))) = h \<and>
    fst (ip_datagram_parse ip_datagram_default (buffer_of short)) = PacketTooShort"
proof -
  have "run_state (ip_header_parse ip_header_default) (np_construct (buffer_of short)) =
      ((PacketTooShort, ip_header_default), np_construct (buffer_of short))"
    using assms(3) by (simp add: ip_header_parse_def parse_buffer_def np_construct_def buffer_size_def)
  then have "fst (ip_datagram_parse ip_datagram_default (buffer_of short)) = PacketTooShort"
    using assms(3) by (simp add: ip_datagram_parse_def ip_datagram_default_def np_construct_def bl_of_buffer_def
        bl_size_def buffer_size_def add64_def two64_def ip_payload_length_def ip_header_default_def)
  then show ?thesis
    using ip_datagram_parsed [OF assms(1,2), of d] ip_header_removed_fits [of h rest]
    by (auto simp: ip_header_removed_def)
qed

section \<open>Witnesses\<close>

definition ip_example :: ipv4_datagram where
  "ip_example = \<lparr>ipd_header = ip_header_default\<lparr>ip_len := 23\<rparr>, ipd_payload = [buffer_of [1, 2, 3]]\<rparr>"

theorem ip_datagram_roundtrip_witness:
  "\<exists>l. ip_datagram_serialize ip_example = Inr l \<and>
    (let (r, d') = ip_datagram_parse ip_datagram_default (buffer_of (bl_concatenate l)) in
     r = NoError \<and> bl_concatenate (ipd_payload d') = [1, 2, 3])"
  using ip_datagram_roundtrip [of ip_example ip_datagram_default]
  by (auto simp: ip_example_def ip_datagram_wf_def ip_header_wf_def ip_header_fits_def ip_header_default_def
      bl_concatenate_eq split_beta)

theorem ip_datagram_verdict_witness:
  "fst (ip_datagram_parse ip_datagram_default (buffer_of (ip_header_bytes (ip_header_default\<lparr>ip_len := 20, ip_ver := 6\<rparr>) @ []))) = NoError"
  using ip_datagram_verdict [of "ip_header_default\<lparr>ip_len := 20, ip_ver := 6\<rparr>" "[]" "[]" ip_datagram_default]
  by (simp add: ip_header_fits_def ip_header_default_def ip_payload_length_def)

section \<open>Deviations\<close>

text \<open>
  The verdict of the header's parser is dropped, so a datagram whose header checksum is wrong
  is accepted, and so is one of another IP version; serializing the latter, as a router that
  forwards it does, throws.
\<close>

theorem ip_bad_checksum_accepted:
  assumes "ip_header_fits h" "length rest \<le> 70000" "ip_header_verdict h rest = BadChecksum"
  shows "fst (ip_datagram_parse d (buffer_of (ip_header_bytes h @ rest))) = NoError"
  using ip_datagram_parsed(1) [OF assms(1,2)] ip_header_removed_fits [of h rest] assms(3) by simp

theorem ip_wrong_version_throws:
  assumes "ip_header_fits h" "length rest \<le> 60000" "ip_ver h \<noteq> 4" "ip_hlen h = 5"
    and "unat (ip_len h) = 20 + length rest"
  shows "\<exists>d'. ip_datagram_parse d (buffer_of (ip_header_bytes h @ rest)) = (NoError, d') \<and>
    ipd_header d' = h \<and>
    (\<forall>ttl. ip_datagram_serialize (d'\<lparr>ipd_header := h\<lparr>ip_ttl := ttl\<rparr>\<rparr>) = Inl (RuntimeError ''wrong IP version''))"
proof -
  have "ip_header_verdict h rest = WrongIPVersion"
    using assms(3-5) by (simp add: ip_header_verdict_def)
  then have r: "ip_header_removed h rest = rest"
    by (simp add: ip_header_removed_def)
  have len: "unat (ip_payload_length h) = length rest"
    using assms(4,5) by (intro ip_payload_length_wf) simp
  have "length rest \<le> 70000"
    using assms(2) by simp
  note p = ip_datagram_parsed [OF assms(1) this, of d, unfolded r]
  define d' where "d' = snd (ip_datagram_parse d (buffer_of (ip_header_bytes h @ rest)))"
  have "ip_datagram_parse d (buffer_of (ip_header_bytes h @ rest)) = (NoError, d')"
    using p(1) len by (simp add: d'_def prod_eq_iff)
  moreover have "ip_datagram_serialize (d'\<lparr>ipd_header := h\<lparr>ip_ttl := ttl\<rparr>\<rparr>) = Inl (RuntimeError ''wrong IP version'')" for ttl
    using p(3) len assms(3) by (simp add: ip_datagram_serialize_def ip_header_serialize_def ip_payload_length_def
        Let_def d'_def [symmetric])
  ultimately show ?thesis
    using p(2) by (auto simp: d'_def)
qed

end
