(* ===== verification/Ethernet.thy ===== *)
theory Ethernet
  imports Net_Parser
begin

text \<open>
  \<open>EthernetHeader\<close>, \<open>EthernetFrame\<close> (\<open>libsponge/tcp_helpers/ethernet_header.cc\<close>,
  \<open>ethernet_frame.cc\<close>): the frame format of the link layer. The header is an instance of
  \<open>codec\<close>. The frame's parser drops the verdict of the header's parser, so a frame with fewer
  bytes than a header is accepted (\<open>eth_short_frame_accepted\<close>).
\<close>

section \<open>Ethernet addresses\<close>

text \<open>A \<open>std::array\<close> of six bytes.\<close>

type_synonym ethernet_address = bytes

definition ETHERNET_BROADCAST :: ethernet_address where
  "ETHERNET_BROADCAST = [0xff, 0xff, 0xff, 0xff, 0xff, 0xff]"

abbreviation eth_address_zero :: ethernet_address where
  "eth_address_zero \<equiv> replicate 6 0"

definition eth_address_ok :: "ethernet_address \<Rightarrow> bool" where
  "eth_address_ok a \<longleftrightarrow> length a = 6"

text \<open>Numbers printed with the \<open>hex\<close> manipulator.\<close>

definition hex_digit :: "nat \<Rightarrow> char" where
  "hex_digit n = ''0123456789abcdef'' ! (n mod 16)"

fun hex_string :: "nat \<Rightarrow> string" where
  "hex_string n = (if n < 16 then [hex_digit n] else hex_string (n div 16) @ [hex_digit n])"

declare hex_string.simps [simp del]

text \<open>\<open>setfill('0')\<close> with \<open>width(2)\<close>.\<close>

definition hex_padded :: "byte \<Rightarrow> string" where
  "hex_padded b = (let s = hex_string (unat b) in replicate (2 - length s) CHR ''0'' @ s)"

fun ethernet_to_string :: "ethernet_address \<Rightarrow> string" where
  "ethernet_to_string [] = ''''"
| "ethernet_to_string [b] = hex_padded b"
| "ethernet_to_string (b # bs) = hex_padded b @ '':'' @ ethernet_to_string bs"

section \<open>EthernetHeader\<close>

record ethernet_header =
  eth_dst :: ethernet_address
  eth_src :: ethernet_address
  eth_type :: "16 word"

abbreviation eth_header_length :: nat where
  "eth_header_length \<equiv> 14"

abbreviation TYPE_IPv4 :: "16 word" where
  "TYPE_IPv4 \<equiv> 0x800"

abbreviation TYPE_ARP :: "16 word" where
  "TYPE_ARP \<equiv> 0x806"

definition eth_header_default :: ethernet_header where
  "eth_header_default = \<lparr>eth_dst = eth_address_zero, eth_src = eth_address_zero, eth_type = 0\<rparr>"

text \<open>The loop that reads each byte of an address.\<close>

fun parse_bytes :: "nat \<Rightarrow> bytes parser" where
  "parse_bytes 0 = State_Monad.return []"
| "parse_bytes (Suc n) = do { b \<leftarrow> parse_u8; bs \<leftarrow> parse_bytes n; State_Monad.return (b # bs) }"

definition eth_header_parse :: "ethernet_header \<Rightarrow> (parse_result \<times> ethernet_header) parser" where
  "eth_header_parse h = do {
     b \<leftarrow> parse_buffer;
     if buffer_size b < eth_header_length then State_Monad.return (PacketTooShort, h)
     else do {
       dst \<leftarrow> parse_bytes 6;
       src \<leftarrow> parse_bytes 6;
       type \<leftarrow> parse_u16;
       e \<leftarrow> parse_get_error;
       State_Monad.return (e, h\<lparr>eth_dst := dst, eth_src := src, eth_type := type\<rparr>)
     }
   }"

definition eth_header_serialize :: "ethernet_header \<Rightarrow> bytes" where
  "eth_header_serialize h =
     (let ret = foldl unparse_u8 [] (eth_dst h);
          ret = foldl unparse_u8 ret (eth_src h)
      in unparse_u16 ret (eth_type h))"

definition eth_header_to_string :: "ethernet_header \<Rightarrow> string" where
  "eth_header_to_string h =
     ''dst='' @ ethernet_to_string (eth_dst h) @ '', src='' @ ethernet_to_string (eth_src h) @ '', type='' @
     (if eth_type h = TYPE_IPv4 then ''IPv4''
      else if eth_type h = TYPE_ARP then ''ARP''
      else ''[unknown type '' @ hex_string (unat (eth_type h)) @ ''!]'')"

section \<open>EthernetFrame\<close>

record ethernet_frame =
  ef_header :: ethernet_header
  ef_payload :: buffer_list

definition eth_frame_default :: ethernet_frame where
  "eth_frame_default = \<lparr>ef_header = eth_header_default, ef_payload = []\<rparr>"

definition eth_frame_parse :: "ethernet_frame \<Rightarrow> buffer \<Rightarrow> parse_result \<times> ethernet_frame" where
  "eth_frame_parse f buf =
     (let ((_, h), p) = run_state (eth_header_parse (ef_header f)) (np_construct buf)
      in (np_error p, \<lparr>ef_header = h, ef_payload = bl_of_buffer (np_buffer p)\<rparr>))"

definition eth_frame_serialize :: "ethernet_frame \<Rightarrow> buffer_list" where
  "eth_frame_serialize f =
     bl_append (bl_append [] (bl_of_buffer (buffer_of (eth_header_serialize (ef_header f))))) (ef_payload f)"

section \<open>The header is a codec\<close>

lemma parses_bytes: "length bs = n \<Longrightarrow> parses (parse_bytes n) (bs @ d) bs d"
proof (induction n arbitrary: bs)
  case 0
  then show ?case
    by (simp add: parses_return)
next
  case (Suc n)
  then obtain b cs where "bs = b # cs" "length cs = n"
    by (cases bs) auto
  then show ?case
    using Suc.IH [of cs] by (auto intro!: parses_bind [OF parses_u8] parses_bind parses_return)
qed

lemma foldl_unparse_u8 [simp]: "foldl unparse_u8 s bs = s @ bs"
  by (induction bs arbitrary: s) simp_all

definition eth_header_ok :: "ethernet_header \<Rightarrow> bool" where
  "eth_header_ok h \<longleftrightarrow> eth_address_ok (eth_dst h) \<and> eth_address_ok (eth_src h)"

lemma eth_header_serialize_eq: "eth_header_serialize h = eth_dst h @ eth_src h @ be_bytes 2 (unat (eth_type h))"
  by (simp add: eth_header_serialize_def Let_def)

lemma length_eth_header [simp]: "eth_header_ok h \<Longrightarrow> length (eth_header_serialize h) = 14"
  by (simp add: eth_header_serialize_eq eth_header_ok_def eth_address_ok_def)

interpretation eth_codec: codec eth_header_ok "\<lambda>h. Inr (eth_header_serialize h)" eth_header_parse id "\<lambda>_ _. True"
proof unfold_locales
  fix h s rest h0 assume h: "eth_header_ok h" "Inr (eth_header_serialize h) = (Inr s :: exn + bytes)"
  have s: "s @ rest = eth_dst h @ eth_src h @ be_bytes 2 (unat (eth_type h)) @ rest"
    using h(2) by (simp add: eth_header_serialize_eq)
  have len: "length (eth_dst h) = 6" "length (eth_src h) = 6"
    using h(1) by (simp_all add: eth_header_ok_def eth_address_ok_def)
  have "parses (State_Monad.return (NoError, h0\<lparr>eth_dst := eth_dst h, eth_src := eth_src h, eth_type := eth_type h\<rparr>))
      rest (NoError, id h) rest"
    by (cases h; cases h0) (simp add: parses_return)
  then have "parses (do { dst \<leftarrow> parse_bytes 6; src \<leftarrow> parse_bytes 6; type \<leftarrow> parse_u16; e \<leftarrow> parse_get_error;
        State_Monad.return (e, h0\<lparr>eth_dst := dst, eth_src := src, eth_type := type\<rparr>) })
      (s @ rest) (NoError, id h) rest"
    unfolding s by (intro parses_bind [OF parses_bytes [OF len(1)]] parses_bind [OF parses_bytes [OF len(2)]]
        parses_step parses_bind [OF parses_get_error])
  then show "parses (eth_header_parse h0) (s @ rest) (NoError, id h) rest"
    unfolding eth_header_parse_def using len
    by (intro parses_buffer_bind) (simp add: buffer_size_def s)
qed simp

section \<open>Printing\<close>

lemma hex_string_byte: "n < 256 \<Longrightarrow> length (hex_string n) = (if n < 16 then 1 else 2)"
  by (simp add: hex_string.simps [of n] hex_string.simps [of "n div 16"] less_mult_imp_div_less)

text \<open>A printed address is seventeen characters long.\<close>

lemma length_hex_padded: "length (hex_padded b) = 2"
  using hex_string_byte [OF unat_8, of b] by (simp add: hex_padded_def Let_def)

lemma length_ethernet_to_string: "length (ethernet_to_string a) = 3 * length a - 1"
  by (induction a rule: ethernet_to_string.induct) (simp_all add: length_hex_padded)

section \<open>Frames\<close>

text \<open>Frames parsed from serialised ones, with the bytes of the payload in one buffer.\<close>

lemma eth_frame_parse_serialize:
  assumes "eth_header_ok (ef_header f)" "length (bl_concatenate (ef_payload f)) + 14 < two64"
  shows "\<exists>f'. eth_frame_parse f0 (buffer_of (bl_concatenate (eth_frame_serialize f))) = (NoError, f') \<and>
    ef_header f' = ef_header f \<and>
    (\<exists>b. ef_payload f' = [b] \<and> buffer_ok b \<and> buffer_str b = bl_concatenate (ef_payload f))"
proof -
  let ?s = "eth_header_serialize (ef_header f)" and ?p = "bl_concatenate (ef_payload f)"
  have l: "bl_concatenate (eth_frame_serialize f) = ?s @ ?p"
    by (simp add: eth_frame_serialize_def bl_append_def bl_of_buffer_def bl_concatenate_eq)
  have "parses (eth_header_parse (ef_header f0)) (?s @ ?p) (NoError, id (ef_header f)) ?p"
    by (rule eth_codec.par_ser [OF assms(1)]) simp_all
  moreover have "np_at (np_construct (buffer_of (?s @ ?p))) (?s @ ?p)"
    using np_construct_at [of "buffer_of (?s @ ?p)"] assms by (simp add: add.commute)
  ultimately show ?thesis
    unfolding l by (auto simp: eth_frame_parse_def parses_def np_at_def split_beta bl_of_buffer_def)
qed

text \<open>
  A frame with fewer bytes than a header parses without an error: the header keeps its old
  value and all the bytes are the payload.
\<close>

theorem eth_short_frame_accepted:
  "length s < 14 \<Longrightarrow> eth_frame_parse f (buffer_of s) = (NoError, f\<lparr>ef_payload := [buffer_of s]\<rparr>)"
  by (simp add: eth_frame_parse_def eth_header_parse_def parse_buffer_def buffer_size_def np_construct_def
      bl_of_buffer_def)

end
