(* ===== verification/Address.thy ===== *)
theory Address
  imports Net_Parser
begin

text \<open>
  \<open>Address\<close> (\<open>libsponge/util/address.cc\<close>): a socket address with its size. An IPv4 address is
  the 16 bytes of a \<open>sockaddr_in\<close>: the family (in the byte order of a little-endian host), the
  port and the number (in network byte order), eight zero bytes. The resolver of the C library
  is the record \<open>netdb\<close> of two functions; \<open>numeric_netdb\<close> is what its manual promises for
  numeric hosts and services, and \<open>netdb_example\<close> is a resolver that keeps the promise.
\<close>

section \<open>Decimal numbers\<close>

fun dec_string :: "nat \<Rightarrow> string" where
  "dec_string n = (if n < 10 then [char_of (48 + n)] else dec_string (n div 10) @ [char_of (48 + n mod 10)])"

declare dec_string.simps [simp del]

definition is_digit :: "char \<Rightarrow> bool" where
  "is_digit c \<longleftrightarrow> 48 \<le> (of_char c :: nat) \<and> (of_char c :: nat) \<le> 57"

definition dec_value :: "string \<Rightarrow> nat" where
  "dec_value s = foldl (\<lambda>n c. n * 10 + (of_char c - 48)) 0 s"

text \<open>\<open>std::stoi\<close> on a string without white space in front.\<close>

definition stoi :: "string \<Rightarrow> exn + int" where
  "stoi s =
     (let negative = (s \<noteq> [] \<and> hd s = CHR ''-'');
          s = (if s \<noteq> [] \<and> hd s \<in> {CHR ''-'', CHR ''+''} then tl s else s);
          digits = takeWhile is_digit s;
          v = (if negative then - int (dec_value digits) else int (dec_value digits))
      in if digits = [] then Inl (InvalidArgument ''stoi'')
         else if v < - 2147483648 \<or> 2147483647 < v then Inl (OutOfRange ''stoi'')
         else Inr v)"

text \<open>\<open>inet_ntoa\<close>: the dotted quad of an address in host byte order.\<close>

definition inet_ntoa :: "32 word \<Rightarrow> string" where
  "inet_ntoa ip = dec_string (unat ip div 16777216 mod 256) @ ''.'' @ dec_string (unat ip div 65536 mod 256) @ ''.'' @
     dec_string (unat ip div 256 mod 256) @ ''.'' @ dec_string (unat ip mod 256)"

section \<open>Socket addresses\<close>

record address =
  addr_size :: nat
  addr_storage :: bytes

abbreviation storage_size :: nat where
  "storage_size \<equiv> 128"

abbreviation sockaddr_in_size :: nat where
  "sockaddr_in_size \<equiv> 16"

abbreviation AF_INET :: nat where
  "AF_INET \<equiv> 2"

definition sockaddr_in :: "32 word \<Rightarrow> 16 word \<Rightarrow> bytes" where
  "sockaddr_in ip port = [2, 0] @ be_bytes 2 (unat port) @ be_bytes 4 (unat ip) @ replicate 8 0"

definition ss_family :: "bytes \<Rightarrow> nat" where
  "ss_family storage = unat (storage ! 0) + 256 * unat (storage ! 1)"

definition address_construct :: "bytes \<Rightarrow> nat \<Rightarrow> exn + address" where
  "address_construct sa n =
     (if storage_size < n then Inl (RuntimeError ''invalid sockaddr size'')
      else Inr \<lparr>addr_size = n, addr_storage = take n sa @ replicate (storage_size - n) 0\<rparr>)"

definition ipv4_numeric :: "address \<Rightarrow> exn + 32 word" where
  "ipv4_numeric a =
     (if ss_family (addr_storage a) \<noteq> AF_INET \<or> addr_size a \<noteq> sockaddr_in_size
      then Inl (RuntimeError ''ipv4_numeric called on non-IPV4 address'')
      else Inr (word_of_nat (be_val (take 4 (drop 4 (addr_storage a))))))"

definition from_ipv4_numeric :: "32 word \<Rightarrow> exn + address" where
  "from_ipv4_numeric ip_address = address_construct (sockaddr_in ip_address 0) sockaddr_in_size"

definition address_eq :: "address \<Rightarrow> address \<Rightarrow> bool" where
  "address_eq a b =
     (if addr_size a \<noteq> addr_size b then False
      else take (addr_size a) (addr_storage a) = take (addr_size a) (addr_storage b))"

section \<open>The resolver\<close>

record addrinfo =
  ai_flags :: nat
  ai_family :: nat

definition make_hints :: "nat \<Rightarrow> nat \<Rightarrow> addrinfo" where
  "make_hints flags family = \<lparr>ai_flags = flags, ai_family = family\<rparr>"

abbreviation AI_NUMERICHOST :: nat where "AI_NUMERICHOST \<equiv> 4"
abbreviation AI_ALL :: nat where "AI_ALL \<equiv> 16"
abbreviation AI_NUMERICSERV :: nat where "AI_NUMERICSERV \<equiv> 1024"

text \<open>
  \<open>getaddrinfo\<close>: a code and the addresses found. \<open>getnameinfo\<close>, with the flags
  \<open>NI_NUMERICHOST | NI_NUMERICSERV\<close>: a code, the host and the service.
\<close>

record netdb =
  nd_getaddrinfo :: "string \<Rightarrow> string \<Rightarrow> addrinfo \<Rightarrow> int \<times> (bytes \<times> nat) list"
  nd_getnameinfo :: "bytes \<Rightarrow> nat \<Rightarrow> int \<times> string \<times> string"

definition address_resolve :: "netdb \<Rightarrow> string \<Rightarrow> string \<Rightarrow> addrinfo \<Rightarrow> exn + address" where
  "address_resolve nd node service hints =
     (let (gai_ret, resolved_address) = nd_getaddrinfo nd node service hints
      in if gai_ret \<noteq> 0 then Inl (SystemError (''getaddrinfo('' @ node @ '', '' @ service @ '')'') gai_ret)
         else case resolved_address of
           [] \<Rightarrow> Inl (RuntimeError ''getaddrinfo returned successfully but with no results'')
         | (addr, len) # _ \<Rightarrow> address_construct addr len)"

definition address_of_host :: "netdb \<Rightarrow> string \<Rightarrow> string \<Rightarrow> exn + address" where
  "address_of_host nd hostname service = address_resolve nd hostname service (make_hints AI_ALL AF_INET)"

definition address_of_ip :: "netdb \<Rightarrow> string \<Rightarrow> 16 word \<Rightarrow> exn + address" where
  "address_of_ip nd ip port =
     address_resolve nd ip (dec_string (unat port)) (make_hints (AI_NUMERICHOST + AI_NUMERICSERV) AF_INET)"

definition ip_port :: "netdb \<Rightarrow> address \<Rightarrow> exn + string \<times> 16 word" where
  "ip_port nd a =
     (let (gni_ret, ip, port) = nd_getnameinfo nd (addr_storage a) (addr_size a)
      in if gni_ret \<noteq> 0 then Inl (SystemError ''getnameinfo'' gni_ret)
         else case stoi port of Inl e \<Rightarrow> Inl e | Inr p \<Rightarrow> Inr (ip, word_of_int p))"

definition address_ip :: "netdb \<Rightarrow> address \<Rightarrow> exn + string" where
  "address_ip nd a = map_sum id fst (ip_port nd a)"

definition address_port :: "netdb \<Rightarrow> address \<Rightarrow> exn + 16 word" where
  "address_port nd a = map_sum id snd (ip_port nd a)"

definition address_to_string :: "netdb \<Rightarrow> address \<Rightarrow> exn + string" where
  "address_to_string nd a = map_sum id (\<lambda>(ip, port). ip @ '':'' @ dec_string (unat port)) (ip_port nd a)"

section \<open>Numbers and dotted quads\<close>

lemma of_char_digit: "n < 10 \<Longrightarrow> (of_char (char_of (48 + n) :: char) :: nat) = 48 + n"
  by (simp add: of_char_of)

lemma is_digit_dec_string: "c \<in> set (dec_string n) \<Longrightarrow> is_digit c"
proof (induction n rule: less_induct)
  case (less n)
  show ?case
  proof (cases "n < 10")
    case True
    then show ?thesis
      using less.prems of_char_digit [OF True] by (simp add: dec_string.simps [of n] is_digit_def)
  next
    case False
    then have "n div 10 < n" "n mod 10 < 10"
      by simp_all
    then have "is_digit (char_of (48 + n mod 10))" "c \<in> set (dec_string (n div 10)) \<Longrightarrow> is_digit c"
      using less.IH [of "n div 10"] of_char_digit [of "n mod 10"] by (simp_all add: is_digit_def)
    then show ?thesis
      using less.prems False by (auto simp: dec_string.simps [of n])
  qed
qed

lemma dec_value_dec_string [simp]: "dec_value (dec_string n) = n"
proof (induction n rule: less_induct)
  case (less n)
  show ?case
  proof (cases "n < 10")
    case True
    then show ?thesis
      using of_char_digit [OF True] by (simp add: dec_string.simps [of n] dec_value_def)
  next
    case False
    then have "dec_value (dec_string (n div 10)) = n div 10" "n mod 10 < 10"
      using less [of "n div 10"] by simp_all
    then show ?thesis
      using False of_char_digit [of "n mod 10"] by (simp add: dec_string.simps [of n] dec_value_def)
  qed
qed

lemma dec_string_not_Nil [simp]: "dec_string n \<noteq> []"
  by (simp add: dec_string.simps [of n])

lemma takeWhile_digits [simp]: "takeWhile is_digit (dec_string n) = dec_string n"
  using is_digit_dec_string by (simp add: takeWhile_eq_all_conv)

lemma stoi_dec_string [simp]:
  assumes "n \<le> 2147483647"
  shows "stoi (dec_string n) = Inr (int n)"
proof -
  have "is_digit (hd (dec_string n))"
    by (rule is_digit_dec_string [of _ n]) simp
  then have "hd (dec_string n) \<noteq> CHR ''-''" "hd (dec_string n) \<noteq> CHR ''+''"
    by (auto simp: is_digit_def)
  then show ?thesis
    using assms by (simp add: stoi_def)
qed

section \<open>IPv4 addresses\<close>

definition inet_address :: "32 word \<Rightarrow> 16 word \<Rightarrow> address" where
  "inet_address ip port = \<lparr>addr_size = sockaddr_in_size, addr_storage = sockaddr_in ip port @ replicate 112 0\<rparr>"

lemma length_sockaddr_in [simp]: "length (sockaddr_in ip port) = 16"
  by (simp add: sockaddr_in_def)

lemma address_construct_inet [simp]: "address_construct (sockaddr_in ip port) sockaddr_in_size = Inr (inet_address ip port)"
  by (simp add: address_construct_def inet_address_def)

lemma be_bytes_two: "be_bytes 2 n = [word_of_nat (n div 256), word_of_nat n]"
  using be_bytes_Suc [of 1 n] be_bytes_Suc [of 0 n] by (simp add: be_bytes_def numeral_2_eq_2)

lemma be_val_be_bytes_32: "word_of_nat (be_val (be_bytes 4 (unat (w :: 32 word)))) = w"
  using unat_32 [of w] by (simp add: be_val_bytes)

lemma ipv4_numeric_inet [simp]: "ipv4_numeric (inet_address ip port) = Inr ip"
  by (simp add: ipv4_numeric_def inet_address_def ss_family_def sockaddr_in_def be_bytes_two be_val_be_bytes_32)

lemma be_bytes_inject_16:
  assumes "be_bytes 2 (unat (p :: 16 word)) = be_bytes 2 (unat q)"
  shows "p = q"
proof -
  have "be_val (be_bytes 2 (unat p)) = be_val (be_bytes 2 (unat q))"
    using assms by simp
  then have "unat p = unat q"
    using unat_16 [of p] unat_16 [of q] by (simp add: be_val_bytes)
  then show ?thesis
    by (simp add: word_unat_eq_iff)
qed

lemma address_eq_inet [simp]: "address_eq (inet_address ip port) (inet_address ip' port') \<longleftrightarrow> ip = ip' \<and> port = port'"
proof -
  have "ip = ip'" if "be_bytes 4 (unat ip) = be_bytes 4 (unat ip')"
    using that by (metis be_val_be_bytes_32)
  moreover have "sockaddr_in ip port = sockaddr_in ip' port' \<longleftrightarrow>
      be_bytes 2 (unat port) = be_bytes 2 (unat port') \<and> be_bytes 4 (unat ip) = be_bytes 4 (unat ip')"
    by (simp add: sockaddr_in_def)
  moreover have "take 16 (addr_storage (inet_address i p)) = sockaddr_in i p" "addr_size (inet_address i p) = 16" for i p
    by (simp_all add: inet_address_def)
  then have "address_eq (inet_address ip port) (inet_address ip' port') \<longleftrightarrow> sockaddr_in ip port = sockaddr_in ip' port'"
    by (simp only: address_eq_def if_False refl simp_thms)
  moreover have "port = port' \<Longrightarrow> be_bytes 2 (unat port) = be_bytes 2 (unat port')"
      "ip = ip' \<Longrightarrow> be_bytes 4 (unat ip) = be_bytes 4 (unat ip')"
    by simp_all
  ultimately show ?thesis
    using be_bytes_inject_16 [of port port'] by argo
qed

section \<open>What the resolver promises\<close>

text \<open>
  The manual pages \<open>getaddrinfo(3)\<close> and \<open>getnameinfo(3)\<close>: numeric hosts and services need no
  look-up, and printing an IPv4 address numerically gives its dotted quad and decimal port.
\<close>

definition numeric_netdb :: "netdb \<Rightarrow> bool" where
  "numeric_netdb nd \<longleftrightarrow>
     (\<forall>ip port. nd_getaddrinfo nd (inet_ntoa ip) (dec_string (unat (port :: 16 word)))
        (make_hints (AI_NUMERICHOST + AI_NUMERICSERV) AF_INET) = (0, [(sockaddr_in ip port, sockaddr_in_size)])) \<and>
     (\<forall>ip port. nd_getnameinfo nd (sockaddr_in ip port @ replicate 112 0) sockaddr_in_size =
        (0, inet_ntoa ip, dec_string (unat port)))"

lemma address_of_ip_numeric:
  "numeric_netdb nd \<Longrightarrow> address_of_ip nd (inet_ntoa ip) port = Inr (inet_address ip port)"
  by (simp add: address_of_ip_def address_resolve_def numeric_netdb_def)

lemma ip_port_numeric:
  assumes "numeric_netdb nd"
  shows "ip_port nd (inet_address ip port) = Inr (inet_ntoa ip, port)"
  using assms unat_16 [of port]
  by (simp add: ip_port_def inet_address_def numeric_netdb_def word_unat_eq_iff unat_of_nat)

lemma address_port_numeric [simp]: "numeric_netdb nd \<Longrightarrow> address_port nd (inet_address ip port) = Inr port"
  by (simp add: address_port_def ip_port_numeric)

text \<open>A resolver for numeric addresses only.\<close>

fun split_dots :: "nat \<Rightarrow> string \<Rightarrow> string list" where
  "split_dots 0 s = [s]"
| "split_dots (Suc n) s = takeWhile is_digit s # split_dots n (tl (dropWhile is_digit s))"

definition quad_value :: "string \<Rightarrow> 32 word" where
  "quad_value s = word_of_nat (foldl (\<lambda>v q. v * 256 + dec_value q) 0 (split_dots 3 s))"

definition netdb_example :: netdb where
  "netdb_example = \<lparr>
     nd_getaddrinfo = (\<lambda>node service _. (0, [(sockaddr_in (quad_value node) (word_of_nat (dec_value service)), sockaddr_in_size)])),
     nd_getnameinfo = (\<lambda>a _. (0, inet_ntoa (word_of_nat (be_val (take 4 (drop 4 a)))), dec_string (be_val (take 2 (drop 2 a)))))\<rparr>"

lemma takeWhile_dec_dot [simp]:
  "takeWhile is_digit (dec_string n @ CHR ''.'' # s) = dec_string n"
  "dropWhile is_digit (dec_string n @ CHR ''.'' # s) = CHR ''.'' # s"
proof -
  have "\<not> is_digit CHR ''.''"
    by (simp add: is_digit_def)
  then show "takeWhile is_digit (dec_string n @ CHR ''.'' # s) = dec_string n"
    "dropWhile is_digit (dec_string n @ CHR ''.'' # s) = CHR ''.'' # s"
    using is_digit_dec_string by (auto simp: takeWhile_append dropWhile_append)
qed

lemma quads: "(((n :: nat) div 16777216 mod 256 * 256 + n div 65536 mod 256) * 256 + n div 256 mod 256) * 256 + n mod 256 =
    n mod 4294967296"
  using mod_mult2_eq [of n 256 16777216] mod_mult2_eq [of "n div 256" 256 65536] mod_mult2_eq [of "n div 65536" 256 256]
  by (simp add: div_mult2_eq [symmetric])

lemma quad_value_inet_ntoa: "quad_value (inet_ntoa ip) = ip"
  using unat_32 [of ip] quads [of "unat ip"] by (simp add: quad_value_def inet_ntoa_def numeral_3_eq_3)

lemma netdb_example_numeric: "numeric_netdb netdb_example"
proof -
  have "be_val (be_bytes 2 (unat (p :: 16 word))) = unat p" for p
    using unat_16 [of p] by (simp add: be_val_bytes)
  then show ?thesis
    by (simp add: numeric_netdb_def netdb_example_def quad_value_inet_ntoa sockaddr_in_def be_val_be_bytes_32)
qed

section \<open>Properties\<close>

text \<open>
  Addresses. With a resolver that handles numeric addresses as its manual says, an address
  built from a dotted quad and a port, or from a number, has the number, the string and the
  port it was built from, and two such addresses are equal exactly when both agree.
\<close>

theorem address_roundtrip:
  assumes "numeric_netdb nd"
  shows "\<exists>a. address_of_ip nd (inet_ntoa ip) port = Inr a \<and> ipv4_numeric a = Inr ip \<and>
      address_port nd a = Inr port \<and> address_ip nd a = Inr (inet_ntoa ip) \<and>
      address_to_string nd a = Inr (inet_ntoa ip @ '':'' @ dec_string (unat port)) \<and>
      (\<exists>b. from_ipv4_numeric ip' = Inr b \<and> ipv4_numeric b = Inr ip' \<and> address_eq a b = (ip = ip' \<and> port = 0))"
  using assms
  by (simp add: address_of_ip_numeric address_ip_def address_to_string_def ip_port_numeric from_ipv4_numeric_def)

theorem address_roundtrip_witness:
  "\<exists>a. address_of_ip netdb_example ''10.0.0.1'' 80 = Inr a \<and> ipv4_numeric a = Inr 0x0a000001 \<and>
     address_to_string netdb_example a = Inr ''10.0.0.1:80''"
proof -
  have "dec_string 10 = ''10''" "dec_string 0 = ''0''" "dec_string 1 = ''1''"
    by code_simp+
  then have "inet_ntoa 0x0a000001 = ''10.0.0.1''"
    by (simp add: inet_ntoa_def)
  moreover have "dec_string (unat (80 :: 16 word)) = ''80''"
  proof -
    have "dec_string 80 = ''80''"
      by code_simp
    then show ?thesis
      by simp
  qed
  moreover have "''10.0.0.1'' @ '':'' @ ''80'' = ''10.0.0.1:80''"
    by simp
  ultimately show ?thesis
    using address_roundtrip [OF netdb_example_numeric, of "0x0a000001" 80 0] by metis
qed

end
