(* ===== verification/Arp.thy ===== *)
theory Arp
  imports Ethernet Address
begin

text \<open>
  \<open>ARPMessage\<close> (\<open>libsponge/tcp_helpers/arp_message.cc\<close>): the messages that resolve IPv4
  addresses to Ethernet addresses. The message is an instance of \<open>codec\<close>.
\<close>

section \<open>ARPMessage\<close>

record arp_message =
  arp_hardware_type :: "16 word"
  arp_protocol_type :: "16 word"
  arp_hardware_address_size :: byte
  arp_protocol_address_size :: byte
  arp_opcode :: "16 word"
  arp_sender_ethernet_address :: ethernet_address
  arp_sender_ip_address :: "32 word"
  arp_target_ethernet_address :: ethernet_address
  arp_target_ip_address :: "32 word"

abbreviation arp_length :: nat where "arp_length \<equiv> 28"
abbreviation TYPE_ETHERNET :: "16 word" where "TYPE_ETHERNET \<equiv> 1"
abbreviation OPCODE_REQUEST :: "16 word" where "OPCODE_REQUEST \<equiv> 1"
abbreviation OPCODE_REPLY :: "16 word" where "OPCODE_REPLY \<equiv> 2"

definition arp_default :: arp_message where
  "arp_default = \<lparr>arp_hardware_type = TYPE_ETHERNET, arp_protocol_type = TYPE_IPv4, arp_hardware_address_size = 6,
     arp_protocol_address_size = 4, arp_opcode = 0, arp_sender_ethernet_address = eth_address_zero,
     arp_sender_ip_address = 0, arp_target_ethernet_address = eth_address_zero, arp_target_ip_address = 0\<rparr>"

definition arp_supported :: "arp_message \<Rightarrow> bool" where
  "arp_supported m \<longleftrightarrow> arp_hardware_type m = TYPE_ETHERNET \<and> arp_protocol_type m = TYPE_IPv4 \<and>
     arp_hardware_address_size m = 6 \<and> arp_protocol_address_size m = 4 \<and>
     (arp_opcode m = OPCODE_REQUEST \<or> arp_opcode m = OPCODE_REPLY)"

definition arp_parser :: "arp_message \<Rightarrow> (parse_result \<times> arp_message) parser" where
  "arp_parser m = do {
     b \<leftarrow> parse_buffer;
     if buffer_size b < arp_length then State_Monad.return (PacketTooShort, m)
     else do {
       hardware_type \<leftarrow> parse_u16;
       protocol_type \<leftarrow> parse_u16;
       hardware_address_size \<leftarrow> parse_u8;
       protocol_address_size \<leftarrow> parse_u8;
       opcode \<leftarrow> parse_u16;
       let m = m\<lparr>arp_hardware_type := hardware_type, arp_protocol_type := protocol_type,
         arp_hardware_address_size := hardware_address_size, arp_protocol_address_size := protocol_address_size,
         arp_opcode := opcode\<rparr>;
       if \<not> arp_supported m then State_Monad.return (Unsupported, m)
       else do {
         sender_ethernet_address \<leftarrow> parse_bytes 6;
         sender_ip_address \<leftarrow> parse_u32;
         target_ethernet_address \<leftarrow> parse_bytes 6;
         target_ip_address \<leftarrow> parse_u32;
         e \<leftarrow> parse_get_error;
         State_Monad.return (e, m\<lparr>arp_sender_ethernet_address := sender_ethernet_address,
           arp_sender_ip_address := sender_ip_address, arp_target_ethernet_address := target_ethernet_address,
           arp_target_ip_address := target_ip_address\<rparr>)
       }
     }
   }"

definition arp_parse :: "arp_message \<Rightarrow> buffer \<Rightarrow> parse_result \<times> arp_message" where
  "arp_parse m buffer = fst (run_state (arp_parser m) (np_construct buffer))"

definition arp_serialize :: "arp_message \<Rightarrow> exn + bytes" where
  "arp_serialize m =
     (if \<not> arp_supported m
      then Inl (RuntimeError ''ARPMessage::serialize(): unsupported field combination (must be Ethernet/IP, and request or reply)'')
      else let ret = unparse_u16 [] (arp_hardware_type m);
               ret = unparse_u16 ret (arp_protocol_type m);
               ret = unparse_u8 ret (arp_hardware_address_size m);
               ret = unparse_u8 ret (arp_protocol_address_size m);
               ret = unparse_u16 ret (arp_opcode m);
               ret = foldl unparse_u8 ret (arp_sender_ethernet_address m);
               ret = unparse_u32 ret (arp_sender_ip_address m);
               ret = foldl unparse_u8 ret (arp_target_ethernet_address m);
               ret = unparse_u32 ret (arp_target_ip_address m)
           in Inr ret)"

definition arp_to_string :: "arp_message \<Rightarrow> string" where
  "arp_to_string m =
     (let opcode_str = ''(unknown type)'';
          opcode_str = (if arp_opcode m = OPCODE_REQUEST then ''REQUEST'' else opcode_str);
          opcode_str = (if arp_opcode m = OPCODE_REPLY then ''REPLY'' else opcode_str)
      in ''opcode='' @ opcode_str @ '', sender='' @ ethernet_to_string (arp_sender_ethernet_address m) @ ''/'' @
         inet_ntoa (arp_sender_ip_address m) @ '', target='' @ ethernet_to_string (arp_target_ethernet_address m) @
         ''/'' @ inet_ntoa (arp_target_ip_address m))"

section \<open>The message is a codec\<close>

definition arp_wf :: "arp_message \<Rightarrow> bool" where
  "arp_wf m \<longleftrightarrow> arp_supported m \<and> eth_address_ok (arp_sender_ethernet_address m) \<and>
     eth_address_ok (arp_target_ethernet_address m)"

text \<open>The eight bytes that say what kind of message it is, and the addresses.\<close>

definition arp_kind_bytes :: "arp_message \<Rightarrow> bytes" where
  "arp_kind_bytes m = be_bytes 2 (unat (arp_hardware_type m)) @ be_bytes 2 (unat (arp_protocol_type m)) @
     [arp_hardware_address_size m] @ [arp_protocol_address_size m] @ be_bytes 2 (unat (arp_opcode m))"

definition arp_address_bytes :: "arp_message \<Rightarrow> bytes" where
  "arp_address_bytes m = arp_sender_ethernet_address m @ be_bytes 4 (unat (arp_sender_ip_address m)) @
     arp_target_ethernet_address m @ be_bytes 4 (unat (arp_target_ip_address m))"

definition arp_bytes :: "arp_message \<Rightarrow> bytes" where
  "arp_bytes m = arp_kind_bytes m @ arp_address_bytes m"

lemma arp_serialize_eq: "arp_supported m \<Longrightarrow> arp_serialize m = Inr (arp_bytes m)"
  by (simp add: arp_serialize_def arp_bytes_def arp_kind_bytes_def arp_address_bytes_def Let_def)

lemma length_arp_bytes [simp]: "arp_wf m \<Longrightarrow> length (arp_bytes m) = 28"
  by (simp add: arp_bytes_def arp_kind_bytes_def arp_address_bytes_def arp_wf_def eth_address_ok_def)

interpretation arp_codec: codec arp_wf arp_serialize arp_parser id "\<lambda>_ _. True"
proof unfold_locales
  fix m m0 :: arp_message and s rest assume m: "arp_wf m" "arp_serialize m = Inr s"
  have sup: "arp_supported m" and len: "length (arp_sender_ethernet_address m) = 6" "length (arp_target_ethernet_address m) = 6"
    using m(1) by (simp_all add: arp_wf_def eth_address_ok_def)
  have s: "s = arp_bytes m"
    using m(2) sup by (simp add: arp_serialize_eq)
  define m' where "m' = m0\<lparr>arp_hardware_type := arp_hardware_type m, arp_protocol_type := arp_protocol_type m,
    arp_hardware_address_size := arp_hardware_address_size m, arp_protocol_address_size := arp_protocol_address_size m,
    arp_opcode := arp_opcode m\<rparr>"
  have sup': "arp_supported m'"
    using sup by (simp add: arp_supported_def m'_def)
  have "parses (State_Monad.return (NoError, m'\<lparr>arp_sender_ethernet_address := arp_sender_ethernet_address m,
      arp_sender_ip_address := arp_sender_ip_address m, arp_target_ethernet_address := arp_target_ethernet_address m,
      arp_target_ip_address := arp_target_ip_address m\<rparr>)) rest (NoError, id m) rest"
    by (cases m; cases m0) (simp add: parses_return m'_def)
  then have addrs: "parses (do { a \<leftarrow> parse_bytes 6; i \<leftarrow> parse_u32; b \<leftarrow> parse_bytes 6; j \<leftarrow> parse_u32; e \<leftarrow> parse_get_error;
        State_Monad.return (e, m'\<lparr>arp_sender_ethernet_address := a, arp_sender_ip_address := i,
          arp_target_ethernet_address := b, arp_target_ip_address := j\<rparr>) })
      (arp_address_bytes m @ rest) (NoError, id m) rest"
    unfolding arp_address_bytes_def append_assoc
    by (intro parses_bind [OF parses_bytes [OF len(1)]] parses_bind [OF parses_bytes [OF len(2)]]
        parses_step parses_bind [OF parses_get_error])
  show "parses (arp_parser m0) (s @ rest) (NoError, id m) rest"
    unfolding arp_parser_def
  proof (rule parses_buffer_bind, goal_cases)
    case (1 b)
    have "\<not> buffer_size b < 28"
      using 1 m(1) by (simp add: buffer_size_def s)
    then show ?case
      unfolding s arp_bytes_def arp_kind_bytes_def append_assoc append_Cons append_Nil Let_def
      apply (simp only: if_False)
      apply (rule parses_step)+
      using addrs sup' by (simp add: m'_def)
  qed
qed (simp add: arp_serialize_eq arp_wf_def)

lemma arp_parse_serialize:
  assumes "arp_wf m" "buffer_ok b" "buffer_str b = arp_bytes m @ rest"
  shows "arp_parse m0 b = (NoError, m)"
proof -
  have "np_at (np_construct b) (arp_bytes m @ rest)"
    using np_construct_at [OF assms(2)] assms(3) by simp
  moreover have "arp_serialize m = Inr (arp_bytes m)"
    using assms(1) by (simp add: arp_serialize_eq arp_wf_def)
  ultimately show ?thesis
    using arp_codec.par_ser [OF assms(1)] by (simp add: arp_parse_def parses_def)
qed

lemma arp_parse_supported:
  assumes "arp_parse m0 b = (NoError, m)" "buffer_ok b"
  shows "28 \<le> length (buffer_str b)"
  using assms by (auto simp: arp_parse_def arp_parser_def parse_buffer_def np_construct_def buffer_size_def split: if_splits)

end
