(* ===== verification/Network_Interface.thy ===== *)
theory Network_Interface
  imports Arp Ipv4
begin

text \<open>
  \<open>NetworkInterface\<close> (\<open>libsponge/network_interface.cc\<close>): the ARP cache, the datagrams that wait
  for an address, and the timers of the ARP requests. The three hash maps are maps of HOL; the
  order in which \<open>tick\<close> visits the waiting addresses is unspecified in C++ and is an argument.
  A handler returns its state beside what it returns or throws.

  The specification \<open>ni_spec\<close> keeps absolute times (when an address was learned, when it was
  asked for) where the code counts down; \<open>ni_conc\<close> computes the state of the code from it.
\<close>

section \<open>The state\<close>

record arp_entry =
  ae_ethernet_address :: ethernet_address
  ae_ttl :: nat

record network_interface =
  ni_ethernet_address :: ethernet_address
  ni_ip_address :: address
  ni_frames_out :: "ethernet_frame list"
  ni_arp_table :: "32 word \<rightharpoonup> arp_entry"
  ni_pending_datagrams :: "32 word \<rightharpoonup> ipv4_datagram list"
  ni_arp_request_timers :: "32 word \<rightharpoonup> nat"

definition ni_construct :: "ethernet_address \<Rightarrow> address \<Rightarrow> network_interface" where
  "ni_construct ethernet_address ip_address =
     \<lparr>ni_ethernet_address = ethernet_address, ni_ip_address = ip_address, ni_frames_out = [],
      ni_arp_table = Map.empty, ni_pending_datagrams = Map.empty, ni_arp_request_timers = Map.empty\<rparr>"

definition ni_push :: "ethernet_frame \<Rightarrow> network_interface \<Rightarrow> network_interface" where
  "ni_push f ni = ni\<lparr>ni_frames_out := ni_frames_out ni @ [f]\<rparr>"

definition eth_frame :: "ethernet_address \<Rightarrow> ethernet_address \<Rightarrow> 16 word \<Rightarrow> buffer_list \<Rightarrow> ethernet_frame" where
  "eth_frame dst src type payload =
     \<lparr>ef_header = \<lparr>eth_dst = dst, eth_src = src, eth_type = type\<rparr>, ef_payload = payload\<rparr>"

section \<open>Sending\<close>

text \<open>The frame of an ARP request, built in the same way by \<open>send_datagram\<close> and \<open>tick\<close>.\<close>

definition ni_arp_request :: "network_interface \<Rightarrow> 32 word \<Rightarrow> exn + ethernet_frame" where
  "ni_arp_request ni ip =
     (case ipv4_numeric (ni_ip_address ni) of
        Inl e \<Rightarrow> Inl e
      | Inr own \<Rightarrow>
          let arp_request = arp_default\<lparr>arp_opcode := OPCODE_REQUEST,
                arp_sender_ethernet_address := ni_ethernet_address ni, arp_sender_ip_address := own,
                arp_target_ip_address := ip\<rparr>
          in (case arp_serialize arp_request of
                Inl e \<Rightarrow> Inl e
              | Inr s \<Rightarrow> Inr (eth_frame ETHERNET_BROADCAST (ni_ethernet_address ni) TYPE_ARP (bl_of_buffer (buffer_of s)))))"

definition ni_timer_idle :: "network_interface \<Rightarrow> 32 word \<Rightarrow> bool" where
  "ni_timer_idle ni ip = (case ni_arp_request_timers ni ip of None \<Rightarrow> True | Some t \<Rightarrow> t = 0)"

definition ni_request :: "32 word \<Rightarrow> network_interface \<Rightarrow> network_interface \<times> exn option" where
  "ni_request ip ni =
     (if ni_timer_idle ni ip
      then case ni_arp_request ni ip of
             Inl e \<Rightarrow> (ni, Some e)
           | Inr frame \<Rightarrow> ((ni_push frame ni)\<lparr>ni_arp_request_timers := (ni_arp_request_timers ni)(ip \<mapsto> 5000)\<rparr>, None)
      else (ni, None))"

text \<open>No live entry in the table: the datagram waits, and the address is asked for.\<close>

definition ni_wait :: "32 word \<Rightarrow> ipv4_datagram \<Rightarrow> network_interface \<Rightarrow> network_interface \<times> exn option" where
  "ni_wait ip dgram ni =
     ni_request ip (ni\<lparr>ni_pending_datagrams := (ni_pending_datagrams ni)(ip \<mapsto>
       (case ni_pending_datagrams ni ip of None \<Rightarrow> [] | Some l \<Rightarrow> l) @ [dgram])\<rparr>)"

definition ni_send_datagram :: "ipv4_datagram \<Rightarrow> address \<Rightarrow> network_interface \<Rightarrow> network_interface \<times> exn option" where
  "ni_send_datagram dgram next_hop ni =
     (case ipv4_numeric next_hop of
        Inl e \<Rightarrow> (ni, Some e)
      | Inr next_hop_ip \<Rightarrow>
          (case ni_arp_table ni next_hop_ip of
             Some entry \<Rightarrow>
               if ae_ttl entry > 0
               then (case ip_datagram_serialize dgram of
                       Inl e \<Rightarrow> (ni, Some e)
                     | Inr payload \<Rightarrow>
                         (ni_push (eth_frame (ae_ethernet_address entry) (ni_ethernet_address ni) TYPE_IPv4 payload) ni, None))
               else ni_wait next_hop_ip dgram ni
           | None \<Rightarrow> ni_wait next_hop_ip dgram ni))"

section \<open>Receiving\<close>

fun ni_flush :: "ethernet_address \<Rightarrow> ipv4_datagram list \<Rightarrow> network_interface \<Rightarrow> network_interface \<times> exn option" where
  "ni_flush dst [] ni = (ni, None)"
| "ni_flush dst (datagram # l) ni =
     (case ip_datagram_serialize datagram of
        Inl e \<Rightarrow> (ni, Some e)
      | Inr payload \<Rightarrow> ni_flush dst l (ni_push (eth_frame dst (ni_ethernet_address ni) TYPE_IPv4 payload) ni))"

definition ni_learn :: "arp_message \<Rightarrow> network_interface \<Rightarrow> network_interface" where
  "ni_learn m ni = ni\<lparr>ni_arp_table := (ni_arp_table ni)(arp_sender_ip_address m \<mapsto>
     \<lparr>ae_ethernet_address = arp_sender_ethernet_address m, ae_ttl = 30000\<rparr>)\<rparr>"

definition ni_reply :: "arp_message \<Rightarrow> network_interface \<Rightarrow> network_interface \<times> exn option" where
  "ni_reply m ni =
     (if arp_opcode m \<noteq> OPCODE_REQUEST then (ni, None)
      else case ipv4_numeric (ni_ip_address ni) of
        Inl e \<Rightarrow> (ni, Some e)
      | Inr own \<Rightarrow>
          if arp_target_ip_address m \<noteq> own then (ni, None)
          else let arp_reply = arp_default\<lparr>arp_opcode := OPCODE_REPLY,
                     arp_sender_ethernet_address := ni_ethernet_address ni, arp_sender_ip_address := own,
                     arp_target_ethernet_address := arp_sender_ethernet_address m,
                     arp_target_ip_address := arp_sender_ip_address m\<rparr>
               in (case arp_serialize arp_reply of
                     Inl e \<Rightarrow> (ni, Some e)
                   | Inr s \<Rightarrow> (ni_push (eth_frame (arp_sender_ethernet_address m) (ni_ethernet_address ni) TYPE_ARP
                       (bl_of_buffer (buffer_of s))) ni, None)))"

definition ni_send_waiting :: "arp_message \<Rightarrow> network_interface \<Rightarrow> network_interface \<times> exn option" where
  "ni_send_waiting m ni =
     (case ni_pending_datagrams ni (arp_sender_ip_address m) of
        None \<Rightarrow> (ni, None)
      | Some l \<Rightarrow>
          (case ni_flush (arp_sender_ethernet_address m) l ni of
             (ni, Some e) \<Rightarrow> (ni, Some e)
           | (ni, None) \<Rightarrow>
               (ni\<lparr>ni_pending_datagrams := (ni_pending_datagrams ni)(arp_sender_ip_address m := None),
                   ni_arp_request_timers := (ni_arp_request_timers ni)(arp_sender_ip_address m := None)\<rparr>, None)))"

definition ni_recv_arp :: "arp_message \<Rightarrow> network_interface \<Rightarrow> network_interface \<times> exn option" where
  "ni_recv_arp m ni =
     (case ni_reply m (ni_learn m ni) of
        (ni, Some e) \<Rightarrow> (ni, Some e)
      | (ni, None) \<Rightarrow> ni_send_waiting m ni)"

definition ni_recv_frame :: "ethernet_frame \<Rightarrow> network_interface \<Rightarrow> network_interface \<times> (exn + ipv4_datagram option)" where
  "ni_recv_frame frame ni =
     (let h = ef_header frame
      in if eth_dst h \<noteq> ni_ethernet_address ni \<and> eth_dst h \<noteq> ETHERNET_BROADCAST then (ni, Inr None)
         else if eth_type h = TYPE_IPv4
         then (case bl_to_buffer (ef_payload frame) of
                 Inl e \<Rightarrow> (ni, Inl e)
               | Inr b \<Rightarrow>
                   let (r, datagram) = ip_datagram_parse ip_datagram_default b
                   in (ni, Inr (if r = NoError then Some datagram else None)))
         else if eth_type h = TYPE_ARP
         then (case bl_to_buffer (ef_payload frame) of
                 Inl e \<Rightarrow> (ni, Inl e)
               | Inr b \<Rightarrow>
                   let (r, arp_message) = arp_parse arp_default b
                   in if r = NoError
                      then (case ni_recv_arp arp_message ni of (ni, Some e) \<Rightarrow> (ni, Inl e) | (ni, None) \<Rightarrow> (ni, Inr None))
                      else (ni, Inr None))
         else (ni, Inr None))"

section \<open>Time\<close>

definition ni_expire :: "nat \<Rightarrow> ('k \<rightharpoonup> arp_entry) \<Rightarrow> ('k \<rightharpoonup> arp_entry)" where
  "ni_expire ms table = (\<lambda>ip. case table ip of None \<Rightarrow> None
     | Some entry \<Rightarrow> if ae_ttl entry \<le> ms then None else Some (entry\<lparr>ae_ttl := ae_ttl entry - ms\<rparr>))"

definition ni_count_down :: "nat \<Rightarrow> ('k \<rightharpoonup> nat) \<Rightarrow> ('k \<rightharpoonup> nat)" where
  "ni_count_down ms timers = (\<lambda>ip. case timers ip of None \<Rightarrow> None
     | Some timer \<Rightarrow> Some (if timer \<le> ms then 0 else timer - ms))"

text \<open>The loop over the waiting addresses, in the order \<open>ips\<close>.\<close>

fun ni_ask_again :: "32 word list \<Rightarrow> network_interface \<Rightarrow> network_interface \<times> exn option" where
  "ni_ask_again [] ni = (ni, None)"
| "ni_ask_again (ip # ips) ni =
     (case ni_pending_datagrams ni ip of
        None \<Rightarrow> ni_ask_again ips ni
      | Some pender \<Rightarrow>
          if pender = [] then ni_ask_again ips ni
          else (case ni_request ip ni of
                  (ni, Some e) \<Rightarrow> (ni, Some e)
                | (ni, None) \<Rightarrow> ni_ask_again ips ni))"

definition ni_tick :: "32 word list \<Rightarrow> nat \<Rightarrow> network_interface \<Rightarrow> network_interface \<times> exn option" where
  "ni_tick ips ms ni =
     (let ni = ni\<lparr>ni_arp_table := ni_expire ms (ni_arp_table ni)\<rparr>;
          ni = ni\<lparr>ni_arp_request_timers := ni_count_down ms (ni_arp_request_timers ni)\<rparr>
      in ni_ask_again ips ni)"

section \<open>Runs\<close>

text \<open>
  An event is a call of the owner. \<open>order\<close> gives the order in which a map of waiting datagrams
  is visited; what is returned or thrown is left out of the state.
\<close>

datatype ni_event = NI_Send ipv4_datagram address | NI_Recv ethernet_frame | NI_Tick nat

type_synonym visiting = "(32 word \<rightharpoonup> ipv4_datagram list) \<Rightarrow> 32 word list"

fun ni_step_result :: "visiting \<Rightarrow> network_interface \<Rightarrow> ni_event \<Rightarrow> network_interface \<times> exn option" where
  "ni_step_result order ni (NI_Send d next_hop) = ni_send_datagram d next_hop ni"
| "ni_step_result order ni (NI_Recv f) = (case ni_recv_frame f ni of (ni, Inl e) \<Rightarrow> (ni, Some e) | (ni, Inr _) \<Rightarrow> (ni, None))"
| "ni_step_result order ni (NI_Tick ms) = ni_tick (order (ni_pending_datagrams ni)) ms ni"

definition ni_step :: "visiting \<Rightarrow> network_interface \<Rightarrow> ni_event \<Rightarrow> network_interface" where
  "ni_step order ni e = fst (ni_step_result order ni e)"

definition visits_all :: "visiting \<Rightarrow> bool" where
  "visits_all order \<longleftrightarrow> (\<forall>m. distinct (order m) \<and> set (order m) = dom m)"

text \<open>
  What the owner may do without meeting an exception: the datagrams it sends can be serialized
  and the next hop is an IPv4 address; the payload of a received frame is one buffer.
\<close>

definition serializable :: "ipv4_datagram \<Rightarrow> bool" where
  "serializable d \<longleftrightarrow> \<not> isl (ip_datagram_serialize d)"

fun ni_event_ok :: "ni_event \<Rightarrow> bool" where
  "ni_event_ok (NI_Send d next_hop) \<longleftrightarrow> serializable d \<and> \<not> isl (ipv4_numeric next_hop)"
| "ni_event_ok (NI_Recv f) \<longleftrightarrow> \<not> isl (bl_to_buffer (ef_payload f))"
| "ni_event_ok (NI_Tick _) \<longleftrightarrow> True"

section \<open>The specification\<close>

record ni_spec =
  sp_now :: nat
  sp_learned :: "32 word \<rightharpoonup> ethernet_address \<times> nat"
  sp_asked :: "32 word \<rightharpoonup> nat"
  sp_waiting :: "32 word \<rightharpoonup> ipv4_datagram list"
  sp_out :: "ethernet_frame list"

definition sp_init :: ni_spec where
  "sp_init = \<lparr>sp_now = 0, sp_learned = Map.empty, sp_asked = Map.empty, sp_waiting = Map.empty, sp_out = []\<rparr>"

text \<open>An address learned less than 30 seconds ago is known.\<close>

definition sp_known :: "ni_spec \<Rightarrow> 32 word \<rightharpoonup> ethernet_address" where
  "sp_known s ip = (case sp_learned s ip of None \<Rightarrow> None
     | Some (a, t) \<Rightarrow> if sp_now s < t + 30000 then Some a else None)"

text \<open>An address may be asked for unless that was done less than 5 seconds ago.\<close>

definition sp_may_ask :: "ni_spec \<Rightarrow> 32 word \<Rightarrow> bool" where
  "sp_may_ask s ip = (case sp_asked s ip of None \<Rightarrow> True | Some t \<Rightarrow> t + 5000 \<le> sp_now s)"

definition request_frame :: "ethernet_address \<Rightarrow> 32 word \<Rightarrow> 32 word \<Rightarrow> ethernet_frame" where
  "request_frame me own ip = eth_frame ETHERNET_BROADCAST me TYPE_ARP [buffer_of (arp_bytes (arp_default\<lparr>
     arp_opcode := OPCODE_REQUEST, arp_sender_ethernet_address := me, arp_sender_ip_address := own,
     arp_target_ip_address := ip\<rparr>))]"

definition reply_frame :: "ethernet_address \<Rightarrow> 32 word \<Rightarrow> arp_message \<Rightarrow> ethernet_frame" where
  "reply_frame me own m = eth_frame (arp_sender_ethernet_address m) me TYPE_ARP [buffer_of (arp_bytes (arp_default\<lparr>
     arp_opcode := OPCODE_REPLY, arp_sender_ethernet_address := me, arp_sender_ip_address := own,
     arp_target_ethernet_address := arp_sender_ethernet_address m, arp_target_ip_address := arp_sender_ip_address m\<rparr>))]"

definition data_frame :: "ethernet_address \<Rightarrow> ethernet_address \<Rightarrow> ipv4_datagram \<Rightarrow> ethernet_frame" where
  "data_frame me dst d = eth_frame dst me TYPE_IPv4 (projr (ip_datagram_serialize d))"

definition sp_ask :: "ethernet_address \<Rightarrow> 32 word \<Rightarrow> ni_spec \<Rightarrow> 32 word \<Rightarrow> ni_spec" where
  "sp_ask me own s ip = (if sp_may_ask s ip
     then s\<lparr>sp_asked := (sp_asked s)(ip \<mapsto> sp_now s), sp_out := sp_out s @ [request_frame me own ip]\<rparr> else s)"

text \<open>The ARP message a frame carries to this interface.\<close>

definition arp_of_frame :: "ethernet_address \<Rightarrow> ethernet_frame \<Rightarrow> arp_message option" where
  "arp_of_frame me f =
     (let (r, m) = arp_parse arp_default (projr (bl_to_buffer (ef_payload f)))
      in if eth_dst (ef_header f) \<in> {me, ETHERNET_BROADCAST} \<and> eth_type (ef_header f) = TYPE_ARP \<and> r = NoError
         then Some m else None)"

text \<open>Learning: the entry is new, a request for the own address is answered, what waited leaves.\<close>

definition sp_learn :: "ethernet_address \<Rightarrow> 32 word \<Rightarrow> arp_message \<Rightarrow> ni_spec \<Rightarrow> ni_spec" where
  "sp_learn me own m s =
     (let ip = arp_sender_ip_address m; a = arp_sender_ethernet_address m;
          reply = (if arp_opcode m = OPCODE_REQUEST \<and> arp_target_ip_address m = own then [reply_frame me own m] else [])
      in case sp_waiting s ip of
           None \<Rightarrow> s\<lparr>sp_learned := (sp_learned s)(ip \<mapsto> (a, sp_now s)), sp_out := sp_out s @ reply\<rparr>
         | Some l \<Rightarrow> s\<lparr>sp_learned := (sp_learned s)(ip \<mapsto> (a, sp_now s)), sp_asked := (sp_asked s)(ip := None),
             sp_waiting := (sp_waiting s)(ip := None), sp_out := sp_out s @ reply @ map (data_frame me a) l\<rparr>)"

fun sp_step :: "visiting \<Rightarrow> ethernet_address \<Rightarrow> 32 word \<Rightarrow> ni_spec \<Rightarrow> ni_event \<Rightarrow> ni_spec" where
  "sp_step order me own s (NI_Send d next_hop) =
     (let ip = projr (ipv4_numeric next_hop)
      in case sp_known s ip of
           Some a \<Rightarrow> s\<lparr>sp_out := sp_out s @ [data_frame me a d]\<rparr>
         | None \<Rightarrow> sp_ask me own (s\<lparr>sp_waiting := (sp_waiting s)(ip \<mapsto>
             (case sp_waiting s ip of None \<Rightarrow> [] | Some l \<Rightarrow> l) @ [d])\<rparr>) ip)"
| "sp_step order me own s (NI_Recv f) =
     (case arp_of_frame me f of None \<Rightarrow> s | Some m \<Rightarrow> sp_learn me own m s)"
| "sp_step order me own s (NI_Tick ms) =
     foldl (sp_ask me own) (s\<lparr>sp_now := sp_now s + ms\<rparr>) (order (sp_waiting s))"

text \<open>The state of the code that a state of the specification stands for.\<close>

definition live_entries :: "nat \<Rightarrow> ('k \<rightharpoonup> ethernet_address \<times> nat) \<Rightarrow> ('k \<rightharpoonup> arp_entry)" where
  "live_entries now learned = (\<lambda>ip. case learned ip of None \<Rightarrow> None
     | Some (a, t) \<Rightarrow> if now < t + 30000 then Some \<lparr>ae_ethernet_address = a, ae_ttl = t + 30000 - now\<rparr> else None)"

definition timers_left :: "nat \<Rightarrow> ('k \<rightharpoonup> nat) \<Rightarrow> ('k \<rightharpoonup> nat)" where
  "timers_left now asked = (\<lambda>ip. map_option (\<lambda>t. t + 5000 - now) (asked ip))"

definition ni_conc :: "ethernet_address \<Rightarrow> address \<Rightarrow> ni_spec \<Rightarrow> network_interface" where
  "ni_conc me addr s = \<lparr>ni_ethernet_address = me, ni_ip_address = addr, ni_frames_out = sp_out s,
     ni_arp_table = live_entries (sp_now s) (sp_learned s), ni_pending_datagrams = sp_waiting s,
     ni_arp_request_timers = timers_left (sp_now s) (sp_asked s)\<rparr>"

lemma live_entries_simps:
  "live_entries now (learned(ip \<mapsto> (a, now))) =
    (live_entries now learned)(ip \<mapsto> \<lparr>ae_ethernet_address = a, ae_ttl = 30000\<rparr>)"
  "ni_expire ms (live_entries now learned) = live_entries (now + ms) learned"
  by (auto simp: live_entries_def ni_expire_def fun_eq_iff split: option.splits)

lemma timers_left_simps:
  "timers_left now (asked(ip \<mapsto> now)) = (timers_left now asked)(ip \<mapsto> 5000)"
  "timers_left now (asked(ip := None)) = (timers_left now asked)(ip := None)"
  "ni_count_down ms (timers_left now asked) = timers_left (now + ms) asked"
  by (auto simp: timers_left_def ni_count_down_def fun_eq_iff split: option.splits)

text \<open>
  What waits can be serialized and is not empty; its address is not known; it has been asked
  for. No time lies in the future.
\<close>

definition sp_inv :: "ni_spec \<Rightarrow> bool" where
  "sp_inv s \<longleftrightarrow>
     (\<forall>ip l. sp_waiting s ip = Some l \<longrightarrow> l \<noteq> [] \<and> list_all serializable l \<and> sp_known s ip = None \<and> sp_asked s ip \<noteq> None) \<and>
     (\<forall>ip a t. sp_learned s ip = Some (a, t) \<longrightarrow> t \<le> sp_now s) \<and>
     (\<forall>ip t. sp_asked s ip = Some t \<longrightarrow> t \<le> sp_now s)"

section \<open>One operation refines one step\<close>

lemma not_isl: "\<not> isl x \<longleftrightarrow> (\<exists>y. x = Inr y)"
  by (cases x) auto

lemma ni_push_sel [simp]:
  "ni_frames_out (ni_push f ni) = ni_frames_out ni @ [f]" "ni_ethernet_address (ni_push f ni) = ni_ethernet_address ni"
  "ni_ip_address (ni_push f ni) = ni_ip_address ni" "ni_arp_table (ni_push f ni) = ni_arp_table ni"
  "ni_pending_datagrams (ni_push f ni) = ni_pending_datagrams ni"
  "ni_arp_request_timers (ni_push f ni) = ni_arp_request_timers ni"
  by (simp_all add: ni_push_def)

lemma ni_conc_sel [simp]:
  "ni_ethernet_address (ni_conc me addr s) = me" "ni_ip_address (ni_conc me addr s) = addr"
  "ni_frames_out (ni_conc me addr s) = sp_out s" "ni_pending_datagrams (ni_conc me addr s) = sp_waiting s"
  by (simp_all add: ni_conc_def)

lemma ni_push_conc: "ni_push f (ni_conc me addr s) = ni_conc me addr (s\<lparr>sp_out := sp_out s @ [f]\<rparr>)"
  by (simp add: ni_push_def ni_conc_def)

lemma ni_timer_idle_conc: "ni_timer_idle (ni_conc me addr s) ip = sp_may_ask s ip"
  by (auto simp: ni_timer_idle_def ni_conc_def timers_left_def sp_may_ask_def split: option.splits)

lemma ni_arp_table_conc:
  "ni_arp_table (ni_conc me addr s) ip = None \<longleftrightarrow> sp_known s ip = None"
  "ni_arp_table (ni_conc me addr s) ip = Some e \<Longrightarrow> 0 < ae_ttl e \<and> sp_known s ip = Some (ae_ethernet_address e)"
  by (auto simp: ni_conc_def live_entries_def sp_known_def split: option.splits if_splits)

lemma arp_supported_kinds [simp]:
  "arp_supported (arp_default\<lparr>arp_opcode := OPCODE_REQUEST, arp_sender_ethernet_address := a, arp_sender_ip_address := i,
     arp_target_ip_address := j\<rparr>)"
  "arp_supported (arp_default\<lparr>arp_opcode := OPCODE_REPLY, arp_sender_ethernet_address := a, arp_sender_ip_address := i,
     arp_target_ethernet_address := b, arp_target_ip_address := j\<rparr>)"
  by (simp_all add: arp_supported_def arp_default_def)

lemma ni_arp_request_conc:
  "ipv4_numeric addr = Inr own \<Longrightarrow> ni_arp_request (ni_conc me addr s) ip = Inr (request_frame me own ip)"
  by (simp add: ni_arp_request_def arp_serialize_eq request_frame_def bl_of_buffer_def Let_def)

lemma ni_request_conc:
  assumes "ipv4_numeric addr = Inr own"
  shows "ni_request ip (ni_conc me addr s) = (ni_conc me addr (sp_ask me own s ip), None)"
  using assms
  by (auto simp: ni_request_def ni_timer_idle_conc ni_arp_request_conc sp_ask_def)
    (auto simp: ni_conc_def ni_push_def timers_left_simps)

lemma ni_wait_conc:
  assumes "ipv4_numeric addr = Inr own"
  shows "ni_wait ip d (ni_conc me addr s) = (ni_conc me addr (sp_ask me own (s\<lparr>sp_waiting := (sp_waiting s)(ip \<mapsto>
    (case sp_waiting s ip of None \<Rightarrow> [] | Some l \<Rightarrow> l) @ [d])\<rparr>) ip), None)"
proof -
  have "(ni_conc me addr s)\<lparr>ni_pending_datagrams := w\<rparr> = ni_conc me addr (s\<lparr>sp_waiting := w\<rparr>)" for w
    by (simp add: ni_conc_def)
  then show ?thesis
    by (simp add: ni_wait_def ni_request_conc [OF assms])
qed

lemma ni_send_conc:
  assumes "ipv4_numeric addr = Inr own" "ni_event_ok (NI_Send d next_hop)"
  shows "ni_send_datagram d next_hop (ni_conc me addr s) =
    (ni_conc me addr (sp_step order me own s (NI_Send d next_hop)), None)"
proof -
  obtain ip pl where ip: "ipv4_numeric next_hop = Inr ip" and pl: "ip_datagram_serialize d = Inr pl"
    using assms(2) by (auto simp: serializable_def not_isl)
  show ?thesis
  proof (cases "ni_arp_table (ni_conc me addr s) ip")
    case None
    then have "sp_known s ip = None"
      by (simp add: ni_arp_table_conc(1))
    then show ?thesis
      using None by (simp add: ni_send_datagram_def ip ni_wait_conc [OF assms(1)])
  next
    case (Some e)
    then show ?thesis
      using ni_arp_table_conc(2) [OF Some]
      by (simp add: ni_send_datagram_def ip pl ni_push_conc data_frame_def)
  qed
qed

lemma ni_flush_serializable:
  "list_all serializable l \<Longrightarrow>
    ni_flush dst l ni = (ni\<lparr>ni_frames_out := ni_frames_out ni @ map (data_frame (ni_ethernet_address ni) dst) l\<rparr>, None)"
  by (induction l arbitrary: ni) (auto simp: serializable_def not_isl data_frame_def ni_push_def)

lemma ni_learn_conc:
  "ni_learn m (ni_conc me addr s) = ni_conc me addr (s\<lparr>sp_learned := (sp_learned s)(arp_sender_ip_address m \<mapsto>
     (arp_sender_ethernet_address m, sp_now s))\<rparr>)"
  by (simp add: ni_learn_def ni_conc_def live_entries_simps)

lemma ni_reply_conc:
  assumes "ipv4_numeric addr = Inr own"
  shows "ni_reply m (ni_conc me addr s) = (ni_conc me addr (s\<lparr>sp_out := sp_out s @
    (if arp_opcode m = OPCODE_REQUEST \<and> arp_target_ip_address m = own then [reply_frame me own m] else [])\<rparr>), None)"
  using assms
  by (simp add: ni_reply_def ni_push_conc arp_serialize_eq reply_frame_def bl_of_buffer_def Let_def)

lemma ni_recv_arp_conc:
  assumes "ipv4_numeric addr = Inr own" "sp_inv s"
  shows "ni_recv_arp m (ni_conc me addr s) = (ni_conc me addr (sp_learn me own m s), None)"
proof (cases "sp_waiting s (arp_sender_ip_address m)")
  case None
  then show ?thesis
    by (simp add: ni_recv_arp_def ni_learn_conc ni_reply_conc [OF assms(1)] ni_send_waiting_def sp_learn_def Let_def)
next
  case (Some l)
  then have "list_all serializable l"
    using assms(2) by (auto simp: sp_inv_def)
  then show ?thesis
    using Some by (auto simp: ni_recv_arp_def ni_learn_conc ni_reply_conc [OF assms(1)] ni_send_waiting_def sp_learn_def
        ni_flush_serializable Let_def) (simp_all add: ni_conc_def timers_left_simps)
qed

lemma ni_recv_conc:
  assumes "ipv4_numeric addr = Inr own" "ni_event_ok (NI_Recv f)" "sp_inv s"
  shows "fst (ni_recv_frame f (ni_conc me addr s)) =
      ni_conc me addr (case arp_of_frame me f of None \<Rightarrow> s | Some m \<Rightarrow> sp_learn me own m s)"
    "\<not> isl (snd (ni_recv_frame f (ni_conc me addr s)))"
proof -
  obtain b where "bl_to_buffer (ef_payload f) = Inr b"
    using assms(2) by (auto simp: not_isl)
  then show "fst (ni_recv_frame f (ni_conc me addr s)) =
      ni_conc me addr (case arp_of_frame me f of None \<Rightarrow> s | Some m \<Rightarrow> sp_learn me own m s)"
    "\<not> isl (snd (ni_recv_frame f (ni_conc me addr s)))"
    by (auto simp: ni_recv_frame_def arp_of_frame_def ni_recv_arp_conc [OF assms(1,3)] Let_def split_beta)
qed

lemma sp_ask_waiting [simp]: "sp_waiting (sp_ask me own s ip) = sp_waiting s"
  by (simp add: sp_ask_def)

lemma ni_ask_again_conc:
  assumes "ipv4_numeric addr = Inr own" "\<And>ip. ip \<in> set ips \<Longrightarrow> \<exists>l. sp_waiting s ip = Some l \<and> l \<noteq> []"
  shows "ni_ask_again ips (ni_conc me addr s) = (ni_conc me addr (foldl (sp_ask me own) s ips), None)"
  using assms(2)
proof (induction ips arbitrary: s)
  case (Cons ip ips)
  obtain l where "sp_waiting s ip = Some l" "l \<noteq> []"
    using Cons.prems by auto
  then show ?case
    using Cons.IH [of "sp_ask me own s ip"] Cons.prems by (simp add: ni_request_conc [OF assms(1)])
qed simp

lemma ni_tick_conc:
  assumes "ipv4_numeric addr = Inr own" "visits_all order" "sp_inv s"
  shows "ni_tick (order (sp_waiting s)) ms (ni_conc me addr s) =
    (ni_conc me addr (sp_step order me own s (NI_Tick ms)), None)"
proof -
  let ?s = "s\<lparr>sp_now := sp_now s + ms\<rparr>" and ?ni = "ni_conc me addr s"
  have "?ni\<lparr>ni_arp_table := ni_expire ms (ni_arp_table ?ni), ni_arp_request_timers := ni_count_down ms (ni_arp_request_timers ?ni)\<rparr> =
      ni_conc me addr ?s"
    by (simp add: ni_conc_def live_entries_simps timers_left_simps)
  moreover have "\<exists>l. sp_waiting ?s ip = Some l \<and> l \<noteq> []" if "ip \<in> set (order (sp_waiting s))" for ip
    using that assms(2,3) by (auto simp: visits_all_def sp_inv_def)
  ultimately show ?thesis
    using ni_ask_again_conc [OF assms(1), of "order (sp_waiting s)" ?s] by (simp add: ni_tick_def Let_def)
qed

lemma ni_step_conc:
  assumes "ipv4_numeric addr = Inr own" "visits_all order" "sp_inv s" "ni_event_ok e"
  shows "ni_step_result order (ni_conc me addr s) e = (ni_conc me addr (sp_step order me own s e), None)"
proof (cases e)
  case (NI_Send d next_hop)
  then show ?thesis
    using ni_send_conc [OF assms(1)] assms(4) by (simp del: sp_step.simps ni_event_ok.simps)
next
  case (NI_Recv f)
  then show ?thesis
    using ni_recv_conc [OF assms(1) _ assms(3), where f = f and me = me] assms(4)
    by (cases "ni_recv_frame f (ni_conc me addr s)") (auto split: sum.splits)
next
  case (NI_Tick ms)
  then show ?thesis
    using ni_tick_conc [OF assms(1-3)] by (simp del: sp_step.simps)
qed

section \<open>The invariant of the specification\<close>

lemma sp_known_updates [simp]:
  "sp_known (s\<lparr>sp_waiting := w\<rparr>) = sp_known s" "sp_known (s\<lparr>sp_out := out\<rparr>) = sp_known s"
  by (simp_all add: sp_known_def fun_eq_iff split: option.splits)

lemma sp_ask_sel [simp]:
  "sp_now (sp_ask me own s ip) = sp_now s" "sp_learned (sp_ask me own s ip) = sp_learned s"
  "sp_known (sp_ask me own s ip) = sp_known s"
  by (auto simp: sp_ask_def sp_known_def fun_eq_iff split: option.splits)

lemma sp_ask_asked:
  "sp_asked (sp_ask me own s ip) = (if sp_may_ask s ip then (sp_asked s)(ip \<mapsto> sp_now s) else sp_asked s)"
  "\<not> sp_may_ask s ip \<Longrightarrow> sp_asked s ip \<noteq> None"
  by (auto simp: sp_ask_def sp_may_ask_def split: option.splits)

text \<open>The invariant, with \<open>A\<close> the set of the addresses that need not have been asked for.\<close>

definition sp_inv_except :: "32 word set \<Rightarrow> ni_spec \<Rightarrow> bool" where
  "sp_inv_except A s \<longleftrightarrow>
     (\<forall>ip l. sp_waiting s ip = Some l \<longrightarrow> l \<noteq> [] \<and> list_all serializable l \<and> sp_known s ip = None \<and>
       (ip \<in> A \<or> sp_asked s ip \<noteq> None)) \<and>
     (\<forall>ip a t. sp_learned s ip = Some (a, t) \<longrightarrow> t \<le> sp_now s) \<and>
     (\<forall>ip t. sp_asked s ip = Some t \<longrightarrow> t \<le> sp_now s)"

lemma sp_inv_except_empty: "sp_inv s = sp_inv_except {} s"
  by (simp add: sp_inv_def sp_inv_except_def)

lemma sp_ask_inv: "sp_inv_except A s \<Longrightarrow> sp_inv_except (A - {ip}) (sp_ask me own s ip)"
  using sp_ask_asked(2) [of s ip] by (auto simp: sp_inv_except_def sp_ask_asked(1))

lemma sp_asks_inv: "sp_inv s \<Longrightarrow> sp_inv (foldl (sp_ask me own) s ips)"
  by (induction ips arbitrary: s) (use sp_ask_inv [of "{}"] in \<open>auto simp: sp_inv_except_empty\<close>)

lemma sp_learn_inv: "sp_inv s \<Longrightarrow> sp_inv (sp_learn me own m s)"
  by (auto simp: sp_inv_def sp_learn_def sp_known_def Let_def split: option.splits if_splits)

lemma sp_later_inv: "sp_inv s \<Longrightarrow> sp_inv (s\<lparr>sp_now := sp_now s + ms\<rparr>)"
  by (fastforce simp: sp_inv_def sp_known_def split: option.splits if_splits)

lemma sp_step_inv:
  assumes "sp_inv s" "ni_event_ok e"
  shows "sp_inv (sp_step order me own s e)"
proof (cases e)
  case (NI_Send d next_hop)
  let ?ip = "projr (ipv4_numeric next_hop)"
  show ?thesis
  proof (cases "sp_known s ?ip")
    case None
    have "sp_inv_except {?ip} (s\<lparr>sp_waiting := (sp_waiting s)(?ip \<mapsto>
        (case sp_waiting s ?ip of None \<Rightarrow> [] | Some l \<Rightarrow> l) @ [d])\<rparr>)"
      using assms None NI_Send by (auto simp: sp_inv_def sp_inv_except_def split: option.splits)
    from sp_ask_inv [OF this, of ?ip me own] show ?thesis
      using None NI_Send by (simp add: sp_inv_except_empty Let_def)
  next
    case (Some a)
    then show ?thesis
      using assms(1) NI_Send by (simp add: sp_inv_def)
  qed
next
  case (NI_Recv f)
  then show ?thesis
    using assms(1) sp_learn_inv by (auto split: option.splits)
next
  case (NI_Tick ms)
  then show ?thesis
    using assms(1) sp_later_inv sp_asks_inv by simp
qed

lemma sp_init_inv: "sp_inv sp_init"
  by (simp add: sp_inv_def sp_init_def)

text \<open>The specification is a machine, and the code refines it.\<close>

interpretation ni: refined_machine "sp_step order me own"
  "\<lambda>s. sp_inv s \<and> visits_all order \<and> ipv4_numeric addr = Inr own" ni_event_ok "ni_conc me addr" "ni_step order"
  for order me own addr
  by unfold_locales (use sp_step_inv ni_step_conc in \<open>auto simp: ni_step_def\<close>)

lemma ni_construct_conc: "ni_construct me addr = ni_conc me addr sp_init"
  by (simp add: ni_construct_def ni_conc_def sp_init_def live_entries_def timers_left_def)

end
