(* ===== verification/Interface_Runs.thy ===== *)
theory Interface_Runs
  imports Network_Interface "HOL-Library.Multiset"
begin

text \<open>
  What a network interface does over a run: it refines the specification with absolute times;
  it asks for an address at most once in five seconds; it neither loses nor duplicates a
  datagram. Each is read off the specification through the interpretation \<open>ni\<close> of
  \<open>refined_machine\<close>.
\<close>

section \<open>The frames of a step\<close>

lemma data_frame_type [simp]: "eth_type (ef_header (data_frame me dst d)) = TYPE_IPv4"
  by (simp add: data_frame_def eth_frame_def)

lemma request_reply_type [simp]:
  "eth_type (ef_header (request_frame me own ip)) = TYPE_ARP" "eth_type (ef_header (reply_frame me own m)) = TYPE_ARP"
  by (simp_all add: request_frame_def reply_frame_def eth_frame_def)

lemma arp_kind_bytes_default:
  "arp_kind_bytes (arp_default\<lparr>arp_opcode := c, arp_sender_ethernet_address := a, arp_sender_ip_address := i,
     arp_target_ethernet_address := b, arp_target_ip_address := j\<rparr>) = arp_kind_bytes (arp_default\<lparr>arp_opcode := c\<rparr>)"
  "arp_kind_bytes (arp_default\<lparr>arp_opcode := c, arp_sender_ethernet_address := a, arp_sender_ip_address := i,
     arp_target_ip_address := j\<rparr>) = arp_kind_bytes (arp_default\<lparr>arp_opcode := c\<rparr>)"
  by (simp_all add: arp_kind_bytes_def)

lemma length_arp_kind_bytes [simp]: "length (arp_kind_bytes m) = 8"
  by (simp add: arp_kind_bytes_def)

lemma reply_not_request: "reply_frame me own m \<noteq> request_frame me' own' ip"
proof -
  have "arp_kind_bytes (arp_default\<lparr>arp_opcode := OPCODE_REPLY\<rparr>) \<noteq> arp_kind_bytes (arp_default\<lparr>arp_opcode := OPCODE_REQUEST\<rparr>)"
    by (simp add: arp_kind_bytes_def be_bytes_two)
  moreover have "arp_bytes a \<noteq> arp_bytes b" if "arp_kind_bytes a \<noteq> arp_kind_bytes b" for a b
    using that by (simp add: arp_bytes_def)
  ultimately show ?thesis
    by (simp add: reply_frame_def request_frame_def eth_frame_def buffer_of_def arp_kind_bytes_default)
qed

lemma request_not_data: "request_frame me own ip \<noteq> data_frame me' a d"
  by (simp add: request_frame_def data_frame_def eth_frame_def)

lemma request_frame_inject: "request_frame me own ip = request_frame me own ip' \<longleftrightarrow> ip = ip'"
proof
  assume "request_frame me own ip = request_frame me own ip'"
  then have "be_bytes 4 (unat ip) = be_bytes 4 (unat ip')"
    by (simp add: request_frame_def eth_frame_def buffer_of_def arp_bytes_def arp_address_bytes_def)
  then show "ip = ip'"
    by (metis be_val_be_bytes_32)
qed simp

text \<open>Asking for a list of addresses.\<close>

lemma sp_asks:
  "\<exists>asked. sp_out (foldl (sp_ask me own) s ips) = sp_out s @ map (request_frame me own) asked \<and>
    (\<forall>ip \<in> set asked. sp_may_ask s ip \<and> sp_asked (foldl (sp_ask me own) s ips) ip = Some (sp_now s)) \<and>
    (\<forall>ip. ip \<notin> set asked \<longrightarrow> sp_asked (foldl (sp_ask me own) s ips) ip = sp_asked s ip)"
proof (induction ips arbitrary: s)
  case (Cons i ips)
  obtain asked where IH: "sp_out (foldl (sp_ask me own) (sp_ask me own s i) ips) =
      sp_out (sp_ask me own s i) @ map (request_frame me own) asked"
    "\<forall>ip \<in> set asked. sp_may_ask (sp_ask me own s i) ip \<and>
      sp_asked (foldl (sp_ask me own) (sp_ask me own s i) ips) ip = Some (sp_now s)"
    "\<forall>ip. ip \<notin> set asked \<longrightarrow> sp_asked (foldl (sp_ask me own) (sp_ask me own s i) ips) ip = sp_asked (sp_ask me own s i) ip"
    using Cons [of "sp_ask me own s i"] by auto
  show ?case
  proof (cases "sp_may_ask s i")
    case True
    have may: "\<not> sp_may_ask (sp_ask me own s i) i"
      "ip \<noteq> i \<Longrightarrow> sp_may_ask (sp_ask me own s i) ip = sp_may_ask s ip" for ip
      using True by (auto simp: sp_may_ask_def sp_ask_asked(1) split: option.splits)
    have "sp_may_ask s ip \<and> ip \<noteq> i" if "ip \<in> set asked" for ip
      using that IH(2) may True by (cases "ip = i") auto
    note asked_may = this
    have sel: "sp_out (sp_ask me own s i) = sp_out s @ [request_frame me own i]"
      "sp_asked (sp_ask me own s i) = (sp_asked s)(i \<mapsto> sp_now s)"
      using True by (simp_all add: sp_ask_def)
    have "i \<notin> set asked"
      using asked_may by blast
    then have "sp_asked (foldl (sp_ask me own) (sp_ask me own s i) ips) i = Some (sp_now s)"
      using IH(3) sel(2) by simp
    then have "\<forall>ip \<in> set (i # asked). sp_may_ask s ip \<and>
        sp_asked (foldl (sp_ask me own) s (i # ips)) ip = Some (sp_now s)"
      using IH(2) True asked_may by simp
    moreover have "\<forall>ip. ip \<notin> set (i # asked) \<longrightarrow> sp_asked (foldl (sp_ask me own) s (i # ips)) ip = sp_asked s ip"
      using IH(3) sel(2) by simp
    ultimately show ?thesis
      using IH(1) sel(1) by (intro exI [of _ "i # asked"]) simp
  next
    case False
    then have "sp_ask me own s i = s"
      by (simp add: sp_ask_def)
    then show ?thesis
      using IH by (intro exI [of _ asked]) simp
  qed
qed (simp add: exI [of _ "[]"])

section \<open>Intervals\<close>

fun event_ms :: "ni_event \<Rightarrow> nat" where
  "event_ms (NI_Tick ms) = ms"
| "event_ms _ = 0"

definition elapsed :: "ni_event list \<Rightarrow> nat" where
  "elapsed es = sum_list (map event_ms es)"

text \<open>The event brings an ARP message from \<open>ip\<close> to the interface.\<close>

fun hears_from :: "ethernet_address \<Rightarrow> 32 word \<Rightarrow> ni_event \<Rightarrow> bool" where
  "hears_from me ip (NI_Recv f) = (case arp_of_frame me f of None \<Rightarrow> False | Some m \<Rightarrow> arp_sender_ip_address m = ip)"
| "hears_from me ip _ = False"

text \<open>The frames that an event adds to the queue, in a state of the interface.\<close>

definition new_frames :: "visiting \<Rightarrow> network_interface \<Rightarrow> ni_event \<Rightarrow> ethernet_frame list" where
  "new_frames order ni e = drop (length (ni_frames_out ni)) (ni_frames_out (ni_step order ni e))"

lemma sp_learn_frames:
  "sp_now (sp_learn me own m s) = sp_now s \<and>
    (\<exists>fs. sp_out (sp_learn me own m s) = sp_out s @ fs \<and> request_frame me own ip \<notin> set fs) \<and>
    (ip \<noteq> arp_sender_ip_address m \<longrightarrow> sp_asked (sp_learn me own m s) ip = sp_asked s ip)"
proof -
  have "request_frame me own ip \<notin> set (map (data_frame me a) l)" for a l
    by (auto simp: request_not_data)
  then show ?thesis
    by (cases "sp_waiting s (arp_sender_ip_address m)")
      (simp_all add: sp_learn_def Let_def reply_not_request [symmetric])
qed

lemma sp_step_asks:
  fixes s :: ni_spec and e me own order
  defines "s' \<equiv> sp_step order me own s e"
  shows "sp_now s' = sp_now s + event_ms e \<and> (\<exists>fs. sp_out s' = sp_out s @ fs \<and>
    (request_frame me own ip \<in> set fs \<longrightarrow>
      (case sp_asked s ip of None \<Rightarrow> True | Some t \<Rightarrow> t + 5000 \<le> sp_now s') \<and> sp_asked s' ip = Some (sp_now s')) \<and>
    (request_frame me own ip \<notin> set fs \<and> \<not> hears_from me ip e \<longrightarrow> sp_asked s' ip = sp_asked s ip))"
proof (cases e)
  case (NI_Send d next_hop)
  let ?ip = "projr (ipv4_numeric next_hop)"
  show ?thesis
  proof (cases "sp_known s ?ip")
    case (Some a)
    then show ?thesis
      using NI_Send request_not_data [of me own ip me a d] by (simp add: s'_def)
  next
    case None
    define s0 where "s0 = s\<lparr>sp_waiting := (sp_waiting s)(?ip \<mapsto> (case sp_waiting s ?ip of None \<Rightarrow> [] | Some l \<Rightarrow> l) @ [d])\<rparr>"
    have s': "s' = sp_ask me own s0 ?ip"
      using None NI_Send by (simp add: s'_def s0_def Let_def)
    have s0: "sp_now s0 = sp_now s" "sp_out s0 = sp_out s" "sp_asked s0 = sp_asked s"
      by (simp_all add: s0_def)
    show ?thesis
    proof (cases "sp_may_ask s0 ?ip")
      case True
      then have "sp_out s' = sp_out s @ [request_frame me own ?ip]" "sp_asked s' = (sp_asked s)(?ip \<mapsto> sp_now s)" "sp_now s' = sp_now s"
        using s0 by (simp_all add: s' sp_ask_def)
      then show ?thesis
        using True NI_Send s0 request_frame_inject [of me own ip ?ip] by (auto simp: sp_may_ask_def split: option.splits)
    next
      case False
      then have "sp_out s' = sp_out s" "sp_asked s' = sp_asked s" "sp_now s' = sp_now s"
        using s0 by (simp_all add: s' sp_ask_def)
      then show ?thesis
        using NI_Send by simp
    qed
  qed
next
  case (NI_Recv f)
  show ?thesis
  proof (cases "arp_of_frame me f")
    case None
    then show ?thesis
      using NI_Recv by (simp add: s'_def)
  next
    case (Some m)
    then show ?thesis
      using NI_Recv sp_learn_frames [of me own m s ip] by (auto simp: s'_def)
  qed
next
  case (NI_Tick ms)
  let ?s = "s\<lparr>sp_now := sp_now s + ms\<rparr>"
  obtain asked where a: "sp_out (foldl (sp_ask me own) ?s (order (sp_waiting s))) = sp_out s @ map (request_frame me own) asked"
    "\<forall>ip \<in> set asked. sp_may_ask ?s ip \<and> sp_asked (foldl (sp_ask me own) ?s (order (sp_waiting s))) ip = Some (sp_now s + ms)"
    "\<forall>ip. ip \<notin> set asked \<longrightarrow> sp_asked (foldl (sp_ask me own) ?s (order (sp_waiting s))) ip = sp_asked s ip"
    using sp_asks [of me own ?s "order (sp_waiting s)"] by auto
  have now: "sp_now (foldl (sp_ask me own) t ips) = sp_now t" for t ips
    by (induction ips arbitrary: t) simp_all
  have mem: "request_frame me own ip \<in> set (map (request_frame me own) asked) \<longleftrightarrow> ip \<in> set asked"
    by (auto simp: request_frame_inject)
  have "s' = foldl (sp_ask me own) ?s (order (sp_waiting s))"
    by (simp add: s'_def NI_Tick)
  then have s': "sp_now s' = sp_now s + ms" "sp_out s' = sp_out s @ map (request_frame me own) asked"
    "ip \<in> set asked \<Longrightarrow> sp_asked s' ip = Some (sp_now s')" "ip \<notin> set asked \<Longrightarrow> sp_asked s' ip = sp_asked s ip"
    using a now by simp_all
  have "case sp_asked s ip of None \<Rightarrow> True | Some t \<Rightarrow> t + 5000 \<le> sp_now s'" if "ip \<in> set asked"
    using a(2) that s'(1) by (auto simp: sp_may_ask_def split: option.splits)
  then show ?thesis
    using s' mem NI_Tick by (intro conjI exI [of _ "map (request_frame me own) asked"]) simp_all
qed

text \<open>Once asked for, an address stays asked for until it is heard from.\<close>

lemma sp_asked_stays:
  assumes "sp_asked s ip = Some t" "t0 \<le> t" "t0 \<le> sp_now s" "list_all (\<lambda>e. \<not> hears_from me ip e) es"
  shows "\<exists>t. sp_asked (foldl (sp_step order me own) s es) ip = Some t \<and> t0 \<le> t"
    and "sp_now (foldl (sp_step order me own) s es) = sp_now s + elapsed es"
proof -
  have "(\<exists>t. sp_asked (foldl (sp_step order me own) s es) ip = Some t \<and> t0 \<le> t) \<and>
      sp_now (foldl (sp_step order me own) s es) = sp_now s + elapsed es"
    using assms
  proof (induction es arbitrary: s t)
    case (Cons e es)
    let ?s = "sp_step order me own s e"
    have now: "sp_now ?s = sp_now s + event_ms e"
      using sp_step_asks [of order me own s e] by blast
    have "sp_asked ?s ip = Some (sp_now ?s) \<or> sp_asked ?s ip = sp_asked s ip"
      using sp_step_asks [of order me own s e ip] Cons.prems(4) by auto
    then obtain t' where "sp_asked ?s ip = Some t'" "t0 \<le> t'"
      using Cons.prems now by (metis le_add1 le_trans)
    then show ?case
      using Cons.IH [of ?s t'] Cons.prems now by (simp add: elapsed_def)
  qed (simp add: elapsed_def)
  then show "\<exists>t. sp_asked (foldl (sp_step order me own) s es) ip = Some t \<and> t0 \<le> t"
    "sp_now (foldl (sp_step order me own) s es) = sp_now s + elapsed es"
    by blast+
qed

section \<open>Datagrams\<close>

definition sent_datagrams :: "ni_event list \<Rightarrow> buffer_list multiset" where
  "sent_datagrams es = mset (concat (map (\<lambda>e. case e of NI_Send d _ \<Rightarrow> [projr (ip_datagram_serialize d)] | _ \<Rightarrow> []) es))"

definition emitted_datagrams :: "ethernet_frame list \<Rightarrow> buffer_list multiset" where
  "emitted_datagrams fs = mset (map ef_payload (filter (\<lambda>f. eth_type (ef_header f) = TYPE_IPv4) fs))"

definition waiting_at :: "(32 word \<rightharpoonup> ipv4_datagram list) \<Rightarrow> 32 word \<Rightarrow> buffer_list multiset" where
  "waiting_at w ip = (case w ip of None \<Rightarrow> {#} | Some l \<Rightarrow> mset (map (\<lambda>d. projr (ip_datagram_serialize d)) l))"

definition waiting_datagrams :: "(32 word \<rightharpoonup> ipv4_datagram list) \<Rightarrow> buffer_list multiset" where
  "waiting_datagrams w = (\<Sum>ip \<in> UNIV. waiting_at w ip)"

lemma emitted_append [simp]: "emitted_datagrams (fs @ gs) = emitted_datagrams fs + emitted_datagrams gs"
  by (simp add: emitted_datagrams_def)

lemma emitted_one [simp]:
  "emitted_datagrams [data_frame me dst d] = {#projr (ip_datagram_serialize d)#}"
  "emitted_datagrams [request_frame me own ip] = {#}" "emitted_datagrams [reply_frame me own m] = {#}"
  "emitted_datagrams [] = {#}" "emitted_datagrams (reply_frame me own m # fs) = emitted_datagrams fs"
  by (simp_all add: emitted_datagrams_def data_frame_def eth_frame_def request_frame_def reply_frame_def)

lemma emitted_data: "emitted_datagrams (map (data_frame me dst) l) = mset (map (\<lambda>d. projr (ip_datagram_serialize d)) l)"
  by (induction l) (simp_all add: emitted_datagrams_def data_frame_def eth_frame_def)

lemma emitted_requests: "emitted_datagrams (map (request_frame me own) ips) = {#}"
  by (induction ips) (simp_all add: emitted_datagrams_def request_frame_def eth_frame_def)

lemma waiting_update:
  "waiting_datagrams (w(ip := x)) + waiting_at w ip = waiting_datagrams w + waiting_at (w(ip := x)) ip"
proof -
  have "waiting_at (w(ip := x)) i = waiting_at w i" if "i \<noteq> ip" for i
    using that by (simp add: waiting_at_def)
  then have "(\<Sum>i \<in> UNIV - {ip}. waiting_at (w(ip := x)) i) = (\<Sum>i \<in> UNIV - {ip}. waiting_at w i)"
    by (intro sum.cong) auto
  then show ?thesis
    using sum.remove [of UNIV ip "waiting_at (w(ip := x))"] sum.remove [of UNIV ip "waiting_at w"]
    by (simp add: waiting_datagrams_def ac_simps)
qed

lemma sp_step_conserves:
  "emitted_datagrams (sp_out (sp_step order me own s e)) + waiting_datagrams (sp_waiting (sp_step order me own s e)) =
    emitted_datagrams (sp_out s) + waiting_datagrams (sp_waiting s) + sent_datagrams [e]"
proof (cases e)
  case (NI_Send d next_hop)
  let ?ip = "projr (ipv4_numeric next_hop)" and ?w = "sp_waiting s"
  let ?l = "(case ?w ?ip of None \<Rightarrow> [] | Some l \<Rightarrow> l) @ [d]"
  have "waiting_datagrams (?w(?ip \<mapsto> ?l)) + waiting_at ?w ?ip = waiting_datagrams ?w + waiting_at (?w(?ip \<mapsto> ?l)) ?ip"
    by (rule waiting_update)
  moreover have "waiting_at (?w(?ip \<mapsto> ?l)) ?ip = waiting_at ?w ?ip + {#projr (ip_datagram_serialize d)#}"
    by (simp add: waiting_at_def split: option.splits)
  ultimately have "waiting_datagrams (?w(?ip \<mapsto> ?l)) = waiting_datagrams ?w + {#projr (ip_datagram_serialize d)#}"
    by (simp add: add.assoc [symmetric] add.commute)
  then show ?thesis
    using NI_Send by (simp add: sent_datagrams_def Let_def sp_ask_def split: option.splits)
next
  case (NI_Recv f)
  have "emitted_datagrams (sp_out (sp_learn me own m s)) + waiting_datagrams (sp_waiting (sp_learn me own m s)) =
      emitted_datagrams (sp_out s) + waiting_datagrams (sp_waiting s)" for m
    using waiting_update [of "sp_waiting s" "arp_sender_ip_address m" None]
    by (auto simp: sp_learn_def Let_def emitted_data waiting_at_def ac_simps split: option.splits)
  then show ?thesis
    using NI_Recv by (simp add: sent_datagrams_def split: option.splits)
next
  case (NI_Tick ms)
  let ?s = "s\<lparr>sp_now := sp_now s + ms\<rparr>"
  obtain asked where "sp_out (foldl (sp_ask me own) ?s (order (sp_waiting s))) = sp_out s @ map (request_frame me own) asked"
    using sp_asks [of me own ?s "order (sp_waiting s)"] by auto
  moreover have "sp_waiting (foldl (sp_ask me own) t ips) = sp_waiting t" for t ips
    by (induction ips arbitrary: t) simp_all
  ultimately show ?thesis
    using NI_Tick by (simp add: sent_datagrams_def emitted_requests)
qed

lemma sp_run_conserves:
  "emitted_datagrams (sp_out (foldl (sp_step order me own) s es)) +
    waiting_datagrams (sp_waiting (foldl (sp_step order me own) s es)) =
    emitted_datagrams (sp_out s) + waiting_datagrams (sp_waiting s) + sent_datagrams es"
proof (induction es arbitrary: s)
  case (Cons e es)
  then show ?case
    using sp_step_conserves [of order me own s e] by (simp add: sent_datagrams_def ac_simps)
qed (simp add: sent_datagrams_def)


section \<open>Properties\<close>

text \<open>
  C12: The network interface refines its specification. Over every run of permitted calls on a
  fresh interface with an IPv4 address, the queue of frames, the ARP cache, the waiting
  datagrams and the timers are those the specification with absolute times determines: an
  address is used for exactly 30 seconds after it was last learned, and asked for at most once
  in 5 seconds; and no permitted call throws.
\<close>

theorem interface_refines:
  assumes "ipv4_numeric addr = Inr own" "visits_all order" "list_all ni_event_ok es"
  shows "foldl (ni_step order) (ni_construct me addr) es =
      ni_conc me addr (foldl (sp_step order me own) sp_init es) \<and>
    (ni_event_ok e \<longrightarrow> snd (ni_step_result order (foldl (ni_step order) (ni_construct me addr) es) e) = None)"
proof -
  have inv: "sp_inv (foldl (sp_step order me own) sp_init es)"
    using ni.run_inv [of sp_init order addr own es me] assms sp_init_inv by simp
  have "foldl (ni_step order) (ni_construct me addr) es = ni_conc me addr (foldl (sp_step order me own) sp_init es)"
    using ni.run_refines [of sp_init order addr own es me] assms sp_init_inv by (simp add: ni_construct_conc)
  then show ?thesis
    using ni_step_conc [OF assms(1,2) inv] by simp
qed

lemma interface_run:
  assumes "ipv4_numeric addr = Inr own" "visits_all order" "list_all ni_event_ok es"
  shows "foldl (ni_step order) (ni_construct me addr) es = ni_conc me addr (foldl (sp_step order me own) sp_init es)"
  using ni.run_refines [of sp_init order addr own es me] assms sp_init_inv by (simp add: ni_construct_conc)

text \<open>
  C29: No flood of ARP requests. Over every run of permitted calls: if two calls each add an ARP
  request for the same address to the queue, then at least 5000 ms have passed between them,
  unless an ARP message from that address arrived in between.
\<close>

theorem interface_request_interval:
  assumes "ipv4_numeric addr = Inr own" "visits_all order" "list_all ni_event_ok (pre @ [a] @ mid @ [b])"
    and "request_frame me own ip \<in> set (new_frames order (foldl (ni_step order) (ni_construct me addr) pre) a)"
    and "request_frame me own ip \<in> set (new_frames order (foldl (ni_step order) (ni_construct me addr) (pre @ [a] @ mid)) b)"
    and "list_all (\<lambda>e. \<not> hears_from me ip e) mid"
  shows "5000 \<le> elapsed (mid @ [b])"
proof -
  let ?s = "\<lambda>es. foldl (sp_step order me own) sp_init es"
  have new: "request_frame me own ip \<in> set fs \<longleftrightarrow>
      request_frame me own ip \<in> set (new_frames order (foldl (ni_step order) (ni_construct me addr) es) e)"
    if "sp_out (sp_step order me own (?s es) e) = sp_out (?s es) @ fs" "list_all ni_event_ok (es @ [e])" for es e fs
    using interface_run [OF assms(1,2), of es me] interface_run [OF assms(1,2), of "es @ [e]" me] that
    by (simp add: new_frames_def)
  obtain fs where "sp_out (sp_step order me own (?s pre) a) = sp_out (?s pre) @ fs"
    "request_frame me own ip \<in> set fs \<longrightarrow> sp_asked (?s (pre @ [a])) ip = Some (sp_now (?s (pre @ [a])))"
    using sp_step_asks [of order me own "?s pre" a ip] by auto
  then have "sp_asked (?s (pre @ [a])) ip = Some (sp_now (?s (pre @ [a])))"
    using new [of pre a fs] assms(3,4) by simp
  then obtain t where t: "sp_asked (?s (pre @ [a] @ mid)) ip = Some t" "sp_now (?s (pre @ [a])) \<le> t"
    "sp_now (?s (pre @ [a] @ mid)) = sp_now (?s (pre @ [a])) + elapsed mid"
    using sp_asked_stays [of "?s (pre @ [a])" ip _ "sp_now (?s (pre @ [a]))" me mid order own] assms(6) by auto
  obtain gs where "sp_out (sp_step order me own (?s (pre @ [a] @ mid)) b) = sp_out (?s (pre @ [a] @ mid)) @ gs"
    "request_frame me own ip \<in> set gs \<longrightarrow> t + 5000 \<le> sp_now (?s (pre @ [a] @ mid)) + event_ms b"
    using sp_step_asks [of order me own "?s (pre @ [a] @ mid)" b ip] t(1) by auto
  then have "t + 5000 \<le> sp_now (?s (pre @ [a] @ mid)) + event_ms b"
    using new [of "pre @ [a] @ mid" b gs] assms(3,5) by simp
  then show ?thesis
    using t by (simp add: elapsed_def)
qed

text \<open>
  C30: Datagrams are conserved. Over every run of permitted calls, the serialised datagrams in
  the queued IPv4 frames together with those that wait for an address are, as a multiset,
  exactly those given to send_datagram; no datagram waits for an address that is in the ARP
  cache; and every address waited for has been asked for.
\<close>

theorem interface_conserves:
  assumes "ipv4_numeric addr = Inr own" "visits_all order" "list_all ni_event_ok es"
  shows "let ni = foldl (ni_step order) (ni_construct me addr) es in
    emitted_datagrams (ni_frames_out ni) + waiting_datagrams (ni_pending_datagrams ni) = sent_datagrams es \<and>
    (ni_pending_datagrams ni ip \<noteq> None \<longrightarrow> ni_arp_table ni ip = None \<and> ni_arp_request_timers ni ip \<noteq> None)"
proof -
  have "sp_inv (foldl (sp_step order me own) sp_init es)"
    using ni.run_inv [of sp_init order addr own es me] assms sp_init_inv by simp
  then have "sp_waiting (foldl (sp_step order me own) sp_init es) ip \<noteq> None \<longrightarrow>
      ni_arp_table (ni_conc me addr (foldl (sp_step order me own) sp_init es)) ip = None \<and>
      ni_arp_request_timers (ni_conc me addr (foldl (sp_step order me own) sp_init es)) ip \<noteq> None"
    by (auto simp: sp_inv_def ni_arp_table_conc(1)) (auto simp: ni_conc_def timers_left_def)
  moreover have "emitted_datagrams (sp_out sp_init) = {#}" "waiting_datagrams (sp_waiting sp_init) = {#}"
    by (simp_all add: sp_init_def waiting_datagrams_def waiting_at_def)
  ultimately show ?thesis
    using interface_run [OF assms, of me] sp_run_conserves [of order me own sp_init es] by (simp add: Let_def)
qed

section \<open>Witnesses\<close>

definition sorted_visit :: visiting where
  "sorted_visit m = sorted_list_of_set (dom m)"

lemma sorted_visit_all: "visits_all sorted_visit"
  by (simp add: visits_all_def sorted_visit_def)

definition ni_example_events :: "ni_event list" where
  "ni_example_events = [NI_Send ip_example (inet_address 2 0), NI_Tick 5000]"

lemma ip_example_serializable: "serializable ip_example"
proof -
  have "ip_datagram_wf ip_example"
    by (simp add: ip_example_def ip_datagram_wf_def ip_header_wf_def ip_header_fits_def ip_header_default_def
        bl_concatenate_eq)
  then show ?thesis
    using ip_datagram_serialized by (auto simp: serializable_def not_isl)
qed

lemma ni_example_ok: "list_all ni_event_ok ni_example_events"
  by (simp add: ni_example_events_def ip_example_serializable)

theorem interface_refines_witness:
  "foldl (ni_step sorted_visit) (ni_construct eth_address_zero (inet_address 1 0)) ni_example_events =
    ni_conc eth_address_zero (inet_address 1 0) (foldl (sp_step sorted_visit eth_address_zero 1) sp_init ni_example_events)"
  using interface_refines [OF ipv4_numeric_inet sorted_visit_all ni_example_ok] by blast

lemma ni_example_run:
  "sp_out (foldl (sp_step sorted_visit eth_address_zero 1) sp_init [NI_Send ip_example (inet_address 2 0)]) =
    [request_frame eth_address_zero 1 2]"
  "sp_out (foldl (sp_step sorted_visit eth_address_zero 1) sp_init ni_example_events) =
    [request_frame eth_address_zero 1 2, request_frame eth_address_zero 1 2]"
  by (simp_all add: ni_example_events_def sp_init_def sp_known_def sp_ask_def sp_may_ask_def sorted_visit_def Let_def)

theorem interface_request_interval_witness:
  "5000 \<le> elapsed ([] @ [NI_Tick 5000])"
proof (rule interface_request_interval [OF ipv4_numeric_inet sorted_visit_all])
  let ?a = "NI_Send ip_example (inet_address 2 0)"
  show "list_all ni_event_ok ([] @ [?a] @ [] @ [NI_Tick 5000])"
    using ni_example_ok by (simp add: ni_example_events_def)
  show "request_frame eth_address_zero 1 2 \<in>
      set (new_frames sorted_visit (foldl (ni_step sorted_visit) (ni_construct eth_address_zero (inet_address 1 0)) []) ?a)"
    using interface_run [OF ipv4_numeric_inet sorted_visit_all, of "[?a]" eth_address_zero 1 0] ni_example_run(1) ni_example_ok
    by (simp add: new_frames_def ni_example_events_def ni_construct_def)
  show "request_frame eth_address_zero 1 2 \<in>
      set (new_frames sorted_visit (foldl (ni_step sorted_visit) (ni_construct eth_address_zero (inet_address 1 0)) ([] @ [?a] @ []))
        (NI_Tick 5000))"
    using interface_run [OF ipv4_numeric_inet sorted_visit_all, of "[?a]" eth_address_zero 1 0]
      interface_run [OF ipv4_numeric_inet sorted_visit_all, of "[?a, NI_Tick 5000]" eth_address_zero 1 0] ni_example_run ni_example_ok
    by (simp add: new_frames_def ni_example_events_def del: ni_step_result.simps sp_step.simps)
  show "list_all (\<lambda>e. \<not> hears_from eth_address_zero 2 e) []"
    by simp
qed

theorem interface_conserves_witness:
  "let ni = foldl (ni_step sorted_visit) (ni_construct eth_address_zero (inet_address 1 0)) ni_example_events in
    emitted_datagrams (ni_frames_out ni) + waiting_datagrams (ni_pending_datagrams ni) = sent_datagrams ni_example_events"
  using interface_conserves [OF ipv4_numeric_inet sorted_visit_all ni_example_ok] by (simp add: Let_def)

end
