(* ===== verification/Router.thy ===== *)
theory Router
  imports Interface_Runs
begin

text \<open>
  \<open>AsyncNetworkInterface\<close> and \<open>Router\<close> (\<open>libsponge/router.hh\<close>, \<open>router.cc\<close>): the queue of
  received datagrams of each interface, the routes, the longest-prefix match and the loop that
  forwards what is queued. A prefix longer than 32 bits is shifted by a negative amount, which
  has no meaning in C++.
\<close>

section \<open>AsyncNetworkInterface\<close>

record async_interface =
  ai_interface :: network_interface
  ai_datagrams_out :: "ipv4_datagram list"

definition ai_construct :: "network_interface \<Rightarrow> async_interface" where
  "ai_construct ni = \<lparr>ai_interface = ni, ai_datagrams_out = []\<rparr>"

definition ai_recv_frame :: "ethernet_frame \<Rightarrow> async_interface \<Rightarrow> async_interface \<times> exn option" where
  "ai_recv_frame frame ai =
     (case ni_recv_frame frame (ai_interface ai) of
        (ni, Inl e) \<Rightarrow> (ai\<lparr>ai_interface := ni\<rparr>, Some e)
      | (ni, Inr None) \<Rightarrow> (ai\<lparr>ai_interface := ni\<rparr>, None)
      | (ni, Inr (Some dgram)) \<Rightarrow> (ai\<lparr>ai_interface := ni, ai_datagrams_out := ai_datagrams_out ai @ [dgram]\<rparr>, None))"

section \<open>Router\<close>

record route =
  rt_prefix :: "32 word"
  rt_prefix_length :: byte
  rt_next_hop :: "address option"
  rt_interface_num :: nat

definition route_default :: route where
  "route_default = \<lparr>rt_prefix = 0, rt_prefix_length = 0, rt_next_hop = None, rt_interface_num = 0\<rparr>"

record router =
  ro_routes :: "route list"
  ro_interfaces :: "async_interface list"

definition ro_construct :: router where
  "ro_construct = \<lparr>ro_routes = [], ro_interfaces = []\<rparr>"

definition ro_add_interface :: "async_interface \<Rightarrow> router \<Rightarrow> router \<times> nat" where
  "ro_add_interface ai ro =
     (let ro = ro\<lparr>ro_interfaces := ro_interfaces ro @ [ai]\<rparr> in (ro, length (ro_interfaces ro) - 1))"

definition ro_interface :: "router \<Rightarrow> nat \<Rightarrow> exn + async_interface" where
  "ro_interface ro n = (if n < length (ro_interfaces ro) then Inr (ro_interfaces ro ! n) else Inl (OutOfRange ''vector::at''))"

definition ro_add_route :: "32 word \<Rightarrow> byte \<Rightarrow> address option \<Rightarrow> nat \<Rightarrow> router \<Rightarrow> router" where
  "ro_add_route route_prefix prefix_length next_hop interface_num ro =
     ro\<lparr>ro_routes := ro_routes ro @ [\<lparr>rt_prefix = route_prefix, rt_prefix_length = prefix_length,
       rt_next_hop = next_hop, rt_interface_num = interface_num\<rparr>]\<rparr>"

definition route_mask :: "byte \<Rightarrow> exn + 32 word" where
  "route_mask prefix_length =
     (if 32 < unat prefix_length then Inl (UndefinedBehaviour ''shift by a negative amount'')
      else let mask64 = push_bit (32 - unat prefix_length) (0xFFFFFFFF :: 64 word) in Inr (ucast mask64))"

text \<open>The loop over the routes: best length, best route, and whether one was found.\<close>

fun route_loop :: "32 word \<Rightarrow> route list \<Rightarrow> nat \<Rightarrow> route \<Rightarrow> bool \<Rightarrow> exn + route \<times> bool" where
  "route_loop dest [] best_length best_route route_found = Inr (best_route, route_found)"
| "route_loop dest (r # rs) best_length best_route route_found =
     (case route_mask (rt_prefix_length r) of
        Inl e \<Rightarrow> Inl e
      | Inr m \<Rightarrow>
          if dest AND m = rt_prefix r AND m
          then if \<not> route_found \<or> best_length < unat (rt_prefix_length r)
               then route_loop dest rs (unat (rt_prefix_length r)) r True
               else route_loop dest rs best_length best_route route_found
          else route_loop dest rs best_length best_route route_found)"

text \<open>\<open>_interfaces.at(n).send_datagram(dgram, next_hop)\<close>.\<close>

definition ro_send :: "nat \<Rightarrow> ipv4_datagram \<Rightarrow> address \<Rightarrow> router \<Rightarrow> router \<times> exn option" where
  "ro_send n dgram next_hop ro =
     (case ro_interface ro n of
        Inl e \<Rightarrow> (ro, Some e)
      | Inr ai \<Rightarrow>
          let (ni, r) = ni_send_datagram dgram next_hop (ai_interface ai)
          in (ro\<lparr>ro_interfaces := (ro_interfaces ro)[n := ai\<lparr>ai_interface := ni\<rparr>]\<rparr>, r))"

text \<open>The datagram is a reference to the front of a queue: it is returned as it is left there.\<close>

definition dgram_set_ttl :: "byte \<Rightarrow> ipv4_datagram \<Rightarrow> ipv4_datagram" where
  "dgram_set_ttl ttl d = d\<lparr>ipd_header := (ipd_header d)\<lparr>ip_ttl := ttl\<rparr>\<rparr>"

definition ro_route_one_datagram :: "ipv4_datagram \<Rightarrow> router \<Rightarrow> router \<times> ipv4_datagram \<times> exn option" where
  "ro_route_one_datagram dgram ro =
     (let dest_num = ip_dst (ipd_header dgram)
      in case route_loop dest_num (ro_routes ro) 0 route_default False of
           Inl e \<Rightarrow> (ro, dgram, Some e)
         | Inr (best_route, route_found) \<Rightarrow>
             if \<not> route_found then (ro, dgram, None)
             else if ip_ttl (ipd_header dgram) = 0 then (ro, dgram, None)
             else let dgram = dgram_set_ttl (ip_ttl (ipd_header dgram) - 1) dgram
                  in if ip_ttl (ipd_header dgram) = 0 then (ro, dgram, None)
                     else (case from_ipv4_numeric dest_num of
                             Inl e \<Rightarrow> (ro, dgram, Some e)
                           | Inr direct \<Rightarrow>
                               let next_hop_addr = (case rt_next_hop best_route of None \<Rightarrow> direct | Some a \<Rightarrow> a);
                                   (ro, r) = ro_send (rt_interface_num best_route) dgram next_hop_addr ro
                               in (ro, dgram, r)))"

definition ro_queue :: "router \<Rightarrow> nat \<Rightarrow> ipv4_datagram list" where
  "ro_queue ro i = ai_datagrams_out (ro_interfaces ro ! i)"

definition ro_set_queue :: "nat \<Rightarrow> ipv4_datagram list \<Rightarrow> router \<Rightarrow> router" where
  "ro_set_queue i q ro = ro\<lparr>ro_interfaces := (ro_interfaces ro)[i := (ro_interfaces ro ! i)\<lparr>ai_datagrams_out := q\<rparr>]\<rparr>"

section \<open>Forwarding leaves the queues alone\<close>

lemma ro_send_queues [simp]:
  "length (ro_interfaces (fst (ro_send n d h ro))) = length (ro_interfaces ro)"
  "ro_queue (fst (ro_send n d h ro)) i = ro_queue ro i"
  "ro_routes (fst (ro_send n d h ro)) = ro_routes ro"
  by (auto simp: ro_send_def ro_interface_def ro_queue_def nth_list_update split_beta)

lemma ro_route_one_queues [simp]:
  "length (ro_interfaces (fst (ro_route_one_datagram d ro))) = length (ro_interfaces ro)"
  "ro_queue (fst (ro_route_one_datagram d ro)) i = ro_queue ro i"
  "ro_routes (fst (ro_route_one_datagram d ro)) = ro_routes ro"
  by (auto simp: ro_route_one_datagram_def Let_def split_beta split: sum.splits)

lemma ro_set_queue_simps [simp]:
  "length (ro_interfaces (ro_set_queue i q ro)) = length (ro_interfaces ro)"
  "ro_routes (ro_set_queue i q ro) = ro_routes ro"
  "i < length (ro_interfaces ro) \<Longrightarrow> ro_queue (ro_set_queue i q ro) j = (if j = i then q else ro_queue ro j)"
  by (auto simp: ro_set_queue_def ro_queue_def)

text \<open>
  The loop over the queue of interface \<open>i\<close>. An exception leaves the datagram that raised it at
  the front.
\<close>

function ro_route_queue :: "nat \<Rightarrow> router \<Rightarrow> router \<times> exn option" where
  "ro_route_queue i ro =
     (if i < length (ro_interfaces ro)
      then case ro_queue ro i of
             [] \<Rightarrow> (ro, None)
           | d # q \<Rightarrow>
               (case ro_route_one_datagram d ro of
                  (ro', d', Some e) \<Rightarrow> (ro_set_queue i (d' # q) ro', Some e)
                | (ro', d', None) \<Rightarrow> ro_route_queue i (ro_set_queue i q ro'))
      else (ro, None))"
  by auto
termination
proof (relation "measure (\<lambda>(i, ro). length (ro_queue ro i))", goal_cases)
  case 2
  then show ?case
    using ro_route_one_queues(1) by (auto dest!: arg_cong [of _ _ fst])
qed simp

declare ro_route_queue.simps [simp del]

fun ro_route_from :: "nat list \<Rightarrow> router \<Rightarrow> router \<times> exn option" where
  "ro_route_from [] ro = (ro, None)"
| "ro_route_from (i # is) ro =
     (case ro_route_queue i ro of
        (ro, Some e) \<Rightarrow> (ro, Some e)
      | (ro, None) \<Rightarrow> ro_route_from is ro)"

definition ro_route :: "router \<Rightarrow> router \<times> exn option" where
  "ro_route ro = ro_route_from [0..<length (ro_interfaces ro)] ro"

section \<open>The longest-prefix match\<close>

text \<open>
  The reference: a route matches when the first bits of its prefix and of the destination
  agree; the first of the longest matching routes is taken.
\<close>

definition route_matches :: "32 word \<Rightarrow> route \<Rightarrow> bool" where
  "route_matches dest r \<longleftrightarrow>
     (\<forall>n < 32. 32 - unat (rt_prefix_length r) \<le> n \<longrightarrow> bit dest n = bit (rt_prefix r) n)"

definition longest_in :: "route list \<Rightarrow> route option" where
  "longest_in ms =
     (let longest = Max ((\<lambda>r. unat (rt_prefix_length r)) ` set ms)
      in List.find (\<lambda>r. unat (rt_prefix_length r) = longest) ms)"

definition longest_match :: "32 word \<Rightarrow> route list \<Rightarrow> route option" where
  "longest_match dest rs = longest_in (filter (route_matches dest) rs)"

definition route_ok :: "route \<Rightarrow> bool" where
  "route_ok r \<longleftrightarrow> unat (rt_prefix_length r) \<le> 32"

lemma route_mask_bit:
  assumes "unat pl \<le> 32" "route_mask pl = Inr m" "n < 32"
  shows "bit m n \<longleftrightarrow> 32 - unat pl \<le> n"
proof -
  have "(0xFFFFFFFF :: 64 word) = Bit_Operations.mask 32"
    by (simp add: mask_eq_exp_minus_1)
  then have "m = ucast (push_bit (32 - unat pl) (Bit_Operations.mask 32 :: 64 word))"
    using assms(1,2) by (simp add: route_mask_def Let_def)
  then show ?thesis
    using assms(3) by (auto simp: bit_simps)
qed

lemma route_mask_match:
  assumes "route_ok r"
  obtains m where "route_mask (rt_prefix_length r) = Inr m" "dest AND m = rt_prefix r AND m \<longleftrightarrow> route_matches dest r"
proof -
  obtain m where m: "route_mask (rt_prefix_length r) = Inr m"
    using assms by (simp add: route_ok_def route_mask_def Let_def)
  have "bit m n \<longleftrightarrow> 32 - unat (rt_prefix_length r) \<le> n" if "n < 32" for n
    using route_mask_bit [OF _ m that] assms by (simp add: route_ok_def)
  then have "dest AND m = rt_prefix r AND m \<longleftrightarrow> route_matches dest r"
    by (auto simp: route_matches_def bit_eq_iff bit_simps)
  then show ?thesis
    using m that by blast
qed


lemma longest_in_Nil [simp]: "longest_in [] = None"
  by (simp add: longest_in_def)

lemma longest_in_step:
  "longest_in (a # b # ms) =
    longest_in ((if unat (rt_prefix_length a) < unat (rt_prefix_length b) then b else a) # ms)"
proof -
  define len where "len r = unat (rt_prefix_length r)" for r :: route
  let ?c = "if len a < len b then b else a"
  have fin: "finite (len ` set (?c # ms))"
    by simp
  have "Max (len ` set (a # b # ms)) = Max (len ` set (?c # ms))"
  proof (rule antisym)
    show "Max (len ` set (a # b # ms)) \<le> Max (len ` set (?c # ms))"
    proof (rule Max.boundedI)
      fix x assume "x \<in> len ` set (a # b # ms)"
      then have "\<exists>y \<in> len ` set (?c # ms). x \<le> y"
        by (cases "len a < len b") (auto intro: less_imp_le)
      then show "x \<le> Max (len ` set (?c # ms))"
        using Max_ge [OF fin] by (blast intro: order_trans)
    qed simp_all
    show "Max (len ` set (?c # ms)) \<le> Max (len ` set (a # b # ms))"
      by (rule Max_mono) auto
  qed
  moreover have "len ?c \<le> Max (len ` set (?c # ms))"
    by (rule Max_ge) simp_all
  ultimately show ?thesis
    unfolding longest_in_def len_def [symmetric] Let_def by (cases "len a < len b") auto
qed

lemma longest_in_some: "longest_in (c # ms) \<noteq> None"
proof
  let ?S = "(\<lambda>r. unat (rt_prefix_length r)) ` set (c # ms)"
  assume "longest_in (c # ms) = None"
  then have "\<not> (\<exists>r. r \<in> set (c # ms) \<and> unat (rt_prefix_length r) = Max ?S)"
    unfolding longest_in_def Let_def find_None_iff .
  moreover have "Max ?S \<in> ?S"
    by (rule Max_in) simp_all
  ultimately show False
    by (metis (no_types, lifting) imageE)
qed

lemma route_loop_longest:
  assumes "list_all route_ok rs" "found \<Longrightarrow> bl = unat (rt_prefix_length br)"
  shows "route_loop dest rs bl br found =
    Inr (case longest_in ((if found then [br] else []) @ filter (route_matches dest) rs) of
      None \<Rightarrow> (br, False) | Some r \<Rightarrow> (r, True))"
  using assms
proof (induction rs arbitrary: bl br found)
  case Nil
  then show ?case
    by (simp add: longest_in_def)
next
  case (Cons r rs)
  obtain m where m: "route_mask (rt_prefix_length r) = Inr m" "dest AND m = rt_prefix r AND m \<longleftrightarrow> route_matches dest r"
    using Cons.prems(1) route_mask_match [of r] by auto
  show ?case
  proof (cases found)
    case True
    then have bl: "bl = unat (rt_prefix_length br)"
      using Cons.prems(2) by simp
    have step: "route_loop dest rs (unat (rt_prefix_length c)) c True =
        Inr (case longest_in (c # filter (route_matches dest) rs) of None \<Rightarrow> (c, False) | Some r \<Rightarrow> (r, True))" for c
      using Cons.IH [of True "unat (rt_prefix_length c)" c] Cons.prems(1) by simp
    obtain x y where "longest_in (br # filter (route_matches dest) rs) = Some x"
      "longest_in (r # filter (route_matches dest) rs) = Some y"
      using longest_in_some by blast
    then show ?thesis
      using True m step [of br] step [of r] by (simp add: bl longest_in_step)
  next
    case False
    obtain y where "longest_in (r # filter (route_matches dest) rs) = Some y"
      using longest_in_some by blast
    then show ?thesis
      using Cons m False by simp
  qed
qed

section \<open>Forwarding, as a specification\<close>

text \<open>Where a datagram leaves, with which next hop, and its new time to live.\<close>

definition forwarding :: "route list \<Rightarrow> ipv4_datagram \<Rightarrow> (nat \<times> address \<times> ipv4_datagram) option" where
  "forwarding rs d =
     (case longest_match (ip_dst (ipd_header d)) rs of
        None \<Rightarrow> None
      | Some r \<Rightarrow>
          if unat (ip_ttl (ipd_header d)) \<le> 1 then None
          else Some (rt_interface_num r,
            (case rt_next_hop r of None \<Rightarrow> inet_address (ip_dst (ipd_header d)) 0 | Some a \<Rightarrow> a),
            dgram_set_ttl (ip_ttl (ipd_header d) - 1) d))"

definition forward :: "ipv4_datagram \<Rightarrow> router \<Rightarrow> router \<times> exn option" where
  "forward d ro = (case forwarding (ro_routes ro) d of None \<Rightarrow> (ro, None) | Some (n, next_hop, d') \<Rightarrow> ro_send n d' next_hop ro)"

lemma ttl_small: "unat (t :: byte) \<le> Suc 0 \<longleftrightarrow> t = 0 \<or> t - 1 = 0"
proof
  assume "unat t \<le> Suc 0"
  then have "unat t = unat (0 :: byte) \<or> unat t = unat (1 :: byte)"
    by auto
  then show "t = 0 \<or> t - 1 = 0"
    unfolding word_unat_eq_iff [symmetric] by auto
qed auto

lemma ro_route_one_forwards:
  assumes "list_all route_ok (ro_routes ro)"
  shows "fst (ro_route_one_datagram d ro) = fst (forward d ro)"
    "snd (snd (ro_route_one_datagram d ro)) = snd (forward d ro)"
proof -
  have loop: "route_loop dest (ro_routes ro) 0 route_default False =
      Inr (case longest_match dest (ro_routes ro) of None \<Rightarrow> (route_default, False) | Some r \<Rightarrow> (r, True))" for dest
    using route_loop_longest [OF assms, of False] by (simp add: longest_match_def)
  have ttl: "ip_ttl (ipd_header (dgram_set_ttl t d)) = t" for t
    by (simp add: dgram_set_ttl_def)
  show "fst (ro_route_one_datagram d ro) = fst (forward d ro)"
    "snd (snd (ro_route_one_datagram d ro)) = snd (forward d ro)"
    by (auto simp: ro_route_one_datagram_def forward_def forwarding_def loop ttl ttl_small Let_def from_ipv4_numeric_def
        split_beta split: option.splits)
qed


section \<open>A whole round\<close>

text \<open>The datagrams in the queues, in the order in which a round takes them.\<close>

definition queued :: "router \<Rightarrow> nat list \<Rightarrow> ipv4_datagram list" where
  "queued ro is = concat (map (ro_queue ro) is)"

fun forward_all :: "ipv4_datagram list \<Rightarrow> router \<Rightarrow> router \<times> exn option" where
  "forward_all [] ro = (ro, None)"
| "forward_all (d # ds) ro = (case forward d ro of (ro, Some e) \<Rightarrow> (ro, Some e) | (ro, None) \<Rightarrow> forward_all ds ro)"

lemma forward_sel [simp]:
  "length (ro_interfaces (fst (forward d ro))) = length (ro_interfaces ro)"
  "ro_queue (fst (forward d ro)) i = ro_queue ro i" "ro_routes (fst (forward d ro)) = ro_routes ro"
  by (auto simp: forward_def split: option.splits)

text \<open>What the interfaces of a router are, its queues of received datagrams aside.\<close>

definition ro_core :: "router \<Rightarrow> network_interface list" where
  "ro_core ro = map ai_interface (ro_interfaces ro)"

lemma ro_core_set_queue [simp]: "i < length (ro_interfaces ro) \<Longrightarrow> ro_core (ro_set_queue i q ro) = ro_core ro"
  by (auto simp: ro_core_def ro_set_queue_def nth_list_update intro!: nth_equalityI)

lemma ro_core_length: "length (ro_core ro) = length (ro_interfaces ro)"
  by (simp add: ro_core_def)

lemma ro_send_core:
  assumes "ro_core ro = ro_core ro'"
  shows "ro_core (fst (ro_send n d h ro)) = ro_core (fst (ro_send n d h ro'))" "snd (ro_send n d h ro) = snd (ro_send n d h ro')"
proof -
  have len: "length (ro_interfaces ro) = length (ro_interfaces ro')"
    using assms ro_core_length by metis
  have "ai_interface (ro_interfaces ro ! n) = ai_interface (ro_interfaces ro' ! n)" if "n < length (ro_interfaces ro)"
    using arg_cong [OF assms, of "\<lambda>l. l ! n"] that len by (simp add: ro_core_def)
  then show "ro_core (fst (ro_send n d h ro)) = ro_core (fst (ro_send n d h ro'))"
    "snd (ro_send n d h ro) = snd (ro_send n d h ro')"
    using assms len by (auto simp: ro_send_def ro_interface_def ro_core_def map_update split_beta)
qed

lemma forward_core:
  assumes "ro_core ro = ro_core ro'" "ro_routes ro = ro_routes ro'"
  shows "ro_core (fst (forward d ro)) = ro_core (fst (forward d ro'))" "snd (forward d ro) = snd (forward d ro')"
  using assms ro_send_core [OF assms(1)] by (auto simp: forward_def split: option.splits)

lemma forward_all_core:
  assumes "ro_core ro = ro_core ro'" "ro_routes ro = ro_routes ro'"
  shows "ro_core (fst (forward_all ds ro)) = ro_core (fst (forward_all ds ro')) \<and>
    snd (forward_all ds ro) = snd (forward_all ds ro')"
  using assms
proof (induction ds arbitrary: ro ro')
  case (Cons d ds)
  have "ro_routes (fst (forward d ro)) = ro_routes (fst (forward d ro'))"
    using Cons.prems(2) by simp
  then show ?case
    using Cons.IH [OF forward_core(1) [OF Cons.prems, of d]] forward_core [OF Cons.prems, of d]
    by (cases "forward d ro"; cases "forward d ro'") (auto split: option.splits)
qed simp

lemma forward_all_routes: "ro_routes (fst (forward_all ds ro)) = ro_routes ro"
proof (induction ds arbitrary: ro)
  case (Cons d ds)
  then show ?case
    using forward_sel(3) [of d ro] by (cases "forward d ro") (auto split: option.splits)
qed simp

lemma forward_all_append:
  "forward_all (ds @ es) ro = (case forward_all ds ro of (ro, Some e) \<Rightarrow> (ro, Some e) | (ro, None) \<Rightarrow> forward_all es ro)"
  by (induction ds arbitrary: ro) (auto split: prod.splits option.splits)

lemma ro_route_queue_spec:
  assumes "list_all route_ok (ro_routes ro)" "i < length (ro_interfaces ro)"
  shows "ro_core (fst (ro_route_queue i ro)) = ro_core (fst (forward_all (ro_queue ro i) ro)) \<and>
    snd (ro_route_queue i ro) = snd (forward_all (ro_queue ro i) ro) \<and>
    ro_routes (fst (ro_route_queue i ro)) = ro_routes ro \<and>
    length (ro_interfaces (fst (ro_route_queue i ro))) = length (ro_interfaces ro) \<and>
    (\<forall>j. j \<noteq> i \<longrightarrow> ro_queue (fst (ro_route_queue i ro)) j = ro_queue ro j) \<and>
    (snd (ro_route_queue i ro) = None \<longrightarrow> ro_queue (fst (ro_route_queue i ro)) i = [])"
  using assms
proof (induction "ro_queue ro i" arbitrary: ro)
  case Nil
  then show ?case
    by (simp add: ro_route_queue.simps [of i ro])
next
  case (Cons d q)
  obtain ro' d' r where one: "ro_route_one_datagram d ro = (ro', d', r)"
    by (cases "ro_route_one_datagram d ro") auto
  have f: "fst (forward d ro) = ro'" "snd (forward d ro) = r"
    using ro_route_one_forwards [OF Cons.prems(1), of d] one by simp_all
  have ro': "length (ro_interfaces ro') = length (ro_interfaces ro)" "ro_queue ro' j = ro_queue ro j" "ro_routes ro' = ro_routes ro" for j
    using ro_route_one_queues [of d ro] one by simp_all
  show ?case
  proof (cases r)
    case (Some e)
    then show ?thesis
      using Cons.prems(2) Cons.hyps(2) [symmetric] one f ro'
      by (simp add: ro_route_queue.simps [of i ro] split_beta)
  next
    case None
    let ?r = "ro_set_queue i q ro'"
    have "ro_queue ?r i = q" "i < length (ro_interfaces ?r)" "list_all route_ok (ro_routes ?r)"
      using Cons.prems ro' by simp_all
    note IH = Cons.hyps(1) [OF this(1) [symmetric] this(3,2)]
    have "ro_core (fst (forward_all q ?r)) = ro_core (fst (forward_all q ro')) \<and> snd (forward_all q ?r) = snd (forward_all q ro')"
      using Cons.prems(2) ro' by (intro forward_all_core) simp_all
    moreover have "ro_route_queue i ro = ro_route_queue i ?r"
      using Cons.prems(2) Cons.hyps(2) [symmetric] one None by (simp add: ro_route_queue.simps [of i ro])
    moreover have "forward_all (ro_queue ro i) ro = forward_all q ro'"
      using Cons.hyps(2) [symmetric] f None by (cases "forward d ro") simp
    ultimately show ?thesis
      using IH ro' Cons.prems(2) \<open>ro_queue ?r i = q\<close> by simp
  qed
qed

lemma ro_route_from_spec:
  assumes "list_all route_ok (ro_routes ro)" "\<And>i. i \<in> set is \<Longrightarrow> i < length (ro_interfaces ro)" "distinct is"
  shows "ro_core (fst (ro_route_from is ro)) = ro_core (fst (forward_all (queued ro is) ro)) \<and>
    snd (ro_route_from is ro) = snd (forward_all (queued ro is) ro) \<and>
    length (ro_interfaces (fst (ro_route_from is ro))) = length (ro_interfaces ro) \<and>
    (snd (ro_route_from is ro) = None \<longrightarrow>
      (\<forall>j. ro_queue (fst (ro_route_from is ro)) j = (if j \<in> set is then [] else ro_queue ro j)))"
  using assms
proof (induction "is" arbitrary: ro)
  case Nil
  then show ?case
    by (simp add: queued_def)
next
  case (Cons i "is")
  obtain ro' r where q: "ro_route_queue i ro = (ro', r)"
    by (cases "ro_route_queue i ro") auto
  obtain ro1 r1 where f: "forward_all (ro_queue ro i) ro = (ro1, r1)"
    by (cases "forward_all (ro_queue ro i) ro") auto
  have i: "i < length (ro_interfaces ro)"
    using Cons.prems(2) by simp
  have spec: "ro_core ro' = ro_core ro1" "r = r1" "ro_routes ro' = ro_routes ro" "length (ro_interfaces ro') = length (ro_interfaces ro)"
    "\<And>j. j \<noteq> i \<Longrightarrow> ro_queue ro' j = ro_queue ro j" "r = None \<Longrightarrow> ro_queue ro' i = []"
    using ro_route_queue_spec [OF Cons.prems(1) i] q f by auto
  show ?case
  proof (cases r)
    case (Some e)
    then show ?thesis
      using q f spec by (simp add: queued_def forward_all_append)
  next
    case None
    have "queued ro' is = queued ro is"
      unfolding queued_def using Cons.prems(3) spec(5)
      by (intro arg_cong [where f = concat] map_cong refl) (metis distinct.simps(2))
    moreover have "ro_routes ro1 = ro_routes ro"
      using arg_cong [OF f, of "\<lambda>p. ro_routes (fst p)"] forward_all_routes by simp
    then have "ro_core (fst (forward_all ds ro')) = ro_core (fst (forward_all ds ro1)) \<and>
        snd (forward_all ds ro') = snd (forward_all ds ro1)" for ds
      using spec(1,3) by (intro forward_all_core) simp_all
    moreover have "forward_all (queued ro (i # is)) ro = forward_all (queued ro is) ro1"
      using f spec(2) None by (simp add: queued_def forward_all_append)
    moreover have "ro_route_from (i # is) ro = ro_route_from is ro'"
      using q None by simp
    ultimately show ?thesis
      using Cons.IH [of ro'] Cons.prems spec None by (auto simp del: ro_route_from.simps forward_all.simps)
  qed
qed


lemma longest_in_found:
  assumes "longest_in ms = Some r"
  shows "r \<in> set ms" "r' \<in> set ms \<Longrightarrow> unat (rt_prefix_length r') \<le> unat (rt_prefix_length r)"
proof -
  have "r \<in> set ms \<and> unat (rt_prefix_length r) = Max ((\<lambda>r. unat (rt_prefix_length r)) ` set ms)"
    using assms by (auto simp: longest_in_def Let_def find_Some_iff in_set_conv_nth)
  then show "r \<in> set ms" "r' \<in> set ms \<Longrightarrow> unat (rt_prefix_length r') \<le> unat (rt_prefix_length r)"
    by auto
qed

lemma longest_in_none: "longest_in ms = None \<longleftrightarrow> ms = []"
  using longest_in_some by (cases ms) auto

section \<open>Properties\<close>

text \<open>
  C14: The loop over the routes is a longest-prefix match. When no prefix is longer than 32
  bits, it finds the first of the longest routes whose leading bits agree with the destination,
  and no route exactly when none matches; a longer prefix that is reached is a shift by a
  negative amount.
\<close>

theorem router_longest_prefix:
  assumes "list_all route_ok rs" "\<not> route_ok bad"
  shows "route_loop dest rs 0 route_default False =
      Inr (case longest_match dest rs of None \<Rightarrow> (route_default, False) | Some r \<Rightarrow> (r, True)) \<and>
    (longest_match dest rs = None) = (filter (route_matches dest) rs = []) \<and>
    (case longest_match dest rs of None \<Rightarrow> True
     | Some r \<Rightarrow> r \<in> set rs \<and> route_matches dest r \<and>
        list_all (\<lambda>r'. \<not> route_matches dest r' \<or> rt_prefix_length r' \<le> rt_prefix_length r) rs) \<and>
    isl (route_loop dest (rs @ [bad]) 0 route_default False)"
proof -
  have "isl (route_loop dest (rs @ [bad]) bl br found)" for bl br found
    using assms
  proof (induction rs arbitrary: bl br found)
    case Nil
    then show ?case
      by (simp add: route_ok_def route_mask_def)
  next
    case (Cons r rs)
    then show ?case
      by (auto split: sum.splits)
  qed
  then show ?thesis
    using route_loop_longest [OF assms(1), of False 0 route_default dest]
    by (auto simp: longest_match_def longest_in_none list_all_iff word_le_nat_alt split: option.splits
        dest: longest_in_found)
qed

text \<open>
  C31: A round of the router. Whatever the queues hold, route() ends; the interfaces are left as
  by forwarding each queued datagram in turn (longest-prefix match, time to live lowered by one
  and the datagram dropped when nothing is left of it, next hop of the route or else the
  destination itself), up to the first exception; without an exception every queue is empty.
\<close>

theorem router_round:
  assumes "list_all route_ok (ro_routes ro)"
  shows "let (ro', r) = ro_route ro; (spec, e) = forward_all (queued ro [0..<length (ro_interfaces ro)]) ro
    in r = e \<and> ro_core ro' = ro_core spec \<and> length (ro_interfaces ro') = length (ro_interfaces ro) \<and>
      (r = None \<longrightarrow> concat (map ai_datagrams_out (ro_interfaces ro')) = [])"
proof -
  note spec = ro_route_from_spec [OF assms, of "[0..<length (ro_interfaces ro)]"]
  have "ai_datagrams_out ai = []"
    if none: "snd (ro_route ro) = None" and mem: "ai \<in> set (ro_interfaces (fst (ro_route ro)))" for ai
  proof -
    obtain j where "j < length (ro_interfaces (fst (ro_route ro)))" "ai = ro_interfaces (fst (ro_route ro)) ! j"
      using mem by (auto simp: in_set_conv_nth)
    then show ?thesis
      using spec none by (auto simp: ro_route_def ro_queue_def)
  qed
  then show ?thesis
    using spec by (auto simp: ro_route_def Let_def split_beta)
qed

section \<open>Witnesses\<close>

definition ro_example :: router where
  "ro_example = \<lparr>ro_routes = [\<lparr>rt_prefix = 0x0a000000, rt_prefix_length = 8, rt_next_hop = None, rt_interface_num = 0\<rparr>],
     ro_interfaces = [(ai_construct (ni_construct eth_address_zero (inet_address 1 0)))\<lparr>ai_datagrams_out := [ip_example]\<rparr>]\<rparr>"

theorem router_longest_prefix_witness:
  "\<exists>r found. route_loop 0x0a000001 (ro_routes ro_example) 0 route_default False = Inr (r, found)"
  using router_longest_prefix [of "ro_routes ro_example" "\<lparr>rt_prefix = 0, rt_prefix_length = 33, rt_next_hop = None, rt_interface_num = 0\<rparr>"]
  by (auto simp: ro_example_def route_ok_def split: option.splits)

theorem router_round_witness:
  "let (ro', r) = ro_route ro_example; (spec, e) = forward_all (queued ro_example [0..<1]) ro_example
   in r = e \<and> ro_core ro' = ro_core spec"
  using router_round [of ro_example] by (simp add: ro_example_def route_ok_def split_beta Let_def)

section \<open>Deviations\<close>

text \<open>
  A received datagram that cannot be serialized, such as one of another IP version (see
  \<open>ip_wrong_version_throws\<close>), makes \<open>route\<close> throw as soon as the next hop is in the ARP
  cache.
\<close>

theorem router_throws_on_bad_datagram:
  assumes "list_all route_ok (ro_routes ro)" "queued ro [0..<length (ro_interfaces ro)] = d # ds"
    and "forwarding (ro_routes ro) d = Some (n, next_hop, d')" "n < length (ro_interfaces ro)"
    and "ipv4_numeric next_hop = Inr ip" "ni_arp_table (ai_interface (ro_interfaces ro ! n)) ip = Some entry"
    and "0 < ae_ttl entry" "ip_datagram_serialize d' = Inl e"
  shows "snd (ro_route ro) = Some e"
proof -
  have "snd (forward d ro) = Some e"
    using assms(3-8) by (simp add: forward_def ro_send_def ro_interface_def ni_send_datagram_def split_beta)
  then have "snd (forward_all (d # ds) ro) = Some e"
    by (cases "forward d ro") auto
  then show ?thesis
    using ro_route_from_spec [OF assms(1), of "[0..<length (ro_interfaces ro)]"] assms(2) by (simp add: ro_route_def)
qed

end
