(* ===== verification/Ethernet_Segment.thy ===== *)
theory Ethernet_Segment
  imports Router
begin

text \<open>
  Interfaces on one Ethernet segment, as \<open>apps/network_simulator.cc\<close> joins them: in one exchange
  every station receives the frames the others had queued. \<open>exchange_frames2\<close> and
  \<open>exchange_frames3\<close> are the two overloads of \<open>Network::exchange_frames\<close>.

  A datagram crosses a segment in at most three exchanges: the ARP request, the reply, the
  datagram itself. \<open>transit\<close> says how far it is, \<open>station_at\<close> what this means for one station,
  and \<open>station_step\<close> that an exchange takes every station one step further.
\<close>

section \<open>The exchange\<close>

definition ai_frames_out :: "async_interface \<Rightarrow> ethernet_frame list" where
  "ai_frames_out ai = ni_frames_out (ai_interface ai)"

text \<open>\<open>deliver\<close>: each frame is sent with its payload in one piece.\<close>

definition frame_flat :: "ethernet_frame \<Rightarrow> ethernet_frame" where
  "frame_flat f = f\<lparr>ef_payload := bl_of_buffer (buffer_of (bl_concatenate (ef_payload f)))\<rparr>"

fun sg_deliver :: "ethernet_frame list \<Rightarrow> async_interface \<Rightarrow> async_interface \<times> exn option" where
  "sg_deliver [] dst = (dst, None)"
| "sg_deliver (frame # to_send) dst =
     (case ai_recv_frame (frame_flat frame) dst of
        (dst, Some e) \<Rightarrow> (dst, Some e)
      | (dst, None) \<Rightarrow> sg_deliver to_send dst)"

text \<open>\<open>clear\<close>: as many frames as were copied leave the queue they were copied from.\<close>

fun sg_clear :: "'a list \<Rightarrow> 'a list \<Rightarrow> 'a list" where
  "sg_clear (_ # queue1) (_ # queue2) = sg_clear queue1 queue2"
| "sg_clear _ queue2 = queue2"

definition ai_clear :: "ethernet_frame list \<Rightarrow> async_interface \<Rightarrow> async_interface" where
  "ai_clear frames ai = ai\<lparr>ai_interface := (ai_interface ai)\<lparr>ni_frames_out := sg_clear frames (ai_frames_out ai)\<rparr>\<rparr>"

definition exchange_frames2 :: "async_interface \<Rightarrow> async_interface \<Rightarrow> async_interface \<times> async_interface \<times> exn option" where
  "exchange_frames2 x y =
     (let x_frames = ai_frames_out x; y_frames = ai_frames_out y;
          (y, e) = sg_deliver x_frames y
      in if e \<noteq> None then (x, y, e)
         else let (x, e) = sg_deliver y_frames x
              in if e \<noteq> None then (x, y, e)
                 else (ai_clear x_frames x, ai_clear y_frames y, None))"

definition exchange_frames3 :: "async_interface \<Rightarrow> async_interface \<Rightarrow> async_interface \<Rightarrow>
    async_interface \<times> async_interface \<times> async_interface \<times> exn option" where
  "exchange_frames3 x y z =
     (let x_frames = ai_frames_out x; y_frames = ai_frames_out y; z_frames = ai_frames_out z;
          (y, e) = sg_deliver x_frames y
      in if e \<noteq> None then (x, y, z, e)
         else let (z, e) = sg_deliver x_frames z
      in if e \<noteq> None then (x, y, z, e)
         else let (x, e) = sg_deliver y_frames x
      in if e \<noteq> None then (x, y, z, e)
         else let (z, e) = sg_deliver y_frames z
      in if e \<noteq> None then (x, y, z, e)
         else let (x, e) = sg_deliver z_frames x
      in if e \<noteq> None then (x, y, z, e)
         else let (y, e) = sg_deliver z_frames y
      in if e \<noteq> None then (x, y, z, e)
         else (ai_clear x_frames x, ai_clear y_frames y, ai_clear z_frames z, None))"

lemma sg_clear_drop [simp]: "sg_clear q1 q2 = drop (length q1) q2"
  by (induction q1 q2 rule: sg_clear.induct) auto

lemma sg_deliver_append:
  "sg_deliver (fs @ gs) ai = (case sg_deliver fs ai of (ai, Some e) \<Rightarrow> (ai, Some e) | (ai, None) \<Rightarrow> sg_deliver gs ai)"
  by (induction fs arbitrary: ai) (auto split: prod.splits option.splits)

lemma sg_deliver_append_ok:
  "sg_deliver (fs @ gs) ai = (ai', None) \<longleftrightarrow> (\<exists>b. sg_deliver fs ai = (b, None) \<and> sg_deliver gs b = (ai', None))"
  by (auto simp: sg_deliver_append split: prod.splits option.splits)

lemma exchange2_ok:
  assumes "sg_deliver (ai_frames_out y) x = (x', None)" "sg_deliver (ai_frames_out x) y = (y', None)"
  shows "exchange_frames2 x y = (ai_clear (ai_frames_out x) x', ai_clear (ai_frames_out y) y', None)"
  using assms by (simp add: exchange_frames2_def)

lemma exchange3_ok:
  assumes "sg_deliver (ai_frames_out y @ ai_frames_out z) x = (x', None)"
    and "sg_deliver (ai_frames_out x @ ai_frames_out z) y = (y', None)"
    and "sg_deliver (ai_frames_out x @ ai_frames_out y) z = (z', None)"
  shows "exchange_frames3 x y z =
    (ai_clear (ai_frames_out x) x', ai_clear (ai_frames_out y) y', ai_clear (ai_frames_out z) z', None)"
  using assms by (auto simp: exchange_frames3_def sg_deliver_append_ok Let_def)

section \<open>Datagrams up to their checksum\<close>

text \<open>A datagram on the wire differs from the one that was sent in the stored checksum only.\<close>

definition same_datagram :: "ipv4_datagram \<Rightarrow> ipv4_datagram \<Rightarrow> bool" where
  "same_datagram d d' \<longleftrightarrow> (\<exists>c. ipd_header d' = (ipd_header d)\<lparr>ip_cksum := c\<rparr>) \<and>
     bl_concatenate (ipd_payload d') = bl_concatenate (ipd_payload d)"

lemma same_datagram_refl [simp]: "same_datagram d d"
  by (cases "ipd_header d") (auto simp: same_datagram_def)

lemma same_datagram_trans [trans]: "same_datagram d d' \<Longrightarrow> same_datagram d' d'' \<Longrightarrow> same_datagram d d''"
  by (auto simp: same_datagram_def)

lemma same_datagram_ttl: "same_datagram d d' \<Longrightarrow> same_datagram (dgram_set_ttl t d) (dgram_set_ttl t d')"
  by (cases "ipd_header d") (auto simp: same_datagram_def dgram_set_ttl_def)

lemma same_datagram_sel:
  assumes "same_datagram d d'"
  shows "ip_dst (ipd_header d') = ip_dst (ipd_header d)" "ip_ttl (ipd_header d') = ip_ttl (ipd_header d)"
    "ip_datagram_wf d' = ip_datagram_wf d" "ip_datagram_bytes d' = ip_datagram_bytes d"
proof -
  obtain c where h: "ipd_header d' = (ipd_header d)\<lparr>ip_cksum := c\<rparr>"
    and p: "bl_concatenate (ipd_payload d') = bl_concatenate (ipd_payload d)"
    using assms by (auto simp: same_datagram_def)
  show "ip_dst (ipd_header d') = ip_dst (ipd_header d)" "ip_ttl (ipd_header d') = ip_ttl (ipd_header d)"
    by (simp_all add: h)
  show "ip_datagram_wf d' = ip_datagram_wf d"
    by (simp add: ip_datagram_wf_def h p ip_header_wf_def ip_header_fits_def)
  have "ip_cksum_of ((ipd_header d)\<lparr>ip_cksum := c\<rparr>) = ip_cksum_of (ipd_header d)"
    by (simp add: ip_cksum_of_def)
  then show "ip_datagram_bytes d' = ip_datagram_bytes d"
    by (simp add: ip_datagram_bytes_def h p Let_def) (simp add: ip_options_def)
qed

lemma ip_datagram_wf_ttl [simp]: "ip_datagram_wf (dgram_set_ttl t d) = ip_datagram_wf d"
  by (simp add: ip_datagram_wf_def dgram_set_ttl_def ip_header_wf_def ip_header_fits_def)

section \<open>Stations\<close>

text \<open>A segment is the list of its stations: Ethernet address and IPv4 address.\<close>

type_synonym segment = "(ethernet_address \<times> 32 word) list"

definition segment_ok :: "segment \<Rightarrow> bool" where
  "segment_ok seg \<longleftrightarrow> distinct (map fst seg) \<and> distinct (map snd seg) \<and>
     list_all (\<lambda>m. eth_address_ok m \<and> m \<noteq> ETHERNET_BROADCAST) (map fst seg)"

text \<open>What a station has learned is true and alive.\<close>

definition table_ok :: "segment \<Rightarrow> (32 word \<rightharpoonup> arp_entry) \<Rightarrow> bool" where
  "table_ok seg table \<longleftrightarrow> (\<forall>ip e. table ip = Some e \<longrightarrow> 0 < ae_ttl e \<and> (ae_ethernet_address e, ip) \<in> set seg)"

text \<open>
  No datagram on the segment; or one from station \<open>x\<close> to station \<open>y\<close> that arrives after \<open>k\<close> more
  exchanges: \<open>x\<close> has asked (3), \<open>y\<close> has answered (2), \<open>x\<close> has sent (1), \<open>y\<close> has it (0).
\<close>

datatype transit = Idle | Transit nat nat nat ipv4_datagram

fun transit_frames :: "segment \<Rightarrow> transit \<Rightarrow> nat \<Rightarrow> ethernet_frame list" where
  "transit_frames seg Idle i = []"
| "transit_frames seg (Transit k x y d) i =
     (if k = 3 \<and> i = x then [request_frame (fst (seg ! x)) (snd (seg ! x)) (snd (seg ! y))]
      else if k = 2 \<and> i = y then [reply_frame (fst (seg ! y)) (snd (seg ! y)) (arp_default\<lparr>
        arp_sender_ethernet_address := fst (seg ! x), arp_sender_ip_address := snd (seg ! x)\<rparr>)]
      else if k = 1 \<and> i = x then [data_frame (fst (seg ! x)) (fst (seg ! y)) d]
      else [])"

fun transit_waiting :: "segment \<Rightarrow> transit \<Rightarrow> nat \<Rightarrow> 32 word \<rightharpoonup> ipv4_datagram list" where
  "transit_waiting seg Idle i = Map.empty"
| "transit_waiting seg (Transit k x y d) i = (if (k = 3 \<or> k = 2) \<and> i = x then [snd (seg ! y) \<mapsto> [d]] else Map.empty)"

fun transit_queue :: "transit \<Rightarrow> nat \<Rightarrow> ipv4_datagram list \<Rightarrow> bool" where
  "transit_queue Idle i q \<longleftrightarrow> q = []"
| "transit_queue (Transit k x y d) i q \<longleftrightarrow> (if k = 0 \<and> i = y then \<exists>d'. q = [d'] \<and> same_datagram d d' else q = [])"

fun transit_next :: "transit \<Rightarrow> transit" where
  "transit_next Idle = Idle"
| "transit_next (Transit k x y d) = Transit (k - 1) x y d"

fun transit_ok :: "segment \<Rightarrow> transit \<Rightarrow> bool" where
  "transit_ok seg Idle = True"
| "transit_ok seg (Transit k x y d) \<longleftrightarrow> x < length seg \<and> y < length seg \<and> x \<noteq> y \<and> k \<le> 3 \<and> ip_datagram_wf d"

definition ni_station :: "segment \<Rightarrow> transit \<Rightarrow> nat \<Rightarrow> network_interface \<Rightarrow> bool" where
  "ni_station seg tr i ni \<longleftrightarrow> ni_ethernet_address ni = fst (seg ! i) \<and> ni_ip_address ni = inet_address (snd (seg ! i)) 0 \<and>
     table_ok seg (ni_arp_table ni) \<and> ni_pending_datagrams ni = transit_waiting seg tr i \<and>
     ni_arp_request_timers ni = map_option (\<lambda>_. 5000) \<circ> transit_waiting seg tr i"

definition station_at :: "segment \<Rightarrow> transit \<Rightarrow> nat \<Rightarrow> async_interface \<Rightarrow> bool" where
  "station_at seg tr i ai \<longleftrightarrow> ni_station seg tr i (ai_interface ai) \<and>
     ni_frames_out (ai_interface ai) = transit_frames seg tr i \<and> transit_queue tr i (ai_datagrams_out ai)"

text \<open>What station \<open>i\<close> hears in an exchange.\<close>

definition heard :: "segment \<Rightarrow> transit \<Rightarrow> nat \<Rightarrow> ethernet_frame list" where
  "heard seg tr i = concat (map (transit_frames seg tr) (filter (\<lambda>j. j \<noteq> i) [0..<length seg]))"

lemma concat_one:
  assumes "distinct js" "\<And>j. j \<noteq> s \<Longrightarrow> f j = []"
  shows "concat (map f js) = (if s \<in> set js then f s else [])"
  using assms by (induction js) (auto, metis)

fun transit_sender :: "transit \<Rightarrow> nat" where
  "transit_sender Idle = 0"
| "transit_sender (Transit k x y d) = (if k = 2 then y else x)"

lemma heard_eq:
  assumes "transit_ok seg tr" "seg \<noteq> []"
  shows "heard seg tr i = (if i = transit_sender tr then [] else transit_frames seg tr (transit_sender tr))"
proof -
  have "transit_sender tr < length seg"
    using assms by (cases tr) auto
  moreover have "transit_frames seg tr j = []" if "j \<noteq> transit_sender tr" for j
    using that by (cases tr) auto
  ultimately show ?thesis
    unfolding heard_def by (subst concat_one [where s = "transit_sender tr"]) auto
qed

section \<open>What a station does with a frame\<close>

lemma segment_okD:
  assumes "segment_ok seg" "i < length seg" "j < length seg"
  shows "fst (seg ! i) = fst (seg ! j) \<longleftrightarrow> i = j" "snd (seg ! i) = snd (seg ! j) \<longleftrightarrow> i = j"
  using assms nth_eq_iff_index_eq [of "map fst seg" i j] nth_eq_iff_index_eq [of "map snd seg" i j]
  by (auto simp: segment_ok_def)

lemma segment_ok_mac:
  assumes "segment_ok seg" "i < length seg"
  shows "length (fst (seg ! i)) = 6" "fst (seg ! i) \<noteq> ETHERNET_BROADCAST"
  using assms by (auto simp: segment_ok_def list_all_length eth_address_ok_def)

lemma table_ok_learn:
  assumes "table_ok seg table" "i < length seg"
  shows "table_ok seg (table(snd (seg ! i) \<mapsto> \<lparr>ae_ethernet_address = fst (seg ! i), ae_ttl = 30000\<rparr>))"
  using assms by (auto simp: table_ok_def)

text \<open>The three frames that cross a segment, as a receiver reads them.\<close>

lemma flat_frame [simp]:
  "ef_header (frame_flat f) = ef_header f"
  "bl_to_buffer (ef_payload (frame_flat f)) = Inr (buffer_of (bl_concatenate (ef_payload f)))"
  by (simp_all add: frame_flat_def bl_of_buffer_def bl_to_buffer_def)

lemma eth_frame_sel [simp]:
  "ef_header (eth_frame dst src type p) = \<lparr>eth_dst = dst, eth_src = src, eth_type = type\<rparr>"
  "ef_payload (eth_frame dst src type p) = p"
  by (simp_all add: eth_frame_def)

lemma arp_parse_kinds:
  assumes "length a = 6"
  shows "arp_parse m0 (buffer_of (arp_bytes (arp_default\<lparr>arp_opcode := OPCODE_REQUEST, arp_sender_ethernet_address := a,
      arp_sender_ip_address := i, arp_target_ip_address := j\<rparr>))) =
    (NoError, arp_default\<lparr>arp_opcode := OPCODE_REQUEST, arp_sender_ethernet_address := a,
      arp_sender_ip_address := i, arp_target_ip_address := j\<rparr>)"
    and "length b = 6 \<Longrightarrow> arp_parse m0 (buffer_of (arp_bytes (arp_default\<lparr>arp_opcode := OPCODE_REPLY, arp_sender_ethernet_address := a,
      arp_sender_ip_address := i, arp_target_ethernet_address := b, arp_target_ip_address := j\<rparr>))) =
    (NoError, arp_default\<lparr>arp_opcode := OPCODE_REPLY, arp_sender_ethernet_address := a,
      arp_sender_ip_address := i, arp_target_ethernet_address := b, arp_target_ip_address := j\<rparr>)"
proof -
  have p: "arp_parse m0 (buffer_of (arp_bytes m)) = (NoError, m)" if "arp_wf m" for m
    using arp_parse_serialize [OF that, of "buffer_of (arp_bytes m)" "[]" m0] length_arp_bytes [OF that]
    by (simp add: two64_def)
  show "arp_parse m0 (buffer_of (arp_bytes (arp_default\<lparr>arp_opcode := OPCODE_REQUEST, arp_sender_ethernet_address := a,
      arp_sender_ip_address := i, arp_target_ip_address := j\<rparr>))) =
    (NoError, arp_default\<lparr>arp_opcode := OPCODE_REQUEST, arp_sender_ethernet_address := a,
      arp_sender_ip_address := i, arp_target_ip_address := j\<rparr>)"
    using assms by (intro p) (simp add: arp_wf_def eth_address_ok_def arp_default_def arp_supported_def)
  show "length b = 6 \<Longrightarrow> arp_parse m0 (buffer_of (arp_bytes (arp_default\<lparr>arp_opcode := OPCODE_REPLY, arp_sender_ethernet_address := a,
      arp_sender_ip_address := i, arp_target_ethernet_address := b, arp_target_ip_address := j\<rparr>))) =
    (NoError, arp_default\<lparr>arp_opcode := OPCODE_REPLY, arp_sender_ethernet_address := a,
      arp_sender_ip_address := i, arp_target_ethernet_address := b, arp_target_ip_address := j\<rparr>)"
    using assms by (intro p) (simp add: arp_wf_def eth_address_ok_def arp_default_def arp_supported_def)
qed

lemma data_frame_read:
  assumes "ip_datagram_wf d"
  shows "\<exists>d'. ip_datagram_parse d0 (buffer_of (bl_concatenate (ef_payload (data_frame me dst d)))) = (NoError, d') \<and> same_datagram d d'"
proof -
  obtain l where l: "ip_datagram_serialize d = Inr l" "bl_concatenate l = ip_datagram_bytes d"
    using ip_datagram_serialized [OF assms] by blast
  moreover obtain p where "ip_datagram_parse d0 (buffer_of (ip_datagram_bytes d)) =
      (NoError, \<lparr>ipd_header = (ipd_header d)\<lparr>ip_cksum := ip_cksum_of (ipd_header d)\<rparr>, ipd_payload = [p]\<rparr>)"
    "buffer_str p = bl_concatenate (ipd_payload d)"
    using ip_datagram_parse_bytes [OF assms, of "buffer_of (ip_datagram_bytes d)" d0] length_ip_datagram_bytes [OF assms]
    by (auto simp: two64_def)
  ultimately show ?thesis
    by (auto simp: data_frame_def same_datagram_def bl_concatenate_eq)
qed

lemma wf_serializable: "ip_datagram_wf d \<Longrightarrow> serializable d"
  using ip_datagram_serialized [of d] by (auto simp: serializable_def)

lemma ai_clear_nil [simp]: "ai_clear [] ai = ai"
  by (simp add: ai_clear_def ai_frames_out_def)

lemma sg_deliver_one: "sg_deliver [f] ai = ai_recv_frame (frame_flat f) ai"
  by (auto split: prod.splits option.splits)

lemma hear_request:
  assumes ok: "segment_ok seg" and tr: "transit_ok seg (Transit 3 x y d)" and i: "i < length seg" "i \<noteq> x"
    and ai: "station_at seg (Transit 3 x y d) i ai"
  shows "\<exists>ai'. ai_recv_frame (frame_flat (request_frame (fst (seg ! x)) (snd (seg ! x)) (snd (seg ! y)))) ai = (ai', None) \<and>
    station_at seg (Transit 2 x y d) i ai'"
proof -
  have xy: "x < length seg" "y < length seg" "length (fst (seg ! x)) = 6"
    using tr segment_ok_mac(1) [OF ok, of x] by simp_all
  have own: "snd (seg ! y) = snd (seg ! i) \<longleftrightarrow> i = y"
    using segment_okD(2) [OF ok xy(2) i(1)] by auto
  have pay: "bl_concatenate (ef_payload (request_frame a b c)) = arp_bytes (arp_default\<lparr>arp_opcode := OPCODE_REQUEST,
      arp_sender_ethernet_address := a, arp_sender_ip_address := b, arp_target_ip_address := c\<rparr>)" for a b c
    by (simp add: request_frame_def bl_concatenate_eq)
  have hdr: "ef_header (request_frame a b c) = \<lparr>eth_dst = ETHERNET_BROADCAST, eth_src = a, eth_type = TYPE_ARP\<rparr>" for a b c
    by (simp add: request_frame_def)
  have supp: "arp_supported (arp_default\<lparr>arp_opcode := OPCODE_REPLY, arp_sender_ethernet_address := a,
      arp_sender_ip_address := b, arp_target_ethernet_address := c, arp_target_ip_address := e\<rparr>)" for a b c e
    by simp
  show ?thesis
    using ai i own table_ok_learn [OF _ xy(1)]
    by (auto simp: ai_recv_frame_def ni_recv_frame_def hdr pay arp_parse_kinds(1) [OF xy(3)] ni_recv_arp_def ni_learn_def
        ni_reply_def ni_send_waiting_def station_at_def ni_station_def Let_def arp_serialize_eq [OF supp] reply_frame_def
        bl_of_buffer_def)
qed

lemma hear_reply:
  assumes ok: "segment_ok seg" and tr: "transit_ok seg (Transit 2 x y d)" and i: "i < length seg" "i \<noteq> y"
    and ai: "station_at seg (Transit 2 x y d) i ai"
  shows "\<exists>ai'. ai_recv_frame (frame_flat (reply_frame (fst (seg ! y)) (snd (seg ! y)) (arp_default\<lparr>
        arp_sender_ethernet_address := fst (seg ! x), arp_sender_ip_address := snd (seg ! x)\<rparr>))) ai = (ai', None) \<and>
    station_at seg (Transit 1 x y d) i ai'"
proof -
  have xy: "x < length seg" "y < length seg" "length (fst (seg ! x)) = 6" "length (fst (seg ! y)) = 6"
    "fst (seg ! x) \<noteq> ETHERNET_BROADCAST"
    using tr segment_ok_mac [OF ok] by simp_all
  have own: "fst (seg ! x) = fst (seg ! i) \<longleftrightarrow> i = x"
    using segment_okD(1) [OF ok xy(1) i(1)] by auto
  have ser: "serializable d"
    using tr wf_serializable by simp
  have pay: "bl_concatenate (ef_payload (reply_frame a b m)) = arp_bytes (arp_default\<lparr>arp_opcode := OPCODE_REPLY,
      arp_sender_ethernet_address := a, arp_sender_ip_address := b,
      arp_target_ethernet_address := arp_sender_ethernet_address m, arp_target_ip_address := arp_sender_ip_address m\<rparr>)" for a b m
    by (simp add: reply_frame_def bl_concatenate_eq)
  have hdr: "ef_header (reply_frame a b m) = \<lparr>eth_dst = arp_sender_ethernet_address m, eth_src = a, eth_type = TYPE_ARP\<rparr>" for a b m
    by (simp add: reply_frame_def)
  have kinds: "OPCODE_REPLY \<noteq> OPCODE_REQUEST"
    by simp
  show ?thesis
    using ai i own xy table_ok_learn [OF _ xy(2)] ni_flush_serializable [of "[d]"] ser
    by (auto simp: ai_recv_frame_def ni_recv_frame_def hdr pay arp_parse_kinds(2) [OF xy(4) xy(3)] ni_recv_arp_def ni_learn_def
        ni_reply_def ni_send_waiting_def station_at_def ni_station_def Let_def kinds fun_eq_iff)
qed

lemma hear_data:
  assumes ok: "segment_ok seg" and tr: "transit_ok seg (Transit 1 x y d)" and i: "i < length seg" "i \<noteq> x"
    and ai: "station_at seg (Transit 1 x y d) i ai"
  shows "\<exists>ai'. ai_recv_frame (frame_flat (data_frame (fst (seg ! x)) (fst (seg ! y)) d)) ai = (ai', None) \<and>
    station_at seg (Transit 0 x y d) i ai'"
proof -
  have y: "y < length seg" "fst (seg ! y) \<noteq> ETHERNET_BROADCAST" and wf: "ip_datagram_wf d"
    using tr segment_ok_mac [OF ok] by simp_all
  have own: "fst (seg ! y) = fst (seg ! i) \<longleftrightarrow> i = y"
    using segment_okD(1) [OF ok y(1) i(1)] by auto
  have hdr: "ef_header (data_frame a b d) = \<lparr>eth_dst = b, eth_src = a, eth_type = TYPE_IPv4\<rparr>" for a b
    by (simp add: data_frame_def)
  obtain d' where "ip_datagram_parse ip_datagram_default
      (buffer_of (bl_concatenate (ef_payload (data_frame (fst (seg ! x)) (fst (seg ! y)) d)))) = (NoError, d')" "same_datagram d d'"
    using data_frame_read [OF wf] by blast
  then show ?thesis
    using ai i own y
    by (auto simp: ai_recv_frame_def ni_recv_frame_def hdr station_at_def ni_station_def Let_def)
qed

text \<open>An exchange takes every station one step further.\<close>

lemma station_clear:
  assumes "station_at seg tr i ai" "transit_frames seg (transit_next tr) i = []" "\<And>q. transit_queue (transit_next tr) i q = transit_queue tr i q"
    and "transit_waiting seg (transit_next tr) i = transit_waiting seg tr i"
  shows "station_at seg (transit_next tr) i (ai_clear (transit_frames seg tr i) ai)"
  using assms by (simp add: station_at_def ni_station_def ai_clear_def ai_frames_out_def)

lemma station_step:
  assumes ok: "segment_ok seg" and tr: "transit_ok seg tr" and i: "i < length seg" and ai: "station_at seg tr i ai"
  shows "\<exists>ai'. sg_deliver (heard seg tr i) ai = (ai', None) \<and>
    station_at seg (transit_next tr) i (ai_clear (transit_frames seg tr i) ai')"
proof (cases tr)
  case Idle
  then show ?thesis
    using ai heard_eq [OF tr, of i] i by (cases seg) auto
next
  case (Transit k x y d)
  have heard: "heard seg tr i = (if i = transit_sender tr then [] else transit_frames seg tr (transit_sender tr))"
    using heard_eq [OF tr] i by force
  consider "k = 3" | "k = 2" | "k = 1" | "k = 0"
    using tr Transit by (cases "k = 0 \<or> k = 1 \<or> k = 2") auto
  then show ?thesis
  proof cases
    case 1
    show ?thesis
    proof (cases "i = x")
      case True
      then show ?thesis
        using station_clear [OF ai] heard tr by (simp add: Transit 1)
    next
      case False
      then show ?thesis
        using hear_request [OF ok _ i False] tr ai heard by (simp add: Transit 1 sg_deliver_one del: sg_deliver.simps)
    qed
  next
    case 2
    show ?thesis
    proof (cases "i = y")
      case True
      then show ?thesis
        using station_clear [OF ai] heard tr by (simp add: Transit 2)
    next
      case False
      then show ?thesis
        using hear_reply [OF ok _ i False] tr ai heard by (simp add: Transit 2 sg_deliver_one del: sg_deliver.simps)
    qed
  next
    case 3
    show ?thesis
    proof (cases "i = x")
      case True
      then show ?thesis
        using station_clear [OF ai] heard tr by (simp add: Transit 3)
    next
      case False
      then show ?thesis
        using hear_data [OF ok _ i False] tr ai heard by (simp add: Transit 3 sg_deliver_one del: sg_deliver.simps)
    qed
  next
    case 4
    then show ?thesis
      using ai heard by (cases "i = x") (simp_all add: Transit)
  qed
qed

section \<open>An exchange as a step of the segment\<close>

definition segment_at :: "segment \<Rightarrow> transit \<Rightarrow> async_interface list \<Rightarrow> bool" where
  "segment_at seg tr ais \<longleftrightarrow> length ais = length seg \<and> (\<forall>i < length seg. station_at seg tr i (ais ! i))"

lemma station_frames: "station_at seg tr i ai \<Longrightarrow> ai_frames_out ai = transit_frames seg tr i"
  by (simp add: station_at_def ai_frames_out_def)

lemma exchange2_step:
  assumes "segment_ok [a, b]" "transit_ok [a, b] tr" "segment_at [a, b] tr [x, y]"
  shows "\<exists>x' y'. exchange_frames2 x y = (x', y', None) \<and> segment_at [a, b] (transit_next tr) [x', y']"
proof -
  let ?s = "[a, b]"
  have at: "station_at ?s tr 0 x" "station_at ?s tr 1 y"
    using assms(3) by (auto simp: segment_at_def)
  have heard: "heard ?s tr 0 = transit_frames ?s tr 1" "heard ?s tr 1 = transit_frames ?s tr 0"
    by (simp_all add: heard_def)
  obtain x' where x: "sg_deliver (transit_frames ?s tr 1) x = (x', None)"
    "station_at ?s (transit_next tr) 0 (ai_clear (transit_frames ?s tr 0) x')"
    using station_step [OF assms(1,2) _ at(1)] heard by auto
  obtain y' where y: "sg_deliver (transit_frames ?s tr 0) y = (y', None)"
    "station_at ?s (transit_next tr) 1 (ai_clear (transit_frames ?s tr 1) y')"
    using station_step [OF assms(1,2) _ at(2)] heard by auto
  have "exchange_frames2 x y = (ai_clear (transit_frames ?s tr 0) x', ai_clear (transit_frames ?s tr 1) y', None)"
    using exchange2_ok [of y x x' y'] x y at station_frames by metis
  then show ?thesis
    using x y by (auto simp: segment_at_def less_Suc_eq)
qed

lemma exchange3_step:
  assumes "segment_ok [a, b, c]" "transit_ok [a, b, c] tr" "segment_at [a, b, c] tr [x, y, z]"
  shows "\<exists>x' y' z'. exchange_frames3 x y z = (x', y', z', None) \<and> segment_at [a, b, c] (transit_next tr) [x', y', z']"
proof -
  let ?s = "[a, b, c]"
  have at: "station_at ?s tr 0 x" "station_at ?s tr 1 y" "station_at ?s tr 2 z"
    using assms(3) by (auto simp: segment_at_def numeral_2_eq_2)
  have heard: "heard ?s tr 0 = transit_frames ?s tr 1 @ transit_frames ?s tr 2"
    "heard ?s tr 1 = transit_frames ?s tr 0 @ transit_frames ?s tr 2"
    "heard ?s tr 2 = transit_frames ?s tr 0 @ transit_frames ?s tr 1"
    by (simp_all add: heard_def upt_rec [of 0] upt_rec [of 1] upt_rec [of 2] numeral_2_eq_2)
  obtain x' where x: "sg_deliver (transit_frames ?s tr 1 @ transit_frames ?s tr 2) x = (x', None)"
    "station_at ?s (transit_next tr) 0 (ai_clear (transit_frames ?s tr 0) x')"
    using station_step [OF assms(1,2) _ at(1)] heard by auto
  obtain y' where y: "sg_deliver (transit_frames ?s tr 0 @ transit_frames ?s tr 2) y = (y', None)"
    "station_at ?s (transit_next tr) 1 (ai_clear (transit_frames ?s tr 1) y')"
    using station_step [OF assms(1,2) _ at(2)] heard by auto
  obtain z' where z: "sg_deliver (transit_frames ?s tr 0 @ transit_frames ?s tr 1) z = (z', None)"
    "station_at ?s (transit_next tr) 2 (ai_clear (transit_frames ?s tr 2) z')"
    using station_step [OF assms(1,2) _ at(3)] heard by auto
  have "exchange_frames3 x y z = (ai_clear (transit_frames ?s tr 0) x', ai_clear (transit_frames ?s tr 1) y',
      ai_clear (transit_frames ?s tr 2) z', None)"
    using exchange3_ok [of y z x x' y' z'] x y z at station_frames by metis
  then show ?thesis
    using x y z by (auto simp: segment_at_def less_Suc_eq numeral_2_eq_2)
qed

text \<open>A datagram given to a station of an idle segment for one of the others is on its way.\<close>

lemma station_send:
  assumes ok: "segment_ok seg" and at: "station_at seg Idle x ai" and xy: "x < length seg" "y < length seg" "x \<noteq> y"
    and wf: "ip_datagram_wf d" and hop: "ipv4_numeric next_hop = Inr (snd (seg ! y))"
  shows "\<exists>k ni. (k = 3 \<or> k = 1) \<and> ni_send_datagram d next_hop (ai_interface ai) = (ni, None) \<and>
    station_at seg (Transit k x y d) x (ai\<lparr>ai_interface := ni\<rparr>)"
proof (cases "ni_arp_table (ai_interface ai) (snd (seg ! y))")
  case (Some e)
  then have e: "0 < ae_ttl e" "(ae_ethernet_address e, snd (seg ! y)) \<in> set seg"
    using at by (auto simp: station_at_def ni_station_def table_ok_def)
  obtain j where j: "j < length seg" "seg ! j = (ae_ethernet_address e, snd (seg ! y))"
    using e(2) by (auto simp: in_set_conv_nth)
  have "j = y"
    using segment_okD(2) [OF ok j(1) xy(2)] j(2) by simp
  then have "ae_ethernet_address e = fst (seg ! y)"
    using j by (metis fst_conv)
  moreover obtain l where "ip_datagram_serialize d = Inr l"
    using ip_datagram_serialized [OF wf] by blast
  ultimately have "ni_send_datagram d next_hop (ai_interface ai) =
      (ni_push (data_frame (fst (seg ! x)) (fst (seg ! y)) d) (ai_interface ai), None)"
    using at Some e(1) hop by (simp add: ni_send_datagram_def station_at_def ni_station_def data_frame_def)
  then show ?thesis
    using at xy by (intro exI [of _ 1]) (auto simp: station_at_def ni_station_def)
next
  case None
  let ?ni = "ai_interface ai"
  let ?w = "?ni\<lparr>ni_pending_datagrams := [snd (seg ! y) \<mapsto> [d]]\<rparr>"
  have "ni_arp_request ?w (snd (seg ! y)) = Inr (request_frame (fst (seg ! x)) (snd (seg ! x)) (snd (seg ! y)))"
    using at by (simp add: ni_arp_request_def station_at_def ni_station_def arp_serialize_eq request_frame_def bl_of_buffer_def Let_def)
  then have "ni_send_datagram d next_hop ?ni =
      ((ni_push (request_frame (fst (seg ! x)) (snd (seg ! x)) (snd (seg ! y))) ?w)\<lparr>ni_arp_request_timers := [snd (seg ! y) \<mapsto> 5000]\<rparr>, None)"
    using at None hop by (simp add: ni_send_datagram_def ni_wait_def ni_request_def ni_timer_idle_def station_at_def ni_station_def)
  then show ?thesis
    using at xy by (intro exI [of _ 3]) (auto simp: station_at_def ni_station_def fun_eq_iff)
qed

text \<open>The other stations do not notice.\<close>

lemma station_unaware:
  assumes "station_at seg Idle i ai" "i \<noteq> x" "k = 3 \<or> k = 1"
  shows "station_at seg (Transit k x y d) i ai"
  using assms by (auto simp: station_at_def ni_station_def)

section \<open>Delivery\<close>

text \<open>Stations that are new.\<close>

lemma segment_new:
  "segment_at seg Idle (map (\<lambda>(mac, ip). ai_construct (ni_construct mac (inet_address ip 0))) seg)"
  by (auto simp: segment_at_def station_at_def ni_station_def ai_construct_def ni_construct_def table_ok_def split_beta)

text \<open>\<open>n\<close> exchanges on a segment of three stations.\<close>

fun exchange_times :: "nat \<Rightarrow> async_interface \<Rightarrow> async_interface \<Rightarrow> async_interface \<Rightarrow>
    async_interface \<times> async_interface \<times> async_interface \<times> exn option" where
  "exchange_times 0 x y z = (x, y, z, None)"
| "exchange_times (Suc n) x y z =
     (case exchange_frames3 x y z of (x, y, z, None) \<Rightarrow> exchange_times n x y z | r \<Rightarrow> r)"

lemma exchange_times_step:
  assumes "segment_ok [a, b, c]" "transit_ok [a, b, c] tr" "segment_at [a, b, c] tr [x, y, z]"
  shows "\<exists>x' y' z'. exchange_times n x y z = (x', y', z', None) \<and> segment_at [a, b, c] ((transit_next ^^ n) tr) [x', y', z']"
  using assms(2,3)
proof (induction n arbitrary: tr x y z)
  case (Suc n)
  obtain x1 y1 z1 where "exchange_frames3 x y z = (x1, y1, z1, None)" "segment_at [a, b, c] (transit_next tr) [x1, y1, z1]"
    using exchange3_step [OF assms(1) Suc.prems] by blast
  moreover have "transit_ok [a, b, c] (transit_next tr)"
    using Suc.prems(1) by (cases tr) auto
  ultimately show ?case
    using Suc.IH [of "transit_next tr" x1 y1 z1] by (simp add: funpow_swap1)
qed simp

text \<open>
  C13: Delivery on a segment. On an idle segment of three stations whose ARP tables hold only true and
  live entries, a well-formed datagram that any station is given with the address of any other as
  the next hop is with that one after three exchanges, once and unchanged up to the stored checksum, whether or not the address had
  to be resolved first; the two other stations hand nothing up, no exception is raised, and the
  segment is idle again.
\<close>

theorem segment_delivers:
  assumes "segment_ok [a, b, c]" "segment_at [a, b, c] Idle xs" "ip_datagram_wf d"
    and "i < 3" "j < 3" "i \<noteq> j" "ipv4_numeric next_hop = Inr (snd ([a, b, c] ! j))"
  shows "\<exists>ni ys x' y' z' d'. ni_send_datagram d next_hop (ai_interface (xs ! i)) = (ni, None) \<and>
    ys = xs[i := (xs ! i)\<lparr>ai_interface := ni\<rparr>] \<and>
    exchange_times 3 (ys ! 0) (ys ! 1) (ys ! 2) = (x', y', z', None) \<and>
    (\<forall>k < 3. ai_datagrams_out ([x', y', z'] ! k) = (if k = j then [d'] else [])) \<and> same_datagram d d' \<and>
    segment_at [a, b, c] Idle ([x', y', z'][j := ([x', y', z'] ! j)\<lparr>ai_datagrams_out := []\<rparr>])"
proof -
  let ?s = "[a, b, c]"
  have at: "station_at ?s Idle m (xs ! m)" if "m < 3" for m
    using assms(2) that by (simp add: segment_at_def)
  have len: "length xs = 3"
    using assms(2) by (simp add: segment_at_def)
  obtain k ni where k: "k = 3 \<or> k = 1" "ni_send_datagram d next_hop (ai_interface (xs ! i)) = (ni, None)"
    "station_at ?s (Transit k i j d) i ((xs ! i)\<lparr>ai_interface := ni\<rparr>)"
    using station_send [OF assms(1) at [OF assms(4)], of j d next_hop] assms(3-7) by auto
  define ys where "ys = xs[i := (xs ! i)\<lparr>ai_interface := ni\<rparr>]"
  have "station_at ?s (Transit k i j d) m (ys ! m)" if "m < 3" for m
    using station_unaware [OF at [OF that], of i k j d] k(1,3) that assms(4) len
    by (cases "m = i") (simp_all add: ys_def)
  moreover have ys: "ys = [ys ! 0, ys ! 1, ys ! 2]"
    using len by (intro nth_equalityI) (auto simp: ys_def less_Suc_eq numeral_2_eq_2 numeral_3_eq_3)
  ultimately have "segment_at ?s (Transit k i j d) [ys ! 0, ys ! 1, ys ! 2]"
    by (simp add: segment_at_def flip: ys) (simp add: ys_def len)
  moreover have "transit_ok ?s (Transit k i j d)"
    using k(1) assms(3-6) by auto
  moreover have "(transit_next ^^ 3) (Transit k i j d) = Transit 0 i j d"
    using k(1) by (auto simp: numeral_3_eq_3)
  ultimately obtain x' y' z' where e: "exchange_times 3 (ys ! 0) (ys ! 1) (ys ! 2) = (x', y', z', None)"
    "segment_at ?s (Transit 0 i j d) [x', y', z']"
    using exchange_times_step [OF assms(1), of "Transit k i j d" "ys ! 0" "ys ! 1" "ys ! 2" 3] by metis
  define zs where "zs = [x', y', z']"
  have zs: "length zs = 3"
    by (simp add: zs_def)
  have st: "station_at ?s (Transit 0 i j d) m (zs ! m)" if "m < 3" for m
    using e(2) that by (simp add: segment_at_def zs_def)
  obtain d' where d': "ai_datagrams_out (zs ! j) = [d']" "same_datagram d d'"
    using st [OF assms(5)] by (auto simp: station_at_def)
  have out: "\<forall>m < 3. ai_datagrams_out (zs ! m) = (if m = j then [d'] else [])"
    using st d'(1) by (auto simp: station_at_def)
  have "station_at ?s Idle m (zs[j := (zs ! j)\<lparr>ai_datagrams_out := []\<rparr>] ! m)" if "m < 3" for m
    using st [OF that] that zs by (cases "m = j") (auto simp: station_at_def ni_station_def)
  then have "segment_at ?s Idle (zs[j := (zs ! j)\<lparr>ai_datagrams_out := []\<rparr>])"
    using zs by (simp add: segment_at_def)
  then show ?thesis
    using k(2) e(1) d'(2) out ys_def unfolding zs_def by blast
qed

text \<open>From the third station to the first.\<close>

theorem segment_delivers_witness:
  "\<exists>ni x' y' z' d'. ni_send_datagram ip_example (inet_address 1 0) (ni_construct [2, 0, 0, 0, 0, 3] (inet_address 3 0)) = (ni, None) \<and>
    exchange_times 3 (ai_construct (ni_construct [2, 0, 0, 0, 0, 1] (inet_address 1 0)))
      (ai_construct (ni_construct [2, 0, 0, 0, 0, 2] (inet_address 2 0))) (ai_construct ni) = (x', y', z', None) \<and>
    ai_datagrams_out x' = [d'] \<and> same_datagram ip_example d' \<and> ai_datagrams_out y' = [] \<and> ai_datagrams_out z' = []"
proof -
  let ?s = "[([2, 0, 0, 0, 0, 1], 1), ([2, 0, 0, 0, 0, 2], 2), ([2, 0, 0, 0, 0, 3], 3)] :: segment"
  let ?x = "\<lambda>i. ai_construct (ni_construct (fst (?s ! i)) (inet_address (snd (?s ! i)) 0))"
  have ok: "segment_ok ?s"
    by (simp add: segment_ok_def eth_address_ok_def ETHERNET_BROADCAST_def)
  have at: "segment_at ?s Idle [?x 0, ?x 1, ?x 2]"
    using segment_new [of ?s] by simp
  have wf: "ip_datagram_wf ip_example"
    by (simp add: ip_example_def ip_datagram_wf_def ip_header_wf_def ip_header_fits_def ip_header_default_def bl_concatenate_eq)
  obtain ni ys x' y' z' d' where "ni_send_datagram ip_example (inet_address 1 0) (ai_interface (?x 2)) = (ni, None)"
    "ys = [?x 0, ?x 1, ?x 2][2 := (?x 2)\<lparr>ai_interface := ni\<rparr>]"
    "exchange_times 3 (ys ! 0) (ys ! 1) (ys ! 2) = (x', y', z', None)"
    "\<forall>k < 3. ai_datagrams_out ([x', y', z'] ! k) = (if k = 0 then [d'] else [])" "same_datagram ip_example d'"
    using segment_delivers [OF ok at wf, of 2 0 "inet_address 1 0"] by auto
  then show ?thesis
    by (auto simp: ai_construct_def numeral_2_eq_2 numeral_3_eq_3 All_less_Suc)
qed

end
