(* ===== verification/Printing.thy ===== *)
theory Printing
  imports Ethernet Arp Ipv4 Tcp_Segment
begin

text \<open>
  What the library prints: the contents and the summaries of TCP and IPv4 headers
  (\<open>libsponge/tcp_helpers\<close>), the summary of a frame (\<open>apps/network_simulator.cc\<close>) and \<open>hexdump\<close>
  (\<open>libsponge/util/util.cc\<close>) as strings. \<open>hexdump_layout\<close> shows what the loop of \<open>hexdump\<close> prints:
  lines of sixteen bytes whose columns are aligned, the last one included.
\<close>

abbreviation newline :: string where
  "newline \<equiv> [char_of (10 :: nat)]"

text \<open>\<open>boolalpha\<close>.\<close>

definition bool_string :: "bool \<Rightarrow> string" where
  "bool_string b = (if b then ''true'' else ''false'')"

section \<open>Headers\<close>

definition tcp_header_to_string :: "tcp_header \<Rightarrow> string" where
  "tcp_header_to_string h =
     ''TCP source port: '' @ hex_string (unat (th_sport h)) @ newline @
     ''TCP dest port: '' @ hex_string (unat (th_dport h)) @ newline @
     ''TCP seqno: '' @ hex_string (unat (raw_value (th_seqno h))) @ newline @
     ''TCP ackno: '' @ hex_string (unat (raw_value (th_ackno h))) @ newline @
     ''TCP doff: '' @ hex_string (unat (th_doff h)) @ newline @
     ''Flags: urg: '' @ bool_string (th_urg h) @ '' ack: '' @ bool_string (th_ack h) @ '' psh: '' @ bool_string (th_psh h) @
     '' rst: '' @ bool_string (th_rst h) @ '' syn: '' @ bool_string (th_syn h) @ '' fin: '' @ bool_string (th_fin h) @ newline @
     ''TCP winsize: '' @ hex_string (unat (th_win h)) @ newline @
     ''TCP cksum: '' @ hex_string (unat (th_cksum h)) @ newline @
     ''TCP uptr: '' @ hex_string (unat (th_uptr h)) @ newline"

definition tcp_header_summary :: "tcp_header \<Rightarrow> string" where
  "tcp_header_summary h =
     ''Header(flags='' @ (if th_syn h then ''S'' else '''') @ (if th_ack h then ''A'' else '''') @
     (if th_rst h then ''R'' else '''') @ (if th_fin h then ''F'' else '''') @
     '',seqno='' @ dec_string (unat (raw_value (th_seqno h))) @ '',ack='' @ dec_string (unat (raw_value (th_ackno h))) @
     '',win='' @ dec_string (unat (th_win h)) @ '')''"

definition ip_header_to_string :: "ipv4_header \<Rightarrow> string" where
  "ip_header_to_string h =
     ''IP version: '' @ hex_string (unat (ip_ver h)) @ newline @
     ''IP hdr len: '' @ hex_string (unat (ip_hlen h)) @ newline @
     ''IP tos: '' @ hex_string (unat (ip_tos h)) @ newline @
     ''IP dgram len: '' @ hex_string (unat (ip_len h)) @ newline @
     ''IP id: '' @ hex_string (unat (ip_id h)) @ newline @
     ''Flags: df: '' @ bool_string (ip_df h) @ '' mf: '' @ bool_string (ip_mf h) @ newline @
     ''Offset: '' @ hex_string (unat (ip_offset h)) @ newline @
     ''TTL: '' @ hex_string (unat (ip_ttl h)) @ newline @
     ''Protocol: '' @ hex_string (unat (ip_proto h)) @ newline @
     ''Checksum: '' @ hex_string (unat (ip_cksum h)) @ newline @
     ''Src addr: '' @ hex_string (unat (ip_src h)) @ newline @
     ''Dst addr: '' @ hex_string (unat (ip_dst h)) @ newline"

definition ip_header_summary :: "ipv4_header \<Rightarrow> string" where
  "ip_header_summary h =
     ''IPv'' @ hex_string (unat (ip_ver h)) @ '', '' @ ''len='' @ hex_string (unat (ip_len h)) @ '', '' @
     ''protocol='' @ hex_string (unat (ip_proto h)) @ '', '' @
     (if 10 \<le> ip_ttl h then '''' else ''ttl='' @ dec_string (unat (ip_ttl h)) @ '', '') @
     ''src='' @ inet_ntoa (ip_src h) @ '', '' @ ''dst='' @ inet_ntoa (ip_dst h)"

definition payload_string :: "buffer_list \<Rightarrow> string" where
  "payload_string l = '' payload='' @ [char_of (34 :: nat)] @ map (\<lambda>b. char_of (unat b)) (bl_concatenate l) @ [char_of (34 :: nat)]"

text \<open>\<open>summary\<close> of a frame whose payload is in one piece; otherwise parsing it throws.\<close>

definition frame_summary :: "ethernet_frame \<Rightarrow> exn + string" where
  "frame_summary f =
     (let ret = eth_header_to_string (ef_header f)
      in if eth_type (ef_header f) = TYPE_IPv4
         then (case bl_to_buffer (ef_payload f) of
                 Inl e \<Rightarrow> Inl e
               | Inr b \<Rightarrow>
                   let (r, dgram) = ip_datagram_parse ip_datagram_default b
                   in if r = NoError
                      then Inr (ret @ '' '' @ ip_header_summary (ipd_header dgram) @ payload_string (ipd_payload dgram))
                      else Inr (ret @ '' (bad IPv4)''))
         else if eth_type (ef_header f) = TYPE_ARP
         then (case bl_to_buffer (ef_payload f) of
                 Inl e \<Rightarrow> Inl e
               | Inr b \<Rightarrow>
                   let (r, arp) = arp_parse arp_default b
                   in if r = NoError then Inr (ret @ '' '' @ arp_to_string arp) else Inr (ret @ '' (bad ARP)''))
         else Inr ret)"

section \<open>Hexadecimal dumps\<close>

text \<open>\<open>isprint\<close> in the C locale.\<close>

definition isprint :: "byte \<Rightarrow> bool" where
  "isprint b \<longleftrightarrow> 32 \<le> b \<and> b < 127"

definition dump_char :: "byte \<Rightarrow> char" where
  "dump_char b = (if isprint b then char_of (unat b) else CHR ''.'')"

definition hex_width8 :: "nat \<Rightarrow> string" where
  "hex_width8 n = (let s = hex_string n in replicate (8 - length s) CHR ''0'' @ s)"

text \<open>
  \<open>pchars\<close> is a string stream made from one blank that is written from its start: \<open>pc\<close> holds the
  characters written, which replace the blank.
\<close>

definition pchars_str :: "string \<Rightarrow> string" where
  "pchars_str pc = (if pc = [] then '' '' else pc)"

fun hexdump_loop :: "string \<Rightarrow> nat \<Rightarrow> string \<Rightarrow> bytes \<Rightarrow> string \<times> nat \<times> string" where
  "hexdump_loop indent_string printed pc [] = ('''', printed, pc)"
| "hexdump_loop indent_string printed pc (b # data) =
     (let (before, pc) =
        (if printed mod 16 = 0
         then ((if printed \<noteq> 0 then ''    '' @ pchars_str pc @ newline else '''') @ indent_string @ hex_width8 printed @ '':    '',
               if printed \<noteq> 0 then '''' else pc)
         else if printed mod 2 = 0 then ('' '', pc) else ('''', pc));
          (rest, printed, pc) = hexdump_loop indent_string (printed + 1) (pc @ [dump_char b]) data
      in (before @ hex_padded b @ rest, printed, pc))"

definition hexdump :: "bytes \<Rightarrow> nat \<Rightarrow> string" where
  "hexdump data indent =
     (let (dump, printed, pc) = hexdump_loop (replicate indent CHR '' '') 0 '''' data;
          print_rem = (16 - printed mod 16) mod 16
      in dump @ replicate (2 * print_rem + print_rem div 2 + 4) CHR '' '' @ pchars_str pc @ newline @ newline)"

text \<open>The lines one expects: offset, up to sixteen bytes in pairs, blanks to the last column, characters.\<close>

fun hex_from :: "nat \<Rightarrow> bytes \<Rightarrow> string" where
  "hex_from j [] = ''''"
| "hex_from j (b # bs) = (if j \<noteq> 0 \<and> even j then '' '' else '''') @ hex_padded b @ hex_from (Suc j) bs"

definition dump_line :: "nat \<Rightarrow> nat \<Rightarrow> bytes \<Rightarrow> string" where
  "dump_line indent n bs =
     replicate indent CHR '' '' @ hex_width8 n @ '':    '' @ hex_from 0 bs @
     replicate (39 - length (hex_from 0 bs)) CHR '' '' @ ''    '' @ map dump_char bs"

fun dump_lines :: "nat \<Rightarrow> nat \<Rightarrow> bytes \<Rightarrow> string" where
  "dump_lines indent n bs =
     (if length bs \<le> 16 then dump_line indent n bs @ newline
      else dump_line indent n (take 16 bs) @ newline @ dump_lines indent (n + 16) (drop 16 bs))"

declare dump_lines.simps [simp del]

lemma hexdump_within:
  assumes "0 < j" "j + length bs \<le> 16"
  shows "hexdump_loop ind (16 * m + j) pc (bs @ rest) =
    (case hexdump_loop ind (16 * m + j + length bs) (pc @ map dump_char bs) rest of (out, n, pc) \<Rightarrow> (hex_from j bs @ out, n, pc))"
  using assms
proof (induction bs arbitrary: j pc)
  case (Cons b bs)
  have "(16 * m + j) mod 16 = j" "(16 * m + j) mod 2 = j mod 2" "Suc (16 * m + j) = 16 * m + Suc j"
    using Cons.prems by (auto simp: mod_simps) presburger
  moreover obtain out n pc' where l: "hexdump_loop ind (16 * m + j + length (b # bs)) (pc @ map dump_char (b # bs)) rest = (out, n, pc')"
    by (metis prod_cases3)
  moreover have "hexdump_loop ind (16 * m + Suc j) (pc @ [dump_char b]) (bs @ rest) = (hex_from (Suc j) bs @ out, n, pc')"
    using Cons.IH [of "Suc j" "pc @ [dump_char b]"] Cons.prems l by simp
  ultimately show ?case
    using Cons.prems by (simp add: even_iff_mod_2_eq_zero)
qed simp

lemma hexdump_line_start:
  assumes "bs \<noteq> []" "length bs \<le> 16" "n = 16 * m" "n = 0 \<Longrightarrow> pc = []"
  shows "hexdump_loop ind n pc (bs @ rest) =
    (case hexdump_loop ind (n + length bs) (map dump_char bs) rest of (out, n', pc') \<Rightarrow>
      ((if n \<noteq> 0 then ''    '' @ pchars_str pc @ newline else '''') @ ind @ hex_width8 n @ '':    '' @ hex_from 0 bs @ out, n', pc'))"
proof -
  obtain b cs where bs: "bs = b # cs"
    using assms(1) by (cases bs) auto
  have "hexdump_loop ind (Suc n) [dump_char b] (cs @ rest) =
      (case hexdump_loop ind (n + length bs) (map dump_char bs) rest of (out, n', pc') \<Rightarrow> (hex_from 1 cs @ out, n', pc'))"
    using hexdump_within [of 1 cs ind m "[dump_char b]" rest] assms(2,3) by (simp add: bs)
  then show ?thesis
    using assms(3,4) by (auto simp: bs split: prod.split)
qed

lemma length_hex_from: "length (hex_from (Suc j) bs) = 2 * length bs + (Suc j + length bs + 1) div 2 - (j + 2) div 2"
  by (induction bs arbitrary: j) (auto simp: length_hex_padded)

text \<open>The blanks after a line bring the characters to the same column.\<close>

lemma hex_area:
  assumes "bs \<noteq> []" "length bs \<le> 16"
  shows "length (hex_from 0 bs) = 2 * length bs + (length bs - 1) div 2"
proof -
  obtain b cs where "bs = b # cs"
    using assms(1) by (cases bs) auto
  then show ?thesis
    using length_hex_from [of 0 cs] by (simp add: length_hex_padded)
qed

lemma dump_blanks:
  assumes "p \<le> 16" "0 < (p :: nat)"
  shows "2 * ((16 - p mod 16) mod 16) + (16 - p mod 16) mod 16 div 2 = 39 - (2 * p + (p - 1) div 2)"
proof -
  have "p \<in> set [1..<17]"
    using assms by simp
  moreover have "list_all (\<lambda>p. 2 * ((16 - p mod 16) mod 16) + (16 - p mod 16) mod 16 div 2 = 39 - (2 * p + (p - 1) div 2)) [1..<17 :: nat]"
    by (simp add: upt_rec)
  ultimately show ?thesis
    unfolding list_all_iff by blast
qed

lemma hexdump_lines:
  assumes "bs \<noteq> []" "n = 16 * m" "n = 0 \<Longrightarrow> pc = []"
  shows "case hexdump_loop (replicate indent CHR '' '') n pc bs of (out, n', pc') \<Rightarrow>
    let r = (16 - n' mod 16) mod 16
    in out @ replicate (2 * r + r div 2 + 4) CHR '' '' @ pchars_str pc' @ newline =
       (if n \<noteq> 0 then ''    '' @ pchars_str pc @ newline else '''') @ dump_lines indent n bs"
  using assms
proof (induction "length bs" arbitrary: bs n m pc rule: less_induct)
  case less
  show ?case
  proof (cases "length bs \<le> 16")
    case True
    have "(n + length bs) mod 16 = length bs mod 16"
      using less.prems(2) by simp
    moreover have "pchars_str (map dump_char bs) = map dump_char bs"
      using less.prems(1) by (simp add: pchars_str_def)
    moreover have "replicate (a + 4) CHR '' '' @ x = replicate a CHR '' '' @ ''    '' @ x" for a x
      by (simp only: replicate_add append_assoc) (simp add: numeral_eq_Suc)
    ultimately show ?thesis
      using hexdump_line_start [OF less.prems(1) True less.prems(2,3), of "replicate indent CHR '' ''" "[]"] True
        dump_blanks [of "length bs"] less.prems(1) hex_area [OF less.prems(1) True]
      by (simp add: Let_def dump_lines.simps [of _ _ bs] dump_line_def)
  next
    case False
    let ?a = "take 16 bs" and ?b = "drop 16 bs" and ?ind = "replicate indent CHR '' ''"
    have a: "?a \<noteq> []" "length ?a \<le> 16" "length ?a = 16"
      using False less.prems(1) by auto
    have area: "length (hex_from 0 ?a) = 39"
      using hex_area [OF a(1,2)] a(3) by simp
    obtain out n' pc' where l: "hexdump_loop ?ind (n + 16) (map dump_char ?a) ?b = (out, n', pc')"
      by (metis prod_cases3)
    have "hexdump_loop ?ind n pc (?a @ ?b) =
        ((if n \<noteq> 0 then ''    '' @ pchars_str pc @ newline else '''') @ ?ind @ hex_width8 n @ '':    '' @ hex_from 0 ?a @ out, n', pc')"
      using hexdump_line_start [OF a(1,2) less.prems(2,3), of ?ind ?b] a(3) l by simp
    moreover have "let r = (16 - n' mod 16) mod 16
        in out @ replicate (2 * r + r div 2 + 4) CHR '' '' @ pchars_str pc' @ newline =
         ''    '' @ pchars_str (map dump_char ?a) @ newline @ dump_lines indent (n + 16) ?b"
      using less.hyps [of ?b "n + 16" "Suc m" "map dump_char ?a"] False less.prems(2) l by simp
    moreover have "pchars_str (map dump_char ?a) = map dump_char ?a"
      using a(1) by (simp add: pchars_str_def)
    ultimately show ?thesis
      using False by (simp add: Let_def dump_lines.simps [of _ _ bs] dump_line_def area)
  qed
qed

text \<open>What \<open>hexdump\<close> prints, and that it is as wide as it should be.\<close>

theorem hexdump_layout:
  "hexdump data indent =
    (if data = [] then ''     '' @ newline @ newline else dump_lines indent 0 data @ newline)"
proof (cases "data = []")
  case True
  moreover have "replicate 4 CHR '' '' = ''    ''"
    by (simp add: numeral_eq_Suc)
  ultimately show ?thesis
    by (simp add: hexdump_def pchars_str_def)
next
  case False
  obtain out n pc where l: "hexdump_loop (replicate indent CHR '' '') 0 [] data = (out, n, pc)"
    by (metis prod_cases3)
  let ?r = "(16 - n mod 16) mod 16"
  have "out @ replicate (2 * ?r + ?r div 2 + 4) CHR '' '' @ pchars_str pc @ newline = dump_lines indent 0 data"
    using hexdump_lines [OF False, of 0 0 "[]" indent] l by (simp add: Let_def)
  moreover have "hexdump data indent = (out @ replicate (2 * ?r + ?r div 2 + 4) CHR '' '' @ pchars_str pc @ newline) @ newline"
    by (simp add: hexdump_def l Let_def)
  ultimately show ?thesis
    using False by simp
qed

end
