(* ===== verification/Network_Simulator.thy ===== *)
theory Network_Simulator
  imports Ethernet_Segment Printing
begin

text \<open>
  The network of \<open>apps/network_simulator.cc\<close>: a router with seven interfaces, six hosts and the
  five segments that join them. The definitions follow the classes \<open>Host\<close> and \<open>Network\<close>; what
  is printed is left out, but not that printing an address may fail. The random engine is the sequence of the numbers it will give, the
  order in which the hash map of the hosts is visited an argument.
\<close>

section \<open>Random numbers\<close>

type_synonym random = "nat \<Rightarrow> 32 word"

definition rd_skip :: "nat \<Rightarrow> random \<Rightarrow> random" where
  "rd_skip n rd = (\<lambda>i. rd (i + n))"

definition random_bytes :: "random \<Rightarrow> ethernet_address" where
  "random_bytes rd = map (\<lambda>i. ucast (rd i)) [0..<6]"

definition random_host_ethernet_address :: "random \<Rightarrow> ethernet_address \<times> random" where
  "random_host_ethernet_address rd =
     (let addr = random_bytes rd;
          addr = addr[0 := Bit_Operations.or (addr ! 0) 0x02];
          addr = addr[0 := Bit_Operations.and (addr ! 0) 0xfe]
      in (addr, rd_skip 6 rd))"

definition random_router_ethernet_address :: "random \<Rightarrow> ethernet_address \<times> random" where
  "random_router_ethernet_address rd = ((random_bytes rd)[0 := 0x02, 1 := 0, 2 := 0], rd_skip 6 rd)"

section \<open>Host\<close>

record host =
  h_name :: string
  h_my_address :: address
  h_interface :: async_interface
  h_next_hop :: address
  h_expecting_to_receive :: "ipv4_datagram list"

definition host_construct :: "string \<Rightarrow> address \<Rightarrow> address \<Rightarrow> random \<Rightarrow> host \<times> random" where
  "host_construct name my_address next_hop rd =
     (let (mac, rd) = random_host_ethernet_address rd
      in (\<lparr>h_name = name, h_my_address = my_address, h_interface = ai_construct (ni_construct mac my_address),
           h_next_hop = next_hop, h_expecting_to_receive = []\<rparr>, rd))"

text \<open>Two datagrams are compared by the bytes they are serialized to.\<close>

definition dgram_bytes :: "ipv4_datagram \<Rightarrow> exn + bytes" where
  "dgram_bytes d = map_sum id bl_concatenate (ip_datagram_serialize d)"

definition same_bytes :: "ipv4_datagram \<Rightarrow> ipv4_datagram \<Rightarrow> exn + bool" where
  "same_bytes x expected = bind_exn (dgram_bytes x) (\<lambda>a. bind_exn (dgram_bytes expected) (\<lambda>b. Inr (a = b)))"

fun host_expecting :: "ipv4_datagram list \<Rightarrow> ipv4_datagram \<Rightarrow> exn + bool" where
  "host_expecting [] expected = Inr False"
| "host_expecting (x # l) expected =
     bind_exn (same_bytes x expected) (\<lambda>eq. if eq then Inr True else host_expecting l expected)"

fun host_remove_expectation :: "ipv4_datagram list \<Rightarrow> ipv4_datagram \<Rightarrow> exn + ipv4_datagram list" where
  "host_remove_expectation [] expected = Inr []"
| "host_remove_expectation (x # l) expected =
     bind_exn (same_bytes x expected) (\<lambda>eq. if eq then Inr l else map_sum id (Cons x) (host_remove_expectation l expected))"

definition host_expect :: "ipv4_datagram \<Rightarrow> host \<Rightarrow> host" where
  "host_expect expected h = h\<lparr>h_expecting_to_receive := h_expecting_to_receive h @ [expected]\<rparr>"

definition host_send_to :: "netdb \<Rightarrow> address \<Rightarrow> byte \<Rightarrow> host \<Rightarrow> random \<Rightarrow> host \<times> random \<times> (exn + ipv4_datagram)" where
  "host_send_to nd destination ttl h rd =
     (case ipv4_numeric (h_my_address h) of
        Inl e \<Rightarrow> (h, rd, Inl e)
      | Inr src \<Rightarrow>
          (case ipv4_numeric destination of
             Inl e \<Rightarrow> (h, rd, Inl e)
           | Inr dst \<Rightarrow>
               let payload = bl_of_buffer (buffer_of (map of_char (''random payload: {'' @ dec_string (unat (rd 0)) @ ''}'')));
                   header = ip_header_default\<lparr>ip_src := src, ip_dst := dst\<rparr>;
                   header = header\<lparr>ip_len := word_of_nat (unat (ip_hlen header) * 4 + bl_size payload), ip_ttl := ttl\<rparr>;
                   dgram = \<lparr>ipd_header = header, ipd_payload = payload\<rparr>;
                   (ni, e) = ni_send_datagram dgram (h_next_hop h) (ai_interface (h_interface h));
                   h = h\<lparr>h_interface := (h_interface h)\<lparr>ai_interface := ni\<rparr>\<rparr>
               in (h, rd_skip 1 rd, case e of None \<Rightarrow> map_sum id (\<lambda>_. dgram) (address_ip nd (h_next_hop h)) | Some e \<Rightarrow> Inl e)))"

definition datagram_summary :: "ipv4_datagram \<Rightarrow> string" where
  "datagram_summary dgram = ip_header_summary (ipd_header dgram) @ payload_string (ipd_payload dgram)"

text \<open>\<open>check\<close>: the loop over the received datagrams, then what is still expected.\<close>

fun host_check_received :: "string \<Rightarrow> ipv4_datagram list \<Rightarrow> ipv4_datagram list \<Rightarrow>
    ipv4_datagram list \<times> ipv4_datagram list \<times> exn option" where
  "host_check_received name [] expecting = ([], expecting, None)"
| "host_check_received name (dgram_received # q) expecting =
     (case host_expecting expecting dgram_received of
        Inl e \<Rightarrow> (dgram_received # q, expecting, Some e)
      | Inr False \<Rightarrow> (dgram_received # q, expecting,
          Some (RuntimeError (''Host '' @ name @ '' received unexpected Internet datagram: '' @ datagram_summary dgram_received)))
      | Inr True \<Rightarrow>
          (case host_remove_expectation expecting dgram_received of
             Inl e \<Rightarrow> (dgram_received # q, expecting, Some e)
           | Inr expecting \<Rightarrow> host_check_received name q expecting))"

definition host_check :: "host \<Rightarrow> host \<times> exn option" where
  "host_check h =
     (let (q, expecting, e) = host_check_received (h_name h) (ai_datagrams_out (h_interface h)) (h_expecting_to_receive h);
          h = h\<lparr>h_interface := (h_interface h)\<lparr>ai_datagrams_out := q\<rparr>, h_expecting_to_receive := expecting\<rparr>
      in if e \<noteq> None then (h, e)
         else (case expecting of
                 [] \<Rightarrow> (h, None)
               | expected # _ \<Rightarrow> (h, Some (RuntimeError (''Host '' @ h_name h @ '' did NOT receive an expected Internet datagram: '' @
                   datagram_summary expected)))))"

section \<open>Network\<close>

record network =
  nw_router :: router
  nw_default_id :: nat
  nw_eth0_id :: nat
  nw_eth1_id :: nat
  nw_eth2_id :: nat
  nw_uun3_id :: nat
  nw_hs4_id :: nat
  nw_mit5_id :: nat
  nw_hosts :: "string \<rightharpoonup> host"

definition nw_host :: "string \<Rightarrow> network \<Rightarrow> exn + host" where
  "nw_host name nw =
     (case nw_hosts nw name of
        None \<Rightarrow> Inl (RuntimeError (''unknown host: '' @ name))
      | Some h \<Rightarrow> if h_name h \<noteq> name then Inl (RuntimeError (''invalid host: '' @ name)) else Inr h)"

definition nw_set_host :: "string \<Rightarrow> host \<Rightarrow> network \<Rightarrow> network" where
  "nw_set_host name h nw = nw\<lparr>nw_hosts := (nw_hosts nw)(name \<mapsto> h)\<rparr>"

definition nw_set_interface :: "nat \<Rightarrow> async_interface \<Rightarrow> network \<Rightarrow> network" where
  "nw_set_interface i ai nw = nw\<lparr>nw_router := (nw_router nw)\<lparr>ro_interfaces := (ro_interfaces (nw_router nw))[i := ai]\<rparr>\<rparr>"

text \<open>One segment: a router interface and one host, or two.\<close>

definition nw_exchange2 :: "nat \<Rightarrow> string \<Rightarrow> network \<Rightarrow> network \<times> exn option" where
  "nw_exchange2 i name nw =
     (case (ro_interface (nw_router nw) i, nw_host name nw) of
        (Inr x, Inr h) \<Rightarrow>
          let (x, y, e) = exchange_frames2 x (h_interface h)
          in (nw_set_host name (h\<lparr>h_interface := y\<rparr>) (nw_set_interface i x nw), e)
      | (Inl e, _) \<Rightarrow> (nw, Some e)
      | (_, Inl e) \<Rightarrow> (nw, Some e))"

definition nw_exchange3 :: "nat \<Rightarrow> string \<Rightarrow> string \<Rightarrow> network \<Rightarrow> network \<times> exn option" where
  "nw_exchange3 i name name' nw =
     (case (ro_interface (nw_router nw) i, nw_host name nw, nw_host name' nw) of
        (Inr x, Inr h, Inr h') \<Rightarrow>
          let (x, y, z, e) = exchange_frames3 x (h_interface h) (h_interface h')
          in (nw_set_host name' (h'\<lparr>h_interface := z\<rparr>) (nw_set_host name (h\<lparr>h_interface := y\<rparr>) (nw_set_interface i x nw)), e)
      | (Inl e, _, _) \<Rightarrow> (nw, Some e)
      | (_, Inl e, _) \<Rightarrow> (nw, Some e)
      | (_, _, Inl e) \<Rightarrow> (nw, Some e))"

definition nw_simulate_physical_connections :: "network \<Rightarrow> network \<times> exn option" where
  "nw_simulate_physical_connections nw =
     seq_exn (seq_exn (seq_exn (seq_exn
       (nw_exchange2 (nw_default_id nw) ''default_router'' nw)
       (\<lambda>nw. nw_exchange2 (nw_eth0_id nw) ''applesauce'' nw))
       (\<lambda>nw. nw_exchange2 (nw_eth2_id nw) ''cherrypie'' nw))
       (\<lambda>nw. nw_exchange2 (nw_hs4_id nw) ''hs_router'' nw))
       (\<lambda>nw. nw_exchange3 (nw_uun3_id nw) ''dm42'' ''dm43'' nw)"

definition nw_route :: "network \<Rightarrow> network \<times> exn option" where
  "nw_route nw = (let (ro, e) = ro_route (nw_router nw) in (nw\<lparr>nw_router := ro\<rparr>, e))"

fun nw_rounds :: "nat \<Rightarrow> network \<Rightarrow> network \<times> exn option" where
  "nw_rounds 0 nw = (nw, None)"
| "nw_rounds (Suc n) nw = seq_exn (seq_exn (nw_route nw) nw_simulate_physical_connections) (nw_rounds n)"

fun nw_check :: "string list \<Rightarrow> network \<Rightarrow> network \<times> exn option" where
  "nw_check [] nw = (nw, None)"
| "nw_check (name # names) nw =
     (case nw_hosts nw name of
        None \<Rightarrow> nw_check names nw
      | Some h \<Rightarrow> seq_exn (let (h, e) = host_check h in (nw_set_host name h nw, e)) (nw_check names))"

definition nw_simulate :: "string list \<Rightarrow> network \<Rightarrow> network \<times> exn option" where
  "nw_simulate order nw = seq_exn (nw_rounds 256 nw) (nw_check order)"

section \<open>Construction\<close>

text \<open>An interface of the router, from a random Ethernet address and a dotted quad.\<close>

fun nw_add_interfaces :: "netdb \<Rightarrow> string list \<Rightarrow> router \<Rightarrow> random \<Rightarrow> exn + router \<times> random \<times> nat list" where
  "nw_add_interfaces nd [] ro rd = Inr (ro, rd, [])"
| "nw_add_interfaces nd (ip # ips) ro rd =
     (let (mac, rd) = random_router_ethernet_address rd
      in bind_exn (address_of_ip nd ip 0) (\<lambda>a.
           let (ro, i) = ro_add_interface (ai_construct (ni_construct mac a)) ro
           in bind_exn (nw_add_interfaces nd ips ro rd) (\<lambda>(ro, rd, is). Inr (ro, rd, i # is))))"

fun nw_add_hosts :: "netdb \<Rightarrow> (string \<times> string \<times> string) list \<Rightarrow> (string \<rightharpoonup> host) \<Rightarrow> random \<Rightarrow> exn + (string \<rightharpoonup> host) \<times> random" where
  "nw_add_hosts nd [] hosts rd = Inr (hosts, rd)"
| "nw_add_hosts nd ((name, ip, next_hop) # l) hosts rd =
     bind_exn (address_of_ip nd ip 0) (\<lambda>a. bind_exn (address_of_ip nd next_hop 0) (\<lambda>b.
       let (h, rd) = host_construct name a b rd
       in nw_add_hosts nd l (if hosts name = None then hosts(name \<mapsto> h) else hosts) rd))"

definition sim_ip :: "netdb \<Rightarrow> string \<Rightarrow> exn + 32 word" where
  "sim_ip nd str = bind_exn (address_of_ip nd str 0) ipv4_numeric"

text \<open>A route: its prefix, and the next hop, if any, as an address that is computed then.\<close>

fun nw_add_routes :: "netdb \<Rightarrow> (string \<times> byte \<times> (exn + address option) \<times> nat) list \<Rightarrow> router \<Rightarrow> exn + router" where
  "nw_add_routes nd [] ro = Inr ro"
| "nw_add_routes nd ((prefix, prefix_length, next_hop, i) # l) ro =
     bind_exn (sim_ip nd prefix) (\<lambda>p. bind_exn next_hop (\<lambda>hop. nw_add_routes nd l (ro_add_route p prefix_length hop i ro)))"

definition nw_construct :: "netdb \<Rightarrow> random \<Rightarrow> exn + network \<times> random" where
  "nw_construct nd rd =
     bind_exn (nw_add_interfaces nd [''171.67.76.46'', ''10.0.0.1'', ''172.16.0.1'', ''192.168.0.1'', ''198.178.229.1'',
       ''143.195.0.2'', ''128.30.76.255''] ro_construct rd) (\<lambda>(ro, rd, is).
     bind_exn (nw_add_hosts nd [(''applesauce'', ''10.0.0.2'', ''10.0.0.1''), (''default_router'', ''171.67.76.1'', ''0''),
       (''cherrypie'', ''192.168.0.2'', ''192.168.0.1''), (''hs_router'', ''143.195.0.1'', ''0''),
       (''dm42'', ''198.178.229.42'', ''198.178.229.1''), (''dm43'', ''198.178.229.43'', ''198.178.229.1'')] Map.empty rd)
       (\<lambda>(hosts, rd).
     let nw = \<lparr>nw_router = ro, nw_default_id = is ! 0, nw_eth0_id = is ! 1, nw_eth1_id = is ! 2, nw_eth2_id = is ! 3,
           nw_uun3_id = is ! 4, nw_hs4_id = is ! 5, nw_mit5_id = is ! 6, nw_hosts = hosts\<rparr>;
         via = (\<lambda>name. map_sum id (\<lambda>h. Some (h_my_address h)) (nw_host name nw))
     in bind_exn (nw_add_routes nd [(''0.0.0.0'', 0, via ''default_router'', nw_default_id nw),
          (''10.0.0.0'', 8, Inr None, nw_eth0_id nw), (''172.16.0.0'', 16, Inr None, nw_eth1_id nw),
          (''192.168.0.0'', 24, Inr None, nw_eth2_id nw), (''198.178.229.0'', 24, Inr None, nw_uun3_id nw),
          (''143.195.0.0'', 17, via ''hs_router'', nw_hs4_id nw), (''143.195.128.0'', 18, via ''hs_router'', nw_hs4_id nw),
          (''143.195.192.0'', 19, via ''hs_router'', nw_hs4_id nw),
          (''128.30.76.255'', 16, map_sum id Some (address_of_ip nd ''128.30.0.1'' 0), nw_mit5_id nw)] ro) (\<lambda>ro.
        Inr (nw\<lparr>nw_router := ro\<rparr>, rd))))"

section \<open>The tests\<close>

text \<open>
  One block of \<open>network_simulator\<close>: \<open>from\<close> sends, \<open>receiver\<close>, if any, is told to expect the datagram
  with the next lower time to live, and the simulation runs.
\<close>

definition nw_test :: "netdb \<Rightarrow> string list \<Rightarrow> string \<Rightarrow> (network \<Rightarrow> exn + address) \<Rightarrow> byte \<Rightarrow> string option \<Rightarrow>
    network \<times> random \<Rightarrow> (network \<times> random) \<times> exn option" where
  "nw_test nd order from destination ttl receiver = (\<lambda>(nw, rd).
     case (nw_host from nw, destination nw) of
       (Inr h, Inr a) \<Rightarrow>
         (case host_send_to nd a ttl h rd of
            (h, rd, Inl e) \<Rightarrow> ((nw_set_host from h nw, rd), Some e)
          | (h, rd, Inr dgram_sent) \<Rightarrow>
              let nw = nw_set_host from h nw;
                  simulate = (\<lambda>nw. let (nw, e) = nw_simulate order nw in ((nw, rd), e))
              in (case receiver of
                    None \<Rightarrow> simulate nw
                  | Some name \<Rightarrow>
                      (case nw_host name nw of
                         Inl e \<Rightarrow> ((nw, rd), Some e)
                       | Inr h \<Rightarrow>
                           let expected = dgram_set_ttl (ip_ttl (ipd_header dgram_sent) - 1) dgram_sent
                           in simulate (nw_set_host name (host_expect expected h) nw))))
     | (Inl e, _) \<Rightarrow> ((nw, rd), Some e)
     | (_, Inl e) \<Rightarrow> ((nw, rd), Some e))"

definition nw_address_of :: "string \<Rightarrow> network \<Rightarrow> exn + address" where
  "nw_address_of name nw = map_sum id h_my_address (nw_host name nw)"

definition network_simulator :: "netdb \<Rightarrow> string list \<Rightarrow> random \<Rightarrow> exn option" where
  "network_simulator nd order rd =
     (case nw_construct nd rd of
        Inl e \<Rightarrow> Some e
      | Inr s \<Rightarrow>
          snd (foldl seq_exn (s, None)
            [nw_test nd order ''applesauce'' (nw_address_of ''cherrypie'') 64 (Some ''cherrypie''),
             nw_test nd order ''cherrypie'' (nw_address_of ''applesauce'') 64 (Some ''applesauce''),
             nw_test nd order ''applesauce'' (\<lambda>_. address_of_ip nd ''1.2.3.4'' 0) 64 (Some ''default_router''),
             nw_test nd order ''applesauce'' (\<lambda>_. address_of_ip nd ''143.195.131.17'' 0) 64 (Some ''hs_router''),
             nw_test nd order ''cherrypie'' (\<lambda>_. address_of_ip nd ''143.195.193.52'' 0) 64 (Some ''hs_router''),
             nw_test nd order ''cherrypie'' (\<lambda>_. address_of_ip nd ''143.195.223.255'' 0) 64 (Some ''hs_router''),
             nw_test nd order ''cherrypie'' (\<lambda>_. address_of_ip nd ''143.195.224.0'' 0) 64 (Some ''default_router''),
             nw_test nd order ''dm42'' (nw_address_of ''dm43'') 64 (Some ''dm43''),
             nw_test nd order ''applesauce'' (\<lambda>_. address_of_ip nd ''1.2.3.4'' 0) 1 None,
             nw_test nd order ''applesauce'' (\<lambda>_. address_of_ip nd ''1.2.3.4'' 0) 0 None]))"

section \<open>The states of the network\<close>

text \<open>The segments: the router's interface, the hosts, and their addresses.\<close>

definition sim_rif :: "nat \<Rightarrow> nat" where
  "sim_rif s = [0, 1, 3, 5, 4] ! s"

definition sim_hosts :: "nat \<Rightarrow> string list" where
  "sim_hosts s = [[''default_router''], [''applesauce''], [''cherrypie''], [''hs_router''], [''dm42'', ''dm43'']] ! s"

definition sim_names :: "string list" where
  "sim_names = [''applesauce'', ''default_router'', ''cherrypie'', ''hs_router'', ''dm42'', ''dm43'']"

definition sim_router_ip :: "nat \<Rightarrow> 32 word" where
  "sim_router_ip i = [0xab434c2e, 0x0a000001, 0xac100001, 0xc0a80001, 0xc6b2e501, 0x8fc30002, 0x801e4cff] ! i"

definition sim_host_ip :: "string \<Rightarrow> 32 word" where
  "sim_host_ip n = the (map_of [(''applesauce'', 0x0a000002), (''default_router'', 0xab434c01), (''cherrypie'', 0xc0a80002),
     (''hs_router'', 0x8fc30001), (''dm42'', 0xc6b2e52a), (''dm43'', 0xc6b2e52b)] n)"

definition sim_gateway :: "string \<Rightarrow> 32 word" where
  "sim_gateway n = the (map_of [(''applesauce'', 0x0a000001), (''default_router'', 0), (''cherrypie'', 0xc0a80001),
     (''hs_router'', 0), (''dm42'', 0xc6b2e501), (''dm43'', 0xc6b2e501)] n)"

definition sim_routes :: "route list" where
  "sim_routes = [
     \<lparr>rt_prefix = 0, rt_prefix_length = 0, rt_next_hop = Some (inet_address 0xab434c01 0), rt_interface_num = 0\<rparr>,
     \<lparr>rt_prefix = 0x0a000000, rt_prefix_length = 8, rt_next_hop = None, rt_interface_num = 1\<rparr>,
     \<lparr>rt_prefix = 0xac100000, rt_prefix_length = 16, rt_next_hop = None, rt_interface_num = 2\<rparr>,
     \<lparr>rt_prefix = 0xc0a80000, rt_prefix_length = 24, rt_next_hop = None, rt_interface_num = 3\<rparr>,
     \<lparr>rt_prefix = 0xc6b2e500, rt_prefix_length = 24, rt_next_hop = None, rt_interface_num = 4\<rparr>,
     \<lparr>rt_prefix = 0x8fc30000, rt_prefix_length = 17, rt_next_hop = Some (inet_address 0x8fc30001 0), rt_interface_num = 5\<rparr>,
     \<lparr>rt_prefix = 0x8fc38000, rt_prefix_length = 18, rt_next_hop = Some (inet_address 0x8fc30001 0), rt_interface_num = 5\<rparr>,
     \<lparr>rt_prefix = 0x8fc3c000, rt_prefix_length = 19, rt_next_hop = Some (inet_address 0x8fc30001 0), rt_interface_num = 5\<rparr>,
     \<lparr>rt_prefix = 0x801e4cff, rt_prefix_length = 16, rt_next_hop = Some (inet_address 0x801e0001 0), rt_interface_num = 6\<rparr>]"

text \<open>The Ethernet addresses of the router's interfaces and of the hosts.\<close>

type_synonym macs = "(nat \<Rightarrow> ethernet_address) \<times> (string \<Rightarrow> ethernet_address)"

definition sim_segment :: "macs \<Rightarrow> nat \<Rightarrow> segment" where
  "sim_segment M s = (fst M (sim_rif s), sim_router_ip (sim_rif s)) # map (\<lambda>n. (snd M n, sim_host_ip n)) (sim_hosts s)"

definition nw_stations :: "network \<Rightarrow> nat \<Rightarrow> async_interface list" where
  "nw_stations nw s = ro_interfaces (nw_router nw) ! sim_rif s # map (\<lambda>n. h_interface (the (nw_hosts nw n))) (sim_hosts s)"

definition host_at :: "(string \<Rightarrow> ipv4_datagram list) \<Rightarrow> string \<Rightarrow> host option \<Rightarrow> bool" where
  "host_at exp n h \<longleftrightarrow> (\<exists>ai. h = Some \<lparr>h_name = n, h_my_address = inet_address (sim_host_ip n) 0, h_interface = ai,
     h_next_hop = inet_address (sim_gateway n) 0, h_expecting_to_receive = exp n\<rparr>)"

text \<open>The state: \<open>trs s\<close> is what is on its way on segment \<open>s\<close>, \<open>exp n\<close> what host \<open>n\<close> expects.\<close>

definition net_at :: "macs \<Rightarrow> (nat \<Rightarrow> transit) \<Rightarrow> (string \<Rightarrow> ipv4_datagram list) \<Rightarrow> network \<Rightarrow> bool" where
  "net_at M trs exp nw \<longleftrightarrow>
     [nw_default_id nw, nw_eth0_id nw, nw_eth1_id nw, nw_eth2_id nw, nw_uun3_id nw, nw_hs4_id nw, nw_mit5_id nw] = [0..<7] \<and>
     ro_routes (nw_router nw) = sim_routes \<and> length (ro_interfaces (nw_router nw)) = 7 \<and>
     (\<forall>s < 5. segment_at (sim_segment M s) (trs s) (nw_stations nw s)) \<and>
     ro_queue (nw_router nw) 2 = [] \<and> ro_queue (nw_router nw) 6 = [] \<and>
     dom (nw_hosts nw) = set sim_names \<and> (\<forall>n \<in> set sim_names. host_at exp n (nw_hosts nw n))"

definition trs_ok :: "macs \<Rightarrow> (nat \<Rightarrow> transit) \<Rightarrow> bool" where
  "trs_ok M trs \<longleftrightarrow> (\<forall>s < 5. segment_ok (sim_segment M s) \<and> transit_ok (sim_segment M s) (trs s))"

lemma less_5: "s < (5 :: nat) \<longleftrightarrow> s = 0 \<or> s = 1 \<or> s = 2 \<or> s = 3 \<or> s = 4"
  by auto

lemma sim_disjoint:
  assumes "s < 5" "s' < 5"
  shows "sim_rif s = sim_rif s' \<longleftrightarrow> s = s'" "n \<in> set (sim_hosts s) \<Longrightarrow> n \<in> set (sim_hosts s') \<longleftrightarrow> s = s'"
    "sim_rif s < 7" "sim_rif s \<noteq> 2" "sim_rif s \<noteq> 6" "n \<in> set (sim_hosts s) \<Longrightarrow> n \<in> set sim_names"
  using assms by (auto simp: less_5 sim_rif_def sim_hosts_def sim_names_def)

lemma net_host:
  assumes "net_at M trs exp nw" "n \<in> set sim_names"
  obtains h where "nw_hosts nw n = Some h" "nw_host n nw = Inr h" "host_at exp n (Some h)" "h_name h = n"
  using assms by (auto simp: net_at_def host_at_def nw_host_def)

lemma host_at_interface: "host_at exp n (Some h) \<Longrightarrow> host_at exp n (Some (h\<lparr>h_interface := ai\<rparr>))"
  by (auto simp: host_at_def)

section \<open>An exchange on every segment\<close>

lemma nw_set_sel [simp]:
  "nw_hosts (nw_set_interface i ai nw) = nw_hosts nw" "nw_router (nw_set_host n h nw) = nw_router nw"
  "nw_hosts (nw_set_host n h nw) = (nw_hosts nw)(n \<mapsto> h)"
  "ro_interfaces (nw_router (nw_set_interface i ai nw)) = (ro_interfaces (nw_router nw))[i := ai]"
  "ro_routes (nw_router (nw_set_interface i ai nw)) = ro_routes (nw_router nw)"
  by (simp_all add: nw_set_interface_def nw_set_host_def)

lemma nw_set_ids [simp]:
  "nw_default_id (nw_set_host n h nw) = nw_default_id nw" "nw_eth0_id (nw_set_host n h nw) = nw_eth0_id nw"
  "nw_eth1_id (nw_set_host n h nw) = nw_eth1_id nw" "nw_eth2_id (nw_set_host n h nw) = nw_eth2_id nw"
  "nw_uun3_id (nw_set_host n h nw) = nw_uun3_id nw" "nw_hs4_id (nw_set_host n h nw) = nw_hs4_id nw"
  "nw_mit5_id (nw_set_host n h nw) = nw_mit5_id nw"
  "nw_default_id (nw_set_interface i ai nw) = nw_default_id nw" "nw_eth0_id (nw_set_interface i ai nw) = nw_eth0_id nw"
  "nw_eth1_id (nw_set_interface i ai nw) = nw_eth1_id nw" "nw_eth2_id (nw_set_interface i ai nw) = nw_eth2_id nw"
  "nw_uun3_id (nw_set_interface i ai nw) = nw_uun3_id nw" "nw_hs4_id (nw_set_interface i ai nw) = nw_hs4_id nw"
  "nw_mit5_id (nw_set_interface i ai nw) = nw_mit5_id nw"
  by (simp_all add: nw_set_interface_def nw_set_host_def)

text \<open>Replacing the stations of one segment leaves the others alone.\<close>

lemma nw_stations_interface:
  assumes "s < 5" "s' < 5" "length (ro_interfaces (nw_router nw)) = 7"
  shows "nw_stations (nw_set_interface (sim_rif s) ai nw) s' =
    (if s' = s then ai # tl (nw_stations nw s) else nw_stations nw s')"
  using assms sim_disjoint(1,3) [OF assms(1,2)] by (auto simp: nw_stations_def)

lemma nw_stations_host:
  assumes "n \<notin> set (sim_hosts s)"
  shows "nw_stations (nw_set_host n h nw) s = nw_stations nw s"
  using assms by (auto simp: nw_stations_def)

lemma net_at_update:
  assumes at: "net_at M trs exp nw" and s: "s < 5"
    and stations: "segment_at (sim_segment M s) tr (nw_stations nw' s)"
    and others: "\<And>s'. s' < 5 \<Longrightarrow> s' \<noteq> s \<Longrightarrow> nw_stations nw' s' = nw_stations nw s'"
    and ids: "[nw_default_id nw', nw_eth0_id nw', nw_eth1_id nw', nw_eth2_id nw', nw_uun3_id nw', nw_hs4_id nw', nw_mit5_id nw'] = [0..<7]"
    and routes: "ro_routes (nw_router nw') = sim_routes" and ifs: "length (ro_interfaces (nw_router nw')) = 7"
    and unplugged: "ro_queue (nw_router nw') 2 = []" "ro_queue (nw_router nw') 6 = []"
    and hosts: "dom (nw_hosts nw') = set sim_names" "\<And>n. n \<in> set sim_names \<Longrightarrow> host_at exp n (nw_hosts nw' n)"
  shows "net_at M (trs(s := tr)) exp nw'"
proof -
  have "segment_at (sim_segment M s') ((trs(s := tr)) s') (nw_stations nw' s')" if "s' < 5" for s'
    using at stations others that by (cases "s' = s") (auto simp: net_at_def)
  then show ?thesis
    using ids routes ifs unplugged hosts unfolding net_at_def by blast
qed

lemma ro_queue_interface: "i \<noteq> j \<Longrightarrow> ro_queue (ro\<lparr>ro_interfaces := (ro_interfaces ro)[i := ai]\<rparr>) j = ro_queue ro j"
  by (simp add: ro_queue_def)

lemma nw_exchange2_step:
  assumes at: "net_at M trs exp nw" and ok: "trs_ok M trs" and s: "s < 5" "sim_hosts s = [n]"
  shows "\<exists>nw'. nw_exchange2 (sim_rif s) n nw = (nw', None) \<and> net_at M (trs(s := transit_next (trs s))) exp nw'"
proof -
  have n: "n \<in> set sim_names" "n \<in> set (sim_hosts s)"
    using sim_disjoint(6) [of s s n] s by simp_all
  obtain h where h: "nw_hosts nw n = Some h" "nw_host n nw = Inr h" "host_at exp n (Some h)"
    using net_host [OF at n(1)] by blast
  let ?x = "ro_interfaces (nw_router nw) ! sim_rif s"
  have len: "length (ro_interfaces (nw_router nw)) = 7"
    using at by (simp add: net_at_def)
  have rif: "sim_rif s < 7" "sim_rif s \<noteq> 2" "sim_rif s \<noteq> 6"
    using sim_disjoint [OF s(1) s(1)] by auto
  have "segment_at (sim_segment M s) (trs s) [?x, h_interface h]"
    using at s h(1) by (auto simp: net_at_def nw_stations_def)
  moreover have "segment_ok (sim_segment M s)" "transit_ok (sim_segment M s) (trs s)"
    using ok s(1) by (auto simp: trs_ok_def)
  moreover obtain a b where "sim_segment M s = [a, b]"
    by (simp add: sim_segment_def s(2))
  ultimately obtain x' y' where e: "exchange_frames2 ?x (h_interface h) = (x', y', None)"
    "segment_at (sim_segment M s) (transit_next (trs s)) [x', y']"
    using exchange2_step [of a b "trs s" ?x "h_interface h"] by auto
  let ?nw = "nw_set_host n (h\<lparr>h_interface := y'\<rparr>) (nw_set_interface (sim_rif s) x' nw)"
  have "nw_exchange2 (sim_rif s) n nw = (?nw, None)"
    using h len rif by (simp add: nw_exchange2_def ro_interface_def e(1))
  moreover have "net_at M (trs(s := transit_next (trs s))) exp ?nw"
  proof (rule net_at_update [OF at s(1)])
    show "segment_at (sim_segment M s) (transit_next (trs s)) (nw_stations ?nw s)"
      using e(2) len rif s by (simp add: nw_stations_def)
    show "nw_stations ?nw s' = nw_stations nw s'" if "s' < 5" "s' \<noteq> s" for s'
      using that s len nw_stations_host [of n s'] nw_stations_interface [OF s(1) that(1) len] sim_disjoint(2) [OF s(1) that(1) n(2)]
      by simp
    show "ro_queue (nw_router ?nw) 2 = []" "ro_queue (nw_router ?nw) 6 = []"
      using at rif by (simp_all add: net_at_def ro_queue_def)
    show "host_at exp m (nw_hosts ?nw m)" if "m \<in> set sim_names" for m
      using that at h(3) host_at_interface by (auto simp: net_at_def)
    show "dom (nw_hosts ?nw) = set sim_names"
      using at n(1) by (auto simp: net_at_def)
  qed (use at in \<open>simp_all add: net_at_def\<close>)
  ultimately show ?thesis
    by blast
qed

lemma nw_exchange3_step:
  assumes at: "net_at M trs exp nw" and ok: "trs_ok M trs" and s: "s < 5" "sim_hosts s = [n, m]" "n \<noteq> m"
  shows "\<exists>nw'. nw_exchange3 (sim_rif s) n m nw = (nw', None) \<and> net_at M (trs(s := transit_next (trs s))) exp nw'"
proof -
  have n: "n \<in> set sim_names" "n \<in> set (sim_hosts s)" "m \<in> set sim_names" "m \<in> set (sim_hosts s)"
    using sim_disjoint(6) [of s s] s by simp_all
  obtain h where h: "nw_hosts nw n = Some h" "nw_host n nw = Inr h" "host_at exp n (Some h)"
    using net_host [OF at n(1)] by blast
  obtain g where g: "nw_hosts nw m = Some g" "nw_host m nw = Inr g" "host_at exp m (Some g)"
    using net_host [OF at n(3)] by blast
  let ?x = "ro_interfaces (nw_router nw) ! sim_rif s"
  have len: "length (ro_interfaces (nw_router nw)) = 7"
    using at by (simp add: net_at_def)
  have rif: "sim_rif s < 7" "sim_rif s \<noteq> 2" "sim_rif s \<noteq> 6"
    using sim_disjoint [OF s(1) s(1)] by auto
  have "segment_at (sim_segment M s) (trs s) [?x, h_interface h, h_interface g]"
    using at s h(1) g(1) by (auto simp: net_at_def nw_stations_def)
  moreover have "segment_ok (sim_segment M s)" "transit_ok (sim_segment M s) (trs s)"
    using ok s(1) by (auto simp: trs_ok_def)
  moreover obtain a b c where "sim_segment M s = [a, b, c]"
    by (simp add: sim_segment_def s(2))
  ultimately obtain x' y' z' where e: "exchange_frames3 ?x (h_interface h) (h_interface g) = (x', y', z', None)"
    "segment_at (sim_segment M s) (transit_next (trs s)) [x', y', z']"
    using exchange3_step [of a b c "trs s" ?x "h_interface h" "h_interface g"] by auto
  let ?nw = "nw_set_host m (g\<lparr>h_interface := z'\<rparr>) (nw_set_host n (h\<lparr>h_interface := y'\<rparr>) (nw_set_interface (sim_rif s) x' nw))"
  have "nw_exchange3 (sim_rif s) n m nw = (?nw, None)"
    using h g len rif by (simp add: nw_exchange3_def ro_interface_def e(1))
  moreover have "net_at M (trs(s := transit_next (trs s))) exp ?nw"
  proof (rule net_at_update [OF at s(1)])
    show "segment_at (sim_segment M s) (transit_next (trs s)) (nw_stations ?nw s)"
      using e(2) len rif s by (simp add: nw_stations_def)
    show "nw_stations ?nw s' = nw_stations nw s'" if "s' < 5" "s' \<noteq> s" for s'
      using that s len nw_stations_host [of n s'] nw_stations_host [of m s'] nw_stations_interface [OF s(1) that(1) len]
        sim_disjoint(2) [OF s(1) that(1) n(2)] sim_disjoint(2) [OF s(1) that(1) n(4)] by simp
    show "ro_queue (nw_router ?nw) 2 = []" "ro_queue (nw_router ?nw) 6 = []"
      using at rif by (simp_all add: net_at_def ro_queue_def)
    show "host_at exp k (nw_hosts ?nw k)" if "k \<in> set sim_names" for k
      using that at h(3) g(3) host_at_interface by (auto simp: net_at_def)
    show "dom (nw_hosts ?nw) = set sim_names"
      using at n(1,3) by (auto simp: net_at_def)
  qed (use at in \<open>simp_all add: net_at_def\<close>)
  ultimately show ?thesis
    by blast
qed

lemma trs_ok_next: "trs_ok M trs \<Longrightarrow> trs_ok M (trs(s := transit_next (trs s)))"
proof -
  have "transit_ok seg tr \<Longrightarrow> transit_ok seg (transit_next tr)" for seg tr
    by (cases tr) auto
  then show "trs_ok M trs \<Longrightarrow> ?thesis"
    by (auto simp: trs_ok_def)
qed

lemma net_at_ids:
  assumes "net_at M trs exp nw"
  shows "nw_default_id nw = sim_rif 0" "nw_eth0_id nw = sim_rif 1" "nw_eth2_id nw = sim_rif 2" "nw_hs4_id nw = sim_rif 3"
    "nw_uun3_id nw = sim_rif 4"
proof -
  have "[0..<7] = [0, 1, 2, 3, 4, 5, 6 :: nat]"
    by code_simp
  then show "nw_default_id nw = sim_rif 0" "nw_eth0_id nw = sim_rif 1" "nw_eth2_id nw = sim_rif 2" "nw_hs4_id nw = sim_rif 3"
    "nw_uun3_id nw = sim_rif 4"
    using assms by (simp_all add: net_at_def sim_rif_def)
qed

lemma nw_physical_step:
  assumes at: "net_at M trs exp nw" and ok: "trs_ok M trs"
  shows "\<exists>nw'. nw_simulate_physical_connections nw = (nw', None) \<and> net_at M (\<lambda>s. transit_next (trs s)) exp nw'"
proof -
  let ?t1 = "trs(0 := transit_next (trs 0))"
  let ?t2 = "?t1(1 := transit_next (?t1 1))"
  let ?t3 = "?t2(2 := transit_next (?t2 2))"
  let ?t4 = "?t3(3 := transit_next (?t3 3))"
  let ?t5 = "?t4(4 := transit_next (?t4 4))"
  note oks = ok trs_ok_next [OF ok, of 0] trs_ok_next [OF trs_ok_next [OF ok, of 0], of 1]
    trs_ok_next [OF trs_ok_next [OF trs_ok_next [OF ok, of 0], of 1], of 2]
    trs_ok_next [OF trs_ok_next [OF trs_ok_next [OF trs_ok_next [OF ok, of 0], of 1], of 2], of 3]
  have hosts: "sim_hosts 0 = [''default_router'']" "sim_hosts 1 = [''applesauce'']" "sim_hosts 2 = [''cherrypie'']"
    "sim_hosts 3 = [''hs_router'']" "sim_hosts 4 = [''dm42'', ''dm43'']"
    by (simp_all add: sim_hosts_def)
  obtain n1 where n1: "nw_exchange2 (sim_rif 0) ''default_router'' nw = (n1, None)" "net_at M ?t1 exp n1"
    using nw_exchange2_step [OF at oks(1) _ hosts(1)] by auto
  obtain n2 where n2: "nw_exchange2 (sim_rif 1) ''applesauce'' n1 = (n2, None)" "net_at M ?t2 exp n2"
    using nw_exchange2_step [OF n1(2) oks(2) _ hosts(2)] by auto
  obtain n3 where n3: "nw_exchange2 (sim_rif 2) ''cherrypie'' n2 = (n3, None)" "net_at M ?t3 exp n3"
    using nw_exchange2_step [OF n2(2) oks(3) _ hosts(3)] by auto
  obtain n4 where n4: "nw_exchange2 (sim_rif 3) ''hs_router'' n3 = (n4, None)" "net_at M ?t4 exp n4"
    using nw_exchange2_step [OF n3(2) oks(4) _ hosts(4)] by auto
  obtain n5 where n5: "nw_exchange3 (sim_rif 4) ''dm42'' ''dm43'' n4 = (n5, None)" "net_at M ?t5 exp n5"
    using nw_exchange3_step [OF n4(2) oks(5) _ hosts(5)] by auto
  have "nw_simulate_physical_connections nw = (n5, None)"
    using n1 n2 n3 n4 n5 net_at_ids [OF at] net_at_ids [OF n1(2)] net_at_ids [OF n2(2)] net_at_ids [OF n3(2)]
      net_at_ids [OF n4(2)] by (simp add: nw_simulate_physical_connections_def)
  moreover have "net_at M (\<lambda>s. transit_next (trs s)) exp n5"
    using n5(2) by (auto simp: net_at_def less_5)
  ultimately show ?thesis
    by blast
qed

section \<open>A round of the router\<close>

lemma ro_route_from_idle:
  "(\<And>i. i \<in> set is \<Longrightarrow> ro_queue ro i = []) \<Longrightarrow> ro_route_from is ro = (ro, None)"
  by (induction "is") (auto simp: ro_route_queue.simps [of _ ro])

lemma ro_route_from_append:
  "ro_route_from (is @ js) ro = (case ro_route_from is ro of (ro, Some e) \<Rightarrow> (ro, Some e) | (ro, None) \<Rightarrow> ro_route_from js ro)"
  by (induction "is" arbitrary: ro) (auto split: prod.splits option.splits)

lemma ro_route_idle: "(\<And>i. i < length (ro_interfaces ro) \<Longrightarrow> ro_queue ro i = []) \<Longrightarrow> ro_route ro = (ro, None)"
  unfolding ro_route_def by (rule ro_route_from_idle) simp

text \<open>One datagram in one queue is forwarded.\<close>

lemma ro_route_single:
  assumes ok: "list_all route_ok (ro_routes ro)" and i: "i < length (ro_interfaces ro)" "ro_queue ro i = [d]"
    and others: "\<And>j. j < length (ro_interfaces ro) \<Longrightarrow> j \<noteq> i \<Longrightarrow> ro_queue ro j = []"
    and f: "forward d ro = (ro', None)"
  shows "ro_route ro = (ro_set_queue i [] ro', None)"
proof -
  have len: "length (ro_interfaces ro') = length (ro_interfaces ro)" "ro_queue ro' j = ro_queue ro j" for j
    using forward_sel(1,2) [of d ro] by (simp_all add: f)
  obtain d' where one: "ro_route_one_datagram d ro = (ro', d', None)"
    using ro_route_one_forwards [OF ok, of d] f by (cases "ro_route_one_datagram d ro") auto
  let ?ro = "ro_set_queue i [] ro'"
  have q: "ro_queue ?ro j = (if j = i then [] else ro_queue ro j)" for j
    using i len by simp
  have "ro_route_queue i ro = (?ro, None)"
    using i one q [of i] by (simp add: ro_route_queue.simps [of i ro] ro_route_queue.simps [of i ?ro])
  moreover have "ro_route_from [0..<i] ro = (ro, None)"
    using others i(1) by (intro ro_route_from_idle) simp
  moreover have "ro_route_from [Suc i..<length (ro_interfaces ro)] ?ro = (?ro, None)"
    using others q by (intro ro_route_from_idle) simp
  moreover have "[0..<length (ro_interfaces ro)] = [0..<i] @ i # [Suc i..<length (ro_interfaces ro)]"
    using i(1) upt_add_eq_append [of 0 i "length (ro_interfaces ro) - i"] upt_conv_Cons [OF i(1)] by simp
  ultimately show ?thesis
    by (simp add: ro_route_def ro_route_from_append)
qed

lemma sim_rif_cover: "i < 7 \<Longrightarrow> i = 2 \<or> i = 6 \<or> (\<exists>s < 5. i = sim_rif s)"
proof -
  assume "i < 7"
  then have "i = 0 \<or> i = 1 \<or> i = 2 \<or> i = 3 \<or> i = 4 \<or> i = 5 \<or> i = 6"
    by linarith
  moreover have "sim_rif 0 = 0" "sim_rif 1 = 1" "sim_rif 2 = 3" "sim_rif 3 = 5" "sim_rif 4 = 4"
    by (simp_all add: sim_rif_def)
  moreover have "0 < (5 :: nat)" "1 < (5 :: nat)" "2 < (5 :: nat)" "3 < (5 :: nat)" "4 < (5 :: nat)"
    by simp_all
  ultimately show ?thesis
    by metis
qed

text \<open>The interfaces of the router and their queues, read off the state.\<close>

lemma net_router_station:
  assumes "net_at M trs exp nw" "s < 5"
  shows "station_at (sim_segment M s) (trs s) 0 (ro_interfaces (nw_router nw) ! sim_rif s)"
proof -
  have "station_at (sim_segment M s) (trs s) 0 (nw_stations nw s ! 0)"
    using assms by (simp add: net_at_def segment_at_def sim_segment_def)
  then show ?thesis
    by (simp add: nw_stations_def)
qed

lemma net_queue:
  "net_at M trs exp nw \<Longrightarrow> s < 5 \<Longrightarrow> transit_queue (trs s) 0 (ro_queue (nw_router nw) (sim_rif s))"
  using net_router_station by (simp add: station_at_def ro_queue_def)

fun router_idle :: "transit \<Rightarrow> bool" where
  "router_idle Idle = True"
| "router_idle (Transit k x y d) \<longleftrightarrow> k \<noteq> 0 \<or> y \<noteq> 0"

lemma nw_route_idle:
  assumes "net_at M trs exp nw" "\<And>s. s < 5 \<Longrightarrow> router_idle (trs s)"
  shows "nw_route nw = (nw, None)"
proof -
  have "ro_queue (nw_router nw) i = []" if i: "i < 7" for i
  proof -
    consider "i = 2" | "i = 6" | s where "s < 5" "i = sim_rif s"
      using sim_rif_cover [OF i] by blast
    then show ?thesis
    proof cases
      case 3
      then show ?thesis
        using net_queue [OF assms(1) 3(1)] assms(2) [OF 3(1)] by (cases "trs s") (auto split: if_splits)
    qed (use assms(1) in \<open>simp_all add: net_at_def\<close>)
  qed
  moreover have "length (ro_interfaces (nw_router nw)) = 7"
    using assms(1) by (simp add: net_at_def)
  ultimately show ?thesis
    using ro_route_idle [of "nw_router nw"] by (simp add: nw_route_def)
qed

text \<open>A datagram that has arrived at the router is dropped or handed to the next segment.\<close>

lemma sim_routes_ok: "list_all route_ok sim_routes"
  by (simp add: sim_routes_def route_ok_def)

lemma forwarding_same:
  assumes "same_datagram d d'"
  shows "forwarding rs d' = map_option (\<lambda>(n, h, _). (n, h, dgram_set_ttl (ip_ttl (ipd_header d) - 1) d')) (forwarding rs d)"
  using same_datagram_sel [OF assms] by (simp add: forwarding_def split: option.splits)

lemma forwarding_datagram: "forwarding rs d = Some (n, h, d2) \<Longrightarrow> d2 = dgram_set_ttl (ip_ttl (ipd_header d) - 1) d"
  by (auto simp: forwarding_def split: option.splits if_splits)

lemma net_at_queue:
  assumes at: "net_at M trs exp nw" and s: "s < 5" "trs s = Transit 0 a 0 d"
  shows "net_at M (trs(s := Idle)) exp (nw\<lparr>nw_router := ro_set_queue (sim_rif s) [] (nw_router nw)\<rparr>)"
proof (rule net_at_update [OF at s(1)])
  let ?nw = "nw\<lparr>nw_router := ro_set_queue (sim_rif s) [] (nw_router nw)\<rparr>"
  have rif: "sim_rif s < 7" "sim_rif s \<noteq> 2" "sim_rif s \<noteq> 6"
    using sim_disjoint [OF s(1) s(1)] by auto
  have len: "length (ro_interfaces (nw_router nw)) = 7"
    using at by (simp add: net_at_def)
  have st: "nw_stations ?nw s' = (if s' = s then (nw_stations nw s ! 0)\<lparr>ai_datagrams_out := []\<rparr> # tl (nw_stations nw s)
      else nw_stations nw s')" if "s' < 5" for s'
    using sim_disjoint(1) [OF s(1) that] rif len by (auto simp: nw_stations_def ro_set_queue_def)
  show "nw_stations ?nw s' = nw_stations nw s'" if "s' < 5" "s' \<noteq> s" for s'
    using st that by simp
  have old: "segment_at (sim_segment M s) (Transit 0 a 0 d) (nw_stations nw s)"
    using at s by (auto simp: net_at_def)
  have "station_at (sim_segment M s) Idle i (((nw_stations nw s ! 0)\<lparr>ai_datagrams_out := []\<rparr> # tl (nw_stations nw s)) ! i)"
    if "i < length (sim_segment M s)" for i
  proof -
    have "station_at (sim_segment M s) (Transit 0 a 0 d) i (nw_stations nw s ! i)"
      using old that by (simp add: segment_at_def)
    then show ?thesis
      by (cases i) (auto simp: station_at_def ni_station_def nw_stations_def)
  qed
  then show "segment_at (sim_segment M s) Idle (nw_stations ?nw s)"
    using old st s(1) by (auto simp: segment_at_def nw_stations_def)
  show "ro_queue (nw_router ?nw) 2 = []" "ro_queue (nw_router ?nw) 6 = []"
    using at rif len by (simp_all add: net_at_def)
qed (use at in \<open>auto simp: net_at_def ro_set_queue_def\<close>)

lemma ai_update_swap: "ai\<lparr>ai_datagrams_out := q, ai_interface := ni\<rparr> = ai\<lparr>ai_interface := ni, ai_datagrams_out := q\<rparr>"
  by (cases ai) simp

lemma ro_send_set_queue:
  assumes "i < length (ro_interfaces ro)"
  shows "ro_send n d h (ro_set_queue i q ro) = (case ro_send n d h ro of (ro', r) \<Rightarrow> (ro_set_queue i q ro', r))"
proof (cases "n = i")
  case True
  then show ?thesis
    using assms by (auto simp: ro_send_def ro_interface_def ro_set_queue_def ai_update_swap split_beta)
next
  case False
  then show ?thesis
    using assms by (auto simp: ro_send_def ro_interface_def ro_set_queue_def list_update_swap [OF False] split_beta)
qed

text \<open>The router sends on an idle segment.\<close>

lemma net_at_send:
  assumes at: "net_at M (\<lambda>_. Idle) exp nw" and ok: "segment_ok (sim_segment M s)" and s: "s < 5"
    and b: "0 < b" "b < length (sim_segment M s)" and wf: "ip_datagram_wf d"
    and hop: "ipv4_numeric next_hop = Inr (snd (sim_segment M s ! b))"
  shows "\<exists>k ro. (k = 3 \<or> k = 1) \<and> ro_send (sim_rif s) d next_hop (nw_router nw) = (ro, None) \<and>
    net_at M ((\<lambda>_. Idle)(s := Transit k 0 b d)) exp (nw\<lparr>nw_router := ro\<rparr>)"
proof -
  let ?ai = "ro_interfaces (nw_router nw) ! sim_rif s"
  have old: "segment_at (sim_segment M s) Idle (nw_stations nw s)"
    using at s by (simp add: net_at_def)
  have "station_at (sim_segment M s) Idle 0 ?ai"
    using net_router_station [OF at s] .
  moreover have "0 < length (sim_segment M s)" "0 \<noteq> b"
    using b by linarith+
  ultimately obtain k ni where k: "k = 3 \<or> k = 1" "ni_send_datagram d next_hop (ai_interface ?ai) = (ni, None)"
    "station_at (sim_segment M s) (Transit k 0 b d) 0 (?ai\<lparr>ai_interface := ni\<rparr>)"
    using station_send [OF ok _ _ b(2) _ wf hop, of 0 ?ai] by blast
  have rif: "sim_rif s < 7" "sim_rif s \<noteq> 2" "sim_rif s \<noteq> 6"
    using sim_disjoint [OF s s] by auto
  have len: "length (ro_interfaces (nw_router nw)) = 7"
    using at by (simp add: net_at_def)
  let ?ro = "(nw_router nw)\<lparr>ro_interfaces := (ro_interfaces (nw_router nw))[sim_rif s := ?ai\<lparr>ai_interface := ni\<rparr>]\<rparr>"
  let ?nw = "nw_set_interface (sim_rif s) (?ai\<lparr>ai_interface := ni\<rparr>) nw"
  have "ro_send (sim_rif s) d next_hop (nw_router nw) = (?ro, None)"
    using rif len k(2) by (simp add: ro_send_def ro_interface_def)
  moreover have "net_at M ((\<lambda>_. Idle)(s := Transit k 0 b d)) exp ?nw"
  proof (rule net_at_update [OF at s])
    note st = nw_stations_interface [OF s _ len]
    show "nw_stations ?nw s' = nw_stations nw s'" if "s' < 5" "s' \<noteq> s" for s'
      using st [OF that(1)] that(2) by simp
    have "station_at (sim_segment M s) (Transit k 0 b d) i ((?ai\<lparr>ai_interface := ni\<rparr> # tl (nw_stations nw s)) ! i)"
      if "i < length (sim_segment M s)" for i
    proof (cases i)
      case 0
      then show ?thesis
        using k(3) by simp
    next
      case (Suc j)
      have "station_at (sim_segment M s) Idle i (nw_stations nw s ! i)"
        using old that by (simp add: segment_at_def)
      then have "station_at (sim_segment M s) Idle i ((?ai\<lparr>ai_interface := ni\<rparr> # tl (nw_stations nw s)) ! i)"
        by (simp add: Suc nw_stations_def)
      then show ?thesis
        using station_unaware k(1) Suc by blast
    qed
    then show "segment_at (sim_segment M s) (Transit k 0 b d) (nw_stations ?nw s)"
      using old st [OF s] by (simp add: segment_at_def nw_stations_def)
    show "ro_queue (nw_router ?nw) 2 = []" "ro_queue (nw_router ?nw) 6 = []"
      using at rif by (simp_all add: net_at_def ro_queue_def)
  qed (use at in \<open>simp_all add: net_at_def\<close>)
  moreover have "?nw = nw\<lparr>nw_router := ?ro\<rparr>"
    by (simp only: nw_set_interface_def)
  ultimately show ?thesis
    using k(1) by metis
qed

lemma nw_route_step:
  assumes at: "net_at M ((\<lambda>_. Idle)(s := Transit 0 a 0 d)) exp nw" and ok: "trs_ok M (\<lambda>_. Idle)" and s: "s < 5"
    and wf: "ip_datagram_wf d"
  shows "forwarding sim_routes d = None \<Longrightarrow> \<exists>nw'. nw_route nw = (nw', None) \<and> net_at M (\<lambda>_. Idle) exp nw'"
    and "forwarding sim_routes d = Some (sim_rif s', next_hop, d2) \<Longrightarrow> s' < 5 \<Longrightarrow> 0 < b \<Longrightarrow> b < length (sim_segment M s') \<Longrightarrow>
      ipv4_numeric next_hop = Inr (snd (sim_segment M s' ! b)) \<Longrightarrow>
      \<exists>nw' k d'. (k = 3 \<or> k = 1) \<and> nw_route nw = (nw', None) \<and> same_datagram d2 d' \<and>
        net_at M ((\<lambda>_. Idle)(s' := Transit k 0 b d')) exp nw'"
proof -
  let ?ro = "nw_router nw" and ?i = "sim_rif s"
  obtain d1 where d1: "ro_queue ?ro ?i = [d1]" "same_datagram d d1"
    using net_queue [OF at s] by auto
  have len: "length (ro_interfaces ?ro) = 7" and routes: "ro_routes ?ro = sim_routes"
    using at by (simp_all add: net_at_def)
  have i: "?i < 7"
    using sim_disjoint(3) [OF s s] .
  have others: "ro_queue ?ro j = []" if j: "j < 7" "j \<noteq> ?i" for j
  proof -
    consider "j = 2" | "j = 6" | s' where "s' < 5" "j = sim_rif s'"
      using sim_rif_cover [OF j(1)] by blast
    then show ?thesis
    proof cases
      case 3
      then have "s' \<noteq> s"
        using j(2) by auto
      then show ?thesis
        using net_queue [OF at 3(1)] 3(2) by simp
    qed (use at in \<open>simp_all add: net_at_def\<close>)
  qed
  have route: "nw_route nw = (nw\<lparr>nw_router := ro_set_queue ?i [] ro'\<rparr>, None)" if "forward d1 ?ro = (ro', None)" for ro'
    using ro_route_single [of ?ro ?i d1 ro'] sim_routes_ok routes len i d1(1) others that by (simp add: nw_route_def)
  let ?nw = "nw\<lparr>nw_router := ro_set_queue ?i [] ?ro\<rparr>"
  have "((\<lambda>_. Idle)(s := Transit 0 a 0 d))(s := Idle) = (\<lambda>_. Idle)"
    by auto
  then have idle: "net_at M (\<lambda>_. Idle) exp ?nw"
    using net_at_queue [OF at s, of a d] by simp
  show "\<exists>nw'. nw_route nw = (nw', None) \<and> net_at M (\<lambda>_. Idle) exp nw'" if none: "forwarding sim_routes d = None"
  proof -
    have "forward d1 ?ro = (?ro, None)"
      using none forwarding_same [OF d1(2), of sim_routes] by (simp add: forward_def routes)
    then show ?thesis
      using route idle by blast
  qed
  show "\<exists>nw' k d'. (k = 3 \<or> k = 1) \<and> nw_route nw = (nw', None) \<and> same_datagram d2 d' \<and>
      net_at M ((\<lambda>_. Idle)(s' := Transit k 0 b d')) exp nw'"
    if some: "forwarding sim_routes d = Some (sim_rif s', next_hop, d2)" and s': "s' < 5" and b: "0 < b" "b < length (sim_segment M s')"
      and hop: "ipv4_numeric next_hop = Inr (snd (sim_segment M s' ! b))"
  proof -
    let ?d = "dgram_set_ttl (ip_ttl (ipd_header d) - 1) d1"
    have same: "same_datagram d2 ?d"
      using forwarding_datagram [OF some] same_datagram_ttl [OF d1(2)] by simp
    have wf': "ip_datagram_wf ?d"
      using wf same_datagram_sel(3) [OF d1(2)] by simp
    have seg: "segment_ok (sim_segment M s')"
      using ok s' by (simp add: trs_ok_def)
    obtain k ro where k: "k = 3 \<or> k = 1" "ro_send (sim_rif s') ?d next_hop (nw_router ?nw) = (ro, None)"
      "net_at M ((\<lambda>_. Idle)(s' := Transit k 0 b ?d)) exp (?nw\<lparr>nw_router := ro\<rparr>)"
      using net_at_send [OF idle seg s' b wf' hop] by blast
    have "forward d1 ?ro = ro_send (sim_rif s') ?d next_hop ?ro"
      using some forwarding_same [OF d1(2), of sim_routes] by (simp add: forward_def routes)
    then obtain ro1 where "forward d1 ?ro = (ro1, None)" "ro = ro_set_queue ?i [] ro1"
      using k(2) ro_send_set_queue [of ?i ?ro] i len by (cases "ro_send (sim_rif s') ?d next_hop ?ro") auto
    then show ?thesis
      using route k same by auto
  qed
qed

section \<open>Many rounds\<close>

text \<open>\<open>n\<close> rounds take the network from one state to another.\<close>

definition nw_reaches :: "macs \<Rightarrow> (string \<Rightarrow> ipv4_datagram list) \<Rightarrow> nat \<Rightarrow> (nat \<Rightarrow> transit) \<Rightarrow> ((nat \<Rightarrow> transit) \<Rightarrow> bool) \<Rightarrow> bool" where
  "nw_reaches M exp n trs P \<longleftrightarrow> (\<forall>nw. net_at M trs exp nw \<longrightarrow>
     (\<exists>nw' trs'. nw_rounds n nw = (nw', None) \<and> P trs' \<and> net_at M trs' exp nw'))"

lemma nw_rounds_add: "nw_rounds (m + n) nw = seq_exn (nw_rounds m nw) (nw_rounds n)"
  by (induction m arbitrary: nw) (auto simp: seq_exn_def split: prod.splits option.splits)

lemma nw_reaches_0: "P trs \<Longrightarrow> nw_reaches M exp 0 trs P"
  by (auto simp: nw_reaches_def)

lemma nw_reaches_add:
  assumes "nw_reaches M exp m trs P" "\<And>trs'. P trs' \<Longrightarrow> nw_reaches M exp n trs' Q"
  shows "nw_reaches M exp (m + n) trs Q"
  using assms by (fastforce simp: nw_reaches_def nw_rounds_add)

lemma nw_reaches_then:
  "nw_reaches M exp m trs (\<lambda>t. t = u) \<Longrightarrow> nw_reaches M exp n u Q \<Longrightarrow> nw_reaches M exp (m + n) trs Q"
  by (erule nw_reaches_add) simp

lemma nw_reaches_mono: "nw_reaches M exp n trs P \<Longrightarrow> (\<And>t. P t \<Longrightarrow> Q t) \<Longrightarrow> nw_reaches M exp n trs Q"
  by (fastforce simp: nw_reaches_def)

text \<open>One round without work for the router.\<close>

lemma nw_reaches_idle:
  assumes "trs_ok M trs" "\<And>s. s < 5 \<Longrightarrow> router_idle (trs s)"
  shows "nw_reaches M exp 1 trs (\<lambda>t. t = (\<lambda>s. transit_next (trs s)))"
proof -
  have "\<exists>nw'. nw_rounds 1 nw = (nw', None) \<and> net_at M (\<lambda>s. transit_next (trs s)) exp nw'" if "net_at M trs exp nw" for nw
    using nw_route_idle [OF that assms(2)] nw_physical_step [OF that assms(1)] by auto
  then show ?thesis
    by (auto simp: nw_reaches_def)
qed

text \<open>A datagram crosses its segment; then nothing more happens to it by itself.\<close>

lemma nw_reaches_cross:
  assumes "trs_ok M (\<lambda>_. Idle)" "s < 5" "transit_ok (sim_segment M s) (Transit k x y d)"
  shows "nw_reaches M exp k ((\<lambda>_. Idle)(s := Transit k x y d)) (\<lambda>t. t = (\<lambda>_. Idle)(s := Transit 0 x y d))"
  using assms(3)
proof (induction k)
  case 0
  then show ?case
    by (intro nw_reaches_0) simp
next
  case (Suc k)
  let ?t = "(\<lambda>_. Idle)(s := Transit (Suc k) x y d)"
  have "trs_ok M ?t"
    using assms(1,2) Suc.prems by (auto simp: trs_ok_def)
  moreover have "(\<lambda>s'. transit_next (?t s')) = (\<lambda>_. Idle)(s := Transit k x y d)"
    by auto
  ultimately have step: "nw_reaches M exp 1 ?t (\<lambda>t. t = (\<lambda>_. Idle)(s := Transit k x y d))"
    using nw_reaches_idle [of M ?t exp] by simp
  have "transit_ok (sim_segment M s) (Transit k x y d)"
    using Suc.prems by simp
  from nw_reaches_then [OF step Suc.IH [OF this]] show ?case
    by (simp only: plus_1_eq_Suc)
qed

lemma nw_reaches_stay:
  assumes "trs_ok M trs" "\<And>s. s < 5 \<Longrightarrow> router_idle (trs s)" "\<And>s. transit_next (trs s) = trs s"
  shows "nw_reaches M exp n trs (\<lambda>t. t = trs)"
proof (induction n)
  case 0
  then show ?case
    by (intro nw_reaches_0) simp
next
  case (Suc n)
  then show ?case
    using nw_reaches_then [OF nw_reaches_idle [OF assms(1,2)], of exp n "\<lambda>t. t = trs"] assms(3) by simp
qed

lemma trs_ok_one: "trs_ok M (\<lambda>_. Idle) \<Longrightarrow> s < 5 \<Longrightarrow> transit_ok (sim_segment M s) tr \<Longrightarrow> trs_ok M ((\<lambda>_. Idle)(s := tr))"
  by (simp add: trs_ok_def)

lemma nw_reaches_finish:
  assumes ok: "trs_ok M (\<lambda>_. Idle)" and s: "s < 5" and tr: "transit_ok (sim_segment M s) (Transit k x y d)" "y \<noteq> 0" and n: "k \<le> n"
  shows "nw_reaches M exp n ((\<lambda>_. Idle)(s := Transit k x y d)) (\<lambda>t. t = (\<lambda>_. Idle)(s := Transit 0 x y d))"
proof -
  have "trs_ok M ((\<lambda>_. Idle)(s := Transit 0 x y d))"
    using ok s tr(1) by (simp add: trs_ok_one)
  then have "nw_reaches M exp (n - k) ((\<lambda>_. Idle)(s := Transit 0 x y d)) (\<lambda>t. t = (\<lambda>_. Idle)(s := Transit 0 x y d))"
    using tr(2) by (intro nw_reaches_stay) auto
  from nw_reaches_then [OF nw_reaches_cross [OF ok s tr(1)] this] show ?thesis
    using n by simp
qed

lemma nw_reaches_forward:
  assumes ok: "trs_ok M (\<lambda>_. Idle)" and s: "s < 5" and tr: "transit_ok (sim_segment M s) (Transit 0 a 0 d)"
    and n: "4 \<le> n"
  shows "forwarding sim_routes d = None \<Longrightarrow> nw_reaches M exp n ((\<lambda>_. Idle)(s := Transit 0 a 0 d)) (\<lambda>t. t = (\<lambda>_. Idle))"
    and "forwarding sim_routes d = Some (sim_rif s', next_hop, d2) \<Longrightarrow> s' < 5 \<Longrightarrow> 0 < b \<Longrightarrow> b < length (sim_segment M s') \<Longrightarrow>
      ipv4_numeric next_hop = Inr (snd (sim_segment M s' ! b)) \<Longrightarrow>
      nw_reaches M exp n ((\<lambda>_. Idle)(s := Transit 0 a 0 d))
        (\<lambda>t. \<exists>d'. same_datagram d2 d' \<and> t = (\<lambda>_. Idle)(s' := Transit 0 0 b d'))"
proof -
  let ?t = "(\<lambda>_. Idle)(s := Transit 0 a 0 d)"
  have wf: "ip_datagram_wf d"
    using tr by simp
  have n': "1 + (n - 1) = n"
    using n by simp
  show "nw_reaches M exp n ?t (\<lambda>t. t = (\<lambda>_. Idle))" if none: "forwarding sim_routes d = None"
  proof -
    have "\<exists>nw'. nw_rounds 1 nw = (nw', None) \<and> net_at M (\<lambda>_. Idle) exp nw'" if "net_at M ?t exp nw" for nw
      using nw_route_step(1) [OF that ok s wf none] nw_physical_step [OF _ ok] by fastforce
    then have "nw_reaches M exp 1 ?t (\<lambda>t. t = (\<lambda>_. Idle))"
      unfolding nw_reaches_def by blast
    from nw_reaches_then [OF this nw_reaches_stay [OF ok, of exp "n - 1"]] show ?thesis
      using n' by simp
  qed
  show "nw_reaches M exp n ?t (\<lambda>t. \<exists>d'. same_datagram d2 d' \<and> t = (\<lambda>_. Idle)(s' := Transit 0 0 b d'))"
    if some: "forwarding sim_routes d = Some (sim_rif s', next_hop, d2)" and s': "s' < 5" and b: "0 < b" "b < length (sim_segment M s')"
      and hop: "ipv4_numeric next_hop = Inr (snd (sim_segment M s' ! b))"
  proof -
    let ?P = "\<lambda>t. \<exists>k d'. k \<le> 2 \<and> same_datagram d2 d' \<and> t = (\<lambda>_. Idle)(s' := Transit k 0 b d')"
    have wf2: "ip_datagram_wf d'" if "same_datagram d2 d'" for d'
      using forwarding_datagram [OF some] wf same_datagram_sel(3) [OF that] by simp
    have "\<exists>nw' t. nw_rounds 1 nw = (nw', None) \<and> ?P t \<and> net_at M t exp nw'" if at: "net_at M ?t exp nw" for nw
    proof -
      obtain nw1 k d' where r: "k = 3 \<or> k = 1" "nw_route nw = (nw1, None)" "same_datagram d2 d'"
        "net_at M ((\<lambda>_. Idle)(s' := Transit k 0 b d')) exp nw1"
        using nw_route_step(2) [OF at ok s wf some s' b hop] by blast
      let ?u = "(\<lambda>_. Idle)(s' := Transit k 0 b d')"
      have "trs_ok M ?u"
        using ok s' b r(1) wf2 [OF r(3)] by (intro trs_ok_one) auto
      from nw_physical_step [OF r(4) this] obtain nw2 where p: "nw_simulate_physical_connections nw1 = (nw2, None)"
        "net_at M (\<lambda>i. transit_next (?u i)) exp nw2"
        by blast
      have "(\<lambda>i. transit_next (?u i)) = (\<lambda>_. Idle)(s' := Transit (k - 1) 0 b d')"
        by auto
      moreover have "nw_rounds 1 nw = (nw2, None)"
        by (simp add: r(2) p(1))
      moreover have "k - 1 \<le> 2"
        using r(1) by auto
      ultimately show ?thesis
        using p(2) r(3) by metis
    qed
    then have "nw_reaches M exp 1 ?t ?P"
      unfolding nw_reaches_def by blast
    moreover have "nw_reaches M exp (n - 1) t (\<lambda>t. \<exists>d'. same_datagram d2 d' \<and> t = (\<lambda>_. Idle)(s' := Transit 0 0 b d'))" if "?P t" for t
    proof -
      obtain k d' where k: "k \<le> 2" "same_datagram d2 d'" "t = (\<lambda>_. Idle)(s' := Transit k 0 b d')"
        using \<open>?P t\<close> by blast
      have "transit_ok (sim_segment M s') (Transit k 0 b d')" "k \<le> n - 1"
        using b k(1) n wf2 [OF k(2)] by auto
      from nw_reaches_finish [OF ok s' this(1) _ this(2), of exp] have
        "nw_reaches M exp (n - 1) t (\<lambda>t. t = (\<lambda>_. Idle)(s' := Transit 0 0 b d'))"
        using b k(3) by simp
      then show ?thesis
        by (rule nw_reaches_mono) (use k(2) in blast)
    qed
    ultimately have "nw_reaches M exp (1 + (n - 1)) ?t (\<lambda>t. \<exists>d'. same_datagram d2 d' \<and> t = (\<lambda>_. Idle)(s' := Transit 0 0 b d'))"
      by (rule nw_reaches_add)
    then show ?thesis
      by (simp only: n')
  qed
qed

text \<open>The 256 rounds of a simulation are enough: three exchanges, a round of the router, three exchanges.\<close>

lemma nw_reaches_simulated:
  assumes ok: "trs_ok M (\<lambda>_. Idle)" and s: "s < 5" and tr: "transit_ok (sim_segment M s) (Transit k a 0 d)"
  shows "forwarding sim_routes d = None \<Longrightarrow> nw_reaches M exp 256 ((\<lambda>_. Idle)(s := Transit k a 0 d)) (\<lambda>t. t = (\<lambda>_. Idle))"
    and "forwarding sim_routes d = Some (sim_rif s', next_hop, d2) \<Longrightarrow> s' < 5 \<Longrightarrow> 0 < b \<Longrightarrow> b < length (sim_segment M s') \<Longrightarrow>
      ipv4_numeric next_hop = Inr (snd (sim_segment M s' ! b)) \<Longrightarrow>
      nw_reaches M exp 256 ((\<lambda>_. Idle)(s := Transit k a 0 d))
        (\<lambda>t. \<exists>d'. same_datagram d2 d' \<and> t = (\<lambda>_. Idle)(s' := Transit 0 0 b d'))"
proof -
  have k: "k + (256 - k) = 256" "4 \<le> 256 - k" and tr0: "transit_ok (sim_segment M s) (Transit 0 a 0 d)"
    using tr by auto
  note cross = nw_reaches_then [OF nw_reaches_cross [OF ok s tr, of exp], of "256 - k", unfolded k(1)]
  show "forwarding sim_routes d = None \<Longrightarrow> nw_reaches M exp 256 ((\<lambda>_. Idle)(s := Transit k a 0 d)) (\<lambda>t. t = (\<lambda>_. Idle))"
    by (rule cross [OF nw_reaches_forward(1) [OF ok s tr0 k(2)]])
  show "nw_reaches M exp 256 ((\<lambda>_. Idle)(s := Transit k a 0 d))
      (\<lambda>t. \<exists>d'. same_datagram d2 d' \<and> t = (\<lambda>_. Idle)(s' := Transit 0 0 b d'))"
    if "forwarding sim_routes d = Some (sim_rif s', next_hop, d2)" "s' < 5" "0 < b" "b < length (sim_segment M s')"
      "ipv4_numeric next_hop = Inr (snd (sim_segment M s' ! b))"
    by (rule cross [OF nw_reaches_forward(2) [OF ok s tr0 k(2) that]])
qed

section \<open>The hosts\<close>

text \<open>Host \<open>n\<close> is station \<open>a\<close> of segment \<open>s\<close>.\<close>

definition host_place :: "string \<Rightarrow> nat \<Rightarrow> nat \<Rightarrow> bool" where
  "host_place n s a \<longleftrightarrow> s < 5 \<and> 0 < a \<and> a - 1 < length (sim_hosts s) \<and> n = sim_hosts s ! (a - 1)"

lemma host_placeD:
  assumes "host_place n s a"
  shows "s < 5" "0 < a" "a < length (sim_segment M s)" "sim_segment M s ! a = (snd M n, sim_host_ip n)"
    "n \<in> set (sim_hosts s)" "n \<in> set sim_names"
    "nw_stations nw s ! a = h_interface (the (nw_hosts nw n))"
  using assms sim_disjoint(6) [of s s n]
  by (cases a; force simp: host_place_def sim_segment_def nw_stations_def)+

lemma sim_hosts_distinct: "s < 5 \<Longrightarrow> distinct (sim_hosts s)"
  by (auto simp: less_5 sim_hosts_def)

text \<open>Changing the interface and the expectations of one host.\<close>

lemma net_at_host:
  assumes at: "net_at M trs exp nw" and n: "host_place n s a"
    and h: "nw_hosts nw n = Some h" "host_at exp n (Some h)"
    and stations: "\<And>i. i < length (sim_segment M s) \<Longrightarrow> i \<noteq> a \<Longrightarrow> station_at (sim_segment M s) (trs s) i (nw_stations nw s ! i) \<Longrightarrow>
      station_at (sim_segment M s) tr i (nw_stations nw s ! i)"
    and st: "station_at (sim_segment M s) tr a ai"
  shows "net_at M (trs(s := tr)) (exp(n := l)) (nw_set_host n (h\<lparr>h_interface := ai, h_expecting_to_receive := l\<rparr>) nw)"
proof -
  let ?h = "h\<lparr>h_interface := ai, h_expecting_to_receive := l\<rparr>"
  let ?nw = "nw_set_host n ?h nw"
  note p = host_placeD [OF n]
  have mapped: "nw_stations ?nw s' = (if s' = s then (nw_stations nw s)[a := ai] else nw_stations nw s')" if "s' < 5" for s'
  proof (cases "s' = s")
    case True
    have "map (\<lambda>m. h_interface (the (((nw_hosts nw)(n \<mapsto> ?h)) m))) (sim_hosts s) =
        (map (\<lambda>m. h_interface (the (nw_hosts nw m))) (sim_hosts s))[a - 1 := ai]"
      using n sim_hosts_distinct [OF p(1)] by (auto simp: host_place_def nth_list_update nth_eq_iff_index_eq intro!: nth_equalityI)
    then show ?thesis
      using True p(2) by (cases a) (simp_all add: nw_stations_def)
  next
    case False
    then have "n \<notin> set (sim_hosts s')"
      using sim_disjoint(2) [OF p(1) that p(5)] by simp
    then show ?thesis
      using False nw_stations_host by simp
  qed
  have "segment_at (sim_segment M s') ((trs(s := tr)) s') (nw_stations ?nw s')" if s': "s' < 5" for s'
  proof (cases "s' = s")
    case True
    have old: "segment_at (sim_segment M s) (trs s) (nw_stations nw s)"
      using at p(1) by (simp add: net_at_def)
    then show ?thesis
      using True mapped [OF s'] st stations p(3) [of M] by (auto simp: segment_at_def nth_list_update)
  next
    case False
    then show ?thesis
      using at mapped [OF s'] s' by (simp add: net_at_def)
  qed
  moreover have "host_at (exp(n := l)) m (nw_hosts ?nw m)" if "m \<in> set sim_names" for m
    using at h(2) that by (auto simp: net_at_def host_at_def)
  moreover have "dom (nw_hosts ?nw) = set sim_names"
    using at p(6) by (auto simp: net_at_def)
  moreover have "ro_queue (nw_router ?nw) 2 = []" "ro_queue (nw_router ?nw) 6 = []" "ro_routes (nw_router ?nw) = sim_routes"
    "length (ro_interfaces (nw_router ?nw)) = 7"
    "[nw_default_id ?nw, nw_eth0_id ?nw, nw_eth1_id ?nw, nw_eth2_id ?nw, nw_uun3_id ?nw, nw_hs4_id ?nw, nw_mit5_id ?nw] = [0..<7]"
    using at by (simp_all add: net_at_def)
  ultimately show ?thesis
    unfolding net_at_def by blast
qed

lemma net_host_station:
  assumes "net_at M trs exp nw" "host_place n s a" "nw_hosts nw n = Some h"
  shows "station_at (sim_segment M s) (trs s) a (h_interface h)"
proof -
  have "station_at (sim_segment M s) (trs s) a (nw_stations nw s ! a)"
    using assms(1) host_placeD(1,3) [OF assms(2)] by (simp add: net_at_def segment_at_def)
  then show ?thesis
    using host_placeD(7) [OF assms(2), of nw] assms(3) by simp
qed

text \<open>What \<open>send_to\<close> sends is well-formed.\<close>

lemma dec_string_length: "n < 10 ^ k \<Longrightarrow> 0 < k \<Longrightarrow> length (dec_string n) \<le> k"
proof (induction k arbitrary: n)
  case (Suc k)
  show ?case
  proof (cases "n < 10")
    case True
    then show ?thesis
      by (simp add: dec_string.simps [of n])
  next
    case False
    then have "k \<noteq> 0"
      using Suc.prems(1) by (cases k) auto
    moreover have "n div 10 < 10 ^ k"
      using Suc.prems(1) by (simp add: less_mult_imp_div_less mult.commute)
    ultimately show ?thesis
      using Suc.IH [of "n div 10"] False by (simp add: dec_string.simps [of n])
  qed
qed simp

lemma host_send_ok:
  assumes "ipv4_numeric (h_my_address h) = Inr src" "ipv4_numeric destination = Inr dst"
  obtains dgram where "ip_datagram_wf dgram" "ip_dst (ipd_header dgram) = dst" "ip_ttl (ipd_header dgram) = ttl"
    "host_send_to nd destination ttl h rd =
      (h\<lparr>h_interface := (h_interface h)\<lparr>ai_interface := fst (ni_send_datagram dgram (h_next_hop h) (ai_interface (h_interface h)))\<rparr>\<rparr>,
       rd_skip 1 rd,
       case snd (ni_send_datagram dgram (h_next_hop h) (ai_interface (h_interface h))) of
         None \<Rightarrow> map_sum id (\<lambda>_. dgram) (address_ip nd (h_next_hop h)) | Some e \<Rightarrow> Inl e)"
proof -
  define str :: bytes where "str = map of_char (''random payload: {'' @ dec_string (unat (rd 0)) @ ''}'')"
  define header where "header = ip_header_default\<lparr>ip_src := src, ip_dst := dst\<rparr>"
  define dgram where "dgram = \<lparr>ipd_header = header\<lparr>ip_len := word_of_nat (unat (ip_hlen header) * 4 + bl_size (bl_of_buffer (buffer_of str))),
    ip_ttl := ttl\<rparr>, ipd_payload = bl_of_buffer (buffer_of str)\<rparr>"
  have "length (dec_string (unat (rd 0))) \<le> 10"
    using unat_32 [of "rd 0"] by (intro dec_string_length) simp_all
  then have len: "length str \<le> 28"
    by (simp add: str_def)
  have hlen: "unat (ip_hlen header) = 5" "ip_ver header = 4" "ip_offset header = 0"
    by (simp_all add: header_def ip_header_default_def)
  have size: "bl_size (bl_of_buffer (buffer_of str)) = length str"
    using len by (simp add: bl_size_def bl_of_buffer_def buffer_size_def add64_small two64_def)
  have "unat (word_of_nat m :: 16 word) = m" if "m \<le> 48" for m
    using that by (simp add: unat_of_nat)
  then have "unat (ip_len (ipd_header dgram)) = 20 + length str"
    using len by (simp add: dgram_def hlen size del: of_nat_add)
  moreover have "5 \<le> ip_hlen header" "ip_hlen header \<le> 15"
    using hlen(1) by (simp_all add: word_le_nat_alt)
  ultimately have "ip_datagram_wf dgram"
    using hlen by (simp add: ip_datagram_wf_def ip_header_wf_def ip_header_fits_def)
      (simp add: dgram_def bl_of_buffer_def bl_concatenate_eq)
  moreover have "ip_dst (ipd_header dgram) = dst" "ip_ttl (ipd_header dgram) = ttl"
    by (simp_all add: dgram_def header_def)
  moreover have "host_send_to nd destination ttl h rd =
      (h\<lparr>h_interface := (h_interface h)\<lparr>ai_interface := fst (ni_send_datagram dgram (h_next_hop h) (ai_interface (h_interface h)))\<rparr>\<rparr>,
       rd_skip 1 rd,
       case snd (ni_send_datagram dgram (h_next_hop h) (ai_interface (h_interface h))) of
         None \<Rightarrow> map_sum id (\<lambda>_. dgram) (address_ip nd (h_next_hop h)) | Some e \<Rightarrow> Inl e)"
    unfolding host_send_to_def assms sum.case Let_def dgram_def header_def str_def by (simp add: split_beta cong: option.case_cong)
  ultimately show thesis
    by (rule that)
qed

lemma net_send:
  assumes nd: "numeric_netdb nd" and at: "net_at M (\<lambda>_. Idle) exp nw" and ok: "trs_ok M (\<lambda>_. Idle)" and n: "host_place n s a"
    and gw: "sim_gateway n = sim_router_ip (sim_rif s)" and dst: "ipv4_numeric destination = Inr dst"
  obtains h h' dgram k where "nw_host n nw = Inr h" "host_send_to nd destination ttl h rd = (h', rd_skip 1 rd, Inr dgram)"
    "k = 3 \<or> k = 1" "ip_datagram_wf dgram" "ip_dst (ipd_header dgram) = dst" "ip_ttl (ipd_header dgram) = ttl"
    "net_at M ((\<lambda>_. Idle)(s := Transit k a 0 dgram)) exp (nw_set_host n h' nw)"
proof -
  note p = host_placeD [OF n]
  obtain h where h: "nw_hosts nw n = Some h" "nw_host n nw = Inr h" "host_at exp n (Some h)" "h_name h = n"
    using net_host [OF at p(6)] by blast
  have addr: "ipv4_numeric (h_my_address h) = Inr (sim_host_ip n)" "h_next_hop h = inet_address (sim_gateway n) 0"
    "h_expecting_to_receive h = exp n"
    using h(3) by (auto simp: host_at_def)
  obtain dgram where d: "ip_datagram_wf dgram" "ip_dst (ipd_header dgram) = dst" "ip_ttl (ipd_header dgram) = ttl"
    and send: "host_send_to nd destination ttl h rd =
      (h\<lparr>h_interface := (h_interface h)\<lparr>ai_interface := fst (ni_send_datagram dgram (h_next_hop h) (ai_interface (h_interface h)))\<rparr>\<rparr>,
       rd_skip 1 rd,
       case snd (ni_send_datagram dgram (h_next_hop h) (ai_interface (h_interface h))) of
         None \<Rightarrow> map_sum id (\<lambda>_. dgram) (address_ip nd (h_next_hop h)) | Some e \<Rightarrow> Inl e)"
    using host_send_ok [OF addr(1) dst] by blast
  have seg: "segment_ok (sim_segment M s)" "0 < length (sim_segment M s)" "snd (sim_segment M s ! 0) = sim_router_ip (sim_rif s)"
    using ok p(1) by (simp_all add: trs_ok_def sim_segment_def)
  have "station_at (sim_segment M s) Idle a (h_interface h)"
    using net_host_station [OF at n h(1)] by simp
  moreover have "ipv4_numeric (h_next_hop h) = Inr (snd (sim_segment M s ! 0))"
    by (simp add: addr(2) seg(3) gw)
  ultimately obtain k ni where k: "k = 3 \<or> k = 1" "ni_send_datagram dgram (h_next_hop h) (ai_interface (h_interface h)) = (ni, None)"
    "station_at (sim_segment M s) (Transit k a 0 dgram) a ((h_interface h)\<lparr>ai_interface := ni\<rparr>)"
    using station_send [OF seg(1) _ p(3) seg(2) _ d(1), of "h_interface h" "h_next_hop h"] p(2) by blast
  let ?h = "h\<lparr>h_interface := (h_interface h)\<lparr>ai_interface := ni\<rparr>\<rparr>"
  have "net_at M ((\<lambda>_. Idle)(s := Transit k a 0 dgram)) (exp(n := exp n))
      (nw_set_host n (h\<lparr>h_interface := (h_interface h)\<lparr>ai_interface := ni\<rparr>, h_expecting_to_receive := exp n\<rparr>) nw)"
    by (rule net_at_host [OF at n h(1,3) _ k(3)]) (use station_unaware k(1) in blast)
  moreover have "h\<lparr>h_interface := (h_interface h)\<lparr>ai_interface := ni\<rparr>, h_expecting_to_receive := exp n\<rparr> = ?h"
    using addr(3) by (cases h) simp
  moreover have "address_ip nd (h_next_hop h) = Inr (inet_ntoa (sim_gateway n))"
    by (simp add: addr(2) address_ip_def ip_port_numeric [OF nd])
  then have "host_send_to nd destination ttl h rd = (?h, rd_skip 1 rd, Inr dgram)"
    using send k(2) by simp
  ultimately show thesis
    using that [OF h(2) _ k(1) d] by simp
qed

text \<open>A host is told to expect a datagram.\<close>

lemma net_expect:
  assumes at: "net_at M trs exp nw" and n: "host_place n s a"
  obtains h where "nw_host n nw = Inr h" "net_at M trs (exp(n := exp n @ [e])) (nw_set_host n (host_expect e h) nw)"
proof -
  obtain h where h: "nw_hosts nw n = Some h" "nw_host n nw = Inr h" "host_at exp n (Some h)" "h_name h = n"
    using net_host [OF at host_placeD(6) [OF n]] by blast
  have "net_at M (trs(s := trs s)) (exp(n := exp n @ [e]))
      (nw_set_host n (h\<lparr>h_interface := h_interface h, h_expecting_to_receive := exp n @ [e]\<rparr>) nw)"
    by (rule net_at_host [OF at n h(1,3) _ net_host_station [OF at n h(1)]])
  moreover have "h\<lparr>h_interface := h_interface h, h_expecting_to_receive := exp n @ [e]\<rparr> = host_expect e h"
    using h(3) by (cases h) (auto simp: host_expect_def host_at_def)
  ultimately show thesis
    using that [OF h(2)] by simp
qed

text \<open>Printing the frames of an exchange does not throw.\<close>

lemma frame_summary_flat: "\<exists>str. frame_summary (frame_flat f) = Inr str"
  by (simp add: frame_summary_def Let_def split_beta)

text \<open>\<open>check\<close> finds what is expected.\<close>

lemma same_datagram_bytes:
  assumes "same_datagram d d'" "ip_datagram_wf d"
  shows "same_bytes d d' = Inr True"
proof -
  have "dgram_bytes x = Inr (ip_datagram_bytes x)" if "ip_datagram_wf x" for x
    using ip_datagram_serialized [OF that] by (auto simp: dgram_bytes_def)
  then show ?thesis
    using same_datagram_sel(3,4) [OF assms(1)] assms(2) by (simp add: same_bytes_def bind_exn_def)
qed

lemma host_check_quiet:
  assumes "ai_datagrams_out (h_interface h) = []" "h_expecting_to_receive h = []"
  shows "host_check h = (h, None)"
proof -
  have "h\<lparr>h_interface := (h_interface h)\<lparr>ai_datagrams_out := []\<rparr>, h_expecting_to_receive := []\<rparr> = h"
    using assms by (cases h; cases "h_interface h") simp
  then show ?thesis
    using assms by (simp add: host_check_def)
qed

lemma host_check_one:
  assumes "ai_datagrams_out (h_interface h) = [d]" "h_expecting_to_receive h = [e]" "same_datagram e d" "ip_datagram_wf e"
  shows "host_check h = (h\<lparr>h_interface := (h_interface h)\<lparr>ai_datagrams_out := []\<rparr>, h_expecting_to_receive := []\<rparr>, None)"
  using assms(1,2) same_datagram_bytes [OF assms(3,4)] by (simp add: host_check_def bind_exn_def)

lemma sim_names_place:
  assumes "n \<in> set sim_names"
  shows "\<exists>s a. host_place n s a"
proof -
  have "host_place ''default_router'' 0 1" "host_place ''applesauce'' 1 1" "host_place ''cherrypie'' 2 1"
    "host_place ''hs_router'' 3 1" "host_place ''dm42'' 4 1" "host_place ''dm43'' 4 2"
    by (simp_all add: host_place_def sim_hosts_def)
  then show ?thesis
    using assms by (auto simp: sim_names_def)
qed

lemma nw_check_quiet:
  assumes at: "net_at M trs exp nw" and n: "\<And>n. n \<in> set names \<Longrightarrow> n \<in> set sim_names \<and> exp n = []"
    and q: "\<And>n s a. n \<in> set names \<Longrightarrow> host_place n s a \<Longrightarrow> transit_queue (trs s) a = (\<lambda>q. q = [])"
  shows "nw_check names nw = (nw, None)"
  using n q
proof (induction names)
  case (Cons n names)
  have n: "n \<in> set sim_names" "exp n = []"
    using Cons.prems(1) by simp_all
  obtain s a where p: "host_place n s a"
    using sim_names_place [OF n(1)] by blast
  obtain h where h: "nw_hosts nw n = Some h" "host_at exp n (Some h)"
    using net_host [OF at n(1)] by blast
  have "transit_queue (trs s) a (ai_datagrams_out (h_interface h))"
    using net_host_station [OF at p h(1)] by (simp add: station_at_def)
  then have "ai_datagrams_out (h_interface h) = []"
    using Cons.prems(2) [OF _ p] by simp
  moreover have "h_expecting_to_receive h = []"
    using h(2) n(2) by (auto simp: host_at_def)
  ultimately have "host_check h = (h, None)"
    by (rule host_check_quiet)
  moreover have "nw_set_host n h nw = nw"
    using h(1) by (simp add: nw_set_host_def fun_upd_idem)
  moreover have "nw_check names nw = (nw, None)"
  proof (rule Cons.IH)
    show "m \<in> set sim_names \<and> exp m = []" if "m \<in> set names" for m
      using Cons.prems(1) that by simp
    show "transit_queue (trs s) a = (\<lambda>q. q = [])" if "m \<in> set names" "host_place m s a" for m s a
      by (rule Cons.prems(2) [OF _ that(2)]) (simp add: that(1))
  qed
  ultimately show ?case
    using h(1) by simp
qed simp

lemma nw_check_append: "nw_check (ns @ ms) nw = seq_exn (nw_check ns nw) (nw_check ms)"
  by (induction ns arbitrary: nw) (auto simp: seq_exn_def split: option.splits prod.splits)

lemma host_place_unique:
  assumes "host_place n s a" "host_place n s' a'"
  shows "s' = s \<and> a' = a"
proof -
  have "s' = s"
    using assms sim_disjoint(2) [of s s' n] host_placeD(1,5) [OF assms(1)] host_placeD(1,5) [OF assms(2)] by simp
  moreover have "a' - 1 = a - 1"
    using assms sim_hosts_distinct [of s] \<open>s' = s\<close> by (auto simp: host_place_def nth_eq_iff_index_eq)
  ultimately show ?thesis
    using assms by (auto simp: host_place_def)
qed

text \<open>What has arrived is what was expected, and nothing else is there.\<close>

lemma nw_check_arrived:
  assumes at: "net_at M ((\<lambda>_. Idle)(s := Transit 0 x a d)) ((\<lambda>_. [])(n := [e])) nw" and n: "host_place n s a"
    and e: "same_datagram e d" "ip_datagram_wf e" and order: "distinct order" "set order = set sim_names"
  shows "\<exists>nw'. nw_check order nw = (nw', None) \<and> net_at M (\<lambda>_. Idle) (\<lambda>_. []) nw'"
proof -
  let ?trs = "(\<lambda>_. Idle)(s := Transit 0 x a d)" and ?exp = "(\<lambda>_. [])(n := [e])"
  obtain ns ms where split: "order = ns @ n # ms" "n \<notin> set ns" "n \<notin> set ms"
    using order host_placeD(6) [OF n] split_list [of n order] by auto
  have others: "transit_queue (?trs s') a' = (\<lambda>q. q = [])" if "host_place m s' a'" "m \<noteq> n" for m s' a'
  proof -
    have "\<not> (s' = s \<and> a' = a)"
      using that n by (auto simp: host_place_def)
    then show ?thesis
      by (auto simp: fun_eq_iff)
  qed
  have quiet1: "nw_check ns nw = (nw, None)"
  proof (rule nw_check_quiet [OF at])
    show "m \<in> set sim_names \<and> ?exp m = []" if "m \<in> set ns" for m
      using that split(1,2) order(2) by auto
    show "transit_queue (?trs s') a' = (\<lambda>q. q = [])" if "m \<in> set ns" "host_place m s' a'" for m s' a'
      using that split(2) by (intro others) auto
  qed
  obtain h where h: "nw_hosts nw n = Some h" "host_at ?exp n (Some h)"
    using net_host [OF at host_placeD(6) [OF n]] by blast
  let ?ai = "(h_interface h)\<lparr>ai_datagrams_out := []\<rparr>"
  let ?h = "h\<lparr>h_interface := ?ai, h_expecting_to_receive := []\<rparr>"
  have st: "station_at (sim_segment M s) (Transit 0 x a d) a (h_interface h)"
    using net_host_station [OF at n h(1)] by simp
  then obtain d' where "ai_datagrams_out (h_interface h) = [d']" "same_datagram d d'"
    by (auto simp: station_at_def)
  then have check: "host_check h = (?h, None)"
    using host_check_one [of h d' e] h(2) e same_datagram_trans by (auto simp: host_at_def)
  have "net_at M (?trs(s := Idle)) (?exp(n := [])) (nw_set_host n ?h nw)"
  proof (rule net_at_host [OF at n h])
    show "station_at (sim_segment M s) Idle a ?ai"
      using st by (simp add: station_at_def ni_station_def)
    show "station_at (sim_segment M s) Idle i (nw_stations nw s ! i)"
      if "i \<noteq> a" "station_at (sim_segment M s) (?trs s) i (nw_stations nw s ! i)" for i
      using that by (simp add: station_at_def ni_station_def)
  qed
  moreover have "?trs(s := Idle) = (\<lambda>_. Idle)" "?exp(n := []) = (\<lambda>_. [])"
    by auto
  ultimately have at': "net_at M (\<lambda>_. Idle) (\<lambda>_. []) (nw_set_host n ?h nw)"
    by simp
  have "nw_check ms (nw_set_host n ?h nw) = (nw_set_host n ?h nw, None)"
    by (rule nw_check_quiet [OF at']) (use split order in \<open>auto simp: fun_eq_iff\<close>)
  then have "nw_check order nw = (nw_set_host n ?h nw, None)"
    using quiet1 check h(1) by (simp add: split(1) nw_check_append)
  then show ?thesis
    using at' by blast
qed

section \<open>One test\<close>

lemma nw_check_idle:
  assumes "net_at M (\<lambda>_. Idle) (\<lambda>_. []) nw" "set order = set sim_names"
  shows "nw_check order nw = (nw, None)"
  by (rule nw_check_quiet [OF assms(1)]) (use assms(2) in \<open>auto simp: fun_eq_iff\<close>)

lemma nw_reaches_state:
  assumes "nw_reaches M exp n trs P" "net_at M trs exp nw"
  obtains nw' trs' where "nw_rounds n nw = (nw', None)" "P trs'" "net_at M trs' exp nw'"
  using assms by (auto simp: nw_reaches_def)

text \<open>A datagram that the router forwards reaches its receiver, one that it does not disappears.\<close>

lemma nw_test_delivered:
  assumes nd: "numeric_netdb nd" and at: "net_at M (\<lambda>_. Idle) (\<lambda>_. []) nw" and ok: "trs_ok M (\<lambda>_. Idle)"
    and order: "distinct order" "set order = set sim_names"
    and n: "host_place n s a" "sim_gateway n = sim_router_ip (sim_rif s)"
    and dst: "destination nw = Inr da" "ipv4_numeric da = Inr dst"
    and m: "host_place m s' b"
    and route: "\<And>d. ip_dst (ipd_header d) = dst \<Longrightarrow> ip_ttl (ipd_header d) = ttl \<Longrightarrow>
      \<exists>hop d2. forwarding sim_routes d = Some (sim_rif s', hop, d2) \<and> ipv4_numeric hop = Inr (sim_host_ip m)"
  shows "\<exists>nw'. nw_test nd order n destination ttl (Some m) (nw, rd) = ((nw', rd_skip 1 rd), None) \<and>
    net_at M (\<lambda>_. Idle) (\<lambda>_. []) nw'"
proof -
  obtain h h' dgram k where send: "nw_host n nw = Inr h" "host_send_to nd da ttl h rd = (h', rd_skip 1 rd, Inr dgram)"
    and d: "k = 3 \<or> k = 1" "ip_datagram_wf dgram" "ip_dst (ipd_header dgram) = dst" "ip_ttl (ipd_header dgram) = ttl"
    and nw1: "net_at M ((\<lambda>_. Idle)(s := Transit k a 0 dgram)) (\<lambda>_. []) (nw_set_host n h' nw)"
    using net_send [OF nd at ok n dst(2), where rd = rd and ttl = ttl] by blast
  let ?nw1 = "nw_set_host n h' nw"
  define e where "e = dgram_set_ttl (ip_ttl (ipd_header dgram) - 1) dgram"
  obtain g where g: "nw_host m ?nw1 = Inr g"
    and nw2: "net_at M ((\<lambda>_. Idle)(s := Transit k a 0 dgram)) ((\<lambda>_. [])(m := [e])) (nw_set_host m (host_expect e g) ?nw1)"
    using net_expect [OF nw1 m, of e] by auto
  let ?nw2 = "nw_set_host m (host_expect e g) ?nw1"
  obtain hop d2 where r: "forwarding sim_routes dgram = Some (sim_rif s', hop, d2)" "ipv4_numeric hop = Inr (sim_host_ip m)"
    using route [OF d(3,4)] by blast
  have d2: "d2 = e"
    using forwarding_datagram [OF r(1)] by (simp add: e_def)
  note p = host_placeD [OF n(1)] and p' = host_placeD [OF m]
  have tr: "transit_ok (sim_segment M s) (Transit k a 0 dgram)"
    using d p(2) p(3) [of M] by auto
  have hop: "ipv4_numeric hop = Inr (snd (sim_segment M s' ! b))"
    using r(2) p'(4) [of M] by simp
  obtain nw3 d' where nw3: "nw_rounds 256 ?nw2 = (nw3, None)" "same_datagram e d'"
    "net_at M ((\<lambda>_. Idle)(s' := Transit 0 0 b d')) ((\<lambda>_. [])(m := [e])) nw3"
    using nw_reaches_state [OF nw_reaches_simulated(2) [OF ok p(1) tr r(1) p'(1,2,3) hop] nw2] d2 by blast
  have "ip_datagram_wf e"
    using d(2) by (simp add: e_def)
  from nw_check_arrived [OF nw3(3) m nw3(2) this order] obtain nw4 where
    "nw_check order nw3 = (nw4, None)" "net_at M (\<lambda>_. Idle) (\<lambda>_. []) nw4"
    by blast
  then show ?thesis
    using send g nw3(1) by (simp add: nw_test_def dst(1) nw_simulate_def e_def Let_def)
qed

lemma nw_test_dropped:
  assumes nd: "numeric_netdb nd" and at: "net_at M (\<lambda>_. Idle) (\<lambda>_. []) nw" and ok: "trs_ok M (\<lambda>_. Idle)"
    and order: "set order = set sim_names"
    and n: "host_place n s a" "sim_gateway n = sim_router_ip (sim_rif s)"
    and dst: "destination nw = Inr da" "ipv4_numeric da = Inr dst"
    and route: "\<And>d. ip_ttl (ipd_header d) = ttl \<Longrightarrow> forwarding sim_routes d = None"
  shows "\<exists>nw'. nw_test nd order n destination ttl None (nw, rd) = ((nw', rd_skip 1 rd), None) \<and>
    net_at M (\<lambda>_. Idle) (\<lambda>_. []) nw'"
proof -
  obtain h h' dgram k where send: "nw_host n nw = Inr h" "host_send_to nd da ttl h rd = (h', rd_skip 1 rd, Inr dgram)"
    and d: "k = 3 \<or> k = 1" "ip_datagram_wf dgram" "ip_dst (ipd_header dgram) = dst" "ip_ttl (ipd_header dgram) = ttl"
    and nw1: "net_at M ((\<lambda>_. Idle)(s := Transit k a 0 dgram)) (\<lambda>_. []) (nw_set_host n h' nw)"
    using net_send [OF nd at ok n dst(2), where rd = rd and ttl = ttl] by blast
  note p = host_placeD [OF n(1)]
  have tr: "transit_ok (sim_segment M s) (Transit k a 0 dgram)"
    using d p(2) p(3) [of M] by auto
  obtain nw2 where "nw_rounds 256 (nw_set_host n h' nw) = (nw2, None)" "net_at M (\<lambda>_. Idle) (\<lambda>_. []) nw2"
    using nw_reaches_state [OF nw_reaches_simulated(1) [OF ok p(1) tr route [OF d(4)]] nw1] by blast
  moreover have "nw_check order nw2 = (nw2, None)"
    using nw_check_idle calculation(2) order by blast
  ultimately show ?thesis
    using send by (simp add: nw_test_def dst(1) nw_simulate_def Let_def)
qed

section \<open>The network that is constructed\<close>

lemma dec_strings:
  "dec_string 0 = ''0''" "dec_string 2 = ''2''" "dec_string 3 = ''3''" "dec_string 4 = ''4''" "dec_string 10 = ''10''" "dec_string 16 = ''16''"
  "dec_string 17 = ''17''" "dec_string 30 = ''30''" "dec_string 42 = ''42''" "dec_string 43 = ''43''" "dec_string 46 = ''46''"
  "dec_string 52 = ''52''" "dec_string 67 = ''67''" "dec_string 76 = ''76''" "dec_string 128 = ''128''" "dec_string 131 = ''131''"
  "dec_string 143 = ''143''" "dec_string 168 = ''168''" "dec_string 171 = ''171''" "dec_string 172 = ''172''" "dec_string 178 = ''178''"
  "dec_string 192 = ''192''" "dec_string 193 = ''193''" "dec_string 195 = ''195''" "dec_string 198 = ''198''" "dec_string 223 = ''223''"
  "dec_string 224 = ''224''" "dec_string 229 = ''229''" "dec_string 255 = ''255''"
  by code_simp+

lemma dec_string_1: "dec_string (Suc 0) = ''1''"
  by (simp add: dec_string.simps char_of_def bit_Suc_0_iff)

text \<open>The addresses written in the program.\<close>

definition sim_quads :: "(string \<times> 32 word) list" where
  "sim_quads = [(''171.67.76.46'', 0xab434c2e), (''10.0.0.1'', 0x0a000001), (''172.16.0.1'', 0xac100001), (''192.168.0.1'', 0xc0a80001),
     (''198.178.229.1'', 0xc6b2e501), (''143.195.0.2'', 0x8fc30002), (''128.30.76.255'', 0x801e4cff), (''10.0.0.2'', 0x0a000002),
     (''171.67.76.1'', 0xab434c01), (''192.168.0.2'', 0xc0a80002), (''143.195.0.1'', 0x8fc30001), (''198.178.229.42'', 0xc6b2e52a),
     (''198.178.229.43'', 0xc6b2e52b), (''0.0.0.0'', 0), (''10.0.0.0'', 0x0a000000), (''172.16.0.0'', 0xac100000),
     (''192.168.0.0'', 0xc0a80000), (''198.178.229.0'', 0xc6b2e500), (''143.195.0.0'', 0x8fc30000), (''143.195.128.0'', 0x8fc38000),
     (''143.195.192.0'', 0x8fc3c000), (''128.30.0.1'', 0x801e0001), (''1.2.3.4'', 0x01020304), (''143.195.131.17'', 0x8fc38311),
     (''143.195.193.52'', 0x8fc3c134), (''143.195.223.255'', 0x8fc3dfff), (''143.195.224.0'', 0x8fc3e000)]"

lemma sim_quads_ntoa: "list_all (\<lambda>(str, ip). inet_ntoa ip = str) sim_quads"
  by (simp add: sim_quads_def inet_ntoa_def dec_strings dec_string_1)

text \<open>A resolver that knows dotted quads, and the short form \<open>0\<close>.\<close>

definition sim_netdb :: "netdb \<Rightarrow> bool" where
  "sim_netdb nd \<longleftrightarrow> numeric_netdb nd \<and> address_of_ip nd ''0'' 0 = Inr (inet_address 0 0)"

lemma sim_resolve:
  assumes "sim_netdb nd"
  shows "list_all (\<lambda>(str, ip). address_of_ip nd str 0 = Inr (inet_address ip 0)) sim_quads"
proof -
  have "numeric_netdb nd"
    using assms by (simp add: sim_netdb_def)
  then show ?thesis
    using sim_quads_ntoa address_of_ip_numeric [of nd _ 0] by (fastforce simp: list_all_iff)
qed

lemmas sim_addresses = sim_resolve [unfolded sim_quads_def, simplified]

text \<open>The Ethernet addresses are drawn in the order of the declarations.\<close>

definition router_mac :: "random \<Rightarrow> nat \<Rightarrow> ethernet_address" where
  "router_mac rd i = fst (random_router_ethernet_address (rd_skip (6 * i) rd))"

definition host_mac :: "random \<Rightarrow> nat \<Rightarrow> ethernet_address" where
  "host_mac rd j = fst (random_host_ethernet_address (rd_skip (42 + 6 * j) rd))"

definition sim_macs :: "random \<Rightarrow> macs" where
  "sim_macs rd = (router_mac rd, \<lambda>n. host_mac rd (the (map_of [(''applesauce'', 0), (''default_router'', 1), (''cherrypie'', 2),
     (''hs_router'', 3), (''dm42'', 4), (''dm43'', 5)] n)))"

lemma rd_skip_skip [simp]: "rd_skip m (rd_skip n rd) = rd_skip (n + m) rd" "rd_skip 0 rd = rd"
  by (simp_all add: rd_skip_def ac_simps)

lemma router_ethernet_address_eq:
  "random_router_ethernet_address (rd_skip (6 * i) rd) = (router_mac rd i, rd_skip (6 * Suc i) rd)"
  by (simp add: router_mac_def random_router_ethernet_address_def add.commute)

lemma host_construct_eq:
  "host_construct name a b (rd_skip (42 + 6 * j) rd) =
    (\<lparr>h_name = name, h_my_address = a, h_interface = ai_construct (ni_construct (host_mac rd j) a), h_next_hop = b,
      h_expecting_to_receive = []\<rparr>, rd_skip (42 + 6 * Suc j) rd)"
  by (simp add: host_construct_def host_mac_def random_host_ethernet_address_def Let_def ac_simps)

lemma nw_interfaces_constructed:
  assumes "list_all2 (\<lambda>str ip. address_of_ip nd str 0 = Inr (inet_address ip 0)) strs ips"
  shows "nw_add_interfaces nd strs ro (rd_skip (6 * i) rd) =
    Inr (ro\<lparr>ro_interfaces := ro_interfaces ro @ map (\<lambda>j. ai_construct (ni_construct (router_mac rd (i + j)) (inet_address (ips ! j) 0))) [0..<length ips]\<rparr>,
      rd_skip (6 * (i + length ips)) rd, [length (ro_interfaces ro)..<length (ro_interfaces ro) + length ips])"
  using assms
proof (induction strs ips arbitrary: ro i rule: list_all2_induct)
  case (Cons str strs ip ips)
  let ?ai = "\<lambda>j. ai_construct (ni_construct (router_mac rd (i + j)) (inet_address ((ip # ips) ! j) 0))"
  have "map ?ai [0..<length (ip # ips)] = ?ai 0 # map (\<lambda>j. ?ai (Suc j)) [0..<length ips]"
    by (simp only: upt_conv_Cons length_Cons zero_less_Suc map_Suc_upt [symmetric] list.map map_map comp_def)
  moreover have "[length (ro_interfaces ro)..<length (ro_interfaces ro) + length (ip # ips)] =
      length (ro_interfaces ro) # [Suc (length (ro_interfaces ro))..<Suc (length (ro_interfaces ro)) + length ips]"
    by (subst upt_conv_Cons) simp_all
  ultimately show ?case
    using Cons.IH [of "ro\<lparr>ro_interfaces := ro_interfaces ro @ [?ai 0]\<rparr>" "Suc i"] Cons.hyps
    by (simp add: router_ethernet_address_eq ro_add_interface_def)
qed simp

lemma nw_constructed:
  assumes "sim_netdb nd"
  shows "\<exists>nw. nw_construct nd rd = Inr (nw, rd_skip 78 rd) \<and> net_at (sim_macs rd) (\<lambda>_. Idle) (\<lambda>_. []) nw"
proof -
  note addresses = sim_addresses [OF assms]
  have zero: "address_of_ip nd ''0'' 0 = Inr (inet_address 0 0)"
    using assms by (simp add: sim_netdb_def)
  let ?ips = "map sim_router_ip [0..<7]"
  have "?ips = [0xab434c2e, 0x0a000001, 0xac100001, 0xc0a80001, 0xc6b2e501, 0x8fc30002, 0x801e4cff]"
    by (simp add: sim_router_ip_def upt_rec)
  then have "list_all2 (\<lambda>str ip. address_of_ip nd str 0 = Inr (inet_address ip 0)) [''171.67.76.46'', ''10.0.0.1'', ''172.16.0.1'',
      ''192.168.0.1'', ''198.178.229.1'', ''143.195.0.2'', ''128.30.76.255''] ?ips"
    by (simp add: addresses)
  let ?ifs = "map (\<lambda>j. ai_construct (ni_construct (router_mac rd j) (inet_address (sim_router_ip j) 0))) [0..<7]"
  have ifs: "nw_add_interfaces nd [''171.67.76.46'', ''10.0.0.1'', ''172.16.0.1'',
      ''192.168.0.1'', ''198.178.229.1'', ''143.195.0.2'', ''128.30.76.255''] ro_construct rd =
    Inr (\<lparr>ro_routes = [], ro_interfaces = ?ifs\<rparr>, rd_skip 42 rd, [0..<7])"
    using nw_interfaces_constructed [OF \<open>list_all2 _ _ _\<close>, of ro_construct 0 rd] by (simp add: ro_construct_def cong: map_cong)
  let ?host = "\<lambda>n j. \<lparr>h_name = n, h_my_address = inet_address (sim_host_ip n) 0,
    h_interface = ai_construct (ni_construct (host_mac rd j) (inet_address (sim_host_ip n) 0)), h_next_hop = inet_address (sim_gateway n) 0,
    h_expecting_to_receive = []\<rparr>"
  let ?hosts = "[''applesauce'' \<mapsto> ?host ''applesauce'' 0, ''default_router'' \<mapsto> ?host ''default_router'' 1,
    ''cherrypie'' \<mapsto> ?host ''cherrypie'' 2, ''hs_router'' \<mapsto> ?host ''hs_router'' 3, ''dm42'' \<mapsto> ?host ''dm42'' 4, ''dm43'' \<mapsto> ?host ''dm43'' 5]"
  have hosts: "nw_add_hosts nd [(''applesauce'', ''10.0.0.2'', ''10.0.0.1''), (''default_router'', ''171.67.76.1'', ''0''),
       (''cherrypie'', ''192.168.0.2'', ''192.168.0.1''), (''hs_router'', ''143.195.0.1'', ''0''),
       (''dm42'', ''198.178.229.42'', ''198.178.229.1''), (''dm43'', ''198.178.229.43'', ''198.178.229.1'')] Map.empty (rd_skip 42 rd) =
    Inr (?hosts, rd_skip 78 rd)"
    using host_construct_eq [of _ _ _ 0 rd] host_construct_eq [of _ _ _ 1 rd] host_construct_eq [of _ _ _ 2 rd]
      host_construct_eq [of _ _ _ 3 rd] host_construct_eq [of _ _ _ 4 rd] host_construct_eq [of _ _ _ 5 rd]
    by (simp add: addresses zero sim_host_ip_def sim_gateway_def)
  let ?nw = "\<lambda>rs. \<lparr>nw_router = \<lparr>ro_routes = rs, ro_interfaces = ?ifs\<rparr>, nw_default_id = 0, nw_eth0_id = 1, nw_eth1_id = 2, nw_eth2_id = 3,
    nw_uun3_id = 4, nw_hs4_id = 5, nw_mit5_id = 6, nw_hosts = ?hosts\<rparr>"
  have "nw_construct nd rd = Inr (?nw sim_routes, rd_skip 78 rd)"
    by (simp add: nw_construct_def ifs hosts nw_host_def sim_ip_def addresses ro_add_route_def sim_host_ip_def sim_routes_def Let_def
        del: nw_add_interfaces.simps nw_add_hosts.simps)
  moreover have "net_at (sim_macs rd) (\<lambda>_. Idle) (\<lambda>_. []) (?nw sim_routes)"
  proof -
    have up: "[0..<7] = [0, 1, 2, 3, 4, 5, 6 :: nat]"
      by (simp add: upt_rec)
    have "nw_stations (?nw sim_routes) s =
        map (\<lambda>(mac, ip). ai_construct (ni_construct mac (inet_address ip 0))) (sim_segment (sim_macs rd) s)" if "s < 5" for s
      using that by (auto simp: less_5 nw_stations_def sim_segment_def sim_macs_def sim_rif_def sim_hosts_def)
    then have "segment_at (sim_segment (sim_macs rd) s) Idle (nw_stations (?nw sim_routes) s)" if "s < 5" for s
      using that segment_new by simp
    moreover have "dom ?hosts = set sim_names"
      by (auto simp: sim_names_def)
    moreover have "host_at (\<lambda>_. []) n (?hosts n)" if "n \<in> set sim_names" for n
      using that by (auto simp: sim_names_def host_at_def)
    ultimately show ?thesis
      by (simp add: net_at_def up ro_queue_def ai_construct_def)
  qed
  ultimately show ?thesis
    by blast
qed

text \<open>The routes that the tests take.\<close>

lemma sim_longest:
  assumes "route_loop dst sim_routes 0 route_default False = Inr (r, True)"
  shows "longest_match dst sim_routes = Some r"
  using assms route_loop_longest [OF sim_routes_ok, of False 0 route_default dst]
  by (auto simp: longest_match_def split: option.splits)

lemma sim_loop:
  "route_loop 0xc0a80002 sim_routes 0 route_default False = Inr (sim_routes ! 3, True)"
  "route_loop 0x0a000002 sim_routes 0 route_default False = Inr (sim_routes ! 1, True)"
  "route_loop 0x01020304 sim_routes 0 route_default False = Inr (sim_routes ! 0, True)"
  "route_loop 0x8fc38311 sim_routes 0 route_default False = Inr (sim_routes ! 6, True)"
  "route_loop 0x8fc3c134 sim_routes 0 route_default False = Inr (sim_routes ! 7, True)"
  "route_loop 0x8fc3dfff sim_routes 0 route_default False = Inr (sim_routes ! 7, True)"
  "route_loop 0x8fc3e000 sim_routes 0 route_default False = Inr (sim_routes ! 0, True)"
  "route_loop 0xc6b2e52b sim_routes 0 route_default False = Inr (sim_routes ! 4, True)"
  by (simp_all add: sim_routes_def route_mask_def Let_def push_bit_eq_mult)

lemma sim_forwarding:
  assumes "longest_match dst sim_routes = Some r" "ip_dst (ipd_header d) = dst" "ip_ttl (ipd_header d) = 64"
  shows "\<exists>d2. forwarding sim_routes d = Some (rt_interface_num r, case rt_next_hop r of None \<Rightarrow> inet_address dst 0 | Some a \<Rightarrow> a, d2)"
  using assms by (cases "rt_next_hop r") (auto simp: forwarding_def)

lemma sim_dropped: "ip_ttl (ipd_header d) \<le> 1 \<Longrightarrow> forwarding sim_routes d = None"
  by (simp add: forwarding_def word_le_nat_alt split: option.splits)

lemmas sim_facts = sim_routes_def sim_rif_def sim_host_ip_def

text \<open>A test that leaves the network idle.\<close>

definition test_passes :: "macs \<Rightarrow> (network \<times> random \<Rightarrow> (network \<times> random) \<times> exn option) \<Rightarrow> bool" where
  "test_passes M f \<longleftrightarrow> (\<forall>nw rd. net_at M (\<lambda>_. Idle) (\<lambda>_. []) nw \<longrightarrow>
     (\<exists>nw'. f (nw, rd) = ((nw', rd_skip 1 rd), None) \<and> net_at M (\<lambda>_. Idle) (\<lambda>_. []) nw'))"

lemma tests_pass:
  assumes "list_all (test_passes M) fs" "net_at M (\<lambda>_. Idle) (\<lambda>_. []) nw"
  shows "\<exists>s'. foldl seq_exn ((nw, rd), None) fs = (s', None)"
  using assms
proof (induction fs arbitrary: nw rd)
  case (Cons f fs)
  have "test_passes M f"
    using Cons.prems(1) by simp
  then obtain nw' where "f (nw, rd) = ((nw', rd_skip 1 rd), None)" "net_at M (\<lambda>_. Idle) (\<lambda>_. []) nw'"
    unfolding test_passes_def using Cons.prems(2) by blast
  then show ?case
    using Cons.IH [of nw'] Cons.prems(1) by simp
qed simp

lemma passes_delivered:
  assumes nd: "numeric_netdb nd" and ok: "trs_ok M (\<lambda>_. Idle)" and order: "distinct order" "set order = set sim_names"
    and n: "host_place n s a" "sim_gateway n = sim_router_ip (sim_rif s)" and m: "host_place m s' b"
    and dst: "\<And>nw. net_at M (\<lambda>_. Idle) (\<lambda>_. []) nw \<Longrightarrow> destination nw = Inr (inet_address dst 0)"
    and r: "route_loop dst sim_routes 0 route_default False = Inr (r, True)" "rt_interface_num r = sim_rif s'"
      "ipv4_numeric (case rt_next_hop r of None \<Rightarrow> inet_address dst 0 | Some a \<Rightarrow> a) = Inr (sim_host_ip m)"
  shows "test_passes M (nw_test nd order n destination 64 (Some m))"
proof -
  have route: "\<exists>hop d2. forwarding sim_routes d = Some (sim_rif s', hop, d2) \<and> ipv4_numeric hop = Inr (sim_host_ip m)"
    if "ip_dst (ipd_header d) = dst" "ip_ttl (ipd_header d) = 64" for d
    using sim_forwarding [OF sim_longest [OF r(1)] that] r(2,3) by auto
  have "\<exists>nw'. nw_test nd order n destination 64 (Some m) (nw, rd) = ((nw', rd_skip 1 rd), None) \<and>
      net_at M (\<lambda>_. Idle) (\<lambda>_. []) nw'" if at: "net_at M (\<lambda>_. Idle) (\<lambda>_. []) nw" for nw rd
    by (rule nw_test_delivered [where destination = destination, OF nd at ok order n dst [OF at] ipv4_numeric_inet m route])
  then show ?thesis
    unfolding test_passes_def by blast
qed

lemma passes_dropped:
  assumes nd: "numeric_netdb nd" and ok: "trs_ok M (\<lambda>_. Idle)" and order: "set order = set sim_names"
    and n: "host_place n s a" "sim_gateway n = sim_router_ip (sim_rif s)"
    and dst: "\<And>nw. net_at M (\<lambda>_. Idle) (\<lambda>_. []) nw \<Longrightarrow> destination nw = Inr (inet_address dst 0)" and ttl: "ttl \<le> 1"
  shows "test_passes M (nw_test nd order n destination ttl None)"
proof -
  have route: "forwarding sim_routes d = None" if "ip_ttl (ipd_header d) = ttl" for d
    using sim_dropped [of d] that ttl by simp
  have "\<exists>nw'. nw_test nd order n destination ttl None (nw, rd) = ((nw', rd_skip 1 rd), None) \<and>
      net_at M (\<lambda>_. Idle) (\<lambda>_. []) nw'" if at: "net_at M (\<lambda>_. Idle) (\<lambda>_. []) nw" for nw rd
    by (rule nw_test_dropped [where destination = destination, OF nd at ok order n dst [OF at] ipv4_numeric_inet route])
  then show ?thesis
    unfolding test_passes_def by blast
qed

lemma net_address_of:
  assumes "net_at M trs exp nw" "n \<in> set sim_names"
  shows "nw_address_of n nw = Inr (inet_address (sim_host_ip n) 0)"
proof -
  obtain h where "nw_host n nw = Inr h" "host_at exp n (Some h)"
    using net_host [OF assms] by blast
  then show ?thesis
    by (auto simp: nw_address_of_def host_at_def)
qed

lemma random_bytes_eq: "random_bytes r = [ucast (r 0), ucast (r 1), ucast (r 2), ucast (r 3), ucast (r 4), ucast (r 5)]"
  by (simp add: random_bytes_def upt_rec numeral_eq_Suc)

lemma sim_mac:
  "eth_address_ok (router_mac rd i)" "router_mac rd i \<noteq> ETHERNET_BROADCAST"
  "eth_address_ok (host_mac rd j)" "host_mac rd j \<noteq> ETHERNET_BROADCAST"
proof -
  show "eth_address_ok (router_mac rd i)" "router_mac rd i \<noteq> ETHERNET_BROADCAST"
    by (simp_all add: router_mac_def random_router_ethernet_address_def random_bytes_eq eth_address_ok_def ETHERNET_BROADCAST_def)
  have "Bit_Operations.and b 0xfe \<noteq> 0xff" for b :: byte
  proof
    assume "Bit_Operations.and b 0xfe = 0xff"
    then have "bit (Bit_Operations.and b 0xfe) 0 = bit (0xff :: byte) 0"
      by simp
    then show False
      by (simp add: bit_and_iff)
  qed
  then show "eth_address_ok (host_mac rd j)" "host_mac rd j \<noteq> ETHERNET_BROADCAST"
    by (simp_all add: host_mac_def random_host_ethernet_address_def random_bytes_eq eth_address_ok_def ETHERNET_BROADCAST_def Let_def)
qed

text \<open>The Ethernet addresses drawn on each segment differ.\<close>

definition macs_differ :: "random \<Rightarrow> bool" where
  "macs_differ rd \<longleftrightarrow> list_all (\<lambda>s. distinct (map fst (sim_segment (sim_macs rd) s))) [0..<5]"

lemma macs_ok:
  assumes "macs_differ rd"
  shows "trs_ok (sim_macs rd) (\<lambda>_. Idle)"
proof -
  have "segment_ok (sim_segment (sim_macs rd) s)" if s: "s < 5" for s
  proof -
    have "distinct (map fst (sim_segment (sim_macs rd) s))"
      using assms s by (simp add: macs_differ_def list_all_iff)
    moreover have "distinct (map snd (sim_segment (sim_macs rd) s))"
      using s by (auto simp: less_5 sim_segment_def sim_hosts_def sim_rif_def sim_router_ip_def sim_host_ip_def)
    moreover have "list_all (\<lambda>m. eth_address_ok m \<and> m \<noteq> ETHERNET_BROADCAST) (map fst (sim_segment (sim_macs rd) s))"
      using sim_mac by (auto simp: sim_segment_def sim_macs_def list_all_iff)
    ultimately show ?thesis
      by (simp add: segment_ok_def)
  qed
  then show ?thesis
    by (simp add: trs_ok_def)
qed

section \<open>Properties\<close>

text \<open>
  C6: The program succeeds. If the Ethernet addresses drawn on each segment differ, the ten tests
  of network_simulator raise no exception: every datagram sent reaches the host that expects it
  with its time to live one lower, through ARP on both segments and the router's longest match,
  nothing else reaches any host, and the two datagrams whose time to live has run out disappear.
  This holds for every order in which the hash map of the hosts is visited and for all the random
  numbers; the resolver is only known to read dotted quads and 0.
\<close>

theorem network_simulator_succeeds:
  assumes nd: "sim_netdb nd" and order: "distinct order" "set order = set sim_names" and macs: "macs_differ rd"
  shows "network_simulator nd order rd = None"
proof -
  let ?M = "sim_macs rd"
  have place: "host_place ''default_router'' 0 1" "host_place ''applesauce'' 1 1" "host_place ''cherrypie'' 2 1"
    "host_place ''hs_router'' 3 1" "host_place ''dm42'' 4 1" "host_place ''dm43'' 4 2"
    by (simp_all add: host_place_def sim_hosts_def)
  have gw: "sim_gateway ''applesauce'' = sim_router_ip (sim_rif 1)" "sim_gateway ''cherrypie'' = sim_router_ip (sim_rif 2)"
    "sim_gateway ''dm42'' = sim_router_ip (sim_rif 4)"
    by (simp_all add: sim_gateway_def sim_router_ip_def sim_rif_def)
  note ok = macs_ok [OF macs]
  have num: "numeric_netdb nd"
    using nd by (simp add: sim_netdb_def)
  note routes = sim_loop
  obtain nw where nw: "nw_construct nd rd = Inr (nw, rd_skip 78 rd)" "net_at ?M (\<lambda>_. Idle) (\<lambda>_. []) nw"
    using nw_constructed [OF nd] by blast
  let ?tests = "[nw_test nd order ''applesauce'' (nw_address_of ''cherrypie'') 64 (Some ''cherrypie''),
             nw_test nd order ''cherrypie'' (nw_address_of ''applesauce'') 64 (Some ''applesauce''),
             nw_test nd order ''applesauce'' (\<lambda>_. address_of_ip nd ''1.2.3.4'' 0) 64 (Some ''default_router''),
             nw_test nd order ''applesauce'' (\<lambda>_. address_of_ip nd ''143.195.131.17'' 0) 64 (Some ''hs_router''),
             nw_test nd order ''cherrypie'' (\<lambda>_. address_of_ip nd ''143.195.193.52'' 0) 64 (Some ''hs_router''),
             nw_test nd order ''cherrypie'' (\<lambda>_. address_of_ip nd ''143.195.223.255'' 0) 64 (Some ''hs_router''),
             nw_test nd order ''cherrypie'' (\<lambda>_. address_of_ip nd ''143.195.224.0'' 0) 64 (Some ''default_router''),
             nw_test nd order ''dm42'' (nw_address_of ''dm43'') 64 (Some ''dm43''),
             nw_test nd order ''applesauce'' (\<lambda>_. address_of_ip nd ''1.2.3.4'' 0) 1 None,
             nw_test nd order ''applesauce'' (\<lambda>_. address_of_ip nd ''1.2.3.4'' 0) 0 None]"
  note addresses = sim_addresses [OF nd]
  have dsts: "nw_address_of ''cherrypie'' nw = Inr (inet_address 0xc0a80002 0)" "nw_address_of ''applesauce'' nw = Inr (inet_address 0x0a000002 0)"
    "nw_address_of ''dm43'' nw = Inr (inet_address 0xc6b2e52b 0)" if "net_at ?M (\<lambda>_. Idle) (\<lambda>_. []) nw" for nw
    by (simp_all add: net_address_of [OF that] sim_names_def sim_host_ip_def)
  note delivered = passes_delivered [OF num ok order]
  have "list_all (test_passes ?M) ?tests"
  proof (intro list.pred_inject(2) [THEN iffD2] conjI list.pred_inject(1))
    show "test_passes ?M (nw_test nd order ''applesauce'' (nw_address_of ''cherrypie'') 64 (Some ''cherrypie''))"
      by (rule delivered [OF place(2) gw(1) place(3) dsts(1) routes(1)]) (simp_all add: sim_facts)
    show "test_passes ?M (nw_test nd order ''cherrypie'' (nw_address_of ''applesauce'') 64 (Some ''applesauce''))"
      by (rule delivered [OF place(3) gw(2) place(2) dsts(2) routes(2)]) (simp_all add: sim_facts)
    show "test_passes ?M (nw_test nd order ''applesauce'' (\<lambda>_. address_of_ip nd ''1.2.3.4'' 0) 64 (Some ''default_router''))"
      by (rule delivered [OF place(2) gw(1) place(1) _ routes(3)]) (simp_all add: sim_facts addresses)
    show "test_passes ?M (nw_test nd order ''applesauce'' (\<lambda>_. address_of_ip nd ''143.195.131.17'' 0) 64 (Some ''hs_router''))"
      by (rule delivered [OF place(2) gw(1) place(4) _ routes(4)]) (simp_all add: sim_facts addresses)
    show "test_passes ?M (nw_test nd order ''cherrypie'' (\<lambda>_. address_of_ip nd ''143.195.193.52'' 0) 64 (Some ''hs_router''))"
      by (rule delivered [OF place(3) gw(2) place(4) _ routes(5)]) (simp_all add: sim_facts addresses)
    show "test_passes ?M (nw_test nd order ''cherrypie'' (\<lambda>_. address_of_ip nd ''143.195.223.255'' 0) 64 (Some ''hs_router''))"
      by (rule delivered [OF place(3) gw(2) place(4) _ routes(6)]) (simp_all add: sim_facts addresses)
    show "test_passes ?M (nw_test nd order ''cherrypie'' (\<lambda>_. address_of_ip nd ''143.195.224.0'' 0) 64 (Some ''default_router''))"
      by (rule delivered [OF place(3) gw(2) place(1) _ routes(7)]) (simp_all add: sim_facts addresses)
    show "test_passes ?M (nw_test nd order ''dm42'' (nw_address_of ''dm43'') 64 (Some ''dm43''))"
      by (rule delivered [OF place(5) gw(3) place(6) dsts(3) routes(8)]) (simp_all add: sim_facts)
    show "test_passes ?M (nw_test nd order ''applesauce'' (\<lambda>_. address_of_ip nd ''1.2.3.4'' 0) 1 None)"
      "test_passes ?M (nw_test nd order ''applesauce'' (\<lambda>_. address_of_ip nd ''1.2.3.4'' 0) 0 None)"
      by (rule passes_dropped [OF num ok order(2) place(2) gw(1)]; simp add: addresses)+
  qed
  from tests_pass [OF this nw(2)] obtain s' where s': "foldl seq_exn ((nw, rd_skip 78 rd), None) ?tests = (s', None)"
    by blast
  show ?thesis
    unfolding network_simulator_def nw(1) sum.case s' by simp
qed

theorem network_simulator_succeeds_witness:
  "network_simulator netdb_example sim_names word_of_nat = None"
proof (rule network_simulator_succeeds)
  have "address_of_ip netdb_example ''0'' 0 = Inr (inet_address 0 0)"
    by (simp add: address_of_ip_def address_resolve_def netdb_example_def quad_value_def is_digit_def dec_value_def dec_strings numeral_3_eq_3)
  then show "sim_netdb netdb_example"
    using netdb_example_numeric by (simp add: sim_netdb_def)
  show "distinct sim_names"
    by (simp add: sim_names_def)
  show "macs_differ word_of_nat"
    by (simp add: macs_differ_def sim_segment_def sim_macs_def sim_hosts_def sim_rif_def router_mac_def host_mac_def upt_rec
      random_router_ethernet_address_def random_host_ethernet_address_def random_bytes_eq rd_skip_def)
qed simp

text \<open>\<open>check\<close> on well-formed datagrams.\<close>

lemma host_expecting_wf:
  assumes "list_all ip_datagram_wf ds" "ip_datagram_wf d"
  shows "host_expecting ds d = Inr (ip_datagram_bytes d \<in> ip_datagram_bytes ` set ds)"
    and "\<exists>es. host_remove_expectation ds d = Inr es \<and> list_all ip_datagram_wf es \<and>
      image_mset ip_datagram_bytes (mset es) = image_mset ip_datagram_bytes (mset ds) - {#ip_datagram_bytes d#}"
proof -
  have bytes: "dgram_bytes x = Inr (ip_datagram_bytes x)" if "ip_datagram_wf x" for x
    using ip_datagram_serialized [OF that] by (auto simp: dgram_bytes_def)
  then have same: "same_bytes x d = Inr (ip_datagram_bytes x = ip_datagram_bytes d)" if "ip_datagram_wf x" for x
    using that assms(2) by (simp add: same_bytes_def)
  show "host_expecting ds d = Inr (ip_datagram_bytes d \<in> ip_datagram_bytes ` set ds)"
    using assms(1) by (induction ds) (auto simp: same)
  show "\<exists>es. host_remove_expectation ds d = Inr es \<and> list_all ip_datagram_wf es \<and>
      image_mset ip_datagram_bytes (mset es) = image_mset ip_datagram_bytes (mset ds) - {#ip_datagram_bytes d#}"
    using assms(1)
  proof (induction ds)
    case (Cons x ds)
    then show ?case
      by (cases "ip_datagram_bytes x = ip_datagram_bytes d") (auto simp: same)
  qed simp
qed

lemma host_check_received_wf:
  assumes "list_all ip_datagram_wf q" "list_all ip_datagram_wf ds"
  shows "case host_check_received name q ds of (q', es, e) \<Rightarrow>
    (e = None \<and> es = [] \<longleftrightarrow> image_mset ip_datagram_bytes (mset q) = image_mset ip_datagram_bytes (mset ds))"
  using assms
proof (induction q arbitrary: ds)
  case (Cons d q)
  note h = host_expecting_wf [OF Cons.prems(2), of d]
  show ?case
  proof (cases "ip_datagram_bytes d \<in> ip_datagram_bytes ` set ds")
    case True
    obtain es where es: "host_remove_expectation ds d = Inr es" "list_all ip_datagram_wf es"
      "image_mset ip_datagram_bytes (mset es) = image_mset ip_datagram_bytes (mset ds) - {#ip_datagram_bytes d#}"
      using h(2) Cons.prems(1) by auto
    have "ip_datagram_bytes d \<in># image_mset ip_datagram_bytes (mset ds)"
      using True by simp
    then have "image_mset ip_datagram_bytes (mset q) = image_mset ip_datagram_bytes (mset es) \<longleftrightarrow>
        image_mset ip_datagram_bytes (mset (d # q)) = image_mset ip_datagram_bytes (mset ds)"
      using es(3) by (metis add_mset_remove_trivial image_mset_add_mset insert_DiffM mset.simps(2))
    then show ?thesis
      using Cons.IH [OF _ es(2)] Cons.prems(1) h(1) True es(1) by auto
  next
    case False
    then have "image_mset ip_datagram_bytes (mset (d # q)) \<noteq> image_mset ip_datagram_bytes (mset ds)"
      by (metis image_eqI list.set_intros(1) set_image_mset set_mset_mset)
    then show ?thesis
      using False h(1) Cons.prems(1) by simp
  qed
qed simp

text \<open>
  What Host::check checks. It raises no exception exactly when the bytes of the datagrams
  received are, counted with their multiplicity and in any order, those of the datagrams expected.
\<close>

theorem host_check_multiset:
  assumes "list_all ip_datagram_wf (ai_datagrams_out (h_interface h))" "list_all ip_datagram_wf (h_expecting_to_receive h)"
  shows "snd (host_check h) = None \<longleftrightarrow>
    image_mset ip_datagram_bytes (mset (ai_datagrams_out (h_interface h))) =
    image_mset ip_datagram_bytes (mset (h_expecting_to_receive h))"
  using host_check_received_wf [OF assms, of "h_name h"] by (auto simp: host_check_def Let_def split: prod.splits list.splits)

theorem host_check_multiset_witness:
  "snd (host_check \<lparr>h_name = ''dm43'', h_my_address = inet_address 1 0, h_interface = \<lparr>ai_interface = ni_construct [] (inet_address 1 0),
      ai_datagrams_out = [ip_example, dgram_set_ttl 9 ip_example]\<rparr>, h_next_hop = inet_address 2 0,
      h_expecting_to_receive = [dgram_set_ttl 9 ip_example, ip_example]\<rparr>) = None"
proof -
  have "ip_datagram_wf ip_example"
    by (simp add: ip_example_def ip_datagram_wf_def ip_header_wf_def ip_header_fits_def ip_header_default_def bl_concatenate_eq)
  then show ?thesis
    by (subst host_check_multiset) (simp_all add: add_mset_commute)
qed

end
