(* ===== verification/File_Descriptor.thy ===== *)
theory File_Descriptor
  imports Address Tcp_Segment
begin

text \<open>
  \<open>SystemCall\<close> (\<open>libsponge/util/util.cc\<close>), \<open>FileDescriptor\<close> (\<open>file_descriptor.cc\<close>),
  \<open>Socket\<close> and its subclasses (\<open>socket.cc\<close>) and \<open>TunTapFD\<close> (\<open>tun.cc\<close>). What the kernel
  answers is an argument: the return value of a call and the \<open>errno\<close> it leaves, with the data
  it hands over. The kernel behind \<open>writev\<close>, which a loop calls again and again, is a function
  on a state of its own, and \<open>writev_spec\<close> is what its manual promises.
\<close>

section \<open>SystemCall\<close>

text \<open>A return value and an \<open>errno\<close>; \<open>SystemCall\<close> takes the value as a C++ \<open>int\<close>.\<close>

type_synonym sys_result = "int \<times> int"

definition to_c_int :: "int \<Rightarrow> int" where
  "to_c_int i = sint (word_of_int i :: 32 word)"

definition system_call :: "string \<Rightarrow> sys_result \<Rightarrow> int \<Rightarrow> exn + int" where
  "system_call attempt res errno_mask =
     (let return_value = to_c_int (fst res)
      in if 0 \<le> return_value \<or> snd res = errno_mask then Inr return_value
         else Inl (SystemError attempt (snd res)))"

section \<open>FileDescriptor\<close>

record fd_wrapper =
  fd_num :: int
  fd_eof :: bool
  fd_closed :: bool
  fd_read_count :: "32 word"
  fd_write_count :: "32 word"

definition fd_construct :: "int \<Rightarrow> exn + fd_wrapper" where
  "fd_construct fd =
     (if fd < 0 then Inl (RuntimeError (''invalid fd number:-'' @ dec_string (nat (- fd))))
      else Inr \<lparr>fd_num = fd, fd_eof = False, fd_closed = False, fd_read_count = 0, fd_write_count = 0\<rparr>)"

definition fd_register_read :: "fd_wrapper \<Rightarrow> fd_wrapper" where
  "fd_register_read w = w\<lparr>fd_read_count := fd_read_count w + 1\<rparr>"

definition fd_register_write :: "fd_wrapper \<Rightarrow> fd_wrapper" where
  "fd_register_write w = w\<lparr>fd_write_count := fd_write_count w + 1\<rparr>"

definition fd_close :: "sys_result \<Rightarrow> fd_wrapper \<Rightarrow> fd_wrapper \<times> exn option" where
  "fd_close res w =
     (case system_call ''close'' res 0 of
        Inl e \<Rightarrow> (w, Some e)
      | Inr _ \<Rightarrow> (w\<lparr>fd_eof := True, fd_closed := True\<rparr>, None))"

text \<open>The destructor closes what is open and swallows the exception.\<close>

definition fd_destroy :: "sys_result \<Rightarrow> fd_wrapper \<Rightarrow> fd_wrapper" where
  "fd_destroy res w = (if fd_closed w then w else fst (fd_close res w))"

text \<open>\<open>data\<close> is what the kernel writes to the front of the string.\<close>

definition fd_read :: "nat \<Rightarrow> sys_result \<Rightarrow> bytes \<Rightarrow> fd_wrapper \<Rightarrow> fd_wrapper \<times> (exn + bytes)" where
  "fd_read limit res data w =
     (let size_to_read = min (1024 * 1024) limit
      in case system_call ''read'' res 0 of
           Inl e \<Rightarrow> (w, Inl e)
         | Inr bytes_read \<Rightarrow>
             let w = (if 0 < limit \<and> bytes_read = 0 then w\<lparr>fd_eof := True\<rparr> else w)
             in if int size_to_read < bytes_read
                then (w, Inl (RuntimeError ''read() read more than requested''))
                else if bytes_read < 0 then (w, Inl (LengthError ''basic_string::resize''))
                else (fd_register_read w, Inr (string_resize (nat bytes_read) data)))"

type_synonym 'k writev = "'k \<Rightarrow> (bytes \<times> nat) list \<Rightarrow> sys_result \<times> 'k"

lemma to_c_int_range: "- 2147483648 \<le> to_c_int i" "to_c_int i < 2147483648"
  using sint_greater_eq [of "word_of_int i :: 32 word"] sint_less [of "word_of_int i :: 32 word"]
  by (simp_all add: to_c_int_def)

lemma of_ssize_c_int_zero: "of_ssize (to_c_int i) = 0 \<longleftrightarrow> to_c_int i = 0"
proof
  assume z: "of_ssize (to_c_int i) = 0"
  define v where "v = to_c_int i"
  have v: "- 2147483648 \<le> v" "v < 2147483648"
    using to_c_int_range [of i] by (simp_all only: v_def)
  have "v mod int two64 = 0"
  proof (rule antisym)
    show "v mod int two64 \<le> 0"
      using z by (simp add: of_ssize_def v_def [symmetric])
  qed (simp add: two64_def)
  then obtain q where q: "v = int two64 * q"
    by (auto simp: mod_eq_0_iff_dvd dvd_def)
  have "q = 0"
    using q v unfolding two64_def of_nat_numeral by linarith
  then show "to_c_int i = 0"
    using q by (simp add: v_def)
qed (simp add: of_ssize_def)

text \<open>A pass of the loop of \<open>write\<close> that is followed by another one has shrunk the buffer.\<close>

lemma fd_write_shrinks:
  assumes "system_call attempt res 0 = Inr n" "bvl_remove_prefix (of_ssize n) buffer = (buffer', None)"
    and "0 < bvl_size buffer'" "n \<noteq> 0 \<or> bvl_size buffer = 0"
  shows "length (concat buffer') < length (concat buffer)"
proof -
  have n: "n = to_c_int (fst res)"
    using assms(1) by (simp add: system_call_def Let_def split: if_splits)
  have "n \<noteq> 0"
  proof
    assume "n = 0"
    then have "buffer' = buffer"
      using assms(2) by (cases buffer) (auto simp: of_ssize_def)
    then show False
      using assms(3,4) \<open>n = 0\<close> by simp
  qed
  then have "0 < of_ssize n"
    using of_ssize_c_int_zero [of "fst res"] n by simp
  moreover have "of_ssize n \<le> length (concat buffer)"
    using bvl_front.discard_throws [where s = buffer and n = "of_ssize n"] assms(2) by fastforce
  moreover have "concat buffer' = drop (of_ssize n) (concat buffer)"
    using bvl_front.discard_ok [where s = buffer and n = "of_ssize n"] calculation(2) assms(2) by simp
  ultimately show ?thesis
    by simp
qed

function fd_write_loop ::
  "'k writev \<Rightarrow> bool \<Rightarrow> buffer_view_list \<Rightarrow> nat \<Rightarrow> fd_wrapper \<Rightarrow> 'k \<Rightarrow> fd_wrapper \<times> 'k \<times> (exn + nat)" where
  "fd_write_loop writev write_all buffer written w k =
     (let (res, k) = writev k (bvl_as_iovecs buffer)
      in case system_call ''writev'' res 0 of
           Inl e \<Rightarrow> (w, k, Inl e)
         | Inr bytes_written \<Rightarrow>
             if bytes_written = 0 \<and> bvl_size buffer \<noteq> 0
             then (w, k, Inl (RuntimeError ''write returned 0 given non-empty input buffer''))
             else if to_ssize (bvl_size buffer) < bytes_written
             then (w, k, Inl (RuntimeError ''write wrote more than length of input buffer''))
             else let w = fd_register_write w;
                      (buffer', r) = bvl_remove_prefix (of_ssize bytes_written) buffer;
                      written = add64 written (of_ssize bytes_written)
                  in if r \<noteq> None then (w, k, Inl (the r))
                     else if write_all \<and> bvl_size buffer' \<noteq> 0
                     then fd_write_loop writev write_all buffer' written w k
                     else (w, k, Inr written))"
  by auto
termination
  by (relation "measure (\<lambda>(writev, write_all, buffer, written, w, k). length (concat buffer))")
    (auto intro: fd_write_shrinks [OF _ sym])

declare fd_write_loop.simps [simp del]

definition fd_write :: "'k writev \<Rightarrow> bool \<Rightarrow> buffer_view_list \<Rightarrow> fd_wrapper \<Rightarrow> 'k \<Rightarrow> fd_wrapper \<times> 'k \<times> (exn + nat)" where
  "fd_write writev write_all buffer w k = fd_write_loop writev write_all buffer 0 w k"

text \<open>\<open>O_NONBLOCK\<close> is bit 11 of the flags.\<close>

definition fd_set_blocking :: "bool \<Rightarrow> sys_result \<Rightarrow> (int \<Rightarrow> sys_result) \<Rightarrow> exn option" where
  "fd_set_blocking blocking_state getfl setfl =
     (case system_call ''fcntl'' getfl 0 of
        Inl e \<Rightarrow> Some e
      | Inr flags \<Rightarrow>
          let nonblock = (2048 :: int);
              flags = (if blocking_state then Bit_Operations.xor flags (Bit_Operations.and flags nonblock)
                       else Bit_Operations.or flags nonblock)
          in (case system_call ''fcntl'' (setfl flags) 0 of Inl e \<Rightarrow> Some e | Inr _ \<Rightarrow> None))"


section \<open>Socket\<close>

definition socket_construct :: "sys_result \<Rightarrow> exn + fd_wrapper" where
  "socket_construct res = (case system_call ''socket'' res 0 of Inl e \<Rightarrow> Inl e | Inr fd \<Rightarrow> fd_construct fd)"

text \<open>An answer of \<open>getsockopt\<close>: the value and its length beside the result of the call.\<close>

definition socket_from_fd :: "fd_wrapper \<Rightarrow> int \<Rightarrow> int \<Rightarrow> sys_result \<times> int \<times> nat \<Rightarrow> sys_result \<times> int \<times> nat \<Rightarrow> exn + fd_wrapper" where
  "socket_from_fd w domain type dom_answer type_answer =
     (let (res, actual_value, len) = dom_answer
      in case system_call ''getsockopt'' res 0 of
           Inl e \<Rightarrow> Inl e
         | Inr _ \<Rightarrow>
             if len \<noteq> 4 \<or> actual_value \<noteq> domain then Inl (RuntimeError ''socket domain mismatch'')
             else let (res, actual_value, len) = type_answer
                  in (case system_call ''getsockopt'' res 0 of
                        Inl e \<Rightarrow> Inl e
                      | Inr _ \<Rightarrow>
                          if len \<noteq> 4 \<or> actual_value \<noteq> type then Inl (RuntimeError ''socket type mismatch'')
                          else Inr w))"

definition socket_get_address :: "string \<Rightarrow> sys_result \<Rightarrow> bytes \<Rightarrow> nat \<Rightarrow> exn + address" where
  "socket_get_address name_of_function res storage n =
     (case system_call name_of_function res 0 of Inl e \<Rightarrow> Inl e | Inr _ \<Rightarrow> address_construct storage n)"

definition socket_local_address :: "sys_result \<Rightarrow> bytes \<Rightarrow> nat \<Rightarrow> exn + address" where
  "socket_local_address = socket_get_address ''getsockname''"

definition socket_peer_address :: "sys_result \<Rightarrow> bytes \<Rightarrow> nat \<Rightarrow> exn + address" where
  "socket_peer_address = socket_get_address ''getpeername''"

text \<open>Calls of which only the failure matters.\<close>

definition sys_check :: "string \<Rightarrow> sys_result \<Rightarrow> exn option" where
  "sys_check attempt res = (case system_call attempt res 0 of Inl e \<Rightarrow> Some e | Inr _ \<Rightarrow> None)"

definition socket_bind :: "sys_result \<Rightarrow> exn option" where
  "socket_bind res = sys_check ''bind'' res"

definition socket_connect :: "sys_result \<Rightarrow> exn option" where
  "socket_connect res = sys_check ''connect'' res"

definition socket_setsockopt :: "sys_result \<Rightarrow> exn option" where
  "socket_setsockopt res = sys_check ''setsockopt'' res"

abbreviation SHUT_RD :: int where "SHUT_RD \<equiv> 0"
abbreviation SHUT_WR :: int where "SHUT_WR \<equiv> 1"
abbreviation SHUT_RDWR :: int where "SHUT_RDWR \<equiv> 2"

definition socket_shutdown :: "int \<Rightarrow> sys_result \<Rightarrow> fd_wrapper \<Rightarrow> fd_wrapper \<times> exn option" where
  "socket_shutdown how res w =
     (case sys_check ''shutdown'' res of
        Some e \<Rightarrow> (w, Some e)
      | None \<Rightarrow>
          if how = SHUT_RD then (fd_register_read w, None)
          else if how = SHUT_WR then (fd_register_write w, None)
          else if how = SHUT_RDWR then (fd_register_write (fd_register_read w), None)
          else (w, Some (RuntimeError ''Socket::shutdown() called with invalid `how`'')))"

section \<open>UDPSocket and TCPSocket\<close>

record received_datagram =
  rd_source_address :: address
  rd_payload :: bytes

text \<open>
  What \<open>recvfrom\<close> hands over: with \<open>MSG_TRUNC\<close> it returns the length of the datagram even
  when that does not fit.
\<close>

definition udp_recv :: "nat \<Rightarrow> sys_result \<Rightarrow> bytes \<Rightarrow> bytes \<Rightarrow> nat \<Rightarrow> fd_wrapper \<Rightarrow> fd_wrapper \<times> (exn + received_datagram)" where
  "udp_recv mtu res data source_storage fromlen w =
     (case system_call ''recvfrom'' res 0 of
        Inl e \<Rightarrow> (w, Inl e)
      | Inr recv_len \<Rightarrow>
          if to_ssize mtu < recv_len then (w, Inl (RuntimeError ''recvfrom (oversized datagram)''))
          else let w = fd_register_read w
               in (case address_construct source_storage fromlen of
                     Inl e \<Rightarrow> (w, Inl e)
                   | Inr a \<Rightarrow>
                       if recv_len < 0 then (w, Inl (LengthError ''basic_string::resize''))
                       else (w, Inr \<lparr>rd_source_address = a, rd_payload = string_resize (nat recv_len) data\<rparr>)))"

definition sendmsg_helper :: "sys_result \<Rightarrow> buffer_view_list \<Rightarrow> exn option" where
  "sendmsg_helper res payload =
     (case system_call ''sendmsg'' res 0 of
        Inl e \<Rightarrow> Some e
      | Inr bytes_sent \<Rightarrow>
          if of_ssize bytes_sent \<noteq> bvl_size payload
          then Some (RuntimeError ''datagram payload too big for sendmsg()'') else None)"

text \<open>The datagrams that left are kept beside the descriptor, with their destinations.\<close>

definition udp_sendto :: "address \<Rightarrow> sys_result \<Rightarrow> buffer_view_list \<Rightarrow> fd_wrapper \<Rightarrow> fd_wrapper \<times> (exn + address \<times> bytes)" where
  "udp_sendto destination res payload w =
     (case sendmsg_helper res payload of
        Some e \<Rightarrow> (w, Inl e)
      | None \<Rightarrow> (fd_register_write w, Inr (destination, concat payload)))"

definition udp_send :: "sys_result \<Rightarrow> buffer_view_list \<Rightarrow> fd_wrapper \<Rightarrow> fd_wrapper \<times> (exn + bytes)" where
  "udp_send res payload w =
     (case sendmsg_helper res payload of
        Some e \<Rightarrow> (w, Inl e)
      | None \<Rightarrow> (fd_register_write w, Inr (concat payload)))"

definition tcp_listen :: "sys_result \<Rightarrow> exn option" where
  "tcp_listen res = sys_check ''listen'' res"

text \<open>\<open>AF_INET\<close> and \<open>SOCK_STREAM\<close> are what the accepted socket is checked against.\<close>

definition tcp_accept :: "sys_result \<Rightarrow> sys_result \<times> int \<times> nat \<Rightarrow> sys_result \<times> int \<times> nat \<Rightarrow>
    fd_wrapper \<Rightarrow> fd_wrapper \<times> (exn + fd_wrapper)" where
  "tcp_accept res dom_answer type_answer w =
     (let w = fd_register_read w
      in case system_call ''accept'' res 0 of
           Inl e \<Rightarrow> (w, Inl e)
         | Inr fd \<Rightarrow>
             (case fd_construct fd of
                Inl e \<Rightarrow> (w, Inl e)
              | Inr new \<Rightarrow> (w, socket_from_fd new 2 1 dom_answer type_answer)))"

section \<open>TunTapFD\<close>

text \<open>The request of the \<open>ioctl\<close>: sixteen bytes of name, the last of them zero, and the flags.\<close>

definition tun_ifr_flags :: "bool \<Rightarrow> 16 word" where
  "tun_ifr_flags is_tun = Bit_Operations.or (if is_tun then 0x0001 else 0x0002) 0x1000"

definition tun_ifr_name :: "bytes \<Rightarrow> bytes" where
  "tun_ifr_name devname =
     (let name = takeWhile (\<lambda>c. c \<noteq> 0) (take 15 devname)
      in name @ replicate (15 - length name) 0 @ [0])"

definition tuntap_construct :: "bytes \<Rightarrow> bool \<Rightarrow> sys_result \<Rightarrow> (bytes \<times> 16 word \<Rightarrow> sys_result) \<Rightarrow> exn + fd_wrapper" where
  "tuntap_construct devname is_tun open_res ioctl =
     (case system_call ''open'' open_res 0 of
        Inl e \<Rightarrow> Inl e
      | Inr fd \<Rightarrow>
          (case fd_construct fd of
             Inl e \<Rightarrow> Inl e
           | Inr w \<Rightarrow>
               (case sys_check ''ioctl'' (ioctl (tun_ifr_name devname, tun_ifr_flags is_tun)) of
                  Some e \<Rightarrow> Inl e
                | None \<Rightarrow> Inr w)))"

lemma length_tun_ifr_name: "length (tun_ifr_name devname) = 16 \<and> last (tun_ifr_name devname) = 0"
proof -
  have "length (takeWhile (\<lambda>c. c \<noteq> 0) (take 15 devname)) \<le> 15"
    using length_takeWhile_le [of "\<lambda>c. c \<noteq> 0" "take 15 devname"] by simp
  then show ?thesis
    by (simp add: tun_ifr_name_def Let_def)
qed

section \<open>What the kernel promises for \<open>writev\<close>\<close>

text \<open>
  \<open>writev(2)\<close>: on success it takes as many bytes as it returns, from the front, and it takes
  fewer than 2147483648 at a time; on failure it sets \<open>errno\<close> and takes none. \<open>out k\<close> are the bytes
  taken so far.
\<close>

definition writev_spec :: "'k writev \<Rightarrow> ('k \<Rightarrow> bytes) \<Rightarrow> bool" where
  "writev_spec writev out \<longleftrightarrow> (\<forall>k iov.
     let ((rv, errno), k') = writev k iov; data = concat (map fst iov)
     in (rv < 0 \<longrightarrow> rv = -1 \<and> errno \<noteq> 0 \<and> out k' = out k) \<and>
        (0 \<le> rv \<longrightarrow> rv < 2147483648 \<and> nat rv \<le> length data \<and> out k' = out k @ take (nat rv) data))"

lemma to_c_int_small: "- 2147483648 \<le> i \<Longrightarrow> i < 2147483648 \<Longrightarrow> to_c_int i = i"
  by (simp add: to_c_int_def sint_sbintrunc' signed_take_bit_int_eq_self)

text \<open>A read that returned handed over the kernel's bytes; the number of a descriptor never changes.\<close>

lemma fd_read_data:
  assumes "fd_read n (rv, errno) bs w = (w', Inr data)" "rv < 0 \<Longrightarrow> rv = -1 \<and> errno \<noteq> 0"
    and "0 \<le> rv \<Longrightarrow> nat rv \<le> min (1024 * 1024) n \<and> length bs = nat rv"
  shows "0 \<le> rv \<and> data = bs \<and> length data \<le> n"
proof -
  have pos: "0 \<le> rv"
  proof (rule ccontr)
    assume "\<not> 0 \<le> rv"
    then have "rv = -1" "errno \<noteq> 0"
      using assms(2) by auto
    then show False
      using assms(1) by (simp add: fd_read_def system_call_def to_c_int_small Let_def)
  qed
  then have len: "nat rv \<le> 1024 * 1024" "nat rv \<le> n" "length bs = nat rv"
    using assms(3) by simp_all
  have "system_call ''read'' (rv, errno) 0 = Inr rv"
    using len(1) pos by (simp add: system_call_def to_c_int_small Let_def)
  then have "data = string_resize (nat rv) bs"
    using assms(1) by (auto simp: fd_read_def Let_def split: if_splits)
  then show ?thesis
    using len pos by (simp add: string_resize_def)
qed

lemma fd_num_kept:
  "fd_read n res bs w = (w', r) \<Longrightarrow> fd_num w' = fd_num w"
  "socket_shutdown how res w = (w', e) \<Longrightarrow> fd_num w' = fd_num w"
  "fd_close res w = (w', e) \<Longrightarrow> fd_num w' = fd_num w"
  by (auto simp: fd_read_def socket_shutdown_def fd_close_def Let_def fd_register_read_def fd_register_write_def
    split: sum.splits if_splits option.splits)

lemma fd_write_num:
  assumes "fd_write writev False l w k = (w', k', r)"
  shows "fd_num w' = fd_num w"
  using assms unfolding fd_write_def fd_write_loop.simps [of writev False l]
  by (auto simp: Let_def fd_register_write_def split: prod.splits sum.splits if_splits)

text \<open>Without \<open>write_all\<close> there is one call.\<close>

lemma fd_write_once:
  assumes "fd_write writev False l w k = (w', k', r)"
  shows "k' = snd (writev k (bvl_as_iovecs l))"
  using assms unfolding fd_write_def fd_write_loop.simps [of writev False l]
  by (auto simp: Let_def split: prod.splits sum.splits if_splits)

lemma bvl_size_eq: "length (concat l) < two64 \<Longrightarrow> bvl_size l = length (concat l)"
proof -
  have "foldl (\<lambda>ret v. add64 ret (length v)) acc l = acc + length (concat l)" if "acc + length (concat l) < two64" for acc
    using that by (induction l arbitrary: acc) (auto simp: add64_small)
  from this [of 0] show "length (concat l) < two64 \<Longrightarrow> ?thesis"
    by (simp add: bvl_size_def)
qed

text \<open>What \<open>write\<close> may throw with such a kernel.\<close>

definition write_failure :: "exn \<Rightarrow> bool" where
  "write_failure e \<longleftrightarrow> (\<exists>n. e = SystemError ''writev'' n) \<or> e = RuntimeError ''write returned 0 given non-empty input buffer''"

lemma fd_write_loop_spec:
  assumes "writev_spec writev out" "length (concat buffer) < two63" "written + length (concat buffer) < two64"
    and "fd_write_loop writev write_all buffer written w k = (w', k', r)"
  shows "\<exists>n \<le> length (concat buffer). out k' = out k @ take n (concat buffer) \<and>
    (case r of Inr m \<Rightarrow> m = written + n \<and> (write_all \<longrightarrow> n = length (concat buffer)) | Inl e \<Rightarrow> write_failure e)"
  using assms(2-4)
proof (induction "length (concat buffer)" arbitrary: buffer written w k rule: less_induct)
  case less
  obtain rv errno k1 where call: "writev k (bvl_as_iovecs buffer) = ((rv, errno), k1)"
    by (cases "writev k (bvl_as_iovecs buffer)") auto
  have data: "concat (map fst (bvl_as_iovecs buffer)) = concat buffer"
    by (simp add: bvl_as_iovecs_def comp_def)
  have size: "bvl_size buffer = length (concat buffer)" "to_ssize (bvl_size buffer) = int (length (concat buffer))"
    using bvl_size_eq [of buffer] less.prems(1,2) by (simp_all add: to_ssize_small)
  have kernel: "rv < 0 \<Longrightarrow> rv = -1 \<and> errno \<noteq> 0 \<and> out k1 = out k"
    "0 \<le> rv \<Longrightarrow> rv < 2147483648 \<and> nat rv \<le> length (concat buffer) \<and> out k1 = out k @ take (nat rv) (concat buffer)"
    using assms(1) call data unfolding writev_spec_def Let_def by (metis (mono_tags, lifting) case_prod_conv)+
  note loop = less.prems(3) [unfolded fd_write_loop.simps [of writev write_all buffer] call Let_def prod.case]
  show ?case
  proof (cases "rv < 0")
    case True
    then have "system_call ''writev'' (rv, errno) 0 = Inl (SystemError ''writev'' errno)"
      using kernel(1) by (simp add: system_call_def to_c_int_small Let_def)
    then show ?thesis
      using loop True kernel(1) by (intro exI [of _ 0]) (auto simp: write_failure_def)
  next
    case False
    then have rv: "0 \<le> rv" "rv < 2147483648" "nat rv \<le> length (concat buffer)" "out k1 = out k @ take (nat rv) (concat buffer)"
      using kernel(2) by auto
    then have sys: "system_call ''writev'' (rv, errno) 0 = Inr rv"
      by (simp add: system_call_def to_c_int_small Let_def)
    have n: "of_ssize rv = nat rv"
      using rv(1,2) of_ssize_nat [of "nat rv"] by (simp add: two64_def)
    obtain buffer' where rem: "bvl_remove_prefix (of_ssize rv) buffer = (buffer', None)"
      "concat buffer' = drop (nat rv) (concat buffer)"
      using bvl_front.discard_ok [where s = buffer and n = "nat rv"] rv(3) n
      by (cases "bvl_remove_prefix (of_ssize rv) buffer") auto
    show ?thesis
    proof (cases "rv = 0 \<and> bvl_size buffer \<noteq> 0")
      case True
      then show ?thesis
        using loop sys rv(4) by (intro exI [of _ 0]) (auto simp: write_failure_def)
    next
      case nz: False
      have fits: "\<not> to_ssize (bvl_size buffer) < rv"
        using rv(1,3) size(2) by linarith
      have wr: "add64 written (of_ssize rv) = written + nat rv"
        using less.prems(2) rv(3) n by (simp add: add64_small)
      have size': "bvl_size buffer' = length (concat buffer')"
        using bvl_size_eq [of buffer'] less.prems(2) rem(2) by simp
      have run: "(if write_all \<and> bvl_size buffer' \<noteq> 0
          then fd_write_loop writev write_all buffer' (written + nat rv) (fd_register_write w) k1
          else (fd_register_write w, k1, Inr (written + nat rv))) = (w', k', r)"
        using loop by (simp only: sys sum.case if_not_P [OF nz] if_not_P [OF fits] rem(1) prod.case wr simp_thms if_False)
      show ?thesis
      proof (cases "write_all \<and> bvl_size buffer' \<noteq> 0")
        case True
        have "length (concat buffer') < length (concat buffer)"
          by (rule fd_write_shrinks [OF sys rem(1)]) (use True nz in auto)
        moreover have "length (concat buffer') < two63" "written + nat rv + length (concat buffer') < two64"
          using less.prems(1,2) rem(2) rv(3) by auto
        moreover have "fd_write_loop writev write_all buffer' (written + nat rv) (fd_register_write w) k1 = (w', k', r)"
          using run True by simp
        ultimately obtain m where m: "m \<le> length (concat buffer')" "out k' = out k1 @ take m (concat buffer')"
          "case r of Inr x \<Rightarrow> x = written + nat rv + m \<and> (write_all \<longrightarrow> m = length (concat buffer')) | Inl e \<Rightarrow> write_failure e"
          using less.hyps by blast
        have "take (nat rv + m) (concat buffer) = take (nat rv) (concat buffer) @ take m (concat buffer')"
          using rem(2) by (simp add: take_add)
        then show ?thesis
          using m rv(3,4) rem(2) by (intro exI [of _ "nat rv + m"]) (auto split: sum.splits)
      next
        case False
        then have "k' = k1" "r = Inr (written + nat rv)"
          using run by auto
        then show ?thesis
          using False rv(3,4) rem(2) size' by (intro exI [of _ "nat rv"]) auto
      qed
    qed
  qed
qed

section \<open>Properties\<close>

text \<open>
  C33: Writing ends and loses nothing. With a kernel that keeps the promise of writev, write
  returns for every buffer of less than 9223372036854775808 bytes: the kernel has then taken a prefix of
  the bytes, in order and once; the number returned is the length of that prefix; with write_all
  it is the whole buffer; the only exceptions are a failed writev and a kernel that takes
  nothing.
\<close>

theorem fd_write_delivers:
  assumes "writev_spec writev out" "length (concat buffer) < two63"
  shows "let (w', k', r) = fd_write writev write_all buffer w k in
    \<exists>n \<le> length (concat buffer). out k' = out k @ take n (concat buffer) \<and>
      (case r of Inr m \<Rightarrow> m = n \<and> (write_all \<longrightarrow> n = length (concat buffer)) | Inl e \<Rightarrow> write_failure e)"
proof -
  obtain w' k' r where "fd_write_loop writev write_all buffer 0 w k = (w', k', r)"
    by (cases "fd_write_loop writev write_all buffer 0 w k")
  moreover have "0 + length (concat buffer) < two64"
    using assms(2) two_powers(6) by linarith
  ultimately show ?thesis
    using fd_write_loop_spec [OF assms, of 0 write_all w k w' k' r] by (simp only: fd_write_def Let_def prod.case add_0)
qed

text \<open>A kernel that takes at most three bytes at a time, and an open descriptor.\<close>

definition fd_example :: fd_wrapper where
  "fd_example = \<lparr>fd_num = 3, fd_eof = False, fd_closed = False, fd_read_count = 0, fd_write_count = 0\<rparr>"

definition writev_example :: "bytes writev" where
  "writev_example k iov =
     (let data = concat (map fst iov); n = min 3 (length data) in ((int n, 0), k @ take n data))"

theorem fd_write_delivers_witness:
  "let (w', k', r) = fd_write writev_example True [[1, 2], [3, 4, 5]] fd_example [] in
    (case r of Inr m \<Rightarrow> k' = [1, 2, 3, 4, 5] \<and> m = 5 | Inl e \<Rightarrow> write_failure e)"
proof -
  have "writev_spec writev_example id"
    by (auto simp: writev_spec_def writev_example_def Let_def)
  from fd_write_delivers [OF this, of "[[1, 2], [3, 4, 5]]" True fd_example "[]"] show ?thesis
    by (auto simp: split_beta two63_def split: sum.splits)
qed

end
