(* ===== verification/Adapters.thy ===== *)
theory Adapters
  imports Router File_Descriptor
begin

text \<open>
  The adapters between a TCP connection and a network (\<open>libsponge/tcp_helpers/\<close>): over UDP
  (\<open>fd_adapter.cc\<close>), over IPv4 (\<open>tcp_over_ip.cc\<close>), over a TUN or a TAP device
  (\<open>tuntap_adapter.hh\<close>, \<open>tuntap_adapter.cc\<close>), and the one that drops segments at random
  (\<open>lossy_fd_adapter.hh\<close>). What the kernel and the random engine return is an argument.
\<close>

section \<open>FdAdapterBase\<close>

record fd_adapter_config =
  fac_source :: address
  fac_destination :: address
  fac_loss_rate_dn :: "16 word"
  fac_loss_rate_up :: "16 word"

text \<open>The two addresses are looked up by their default initialisers.\<close>

definition fac_default :: "netdb \<Rightarrow> exn + fd_adapter_config" where
  "fac_default nd =
     (case address_of_ip nd ''0'' 0 of
        Inl e \<Rightarrow> Inl e
      | Inr source \<Rightarrow>
          (case address_of_ip nd ''0'' 0 of
             Inl e \<Rightarrow> Inl e
           | Inr destination \<Rightarrow> Inr \<lparr>fac_source = source, fac_destination = destination,
               fac_loss_rate_dn = 0, fac_loss_rate_up = 0\<rparr>))"

record fd_adapter =
  fa_cfg :: fd_adapter_config
  fa_listen :: bool

definition fa_construct :: "fd_adapter_config \<Rightarrow> fd_adapter" where
  "fa_construct cfg = \<lparr>fa_cfg = cfg, fa_listen = False\<rparr>"

definition fa_set_listening :: "bool \<Rightarrow> fd_adapter \<Rightarrow> fd_adapter" where
  "fa_set_listening l a = a\<lparr>fa_listen := l\<rparr>"

definition fa_set_config :: "fd_adapter_config \<Rightarrow> fd_adapter \<Rightarrow> fd_adapter" where
  "fa_set_config cfg a = a\<lparr>fa_cfg := cfg\<rparr>"

definition fa_tick :: "nat \<Rightarrow> fd_adapter \<Rightarrow> fd_adapter" where
  "fa_tick ms a = a"

section \<open>TCPOverUDPSocketAdapter\<close>

record udp_adapter =
  ua_base :: fd_adapter
  ua_sock :: fd_wrapper

text \<open>After \<open>_sock.recv()\<close> has returned a datagram.\<close>

definition ua_accept :: "received_datagram \<Rightarrow> fd_adapter \<Rightarrow> fd_adapter \<times> tcp_segment option" where
  "ua_accept datagram a =
     (if \<not> fa_listen a \<and> \<not> address_eq (rd_source_address datagram) (fac_destination (fa_cfg a)) then (a, None)
      else let (r, seg) = tcp_segment_parse tcp_segment_default (buffer_of (rd_payload datagram)) 0
           in if r \<noteq> NoError then (a, None)
              else if fa_listen a
              then if th_syn (seg_header seg) \<and> \<not> th_rst (seg_header seg)
                   then (fa_set_listening False
                     (a\<lparr>fa_cfg := (fa_cfg a)\<lparr>fac_destination := rd_source_address datagram\<rparr>\<rparr>), Some seg)
                   else (a, None)
              else (a, Some seg))"

definition ua_read :: "sys_result \<Rightarrow> bytes \<Rightarrow> bytes \<Rightarrow> nat \<Rightarrow> udp_adapter \<Rightarrow> udp_adapter \<times> (exn + tcp_segment option)" where
  "ua_read res data source_storage fromlen ua =
     (case udp_recv 65536 res data source_storage fromlen (ua_sock ua) of
        (sock, Inl e) \<Rightarrow> (ua\<lparr>ua_sock := sock\<rparr>, Inl e)
      | (sock, Inr datagram) \<Rightarrow>
          let (a, seg) = ua_accept datagram (ua_base ua) in (ua\<lparr>ua_base := a, ua_sock := sock\<rparr>, Inr seg))"

definition tcp_set_ports :: "16 word \<Rightarrow> 16 word \<Rightarrow> tcp_segment \<Rightarrow> tcp_segment" where
  "tcp_set_ports sport dport seg = seg\<lparr>seg_header := (seg_header seg)\<lparr>th_sport := sport, th_dport := dport\<rparr>\<rparr>"

definition ua_write :: "netdb \<Rightarrow> sys_result \<Rightarrow> tcp_segment \<Rightarrow> udp_adapter \<Rightarrow> udp_adapter \<times> (exn + address \<times> bytes)" where
  "ua_write nd res seg ua =
     (case address_port nd (fac_source (fa_cfg (ua_base ua))) of
        Inl e \<Rightarrow> (ua, Inl e)
      | Inr sport \<Rightarrow>
          (case address_port nd (fac_destination (fa_cfg (ua_base ua))) of
             Inl e \<Rightarrow> (ua, Inl e)
           | Inr dport \<Rightarrow>
               (case tcp_segment_serialize (tcp_set_ports sport dport seg) 0 of
                  Inl e \<Rightarrow> (ua, Inl e)
                | Inr l \<Rightarrow>
                    let (sock, r) = udp_sendto (fac_destination (fa_cfg (ua_base ua))) res (bvl_of_bl l) (ua_sock ua)
                    in (ua\<lparr>ua_sock := sock\<rparr>, r))))"

section \<open>LossyFdAdapter\<close>

text \<open>\<open>rnd\<close> is what the random engine returns; the loss rate is a 16-bit fraction.\<close>

definition should_drop :: "fd_adapter_config \<Rightarrow> bool \<Rightarrow> 32 word \<Rightarrow> bool" where
  "should_drop cfg uplink rnd =
     (let loss = (if uplink then fac_loss_rate_up cfg else fac_loss_rate_dn cfg)
      in loss \<noteq> 0 \<and> (ucast rnd :: 16 word) < loss)"

definition lossy_read :: "('a \<Rightarrow> fd_adapter_config) \<Rightarrow> ('a \<Rightarrow> 'a \<times> (exn + tcp_segment option)) \<Rightarrow> 32 word \<Rightarrow>
    'a \<Rightarrow> 'a \<times> (exn + tcp_segment option)" where
  "lossy_read config read rnd a =
     (case read a of
        (a, Inl e) \<Rightarrow> (a, Inl e)
      | (a, Inr ret) \<Rightarrow> (a, Inr (if should_drop (config a) False rnd then None else ret)))"

definition lossy_write :: "('a \<Rightarrow> fd_adapter_config) \<Rightarrow> (tcp_segment \<Rightarrow> 'a \<Rightarrow> 'a \<times> exn option) \<Rightarrow> 32 word \<Rightarrow>
    tcp_segment \<Rightarrow> 'a \<Rightarrow> 'a \<times> exn option" where
  "lossy_write config write rnd seg a = (if should_drop (config a) True rnd then (a, None) else write seg a)"

section \<open>TCPOverIPv4Adapter\<close>

text \<open>The configuration that listening takes from a SYN: who called, and which address was called.\<close>

definition fa_target :: "netdb \<Rightarrow> ipv4_header \<Rightarrow> 16 word \<Rightarrow> fd_adapter \<Rightarrow> fd_adapter \<times> exn option" where
  "fa_target nd h sport a =
     (case address_port nd (fac_source (fa_cfg a)) of
        Inl e \<Rightarrow> (a, Some e)
      | Inr port \<Rightarrow>
          (case address_of_ip nd (inet_ntoa (ip_dst h)) port of
             Inl e \<Rightarrow> (a, Some e)
           | Inr source \<Rightarrow>
               let a = a\<lparr>fa_cfg := (fa_cfg a)\<lparr>fac_source := source\<rparr>\<rparr>
               in (case address_of_ip nd (inet_ntoa (ip_src h)) sport of
                     Inl e \<Rightarrow> (a, Some e)
                   | Inr destination \<Rightarrow>
                       (fa_set_listening False (a\<lparr>fa_cfg := (fa_cfg a)\<lparr>fac_destination := destination\<rparr>\<rparr>), None))))"

text \<open>Is the datagram one of the connection's two hosts, as far as it has a peer yet?\<close>

definition fa_hosts_match :: "ipv4_header \<Rightarrow> fd_adapter \<Rightarrow> exn + bool" where
  "fa_hosts_match h a =
     (if fa_listen a then Inr True
      else case ipv4_numeric (fac_source (fa_cfg a)) of
        Inl e \<Rightarrow> Inl e
      | Inr source \<Rightarrow>
          if ip_dst h \<noteq> source then Inr False
          else (case ipv4_numeric (fac_destination (fa_cfg a)) of
                  Inl e \<Rightarrow> Inl e
                | Inr destination \<Rightarrow> Inr (ip_src h = destination)))"

text \<open>After the TCP segment has been parsed.\<close>

definition fa_ports :: "netdb \<Rightarrow> ipv4_header \<Rightarrow> tcp_segment \<Rightarrow> fd_adapter \<Rightarrow> fd_adapter \<times> (exn + tcp_segment option)" where
  "fa_ports nd h tcp_seg a =
     (case address_port nd (fac_source (fa_cfg a)) of
        Inl e \<Rightarrow> (a, Inl e)
      | Inr port \<Rightarrow>
          if th_dport (seg_header tcp_seg) \<noteq> port then (a, Inr None)
          else if fa_listen a \<and> \<not> (th_syn (seg_header tcp_seg) \<and> \<not> th_rst (seg_header tcp_seg)) then (a, Inr None)
          else (case (if fa_listen a then fa_target nd h (th_sport (seg_header tcp_seg)) a else (a, None)) of
                  (a, Some e) \<Rightarrow> (a, Inl e)
                | (a, None) \<Rightarrow>
                    (case address_port nd (fac_destination (fa_cfg a)) of
                       Inl e \<Rightarrow> (a, Inl e)
                     | Inr peer \<Rightarrow> (a, Inr (if th_sport (seg_header tcp_seg) \<noteq> peer then None else Some tcp_seg)))))"

definition unwrap_tcp_in_ip :: "netdb \<Rightarrow> ipv4_datagram \<Rightarrow> fd_adapter \<Rightarrow> fd_adapter \<times> (exn + tcp_segment option)" where
  "unwrap_tcp_in_ip nd ip_dgram a =
     (case fa_hosts_match (ipd_header ip_dgram) a of
        Inl e \<Rightarrow> (a, Inl e)
      | Inr hosts \<Rightarrow>
          if \<not> hosts then (a, Inr None)
          else if ip_proto (ipd_header ip_dgram) \<noteq> PROTO_TCP then (a, Inr None)
          else (case bl_to_buffer (ipd_payload ip_dgram) of
                  Inl e \<Rightarrow> (a, Inl e)
                | Inr payload \<Rightarrow>
                    let (r, tcp_seg) = tcp_segment_parse tcp_segment_default payload (ip_pseudo_cksum (ipd_header ip_dgram))
                    in if r \<noteq> NoError then (a, Inr None) else fa_ports nd (ipd_header ip_dgram) tcp_seg a))"

definition wrap_tcp_in_ip :: "netdb \<Rightarrow> tcp_segment \<Rightarrow> fd_adapter \<Rightarrow> exn + ipv4_datagram" where
  "wrap_tcp_in_ip nd seg a =
     (let cfg = fa_cfg a
      in case address_port nd (fac_source cfg) of
           Inl e \<Rightarrow> Inl e
         | Inr sport \<Rightarrow>
             (case address_port nd (fac_destination cfg) of
                Inl e \<Rightarrow> Inl e
              | Inr dport \<Rightarrow>
                  let seg = tcp_set_ports sport dport seg
                  in (case ipv4_numeric (fac_source cfg) of
                        Inl e \<Rightarrow> Inl e
                      | Inr src \<Rightarrow>
                          (case ipv4_numeric (fac_destination cfg) of
                             Inl e \<Rightarrow> Inl e
                           | Inr dst \<Rightarrow>
                               let h = ip_header_default\<lparr>ip_src := src, ip_dst := dst\<rparr>;
                                   h = h\<lparr>ip_len := word_of_nat (unat (ip_hlen h) * 4 +
                                     unat (th_doff (seg_header seg)) * 4 + buffer_size (seg_payload seg))\<rparr>
                               in (case tcp_segment_serialize seg (ip_pseudo_cksum h) of
                                     Inl e \<Rightarrow> Inl e
                                   | Inr l \<Rightarrow> Inr \<lparr>ipd_header = h, ipd_payload = l\<rparr>)))))"

section \<open>The devices\<close>

record tun_adapter =
  tu_base :: fd_adapter
  tu_fd :: fd_wrapper

definition tu_read :: "netdb \<Rightarrow> sys_result \<Rightarrow> bytes \<Rightarrow> tun_adapter \<Rightarrow> tun_adapter \<times> (exn + tcp_segment option)" where
  "tu_read nd res data t =
     (case fd_read 18446744073709551615 res data (tu_fd t) of
        (w, Inl e) \<Rightarrow> (t\<lparr>tu_fd := w\<rparr>, Inl e)
      | (w, Inr s) \<Rightarrow>
          let t = t\<lparr>tu_fd := w\<rparr>; (r, ip_dgram) = ip_datagram_parse ip_datagram_default (buffer_of s)
          in if r \<noteq> NoError then (t, Inr None)
             else let (a, seg) = unwrap_tcp_in_ip nd ip_dgram (tu_base t) in (t\<lparr>tu_base := a\<rparr>, seg))"

definition tu_write :: "netdb \<Rightarrow> 'k writev \<Rightarrow> tcp_segment \<Rightarrow> tun_adapter \<Rightarrow> 'k \<Rightarrow> tun_adapter \<times> 'k \<times> exn option" where
  "tu_write nd writev seg t k =
     (case wrap_tcp_in_ip nd seg (tu_base t) of
        Inl e \<Rightarrow> (t, k, Some e)
      | Inr d \<Rightarrow>
          (case ip_datagram_serialize d of
             Inl e \<Rightarrow> (t, k, Some e)
           | Inr l \<Rightarrow>
               let (w, k, r) = fd_write writev True (bvl_of_bl l) (tu_fd t) k
               in (t\<lparr>tu_fd := w\<rparr>, k, case r of Inl e \<Rightarrow> Some e | Inr _ \<Rightarrow> None)))"

record tap_adapter =
  ta_base :: fd_adapter
  ta_tap :: fd_wrapper
  ta_interface :: network_interface
  ta_next_hop :: address

text \<open>The constructor writes a first frame that Linux ignores.\<close>

definition ta_construct :: "fd_adapter \<Rightarrow> fd_wrapper \<Rightarrow> ethernet_address \<Rightarrow> address \<Rightarrow> address \<Rightarrow>
    'k writev \<Rightarrow> 'k \<Rightarrow> tap_adapter \<times> 'k \<times> exn option" where
  "ta_construct base tap eth_address ip_address next_hop writev k =
     (let (w, k, r) = fd_write writev True (bvl_of_bl (eth_frame_serialize eth_frame_default)) tap k
      in (\<lparr>ta_base = base, ta_tap = w, ta_interface = ni_construct eth_address ip_address, ta_next_hop = next_hop\<rparr>, k,
          case r of Inl e \<Rightarrow> Some e | Inr _ \<Rightarrow> None))"

text \<open>The loop of \<open>send_pending\<close>: what is left in the queue, the device, the kernel.\<close>

fun ta_send_loop :: "'k writev \<Rightarrow> ethernet_frame list \<Rightarrow> fd_wrapper \<Rightarrow> 'k \<Rightarrow> ethernet_frame list \<times> fd_wrapper \<times> 'k \<times> exn option" where
  "ta_send_loop writev [] w k = ([], w, k, None)"
| "ta_send_loop writev (f # fs) w k =
     (case fd_write writev True (bvl_of_bl (eth_frame_serialize f)) w k of
        (w, k, Inl e) \<Rightarrow> (f # fs, w, k, Some e)
      | (w, k, Inr _) \<Rightarrow> ta_send_loop writev fs w k)"

definition ta_send_pending :: "'k writev \<Rightarrow> tap_adapter \<Rightarrow> 'k \<Rightarrow> tap_adapter \<times> 'k \<times> exn option" where
  "ta_send_pending writev t k =
     (let (fs, w, k, r) = ta_send_loop writev (ni_frames_out (ta_interface t)) (ta_tap t) k
      in (t\<lparr>ta_tap := w, ta_interface := (ta_interface t)\<lparr>ni_frames_out := fs\<rparr>\<rparr>, k, r))"

definition ta_read :: "netdb \<Rightarrow> sys_result \<Rightarrow> bytes \<Rightarrow> 'k writev \<Rightarrow> tap_adapter \<Rightarrow> 'k \<Rightarrow>
    tap_adapter \<times> 'k \<times> (exn + tcp_segment option)" where
  "ta_read nd res data writev t k =
     (case fd_read 18446744073709551615 res data (ta_tap t) of
        (w, Inl e) \<Rightarrow> (t\<lparr>ta_tap := w\<rparr>, k, Inl e)
      | (w, Inr s) \<Rightarrow>
          let t = t\<lparr>ta_tap := w\<rparr>; (r, frame) = eth_frame_parse eth_frame_default (buffer_of s)
          in if r \<noteq> NoError then (t, k, Inr None)
             else (case ni_recv_frame frame (ta_interface t) of
                    (ni, Inl e) \<Rightarrow> (t\<lparr>ta_interface := ni\<rparr>, k, Inl e)
                  | (ni, Inr ip_dgram) \<Rightarrow>
                      (case ta_send_pending writev (t\<lparr>ta_interface := ni\<rparr>) k of
                         (t, k, Some e) \<Rightarrow> (t, k, Inl e)
                       | (t, k, None) \<Rightarrow>
                           (case ip_dgram of
                              None \<Rightarrow> (t, k, Inr None)
                            | Some d \<Rightarrow> let (a, seg) = unwrap_tcp_in_ip nd d (ta_base t) in (t\<lparr>ta_base := a\<rparr>, k, seg)))))"

definition ta_tick :: "32 word list \<Rightarrow> nat \<Rightarrow> 'k writev \<Rightarrow> tap_adapter \<Rightarrow> 'k \<Rightarrow> tap_adapter \<times> 'k \<times> exn option" where
  "ta_tick ips ms writev t k =
     (case ni_tick ips ms (ta_interface t) of
        (ni, Some e) \<Rightarrow> (t\<lparr>ta_interface := ni\<rparr>, k, Some e)
      | (ni, None) \<Rightarrow> ta_send_pending writev (t\<lparr>ta_interface := ni\<rparr>) k)"

definition ta_write :: "netdb \<Rightarrow> 'k writev \<Rightarrow> tcp_segment \<Rightarrow> tap_adapter \<Rightarrow> 'k \<Rightarrow> tap_adapter \<times> 'k \<times> exn option" where
  "ta_write nd writev seg t k =
     (case wrap_tcp_in_ip nd seg (ta_base t) of
        Inl e \<Rightarrow> (t, k, Some e)
      | Inr d \<Rightarrow>
          (case ni_send_datagram d (ta_next_hop t) (ta_interface t) of
             (ni, Some e) \<Rightarrow> (t\<lparr>ta_interface := ni\<rparr>, k, Some e)
           | (ni, None) \<Rightarrow> ta_send_pending writev (t\<lparr>ta_interface := ni\<rparr>) k))"


section \<open>Segments over IPv4\<close>

lemma unat_add_bound: "unat (a + b :: 32 word) \<le> unat a + unat b"
  by (simp add: unat_word_ariths)

lemma ip_pseudo_cksum_bound: "unat (ip_pseudo_cksum h) \<le> 1000000"
proof -
  have hi: "unat (drop_bit 16 (w :: 32 word)) < 65536" for w
    unfolding unat_drop_bit_eq drop_bit_eq_div [of 16 "unat w"] using unat_32 [of w] by (simp add: less_mult_imp_div_less)
  have lo: "unat (w AND 0xffff :: 32 word) < 65536" for w
  proof -
    have "w AND 0xffff = take_bit 16 w"
      by (simp add: take_bit_eq_mask mask_eq_exp_minus_1)
    then show ?thesis
      by (simp add: unsigned_take_bit_eq take_bit_nat_less_exp [of 16, simplified])
  qed
  have u8: "unat (ucast (b :: byte) :: 32 word) < 256" for b
    using unat_8 [of b] by (simp add: unsigned_ucast_eq take_bit_eq_mod)
  have u16: "unat (ucast (x :: 16 word) :: 32 word) < 65536" for x
    using unat_16 [of x] by (simp add: unsigned_ucast_eq take_bit_eq_mod)
  have "unat (ip_pseudo_cksum h) \<le> unat (drop_bit 16 (ip_src h)) + unat (ip_src h AND 0xffff) +
      (unat (drop_bit 16 (ip_dst h)) + unat (ip_dst h AND 0xffff)) + unat (ucast (ip_proto h) :: 32 word) +
      unat (ucast (ip_payload_length h) :: 32 word)"
    unfolding ip_pseudo_cksum_def Let_def
    by (intro order_trans [OF unat_add_bound] add_mono unat_add_bound order_refl)
  then show ?thesis
    using hi [of "ip_src h"] lo [of "ip_src h"] hi [of "ip_dst h"] lo [of "ip_dst h"] u8 [of "ip_proto h"]
      u16 [of "ip_payload_length h"] by linarith
qed

text \<open>An adapter between two IPv4 addresses with ports.\<close>

definition fa_between :: "fd_adapter \<Rightarrow> 32 word \<times> 16 word \<Rightarrow> 32 word \<times> 16 word \<Rightarrow> bool" where
  "fa_between a s d \<longleftrightarrow> fac_source (fa_cfg a) = inet_address (fst s) (snd s) \<and>
     fac_destination (fa_cfg a) = inet_address (fst d) (snd d)"

text \<open>What the wrapping looks up, and that it succeeds only with these four numbers.\<close>

definition fa_resolves :: "netdb \<Rightarrow> fd_adapter \<Rightarrow> 32 word \<times> 16 word \<Rightarrow> 32 word \<times> 16 word \<Rightarrow> bool" where
  "fa_resolves nd a s d \<longleftrightarrow>
     ipv4_numeric (fac_source (fa_cfg a)) = Inr (fst s) \<and> address_port nd (fac_source (fa_cfg a)) = Inr (snd s) \<and>
     ipv4_numeric (fac_destination (fa_cfg a)) = Inr (fst d) \<and> address_port nd (fac_destination (fa_cfg a)) = Inr (snd d)"

lemma fa_between_resolves: "numeric_netdb nd \<Longrightarrow> fa_between a s d \<Longrightarrow> fa_resolves nd a s d"
  by (simp add: fa_resolves_def fa_between_def)

lemma wrap_resolves: "wrap_tcp_in_ip nd seg a = Inr dg \<Longrightarrow> \<exists>s d. fa_resolves nd a s d"
  by (auto simp: wrap_tcp_in_ip_def fa_resolves_def Let_def split: sum.splits)

text \<open>The segment as it arrives: the ports of the sender's addresses, and the checksum filled in.\<close>

definition arrives_as :: "tcp_segment \<Rightarrow> 16 word \<Rightarrow> 16 word \<Rightarrow> tcp_segment \<Rightarrow> bool" where
  "arrives_as seg sport dport seg' \<longleftrightarrow>
     (\<exists>c. seg_header seg' = (seg_header seg)\<lparr>th_sport := sport, th_dport := dport, th_cksum := c\<rparr>) \<and>
     buffer_str (seg_payload seg') = buffer_str (seg_payload seg)"

lemma wrap_wf:
  assumes "fa_resolves nd a s d" "tcp_segment_wf seg"
  shows "\<exists>dg. wrap_tcp_in_ip nd seg a = Inr dg \<and> ip_datagram_wf dg \<and> ip_src (ipd_header dg) = fst s \<and>
    ip_dst (ipd_header dg) = fst d \<and> ip_proto (ipd_header dg) = PROTO_TCP \<and>
    unat (ip_len (ipd_header dg)) = 20 + 4 * unat (th_doff (seg_header seg)) + length (buffer_str (seg_payload seg)) \<and>
    (\<forall>b. buffer_ok b \<and> buffer_str b = bl_concatenate (ipd_payload dg) \<longrightarrow>
      (\<exists>seg'. tcp_segment_parse tcp_segment_default b (ip_pseudo_cksum (ipd_header dg)) = (NoError, seg') \<and>
        arrives_as seg (snd s) (snd d) seg'))"
proof -
  let ?seg = "tcp_set_ports (snd s) (snd d) seg"
  let ?n = "20 + unat (th_doff (seg_header seg)) * 4 + buffer_size (seg_payload seg)"
  define h where "h = ip_header_default\<lparr>ip_src := fst s, ip_dst := fst d, ip_len := word_of_nat ?n\<rparr>"
  have wf: "tcp_segment_wf ?seg"
    using assms(2) by (simp add: tcp_segment_wf_def tcp_header_wf_def tcp_set_ports_def)
  have doff: "unat (th_doff (seg_header seg)) \<le> 15"
    using assms(2) doff_bounds by (simp add: tcp_segment_wf_def)
  obtain l where l: "tcp_segment_serialize ?seg (ip_pseudo_cksum h) = Inr l"
    "length (bl_concatenate l) = 4 * unat (th_doff (seg_header ?seg)) + length (buffer_str (seg_payload ?seg))"
    "\<And>b seg0. buffer_ok b \<Longrightarrow> buffer_str b = bl_concatenate l \<Longrightarrow>
      \<exists>p. tcp_segment_parse seg0 b (ip_pseudo_cksum h) =
          (NoError, \<lparr>seg_header = (seg_header ?seg)\<lparr>th_cksum := tcp_cksum ?seg (ip_pseudo_cksum h)\<rparr>, seg_payload = p\<rparr>) \<and>
        buffer_ok p \<and> buffer_str p = buffer_str (seg_payload ?seg)"
    using tcp_segment_codec [OF wf ip_pseudo_cksum_bound, of h] by blast
  have hl: "ip_hlen ip_header_default = 5"
    by (simp add: ip_header_default_def)
  have wrap: "wrap_tcp_in_ip nd seg a = Inr \<lparr>ipd_header = h, ipd_payload = l\<rparr>"
    using assms(1) l(1) by (simp add: wrap_tcp_in_ip_def fa_resolves_def Let_def h_def hl tcp_set_ports_def)
  have "buffer_size (seg_payload seg) \<le> 65000"
    using assms(2) by (simp add: tcp_segment_wf_def buffer_size_def)
  then have "?n < 65536"
    using doff by linarith
  then have "unat (word_of_nat ?n :: 16 word) = ?n"
    by (subst unat_of_nat) simp
  then have len: "unat (ip_len h) = ?n"
    unfolding h_def by simp
  have "ip_datagram_wf \<lparr>ipd_header = h, ipd_payload = l\<rparr>"
    using len l(2) by (simp add: ip_datagram_wf_def ip_header_wf_def ip_header_fits_def h_def ip_header_default_def
        tcp_set_ports_def buffer_size_def)
  moreover have "\<exists>seg'. tcp_segment_parse tcp_segment_default b (ip_pseudo_cksum h) = (NoError, seg') \<and>
      arrives_as seg (snd s) (snd d) seg'" if "buffer_ok b" "buffer_str b = bl_concatenate l" for b
    using l(3) [OF that, of tcp_segment_default] by (auto simp: arrives_as_def tcp_set_ports_def)
  ultimately show ?thesis
    using wrap len by (simp add: h_def ip_header_default_def buffer_size_def)
qed

text \<open>The datagram as the other host parses it.\<close>

lemma ip_crossing:
  assumes "tcp_segment_wf seg" "fa_resolves nd a s d"
  shows "\<exists>dg l h p seg'. wrap_tcp_in_ip nd seg a = Inr dg \<and> ip_datagram_serialize dg = Inr l \<and>
    length (bl_concatenate l) = 20 + 4 * unat (th_doff (seg_header seg)) + length (buffer_str (seg_payload seg)) \<and>
    ip_datagram_parse ip_datagram_default (buffer_of (bl_concatenate l)) =
      (NoError, \<lparr>ipd_header = h, ipd_payload = [p]\<rparr>) \<and>
    ip_proto h = PROTO_TCP \<and> ip_src h = fst s \<and> ip_dst h = fst d \<and>
    tcp_segment_parse tcp_segment_default p (ip_pseudo_cksum h) = (NoError, seg') \<and> arrives_as seg (snd s) (snd d) seg'"
proof -
  obtain dg where dg: "wrap_tcp_in_ip nd seg a = Inr dg" "ip_datagram_wf dg" "ip_src (ipd_header dg) = fst s"
    "ip_dst (ipd_header dg) = fst d" "ip_proto (ipd_header dg) = PROTO_TCP"
    "unat (ip_len (ipd_header dg)) = 20 + 4 * unat (th_doff (seg_header seg)) + length (buffer_str (seg_payload seg))"
    "\<And>b. buffer_ok b \<Longrightarrow> buffer_str b = bl_concatenate (ipd_payload dg) \<Longrightarrow>
      \<exists>seg'. tcp_segment_parse tcp_segment_default b (ip_pseudo_cksum (ipd_header dg)) = (NoError, seg') \<and>
        arrives_as seg (snd s) (snd d) seg'"
    using wrap_wf [OF assms(2,1)] by blast
  obtain l where l: "ip_datagram_serialize dg = Inr l" "bl_concatenate l = ip_datagram_bytes dg"
    using ip_datagram_serialized [OF dg(2)] by blast
  define h where "h = (ipd_header dg)\<lparr>ip_cksum := ip_cksum_of (ipd_header dg)\<rparr>"
  obtain p where p: "ip_datagram_parse ip_datagram_default (buffer_of (bl_concatenate l)) =
      (NoError, \<lparr>ipd_header = h, ipd_payload = [p]\<rparr>)" "buffer_ok p" "buffer_str p = bl_concatenate (ipd_payload dg)"
    using ip_datagram_parse_bytes [OF dg(2), of "buffer_of (bl_concatenate l)"] length_ip_datagram_bytes(2) [OF dg(2)] l(2)
    by (auto simp: h_def two64_def)
  obtain seg' where seg': "tcp_segment_parse tcp_segment_default p (ip_pseudo_cksum (ipd_header dg)) = (NoError, seg')"
    "arrives_as seg (snd s) (snd d) seg'"
    using dg(7) [OF p(2,3)] by blast
  have h: "ip_pseudo_cksum h = ip_pseudo_cksum (ipd_header dg)" "ip_proto h = PROTO_TCP" "ip_src h = fst s" "ip_dst h = fst d"
    using dg(3-5) by (simp_all add: h_def ip_pseudo_cksum_def ip_payload_length_def)
  show ?thesis
    using dg(1,6) l p(1) seg' h length_ip_datagram_bytes(1) [OF dg(2)]
    by (intro exI [of _ dg] exI [of _ l] exI [of _ h] exI [of _ p] exI [of _ seg']) simp
qed

text \<open>
  What the other host makes of the datagram it parses: \<open>h\<close> is the header as it arrives.
\<close>

lemma unwrap_parsed:
  assumes "numeric_netdb nd" "ip_proto h = PROTO_TCP" "ip_src h = fst s" "ip_dst h = fst d"
    and "tcp_segment_parse tcp_segment_default b (ip_pseudo_cksum h) = (NoError, seg')" "arrives_as seg (snd s) (snd d) seg'"
  shows "\<not> fa_listen a \<Longrightarrow> fa_between a d s \<Longrightarrow>
      unwrap_tcp_in_ip nd \<lparr>ipd_header = h, ipd_payload = [b]\<rparr> a = (a, Inr (Some seg'))"
    and "fa_listen a \<Longrightarrow> fac_source (fa_cfg a) = inet_address any (snd d) \<Longrightarrow> th_syn (seg_header seg) \<Longrightarrow>
      \<not> th_rst (seg_header seg) \<Longrightarrow>
      \<exists>a'. unwrap_tcp_in_ip nd \<lparr>ipd_header = h, ipd_payload = [b]\<rparr> a = (a', Inr (Some seg')) \<and>
        fa_between a' d s \<and> \<not> fa_listen a'"
    and "fa_listen a \<Longrightarrow> fac_source (fa_cfg a) = inet_address any (snd d) \<Longrightarrow>
      \<not> (th_syn (seg_header seg) \<and> \<not> th_rst (seg_header seg)) \<Longrightarrow>
      unwrap_tcp_in_ip nd \<lparr>ipd_header = h, ipd_payload = [b]\<rparr> a = (a, Inr None)"
proof -
  have ports: "th_sport (seg_header seg') = snd s" "th_dport (seg_header seg') = snd d"
    "th_syn (seg_header seg') = th_syn (seg_header seg)" "th_rst (seg_header seg') = th_rst (seg_header seg)"
    using assms(6) by (auto simp: arrives_as_def)
  note unwrap = unwrap_tcp_in_ip_def fa_hosts_match_def fa_ports_def bl_to_buffer_def assms(2-5) ports
  show "\<not> fa_listen a \<Longrightarrow> fa_between a d s \<Longrightarrow>
      unwrap_tcp_in_ip nd \<lparr>ipd_header = h, ipd_payload = [b]\<rparr> a = (a, Inr (Some seg'))"
    using assms(1) by (simp add: unwrap fa_between_def)
  show "fa_listen a \<Longrightarrow> fac_source (fa_cfg a) = inet_address any (snd d) \<Longrightarrow> th_syn (seg_header seg) \<Longrightarrow>
      \<not> th_rst (seg_header seg) \<Longrightarrow>
      \<exists>a'. unwrap_tcp_in_ip nd \<lparr>ipd_header = h, ipd_payload = [b]\<rparr> a = (a', Inr (Some seg')) \<and>
        fa_between a' d s \<and> \<not> fa_listen a'"
    using assms(1) by (simp add: unwrap fa_target_def address_of_ip_numeric fa_set_listening_def fa_between_def)
  show "fa_listen a \<Longrightarrow> fac_source (fa_cfg a) = inet_address any (snd d) \<Longrightarrow>
      \<not> (th_syn (seg_header seg) \<and> \<not> th_rst (seg_header seg)) \<Longrightarrow>
      unwrap_tcp_in_ip nd \<lparr>ipd_header = h, ipd_payload = [b]\<rparr> a = (a, Inr None)"
    using assms(1) by (simp add: unwrap)
qed

text \<open>Whatever the two adapters have been told, the segment that comes out is the one that went in.\<close>

lemma unwrap_parse:
  assumes "unwrap_tcp_in_ip nd dg a = (a', Inr (Some seg))"
  shows "\<exists>p. bl_to_buffer (ipd_payload dg) = Inr p \<and>
    tcp_segment_parse tcp_segment_default p (ip_pseudo_cksum (ipd_header dg)) = (NoError, seg)"
  using assms by (auto simp: unwrap_tcp_in_ip_def fa_ports_def Let_def split: sum.splits if_splits prod.splits option.splits)

lemma ip_crossing_same:
  assumes "tcp_segment_wf seg" "wrap_tcp_in_ip nd seg a = Inr dg" "ip_datagram_serialize dg = Inr l"
    and "ip_datagram_parse ip_datagram_default (buffer_of (bl_concatenate l)) = (NoError, dg')"
    and "unwrap_tcp_in_ip nd dg' b = (b', Inr (Some seg'))"
  shows "\<exists>sport dport. arrives_as seg sport dport seg'"
proof -
  obtain s d where "fa_resolves nd a s d"
    using wrap_resolves [OF assms(2)] by blast
  then obtain h p seg'' where dg': "dg' = \<lparr>ipd_header = h, ipd_payload = [p]\<rparr>"
    "tcp_segment_parse tcp_segment_default p (ip_pseudo_cksum h) = (NoError, seg'')" "arrives_as seg (snd s) (snd d) seg''"
    using ip_crossing [OF assms(1), of nd a s d] assms(2-4) by auto
  then have "seg'' = seg'"
    using unwrap_parse [OF assms(5)] by (simp add: bl_to_buffer_def)
  then show ?thesis
    using dg'(3) by blast
qed

section \<open>Properties\<close>

text \<open>
  C20: A segment survives the trip over IPv4. An adapter between two addresses wraps every
  well-formed segment in a datagram that serializes; the other end, parsing the bytes, gets
  NoError and unwraps the same header with the two ports and the checksum filled in and the same
  payload. When that end is listening, a SYN without RST sets its configuration to the two
  addresses and ends listening, and any other segment is ignored.
\<close>

theorem tcp_over_ip_roundtrip:
  assumes "numeric_netdb nd" "tcp_segment_wf seg" "fa_between a s d"
    and "fa_between b d s" "\<not> fa_listen b"
    and "fac_source (fa_cfg c) = inet_address any (snd d)" "fa_listen c"
  shows "\<exists>dg l dg' seg'. wrap_tcp_in_ip nd seg a = Inr dg \<and> ip_datagram_serialize dg = Inr l \<and>
    ip_datagram_parse ip_datagram_default (buffer_of (bl_concatenate l)) = (NoError, dg') \<and>
    arrives_as seg (snd s) (snd d) seg' \<and> unwrap_tcp_in_ip nd dg' b = (b, Inr (Some seg')) \<and>
    (if th_syn (seg_header seg) \<and> \<not> th_rst (seg_header seg)
     then \<exists>c'. unwrap_tcp_in_ip nd dg' c = (c', Inr (Some seg')) \<and> fa_between c' d s \<and> \<not> fa_listen c'
     else unwrap_tcp_in_ip nd dg' c = (c, Inr None))"
proof -
  obtain dg l h p seg' where x: "wrap_tcp_in_ip nd seg a = Inr dg" "ip_datagram_serialize dg = Inr l"
    "ip_datagram_parse ip_datagram_default (buffer_of (bl_concatenate l)) = (NoError, \<lparr>ipd_header = h, ipd_payload = [p]\<rparr>)"
    "ip_proto h = PROTO_TCP" "ip_src h = fst s" "ip_dst h = fst d"
    "tcp_segment_parse tcp_segment_default p (ip_pseudo_cksum h) = (NoError, seg')" "arrives_as seg (snd s) (snd d) seg'"
    using ip_crossing [OF assms(2) fa_between_resolves [OF assms(1,3)]] by blast
  note unwrap = unwrap_parsed [OF assms(1) x(4-8)]
  show ?thesis
    using x(1-3,8) unwrap(1) [OF assms(5,4)] unwrap(2) [OF assms(7,6)] unwrap(3) [OF assms(7,6)]
    by (intro exI [of _ dg] exI [of _ l] exI [of _ "\<lparr>ipd_header = h, ipd_payload = [p]\<rparr>"] exI [of _ seg']) auto
qed

text \<open>Two ends with addresses 1 and 2.\<close>

definition fa_example :: "32 word \<Rightarrow> 32 word \<Rightarrow> bool \<Rightarrow> fd_adapter" where
  "fa_example s d listen = \<lparr>fa_cfg = \<lparr>fac_source = inet_address s 80, fac_destination = inet_address d 80,
     fac_loss_rate_dn = 0, fac_loss_rate_up = 0\<rparr>, fa_listen = listen\<rparr>"

theorem tcp_over_ip_roundtrip_witness:
  "\<exists>dg l dg' seg'. wrap_tcp_in_ip netdb_example tcp_segment_default (fa_example 1 2 False) = Inr dg \<and>
    ip_datagram_serialize dg = Inr l \<and>
    ip_datagram_parse ip_datagram_default (buffer_of (bl_concatenate l)) = (NoError, dg') \<and>
    unwrap_tcp_in_ip netdb_example dg' (fa_example 2 1 False) = (fa_example 2 1 False, Inr (Some seg'))"
proof -
  have "tcp_segment_wf tcp_segment_default"
    by (simp add: tcp_segment_wf_def tcp_segment_default_def tcp_header_wf_def tcp_header_default_def)
  from tcp_over_ip_roundtrip [OF netdb_example_numeric this, of "fa_example 1 2 False" "(1, 80)" "(2, 80)"
      "fa_example 2 1 False" "fa_example 0 0 True" 0]
  show ?thesis
    by (auto simp: fa_example_def fa_between_def)
qed

end
