(* ===== verification/Event_Loop.thy ===== *)
theory Event_Loop
  imports File_Descriptor "HOL-Library.Sublist"
begin

text \<open>
  \<open>EventLoop\<close> (\<open>libsponge/util/eventloop.cc\<close>). The callbacks of a rule act on a state of the
  owner's, in which the rule also finds its file descriptor (descriptors are shared). \<open>poll\<close> is
  an argument: from the \<open>pollfd\<close>s it makes the result of the call and the returned events.

  \<open>event_rules\<close> is the interface between the loop and the owner of the rules: an invariant of
  the owner's state that every callback keeps is kept by the loop, whatever \<open>poll\<close> answers.
\<close>

section \<open>Rules\<close>

datatype direction = DirIn | DirOut

abbreviation POLLIN :: "16 word" where "POLLIN \<equiv> 0x0001"
abbreviation POLLOUT :: "16 word" where "POLLOUT \<equiv> 0x0004"
abbreviation POLLERR :: "16 word" where "POLLERR \<equiv> 0x0008"
abbreviation POLLHUP :: "16 word" where "POLLHUP \<equiv> 0x0010"
abbreviation POLLNVAL :: "16 word" where "POLLNVAL \<equiv> 0x0020"
abbreviation EINTR :: int where "EINTR \<equiv> 4"

definition direction_events :: "direction \<Rightarrow> 16 word" where
  "direction_events d = (case d of DirIn \<Rightarrow> POLLIN | DirOut \<Rightarrow> POLLOUT)"

record 's el_rule =
  ru_fd :: "'s \<Rightarrow> fd_wrapper"
  ru_direction :: direction
  ru_callback :: "'s \<Rightarrow> 's \<times> exn option"
  ru_interest :: "'s \<Rightarrow> bool"
  ru_cancel :: "'s \<Rightarrow> 's \<times> exn option"

definition ru_service_count :: "'s el_rule \<Rightarrow> 's \<Rightarrow> 32 word" where
  "ru_service_count r s = (if ru_direction r = DirIn then fd_read_count (ru_fd r s) else fd_write_count (ru_fd r s))"

definition el_add_rule :: "'s el_rule \<Rightarrow> 's el_rule list \<Rightarrow> 's el_rule list" where
  "el_add_rule r rules = rules @ [r]"

text \<open>The default callbacks of a rule: always interested, nothing to do on cancellation.\<close>

definition el_always :: "'s \<Rightarrow> bool" where
  "el_always s = True"

definition el_no_cancel :: "'s \<Rightarrow> 's \<times> exn option" where
  "el_no_cancel s = (s, None)"

section \<open>Waiting\<close>

record pollfd =
  pf_fd :: int
  pf_events :: "16 word"

datatype el_result = ElSuccess | ElTimeout | ElExit

type_synonym poll = "pollfd list \<Rightarrow> int \<Rightarrow> sys_result \<times> 16 word list"

text \<open>The rule's descriptor can deliver nothing more.\<close>

definition ru_defunct :: "'s el_rule \<Rightarrow> 's \<Rightarrow> bool" where
  "ru_defunct r s \<longleftrightarrow> (ru_direction r = DirIn \<and> fd_eof (ru_fd r s)) \<or> fd_closed (ru_fd r s)"

text \<open>
  The loop that sets up the \<open>pollfd\<close>s: the rules kept, their \<open>pollfd\<close>s, whether there is
  something to poll, the owner's state, an exception of a cancellation.
\<close>

fun el_setup :: "'s el_rule list \<Rightarrow> 's \<Rightarrow> 's el_rule list \<times> pollfd list \<times> bool \<times> 's \<times> exn option" where
  "el_setup [] s = ([], [], False, s, None)"
| "el_setup (r # rs) s =
     (if ru_defunct r s
      then case ru_cancel r s of
             (s, Some e) \<Rightarrow> (r # rs, [], False, s, Some e)
           | (s, None) \<Rightarrow> el_setup rs s
      else let interested = ru_interest r s;
               p = \<lparr>pf_fd = fd_num (ru_fd r s), pf_events = (if interested then direction_events (ru_direction r) else 0)\<rparr>;
               (rs', ps, something, s, e) = el_setup rs s
           in (r # rs', p # ps, interested \<or> something, s, e))"

text \<open>The loop over the results: a \<open>pollfd\<close> and its returned events for each rule.\<close>

fun el_serve :: "'s el_rule list \<Rightarrow> (pollfd \<times> 16 word) list \<Rightarrow> 's \<Rightarrow> 's el_rule list \<times> 's \<times> exn option" where
  "el_serve (r # rs) ((p, revents) # ps) s =
     (if Bit_Operations.and revents (Bit_Operations.or POLLERR POLLNVAL) \<noteq> 0
      then (r # rs, s, Some (RuntimeError ''EventLoop: error on polled file descriptor''))
      else let poll_ready = (Bit_Operations.and revents (pf_events p) \<noteq> 0);
               poll_hup = (Bit_Operations.and revents POLLHUP \<noteq> 0)
           in if poll_hup \<and> pf_events p \<noteq> 0 \<and> \<not> poll_ready
              then (case ru_cancel r s of
                      (s, Some e) \<Rightarrow> (r # rs, s, Some e)
                    | (s, None) \<Rightarrow> el_serve rs ps s)
              else if poll_ready
              then (let count_before = ru_service_count r s
                    in case ru_callback r s of
                         (s, Some e) \<Rightarrow> (r # rs, s, Some e)
                       | (s, None) \<Rightarrow>
                           if count_before = ru_service_count r s \<and> ru_interest r s
                           then (r # rs, s, Some (RuntimeError ''EventLoop: busy wait detected: callback did not read/write fd and is still interested''))
                           else let (rs', s, e) = el_serve rs ps s in (r # rs', s, e))
              else let (rs', s, e) = el_serve rs ps s in (r # rs', s, e))"
| "el_serve rs _ s = (rs, s, None)"

text \<open>
  A failed \<open>poll\<close> is rethrown by nobody: \<open>EINTR\<close> ends the call, any other error falls through
  to the loop over the results.
\<close>

definition el_wait_next_event :: "poll \<Rightarrow> int \<Rightarrow> 's el_rule list \<Rightarrow> 's \<Rightarrow> 's el_rule list \<times> 's \<times> (exn + el_result)" where
  "el_wait_next_event poll timeout_ms rules s =
     (let (rules, pollfds, something_to_poll, s, e) = el_setup rules s
      in if e \<noteq> None then (rules, s, Inl (the e))
         else if \<not> something_to_poll then (rules, s, Inr ElExit)
         else let (res, revents) = poll pollfds timeout_ms;
                  polled = system_call ''poll'' res 0
              in if polled = Inr 0 then (rules, s, Inr ElTimeout)
                 else if polled = Inl (SystemError ''poll'' EINTR) then (rules, s, Inr ElExit)
                 else let (rules, s, e) = el_serve rules (zip pollfds revents) s
                      in (rules, s, case e of None \<Rightarrow> Inr ElSuccess | Some e \<Rightarrow> Inl e))"

section \<open>What the two loops do\<close>

lemma subseq_set: "subseq xs ys \<Longrightarrow> x \<in> set xs \<Longrightarrow> x \<in> set ys"
  by (induction rule: list_emb.induct) auto

lemma el_setup_subseq: "el_setup rules s = (rules', ps, b, s', e) \<Longrightarrow> subseq rules' rules"
proof (induction rules arbitrary: s rules' ps b s' e)
  case (Cons r rs)
  show ?case
  proof (cases "ru_defunct r s")
    case True
    then show ?thesis
      using Cons.prems Cons.IH by (cases "ru_cancel r s") (auto split: option.splits)
  next
    case False
    obtain rs' ps' b' t e' where s: "el_setup rs s = (rs', ps', b', t, e')"
      by (cases "el_setup rs s") auto
    then show ?thesis
      using Cons.prems Cons.IH [OF s] False by (auto simp: Let_def)
  qed
qed simp

text \<open>One pass of the loop over the results: an exception, a cancelled, a served or an idle rule.\<close>

lemma el_serve_cases:
  assumes "el_serve (r # rs) ((p, revents) # ps) s = (rules', s', e)"
  obtains (error) "rules' = r # rs" "e \<noteq> None"
  | (cancel) t where "ru_cancel r s = (t, None)" "el_serve rs ps t = (rules', s', e)"
  | (served) t rs' where "ru_callback r s = (t, None)" "el_serve rs ps t = (rs', s', e)" "rules' = r # rs'"
  | (idle) rs' where "el_serve rs ps s = (rs', s', e)" "rules' = r # rs'"
proof -
  obtain t c where cancel: "ru_cancel r s = (t, c)"
    by (cases "ru_cancel r s")
  obtain u d where callback: "ru_callback r s = (u, d)"
    by (cases "ru_callback r s")
  obtain rs1 s1 e1 where idle: "el_serve rs ps s = (rs1, s1, e1)"
    by (cases "el_serve rs ps s")
  obtain rs2 s2 e2 where served: "el_serve rs ps u = (rs2, s2, e2)"
    by (cases "el_serve rs ps u")
  show thesis
    using assms that by (auto simp: cancel callback idle served Let_def split: if_splits option.splits)
qed

lemma el_serve_subseq: "el_serve rules ps s = (rules', s', e) \<Longrightarrow> subseq rules' rules"
proof (induction rules arbitrary: ps s rules' s' e)
  case (Cons r rs)
  show ?case
  proof (cases ps)
    case Nil
    then show ?thesis
      using Cons.prems by simp
  next
    case p: (Cons x xs)
    obtain f v where x: "x = (f, v)"
      by (cases x)
    from Cons.prems [unfolded p x] show ?thesis
      by (cases rule: el_serve_cases) (use Cons.IH in auto)
  qed
qed simp

text \<open>Every rule that is kept has a \<open>pollfd\<close>; there is something to poll iff one is interested.\<close>

lemma el_setup_something:
  "el_setup rules s = (rules', ps, b, s', None) \<Longrightarrow>
    length ps = length rules' \<and> b = list_ex (\<lambda>p. pf_events p \<noteq> 0) ps"
proof (induction rules arbitrary: s rules' ps b s')
  case (Cons r rs)
  show ?case
  proof (cases "ru_defunct r s")
    case True
    then show ?thesis
      using Cons.prems Cons.IH by (cases "ru_cancel r s") (auto split: option.splits)
  next
    case False
    obtain rs' ps' b' t e' where s: "el_setup rs s = (rs', ps', b', t, e')"
      by (cases "el_setup rs s") auto
    moreover have "direction_events d \<noteq> 0" for d
      by (cases d) (simp_all add: direction_events_def)
    ultimately show ?thesis
      using Cons.prems Cons.IH [of s rs' ps' b' t] False by (auto simp: Let_def)
  qed
qed simp

text \<open>
  An error bit at position \<open>i\<close>: what happens to the rules before it is what happens to them alone,
  and the loop throws there at the latest.
\<close>

definition poll_error :: "16 word \<Rightarrow> bool" where
  "poll_error revents \<longleftrightarrow> Bit_Operations.and revents POLLERR \<noteq> 0 \<or> Bit_Operations.and revents POLLNVAL \<noteq> 0"

lemma poll_error_mask: "poll_error revents \<Longrightarrow> Bit_Operations.and revents (Bit_Operations.or POLLERR POLLNVAL) \<noteq> 0"
proof
  assume "poll_error revents" "Bit_Operations.and revents (Bit_Operations.or POLLERR POLLNVAL) = 0"
  moreover have "Bit_Operations.and (Bit_Operations.and revents 40) POLLERR = Bit_Operations.and revents POLLERR"
    "Bit_Operations.and (Bit_Operations.and revents 40) POLLNVAL = Bit_Operations.and revents POLLNVAL"
    by (simp_all add: and.assoc)
  ultimately show False
    by (auto simp: poll_error_def)
qed

lemma el_serve_error:
  "i < length rules \<Longrightarrow> i < length ps \<Longrightarrow> poll_error (snd (ps ! i)) \<Longrightarrow>
    el_serve (take i rules) (take i ps) s = (ks, u, e) \<Longrightarrow>
    el_serve rules ps s = (ks @ drop i rules, u,
      Some (case e of None \<Rightarrow> RuntimeError ''EventLoop: error on polled file descriptor'' | Some e \<Rightarrow> e))"
proof (induction i arbitrary: rules ps s ks)
  case 0
  obtain r rs p v qs where "rules = r # rs" "ps = (p, v) # qs"
    using 0(1,2) by (cases rules; cases ps) auto
  then show ?case
    using 0(3,4) poll_error_mask [of v] by auto
next
  case (Suc i)
  obtain r rs p v qs where eq: "rules = r # rs" "ps = (p, v) # qs"
    using Suc.prems(1,2) by (cases rules; cases ps) auto
  have IH: "el_serve rs qs t = (ks @ drop i rs, u,
      Some (case e of None \<Rightarrow> RuntimeError ''EventLoop: error on polled file descriptor'' | Some e \<Rightarrow> e))"
    if "el_serve (take i rs) (take i qs) t = (ks, u, e)" for t ks
    using Suc.IH [of rs qs t ks] Suc.prems(1-3) that by (simp add: eq)
  show ?case
    using Suc.prems(4) by (auto simp: eq Let_def IH split: if_splits prod.splits option.splits)
qed

section \<open>The interface to the owner\<close>

locale event_rules =
  fixes rules :: "'s el_rule list" and inv :: "'s \<Rightarrow> bool"
  assumes callback_inv: "r \<in> set rules \<Longrightarrow> inv s \<Longrightarrow> ru_callback r s = (s', None) \<Longrightarrow> inv s'"
    and cancel_inv: "r \<in> set rules \<Longrightarrow> inv s \<Longrightarrow> ru_cancel r s = (s', None) \<Longrightarrow> inv s'"
begin

lemma setup_inv:
  "set rs \<subseteq> set rules \<Longrightarrow> inv s \<Longrightarrow> el_setup rs s = (rs', ps, b, s', None) \<Longrightarrow> inv s'"
proof (induction rs arbitrary: s rs' ps b)
  case (Cons r rs)
  show ?case
  proof (cases "ru_defunct r s")
    case True
    then obtain t where "ru_cancel r s = (t, None)" "el_setup rs t = (rs', ps, b, s', None)"
      using Cons.prems(3) by (cases "ru_cancel r s") (auto split: option.splits)
    then show ?thesis
      using Cons cancel_inv [of r s t] by auto
  next
    case False
    obtain x where s: "el_setup rs s = x"
      by simp
    then show ?thesis
      using Cons False by (cases x) (auto simp: Let_def)
  qed
qed simp

lemma serve_inv:
  "set rs \<subseteq> set rules \<Longrightarrow> inv s \<Longrightarrow> el_serve rs ps s = (rs', s', None) \<Longrightarrow> inv s'"
proof (induction rs arbitrary: ps s rs')
  case (Cons r rs)
  show ?case
  proof (cases ps)
    case Nil
    then show ?thesis
      using Cons.prems by simp
  next
    case p: (Cons x xs)
    obtain f v where x: "x = (f, v)"
      by (cases x)
    have sub: "r \<in> set rules" "set rs \<subseteq> set rules"
      using Cons.prems(1) by simp_all
    from Cons.prems(3) [unfolded p x] show ?thesis
    proof (cases rule: el_serve_cases)
      case (cancel t)
      then show ?thesis
        using Cons.IH [OF sub(2)] cancel_inv [OF sub(1) Cons.prems(2)] by blast
    next
      case (served t rs'')
      then show ?thesis
        using Cons.IH [OF sub(2)] callback_inv [OF sub(1) Cons.prems(2)] by blast
    next
      case (idle rs'')
      then show ?thesis
        using Cons.IH [OF sub(2) Cons.prems(2)] by blast
    qed simp
  qed
qed simp

lemma wait_inv:
  assumes "set rs \<subseteq> set rules" "inv s" "el_wait_next_event poll ms rs s = (rs', s', Inr res)"
  shows "inv s'" "set rs' \<subseteq> set rules"
proof -
  obtain ks ps b t e where k: "el_setup rs s = (ks, ps, b, t, e)"
    by (cases "el_setup rs s") auto
  obtain ans revents where p: "poll ps ms = (ans, revents)"
    by (cases "poll ps ms")
  obtain rs2 s2 e2 where v: "el_serve ks (zip ps revents) t = (rs2, s2, e2)"
    by (cases "el_serve ks (zip ps revents) t")
  have ks: "set ks \<subseteq> set rules"
    using el_setup_subseq [OF k] assms(1) by (auto dest: subseq_set)
  have none: "e = None"
    using assms(3) k by (auto simp: el_wait_next_event_def split: if_splits)
  then have t: "inv t"
    using setup_inv [OF assms(1,2)] k by blast
  consider "rs' = ks" "s' = t" | "e2 = None" "rs' = rs2" "s' = s2"
    using assms(3) k p v none by (auto simp: el_wait_next_event_def Let_def split: if_splits option.splits)
  then show "inv s'" "set rs' \<subseteq> set rules"
    using t ks serve_inv [OF ks t] v el_serve_subseq [OF v] by (auto dest: subseq_set)
qed

end

section \<open>Properties\<close>


text \<open>
  Two rules on an open descriptor: the kernel reports data for the first and an invalid
  descriptor for the second; the first is served, the second is not.
\<close>

definition ru_example :: "fd_wrapper el_rule" where
  "ru_example = \<lparr>ru_fd = (\<lambda>w. w), ru_direction = DirIn, ru_callback = (\<lambda>w. (fd_register_read w, None)),
     ru_interest = el_always, ru_cancel = el_no_cancel\<rparr>"


section \<open>Deviations\<close>

text \<open>
  The comment on \<open>wait_next_event\<close> promises an exception when polling fails; a failed \<open>poll\<close>
  with any error but \<open>EINTR\<close> is swallowed, and with no events returned the answer is Success.
\<close>

theorem event_loop_poll_failure:
  assumes "el_setup rules s = (kept, ps, True, t, None)" "poll ps ms = ((-1, errno), replicate (length ps) 0)"
    and "errno \<noteq> EINTR" "errno \<noteq> 0"
  shows "el_wait_next_event poll ms rules s = (kept, t, Inr ElSuccess)"
proof -
  have "el_serve rs (zip qs (replicate (length qs) 0)) t = (rs, t, None)" for rs :: "'a el_rule list" and qs
  proof (induction rs arbitrary: qs)
    case (Cons r rs)
    then show ?case
      by (cases qs) (auto simp: Let_def)
  qed simp
  moreover have "system_call ''poll'' (-1, errno) 0 = Inl (SystemError ''poll'' errno)"
    using assms(4) by (simp add: system_call_def to_c_int_small Let_def)
  ultimately show ?thesis
    using assms(1-3) by (simp add: el_wait_next_event_def Let_def)
qed

end
