(* ===== verification/Sponge_Socket.thy ===== *)
theory Sponge_Socket
  imports Connection_Runs Adapters Event_Loop
begin

text \<open>
  \<open>TCPSpongeSocket\<close> (\<open>libsponge/tcp_helpers/tcp_sponge_socket.cc\<close>): the object that drives a
  \<open>TCPConnection\<close> from an event loop, between a local stream socket and a datagram adapter.
  The record \<open>sponge_socket\<close> has its members, the four rules are \<open>so_rules\<close>, the loop is
  \<open>so_tcp_loop\<close>. The adapter and the kernel (with whatever the owner's thread does to it) are a
  state \<open>so_kernel\<close> and the operations of \<open>so_env\<close>; \<open>se_spec\<close> is their promise. The invariant
  \<open>so_inv\<close> is a simulation: whatever the loop does, it does what some sequence of operations
  does to an \<open>endpoint\<close>. It is kept by every rule, so it instantiates the interface
  \<open>event_rules\<close> of the event loop.
\<close>

section \<open>State and surroundings\<close>

record ('a, 'k) so_env =
  se_netdb :: netdb
  se_fd :: "'a \<Rightarrow> fd_wrapper"
  se_config :: "'a \<Rightarrow> fd_adapter_config"
  se_set_config :: "fd_adapter_config \<Rightarrow> 'a \<Rightarrow> 'a"
  se_set_listening :: "bool \<Rightarrow> 'a \<Rightarrow> 'a"
  se_receive :: "'a \<Rightarrow> 'k \<Rightarrow> 'a \<times> 'k \<times> (exn + tcp_segment option)"
  se_send :: "tcp_segment \<Rightarrow> 'a \<Rightarrow> 'k \<Rightarrow> 'a \<times> 'k \<times> exn option"
  se_tick :: "nat \<Rightarrow> 'a \<Rightarrow> 'k \<Rightarrow> 'a \<times> 'k \<times> exn option"
  se_read :: "int \<Rightarrow> nat \<Rightarrow> 'k \<Rightarrow> (sys_result \<times> bytes) \<times> 'k"
  se_writev :: "int \<Rightarrow> 'k writev"
  se_shutdown :: "int \<Rightarrow> int \<Rightarrow> 'k \<Rightarrow> sys_result \<times> 'k"

record ('a, 'k) sponge_socket =
  so_main :: fd_wrapper
  so_thread_data :: fd_wrapper
  so_adapter :: 'a
  so_tcp :: "tcp_connection option"
  so_joinable :: bool
  so_abort :: bool
  so_inbound_shutdown :: bool
  so_outbound_shutdown :: bool
  so_fully_acked :: bool
  so_kernel :: 'k

type_synonym ('a, 'k) so_result = "('a, 'k) sponge_socket \<times> exn option"

text \<open>The next statement, unless the one before has thrown.\<close>

definition so_then :: "('a, 'k) so_result \<Rightarrow> (('a, 'k) sponge_socket \<Rightarrow> ('a, 'k) so_result) \<Rightarrow> ('a, 'k) so_result" where
  "so_then r f = (case r of (s, Some e) \<Rightarrow> (s, Some e) | (s, None) \<Rightarrow> f s)"

lemma so_then_ok: "so_then r f = (s', None) \<longleftrightarrow> (\<exists>s. r = (s, None) \<and> f s = (s', None))"
  by (cases r) (auto simp: so_then_def split: option.splits)

text \<open>\<open>_tcp->f()\<close>: without a connection the arrow has no meaning.\<close>

definition so_tcp_do :: "(tcp_connection \<Rightarrow> exn + tcp_connection) \<Rightarrow> ('a, 'k) sponge_socket \<Rightarrow> ('a, 'k) so_result" where
  "so_tcp_do f s =
     (case so_tcp s of
        None \<Rightarrow> (s, Some (UndefinedBehaviour ''_tcp''))
      | Some c \<Rightarrow> (case f c of Inl e \<Rightarrow> (s, Some e) | Inr c \<Rightarrow> (s\<lparr>so_tcp := Some c\<rparr>, None)))"

text \<open>The debugging output looks the peer's address up, which may throw.\<close>

definition so_print :: "('a, 'k) so_env \<Rightarrow> ('a, 'k) sponge_socket \<Rightarrow> ('a, 'k) so_result" where
  "so_print E s =
     (s, case address_to_string (se_netdb E) (fac_destination (se_config E (so_adapter s))) of
           Inl e \<Rightarrow> Some e | Inr _ \<Rightarrow> None)"

section \<open>Rule 1: a datagram arrives\<close>

definition so_check_acked :: "('a, 'k) so_env \<Rightarrow> ('a, 'k) sponge_socket \<Rightarrow> ('a, 'k) so_result" where
  "so_check_acked E s =
     (if \<not> fd_eof (so_thread_data s) then (s, None)
      else case so_tcp s of
        None \<Rightarrow> (s, Some BadOptionalAccess)
      | Some c \<Rightarrow>
          if tc_bytes_in_flight c = 0 \<and> \<not> so_fully_acked s
          then so_then (so_print E s) (\<lambda>s. (s\<lparr>so_fully_acked := True\<rparr>, None)) else (s, None))"

definition so_receive :: "('a, 'k) so_env \<Rightarrow> ('a, 'k) sponge_socket \<Rightarrow> ('a, 'k) so_result" where
  "so_receive E s =
     (let (a, k, r) = se_receive E (so_adapter s) (so_kernel s);
          s = s\<lparr>so_adapter := a, so_kernel := k\<rparr>
      in case r of
           Inl e \<Rightarrow> (s, Some e)
         | Inr None \<Rightarrow> so_check_acked E s
         | Inr (Some seg) \<Rightarrow> so_then (so_tcp_do (\<lambda>c. tc_segment_received c seg) s) (so_check_acked E))"

text \<open>The interests; a rule exists only while there is a connection.\<close>

definition so_wants_datagram :: "('a, 'k) sponge_socket \<Rightarrow> bool" where
  "so_wants_datagram s = (case so_tcp s of None \<Rightarrow> False | Some c \<Rightarrow> tc_active c)"

section \<open>Rule 2: the owner has written\<close>

definition so_finish_out :: "('a, 'k) sponge_socket \<Rightarrow> ('a, 'k) so_result" where
  "so_finish_out s =
     so_then (so_tcp_do (\<lambda>c. Inr (tc_end_input_stream c)) s) (\<lambda>s. (s\<lparr>so_outbound_shutdown := True\<rparr>, None))"

definition so_take_out :: "('a, 'k) so_env \<Rightarrow> ('a, 'k) sponge_socket \<Rightarrow> ('a, 'k) so_result" where
  "so_take_out E s =
     (case so_tcp s of
        None \<Rightarrow> (s, Some (UndefinedBehaviour ''_tcp''))
      | Some c \<Rightarrow>
          let limit = tc_remaining_outbound_capacity c;
              ((res, bs), k) = se_read E (fd_num (so_thread_data s)) (min (1024 * 1024) limit) (so_kernel s);
              (w, r) = fd_read limit res bs (so_thread_data s);
              s = s\<lparr>so_thread_data := w, so_kernel := k\<rparr>
          in (case r of
               Inl e \<Rightarrow> (s, Some e)
             | Inr data \<Rightarrow>
                 let (c, amount_written) = tc_write c data; s = s\<lparr>so_tcp := Some c\<rparr>
                 in if amount_written \<noteq> length data
                    then (s, Some (RuntimeError ''TCPConnection::write() accepted less than advertised length''))
                    else if fd_eof (so_thread_data s) then so_then (so_finish_out s) (so_print E) else (s, None)))"

definition so_wants_out :: "('a, 'k) sponge_socket \<Rightarrow> bool" where
  "so_wants_out s =
     (case so_tcp s of
        None \<Rightarrow> False
      | Some c \<Rightarrow> tc_active c \<and> \<not> so_outbound_shutdown s \<and> 0 < tc_remaining_outbound_capacity c)"

section \<open>Rule 3: bytes for the owner\<close>

definition tr_pop :: "tcp_receiver \<Rightarrow> nat \<Rightarrow> tcp_receiver" where
  "tr_pop r n = r\<lparr>tr_reassembler := (tr_reassembler r)\<lparr>ra_output := bs_pop_output (tr_stream_out r) n\<rparr>\<rparr>"

definition so_shut_in :: "('a, 'k) so_env \<Rightarrow> ('a, 'k) sponge_socket \<Rightarrow> ('a, 'k) so_result" where
  "so_shut_in E s =
     (let (res, k) = se_shutdown E (fd_num (so_thread_data s)) SHUT_WR (so_kernel s);
          (w, r) = socket_shutdown SHUT_WR res (so_thread_data s);
          s = s\<lparr>so_thread_data := w, so_kernel := k\<rparr>
      in case r of Some e \<Rightarrow> (s, Some e) | None \<Rightarrow> so_print E (s\<lparr>so_inbound_shutdown := True\<rparr>))"

definition so_deliver_in :: "('a, 'k) so_env \<Rightarrow> ('a, 'k) sponge_socket \<Rightarrow> ('a, 'k) so_result" where
  "so_deliver_in E s =
     (case so_tcp s of
        None \<Rightarrow> (s, Some (UndefinedBehaviour ''_tcp''))
      | Some c \<Rightarrow>
          let inbound = tc_inbound_stream c;
              amount_to_write = min 65536 (bs_buffer_size inbound);
              buffer = bs_peek_output inbound amount_to_write;
              (w, k, r) = fd_write (se_writev E (fd_num (so_thread_data s))) False (bvl_of_string buffer)
                (so_thread_data s) (so_kernel s);
              s = s\<lparr>so_thread_data := w, so_kernel := k\<rparr>
          in (case r of
               Inl e \<Rightarrow> (s, Some e)
             | Inr bytes_written \<Rightarrow>
                 let c = c\<lparr>tc_receiver := tr_pop (tc_receiver c) bytes_written\<rparr>; s = s\<lparr>so_tcp := Some c\<rparr>
                 in if bs_eof (tc_inbound_stream c) \<or> bs_error (tc_inbound_stream c)
                    then so_shut_in E s else (s, None)))"

definition so_wants_in :: "('a, 'k) sponge_socket \<Rightarrow> bool" where
  "so_wants_in s =
     (case so_tcp s of
        None \<Rightarrow> False
      | Some c \<Rightarrow> \<not> bs_buffer_empty (tc_inbound_stream c) \<or>
          (bs_eof (tc_inbound_stream c) \<or> bs_error (tc_inbound_stream c)) \<and> \<not> so_inbound_shutdown s)"

section \<open>Rule 4: segments to send\<close>

text \<open>The loop over the queue: what is left of it, the adapter, the kernel.\<close>

fun so_send_loop :: "('a, 'k) so_env \<Rightarrow> tcp_segment list \<Rightarrow> 'a \<Rightarrow> 'k \<Rightarrow> tcp_segment list \<times> 'a \<times> 'k \<times> exn option" where
  "so_send_loop E [] a k = ([], a, k, None)"
| "so_send_loop E (seg # segs) a k =
     (case se_send E seg a k of
        (a, k, Some e) \<Rightarrow> (seg # segs, a, k, Some e)
      | (a, k, None) \<Rightarrow> so_send_loop E segs a k)"

definition so_send_segments :: "('a, 'k) so_env \<Rightarrow> ('a, 'k) sponge_socket \<Rightarrow> ('a, 'k) so_result" where
  "so_send_segments E s =
     (case so_tcp s of
        None \<Rightarrow> (s, Some (UndefinedBehaviour ''_tcp''))
      | Some c \<Rightarrow>
          let (segs, a, k, r) = so_send_loop E (tc_segments_out c) (so_adapter s) (so_kernel s)
          in (s\<lparr>so_adapter := a, so_kernel := k, so_tcp := Some (c\<lparr>tc_segments_out := segs\<rparr>)\<rparr>, r))"

definition so_wants_send :: "('a, 'k) sponge_socket \<Rightarrow> bool" where
  "so_wants_send s = (case so_tcp s of None \<Rightarrow> False | Some c \<Rightarrow> tc_segments_out c \<noteq> [])"

section \<open>The rules and the loop\<close>

definition so_rule1 :: "('a, 'k) so_env \<Rightarrow> ('a, 'k) sponge_socket el_rule" where
  "so_rule1 E = \<lparr>ru_fd = (\<lambda>s. se_fd E (so_adapter s)), ru_direction = DirIn, ru_callback = so_receive E,
     ru_interest = so_wants_datagram, ru_cancel = el_no_cancel\<rparr>"

definition so_rule2 :: "('a, 'k) so_env \<Rightarrow> ('a, 'k) sponge_socket el_rule" where
  "so_rule2 E = \<lparr>ru_fd = so_thread_data, ru_direction = DirIn, ru_callback = so_take_out E,
     ru_interest = so_wants_out, ru_cancel = so_finish_out\<rparr>"

definition so_rule3 :: "('a, 'k) so_env \<Rightarrow> ('a, 'k) sponge_socket el_rule" where
  "so_rule3 E = \<lparr>ru_fd = so_thread_data, ru_direction = DirOut, ru_callback = so_deliver_in E,
     ru_interest = so_wants_in, ru_cancel = el_no_cancel\<rparr>"

definition so_rule4 :: "('a, 'k) so_env \<Rightarrow> ('a, 'k) sponge_socket el_rule" where
  "so_rule4 E = \<lparr>ru_fd = (\<lambda>s. se_fd E (so_adapter s)), ru_direction = DirOut, ru_callback = so_send_segments E,
     ru_interest = so_wants_send, ru_cancel = el_no_cancel\<rparr>"

definition so_rules :: "('a, 'k) so_env \<Rightarrow> ('a, 'k) sponge_socket el_rule list" where
  "so_rules E = [so_rule1 E, so_rule2 E, so_rule3 E, so_rule4 E]"

definition so_initialize :: "('a, 'k) so_env \<Rightarrow> tcp_config \<Rightarrow> 32 word \<Rightarrow> ('a, 'k) sponge_socket el_rule list \<Rightarrow>
    ('a, 'k) sponge_socket \<Rightarrow> ('a, 'k) sponge_socket el_rule list \<times> ('a, 'k) sponge_socket" where
  "so_initialize E cfg random rules s =
     (el_add_rule (so_rule4 E) (el_add_rule (so_rule3 E) (el_add_rule (so_rule2 E) (el_add_rule (so_rule1 E) rules))),
      s\<lparr>so_tcp := Some (tc_construct cfg random)\<rparr>)"

text \<open>
  What one iteration of the loop finds: the answer of \<open>poll\<close>, whether the owner has asked to
  abort, the time. \<open>StillWaiting\<close> is a loop that has used up its inputs.
\<close>

record loop_input =
  li_poll :: poll
  li_abort :: bool
  li_now :: nat

datatype loop_end = StillWaiting | LoopDone | LoopThrew exn

definition so_elapse :: "('a, 'k) so_env \<Rightarrow> nat \<Rightarrow> tcp_connection \<Rightarrow> ('a, 'k) sponge_socket \<Rightarrow> ('a, 'k) so_result" where
  "so_elapse E ms c s =
     (let s = s\<lparr>so_tcp := Some (tc_tick c ms)\<rparr>; (a, k, r) = se_tick E ms (so_adapter s) (so_kernel s)
      in (s\<lparr>so_adapter := a, so_kernel := k\<rparr>, r))"

fun so_tcp_loop :: "('a, 'k) so_env \<Rightarrow> (('a, 'k) sponge_socket \<Rightarrow> bool) \<Rightarrow> nat \<Rightarrow> loop_input list \<Rightarrow>
    ('a, 'k) sponge_socket el_rule list \<Rightarrow> ('a, 'k) sponge_socket \<Rightarrow>
    ('a, 'k) sponge_socket el_rule list \<times> ('a, 'k) sponge_socket \<times> loop_end" where
  "so_tcp_loop E condition base_time [] rules s = (rules, s, if condition s then StillWaiting else LoopDone)"
| "so_tcp_loop E condition base_time (i # inputs) rules s =
     (if \<not> condition s then (rules, s, LoopDone)
      else case el_wait_next_event (li_poll i) 10 rules s of
             (rules, s, Inl e) \<Rightarrow> (rules, s, LoopThrew e)
           | (rules, s, Inr ret) \<Rightarrow>
               let s = s\<lparr>so_abort := so_abort s \<or> li_abort i\<rparr>
               in if ret = ElExit \<or> so_abort s then (rules, s, LoopDone)
                  else (case so_tcp s of
                         None \<Rightarrow> (rules, s, LoopThrew BadOptionalAccess)
                       | Some c \<Rightarrow>
                           if tc_active c
                           then (case so_elapse E (sub64 (li_now i) base_time) c s of
                                   (s, Some e) \<Rightarrow> (rules, s, LoopThrew e)
                                 | (s, None) \<Rightarrow> so_tcp_loop E condition (li_now i) inputs rules s)
                           else so_tcp_loop E condition base_time inputs rules s))"

section \<open>The operations of the owner\<close>

text \<open>Constructing from a connected pair: \<open>AF_UNIX\<close> and \<open>SOCK_STREAM\<close> are 1.\<close>

definition socket_pair_helper :: "sys_result \<Rightarrow> int \<Rightarrow> int \<Rightarrow> exn + fd_wrapper \<times> fd_wrapper" where
  "socket_pair_helper res fd0 fd1 =
     (case sys_check ''socketpair'' res of
        Some e \<Rightarrow> Inl e
      | None \<Rightarrow>
          (case fd_construct fd0 of
             Inl e \<Rightarrow> Inl e
           | Inr w0 \<Rightarrow> (case fd_construct fd1 of Inl e \<Rightarrow> Inl e | Inr w1 \<Rightarrow> Inr (w0, w1))))"

record pair_answers =
  pa_domain :: "sys_result \<times> int \<times> nat"
  pa_type :: "sys_result \<times> int \<times> nat"

definition so_construct :: "fd_wrapper \<times> fd_wrapper \<Rightarrow> pair_answers \<Rightarrow> pair_answers \<Rightarrow> sys_result \<Rightarrow>
    (int \<Rightarrow> sys_result) \<Rightarrow> 'a \<Rightarrow> 'k \<Rightarrow> exn + ('a, 'k) sponge_socket" where
  "so_construct data_socket_pair main_answers thread_answers getfl setfl adapter k =
     (case socket_from_fd (fst data_socket_pair) 1 1 (pa_domain main_answers) (pa_type main_answers) of
        Inl e \<Rightarrow> Inl e
      | Inr main \<Rightarrow>
          (case socket_from_fd (snd data_socket_pair) 1 1 (pa_domain thread_answers) (pa_type thread_answers) of
             Inl e \<Rightarrow> Inl e
           | Inr thread_data \<Rightarrow>
               (case fd_set_blocking False getfl setfl of
                  Some e \<Rightarrow> Inl e
                | None \<Rightarrow> Inr \<lparr>so_main = main, so_thread_data = thread_data, so_adapter = adapter, so_tcp = None,
                    so_joinable = False, so_abort = False, so_inbound_shutdown = False,
                    so_outbound_shutdown = False, so_fully_acked = False, so_kernel = k\<rparr>)))"

definition so_in_state :: "official_state list \<Rightarrow> ('a, 'k) sponge_socket \<Rightarrow> bool" where
  "so_in_state states s =
     (case so_tcp s of None \<Rightarrow> False | Some c \<Rightarrow> list_ex (\<lambda>st. tcp_state_eq (tc_state c) (tcp_state_of_official st)) states)"

text \<open>The end of \<open>connect\<close> and \<open>listen_and_accept\<close>: the loop, a message, the thread.\<close>

definition so_establish :: "('a, 'k) so_env \<Rightarrow> official_state list \<Rightarrow> nat \<Rightarrow> loop_input list \<Rightarrow>
    ('a, 'k) sponge_socket el_rule list \<Rightarrow> ('a, 'k) sponge_socket \<Rightarrow>
    ('a, 'k) sponge_socket el_rule list \<times> ('a, 'k) sponge_socket \<times> loop_end" where
  "so_establish E states base_time inputs rules s =
     (case so_tcp_loop E (so_in_state states) base_time inputs rules s of
        (rules, s, LoopDone) \<Rightarrow>
          (case so_print E s of
             (s, Some e) \<Rightarrow> (rules, s, LoopThrew e)
           | (s, None) \<Rightarrow> (rules, s\<lparr>so_joinable := True\<rparr>, LoopDone))
      | other \<Rightarrow> other)"

definition so_start_connect :: "('a, 'k) so_env \<Rightarrow> fd_adapter_config \<Rightarrow> ('a, 'k) sponge_socket \<Rightarrow> ('a, 'k) so_result" where
  "so_start_connect E c_ad s =
     so_then (so_print E (s\<lparr>so_adapter := se_set_config E c_ad (so_adapter s)\<rparr>))
       (\<lambda>s. so_then (so_tcp_do (\<lambda>c. Inr (tc_connect c)) s)
         (\<lambda>s. (s, if so_in_state [SYN_SENT] s then None
                 else Some (RuntimeError (''After TCPConnection::connect(), state was '' @
                   (case so_tcp s of None \<Rightarrow> [] | Some c \<Rightarrow> tcp_state_name (tc_state c)) @ '' but expected '' @
                   tcp_state_name (tcp_state_of_official SYN_SENT))))))"

definition so_connect :: "('a, 'k) so_env \<Rightarrow> tcp_config \<Rightarrow> 32 word \<Rightarrow> fd_adapter_config \<Rightarrow> nat \<Rightarrow> loop_input list \<Rightarrow>
    ('a, 'k) sponge_socket el_rule list \<Rightarrow> ('a, 'k) sponge_socket \<Rightarrow>
    ('a, 'k) sponge_socket el_rule list \<times> ('a, 'k) sponge_socket \<times> loop_end" where
  "so_connect E c_tcp random c_ad base_time inputs rules s =
     (if so_tcp s \<noteq> None
      then (rules, s, LoopThrew (RuntimeError ''connect() with TCPConnection already initialized''))
      else let (rules, s) = so_initialize E c_tcp random rules s
           in (case so_start_connect E c_ad s of
                 (s, Some e) \<Rightarrow> (rules, s, LoopThrew e)
               | (s, None) \<Rightarrow> so_establish E [SYN_SENT] base_time inputs rules s))"

definition so_listen_and_accept :: "('a, 'k) so_env \<Rightarrow> tcp_config \<Rightarrow> 32 word \<Rightarrow> fd_adapter_config \<Rightarrow> nat \<Rightarrow> loop_input list \<Rightarrow>
    ('a, 'k) sponge_socket el_rule list \<Rightarrow> ('a, 'k) sponge_socket \<Rightarrow>
    ('a, 'k) sponge_socket el_rule list \<times> ('a, 'k) sponge_socket \<times> loop_end" where
  "so_listen_and_accept E c_tcp random c_ad base_time inputs rules s =
     (if so_tcp s \<noteq> None
      then (rules, s, LoopThrew (RuntimeError ''listen_and_accept() with TCPConnection already initialized''))
      else let (rules, s) = so_initialize E c_tcp random rules s;
               s = s\<lparr>so_adapter := se_set_listening E True (se_set_config E c_ad (so_adapter s))\<rparr>
           in so_establish E [LISTEN, SYN_RCVD, SYN_SENT] base_time inputs rules s)"

text \<open>\<open>shutdown\<close> on the owner's end of the pair.\<close>

definition so_shutdown_main :: "('a, 'k) so_env \<Rightarrow> ('a, 'k) sponge_socket \<Rightarrow> ('a, 'k) so_result" where
  "so_shutdown_main E s =
     (let (res, k) = se_shutdown E (fd_num (so_main s)) SHUT_RDWR (so_kernel s);
          (w, r) = socket_shutdown SHUT_RDWR res (so_main s)
      in (s\<lparr>so_main := w, so_kernel := k\<rparr>, r))"

text \<open>The thread: an exception ends the program, after a message.\<close>

definition so_tcp_main :: "('a, 'k) so_env \<Rightarrow> nat \<Rightarrow> loop_input list \<Rightarrow> ('a, 'k) sponge_socket el_rule list \<Rightarrow>
    ('a, 'k) sponge_socket \<Rightarrow> ('a, 'k) sponge_socket el_rule list \<times> ('a, 'k) sponge_socket \<times> loop_end" where
  "so_tcp_main E base_time inputs rules s =
     (if so_tcp s = None then (rules, s, LoopThrew (RuntimeError ''no TCP''))
      else case so_tcp_loop E (\<lambda>_. True) base_time inputs rules s of
             (rules, s, LoopDone) \<Rightarrow>
               (case so_shutdown_main E s of
                  (s, Some e) \<Rightarrow> (rules, s, LoopThrew e)
                | (s, None) \<Rightarrow>
                    if so_tcp s = None then (rules, s, LoopThrew BadOptionalAccess)
                    else (rules, s\<lparr>so_tcp := None\<rparr>, LoopDone))
           | other \<Rightarrow> other)"

text \<open>Joining waits for the thread; \<open>thread_end\<close> is the state in which it ends.\<close>

definition so_join :: "('a, 'k) sponge_socket \<Rightarrow> ('a, 'k) sponge_socket \<Rightarrow> ('a, 'k) sponge_socket" where
  "so_join thread_end s = (if so_joinable s then thread_end\<lparr>so_joinable := False\<rparr> else s)"

definition so_wait_until_closed :: "('a, 'k) so_env \<Rightarrow> (('a, 'k) sponge_socket \<Rightarrow> ('a, 'k) sponge_socket) \<Rightarrow>
    ('a, 'k) sponge_socket \<Rightarrow> ('a, 'k) so_result" where
  "so_wait_until_closed E thread_ends s =
     so_then (so_shutdown_main E s) (\<lambda>s. (so_join (thread_ends s) s, None))"

definition so_destroy :: "(('a, 'k) sponge_socket \<Rightarrow> ('a, 'k) sponge_socket) \<Rightarrow> ('a, 'k) sponge_socket \<Rightarrow> ('a, 'k) sponge_socket" where
  "so_destroy thread_ends s =
     (if so_joinable s then let s = s\<lparr>so_abort := True\<rparr> in so_join (thread_ends s) s else s)"

section \<open>The sockets that configure themselves\<close>

definition cs144_config :: "netdb \<Rightarrow> string \<Rightarrow> 16 word \<Rightarrow> address \<Rightarrow> exn + tcp_config \<times> fd_adapter_config" where
  "cs144_config nd source_ip random_port destination =
     (case fac_default nd of
        Inl e \<Rightarrow> Inl e
      | Inr multiplexer_config \<Rightarrow>
          (case address_of_host nd source_ip (dec_string (unat random_port)) of
             Inl e \<Rightarrow> Inl e
           | Inr source \<Rightarrow> Inr (tcp_config_default\<lparr>cfg_rt_timeout := 100\<rparr>,
               multiplexer_config\<lparr>fac_source := source, fac_destination := destination\<rparr>)))"

definition cs144_connect :: "('a, 'k) so_env \<Rightarrow> 16 word \<Rightarrow> address \<Rightarrow> 32 word \<Rightarrow> nat \<Rightarrow> loop_input list \<Rightarrow>
    ('a, 'k) sponge_socket el_rule list \<Rightarrow> ('a, 'k) sponge_socket \<Rightarrow>
    ('a, 'k) sponge_socket el_rule list \<times> ('a, 'k) sponge_socket \<times> loop_end" where
  "cs144_connect E random_port destination random base_time inputs rules s =
     (case cs144_config (se_netdb E) ''169.254.144.9'' random_port destination of
        Inl e \<Rightarrow> (rules, s, LoopThrew e)
      | Inr (c_tcp, c_ad) \<Rightarrow> so_connect E c_tcp random c_ad base_time inputs rules s)"

definition full_stack_connect :: "('a, 'k) so_env \<Rightarrow> 16 word \<Rightarrow> address \<Rightarrow> 32 word \<Rightarrow> nat \<Rightarrow> loop_input list \<Rightarrow>
    ('a, 'k) sponge_socket el_rule list \<Rightarrow> ('a, 'k) sponge_socket \<Rightarrow>
    ('a, 'k) sponge_socket el_rule list \<times> ('a, 'k) sponge_socket \<times> loop_end" where
  "full_stack_connect E random_port destination random base_time inputs rules s =
     (case cs144_config (se_netdb E) ''169.254.10.9'' random_port destination of
        Inl e \<Rightarrow> (rules, s, LoopThrew e)
      | Inr (c_tcp, c_ad) \<Rightarrow> so_connect E c_tcp random c_ad base_time inputs rules s)"

text \<open>\<open>drawn\<close> are the six numbers of the random device.\<close>

definition random_private_ethernet_address :: "32 word list \<Rightarrow> ethernet_address" where
  "random_private_ethernet_address drawn =
     (let addr = map ucast drawn
      in addr[0 := Bit_Operations.and (Bit_Operations.or (addr ! 0) 0x02) 0xfe])"

lemma random_private_ethernet_address_private:
  assumes "length drawn = 6"
  shows "length (random_private_ethernet_address drawn) = 6" "bit (random_private_ethernet_address drawn ! 0) 1"
    "\<not> bit (random_private_ethernet_address drawn ! 0) 0"
proof -
  have c: "bit (0x02 :: byte) 1" "\<not> bit (0xfe :: byte) 0" "bit (0xfe :: byte) 1"
    by (simp_all add: bit_simps)
  show "length (random_private_ethernet_address drawn) = 6" "bit (random_private_ethernet_address drawn ! 0) 1"
    "\<not> bit (random_private_ethernet_address drawn ! 0) 0"
    using assms c by (simp_all add: random_private_ethernet_address_def Let_def bit_and_iff bit_or_iff)
qed

section \<open>What the surroundings promise\<close>

text \<open>
  Four histories of the surroundings: the bytes the thread has read from its local socket, the
  bytes it has written to it, the segments the adapter has taken and those it has handed over.
  \<open>read(2)\<close>, \<open>writev(2)\<close> and the adapter's \<open>write\<close> and \<open>read\<close> extend them, nothing else changes
  them.
\<close>

record 'k histories =
  hi_inp :: "'k \<Rightarrow> bytes"
  hi_out :: "'k \<Rightarrow> bytes"
  hi_tx :: "'k \<Rightarrow> tcp_segment list"
  hi_rx :: "'k \<Rightarrow> tcp_segment list"

definition hi_quiet :: "'k histories \<Rightarrow> 'k \<Rightarrow> 'k \<Rightarrow> bool" where
  "hi_quiet H k k' \<longleftrightarrow> hi_inp H k' = hi_inp H k \<and> hi_out H k' = hi_out H k \<and> hi_tx H k' = hi_tx H k \<and>
     hi_rx H k' = hi_rx H k"

definition hi_empty :: "'k histories \<Rightarrow> 'k \<Rightarrow> bool" where
  "hi_empty H k \<longleftrightarrow> hi_inp H k = [] \<and> hi_out H k = [] \<and> hi_tx H k = [] \<and> hi_rx H k = []"

definition read_spec :: "(nat \<Rightarrow> 'k \<Rightarrow> (sys_result \<times> bytes) \<times> 'k) \<Rightarrow> 'k histories \<Rightarrow> bool" where
  "read_spec f H \<longleftrightarrow>
     (\<forall>n k rv errno bs k'. f n k = (((rv, errno), bs), k') \<longrightarrow>
        (rv < 0 \<longrightarrow> rv = -1 \<and> errno \<noteq> 0 \<and> hi_inp H k' = hi_inp H k) \<and>
        (0 \<le> rv \<longrightarrow> nat rv \<le> n \<and> length bs = nat rv \<and> hi_inp H k' = hi_inp H k @ bs) \<and>
        hi_out H k' = hi_out H k \<and> hi_tx H k' = hi_tx H k \<and> hi_rx H k' = hi_rx H k)"

definition se_spec :: "('a, 'k) so_env \<Rightarrow> 'k histories \<Rightarrow> bool" where
  "se_spec E H \<longleftrightarrow>
     (\<forall>fd. read_spec (se_read E fd) H) \<and>
     (\<forall>fd. writev_spec (se_writev E fd) (hi_out H)) \<and>
     (\<forall>fd k iov. let k' = snd (se_writev E fd k iov)
       in hi_inp H k' = hi_inp H k \<and> hi_tx H k' = hi_tx H k \<and> hi_rx H k' = hi_rx H k) \<and>
     (\<forall>seg a k. let (a', k', r) = se_send E seg a k
       in hi_inp H k' = hi_inp H k \<and> hi_out H k' = hi_out H k \<and> hi_rx H k' = hi_rx H k \<and>
          (r = None \<longrightarrow> hi_tx H k' = hi_tx H k @ [seg])) \<and>
     (\<forall>a k. let (a', k', r) = se_receive E a k
       in hi_inp H k' = hi_inp H k \<and> hi_out H k' = hi_out H k \<and> hi_tx H k' = hi_tx H k \<and>
          hi_rx H k' = hi_rx H k @ (case r of Inr (Some seg) \<Rightarrow> [seg] | _ \<Rightarrow> [])) \<and>
     (\<forall>ms a k. hi_quiet H k (fst (snd (se_tick E ms a k)))) \<and>
     (\<forall>fd how k. hi_quiet H k (snd (se_shutdown E fd how k)))"

text \<open>A property of the kernel that no operation of the thread changes.\<close>

definition se_keeps :: "('a, 'k) so_env \<Rightarrow> ('k \<Rightarrow> bool) \<Rightarrow> bool" where
  "se_keeps E q \<longleftrightarrow> (\<forall>k. q k \<longrightarrow>
     (\<forall>fd n. q (snd (se_read E fd n k))) \<and> (\<forall>fd iov. q (snd (se_writev E fd k iov))) \<and>
     (\<forall>seg a. q (fst (snd (se_send E seg a k)))) \<and> (\<forall>a. q (fst (snd (se_receive E a k)))) \<and>
     (\<forall>ms a. q (fst (snd (se_tick E ms a k)))) \<and> (\<forall>fd how. q (snd (se_shutdown E fd how k))))"

lemma se_keepsD:
  assumes "se_keeps E q" "q k"
  shows "se_read E fd n k = (d, k') \<Longrightarrow> q k'" "se_writev E fd k iov = (w, k') \<Longrightarrow> q k'"
    "se_send E seg a k = (a', k', r) \<Longrightarrow> q k'" "se_receive E a k = (a', k', x) \<Longrightarrow> q k'"
    "se_tick E ms a k = (a', k', y) \<Longrightarrow> q k'" "se_shutdown E fd how k = (z, k') \<Longrightarrow> q k'"
  using assms unfolding se_keeps_def by (metis fst_conv snd_conv)+

lemma se_spec_read:
  assumes "se_spec E H" "se_read E fd (min (1024 * 1024) n) k = ((res, bs), k')" "fd_read n res bs w = (w', Inr data)"
  shows "hi_inp H k' = hi_inp H k @ data" "hi_out H k' = hi_out H k" "hi_tx H k' = hi_tx H k" "hi_rx H k' = hi_rx H k"
proof -
  obtain rv errno where res: "res = (rv, errno)"
    by (cases res)
  have "read_spec (se_read E fd) H"
    using assms(1) by (simp add: se_spec_def)
  note spec = this [unfolded read_spec_def, rule_format, OF assms(2) [unfolded res]]
  have "0 \<le> rv \<and> data = bs \<and> length data \<le> n"
    by (rule fd_read_data [OF assms(3) [unfolded res] conjI]) (use spec in auto)
  then show "hi_inp H k' = hi_inp H k @ data" "hi_out H k' = hi_out H k" "hi_tx H k' = hi_tx H k" "hi_rx H k' = hi_rx H k"
    using spec by simp_all
qed

lemma se_spec_write:
  assumes "se_spec E H" "fd_write (se_writev E fd) False (bvl_of_string data) w k = (w', k', Inr n)"
    and "length data < two63"
  shows "n \<le> length data" "hi_out H k' = hi_out H k @ take n data" "hi_inp H k' = hi_inp H k" "hi_tx H k' = hi_tx H k"
    "hi_rx H k' = hi_rx H k"
proof -
  have "writev_spec (se_writev E fd) (hi_out H)"
    using assms(1) by (simp add: se_spec_def)
  moreover have "0 + length (concat (bvl_of_string data)) < two64"
    using assms(3) by (simp add: bvl_of_string_def two63_def two64_def)
  ultimately show "n \<le> length data" "hi_out H k' = hi_out H k @ take n data"
    using fd_write_loop_spec [of "se_writev E fd" "hi_out H" "bvl_of_string data" 0 False w k w' k' "Inr n"] assms(2,3)
    by (auto simp: fd_write_def bvl_of_string_def)
  show "hi_inp H k' = hi_inp H k" "hi_tx H k' = hi_tx H k" "hi_rx H k' = hi_rx H k"
    using fd_write_once [OF assms(2)] assms(1) by (simp_all add: se_spec_def Let_def)
qed

lemma se_spec_send:
  assumes "se_spec E H" "se_send E seg a k = (a', k', None)"
  shows "hi_inp H k' = hi_inp H k \<and> hi_out H k' = hi_out H k \<and> hi_tx H k' = hi_tx H k @ [seg] \<and> hi_rx H k' = hi_rx H k"
  using assms unfolding se_spec_def Let_def by (metis (mono_tags, lifting) case_prod_conv)

lemma se_spec_receive:
  assumes "se_spec E H" "se_receive E a k = (a', k', r)"
  shows "hi_inp H k' = hi_inp H k \<and> hi_out H k' = hi_out H k \<and> hi_tx H k' = hi_tx H k \<and>
    hi_rx H k' = hi_rx H k @ (case r of Inr (Some seg) \<Rightarrow> [seg] | _ \<Rightarrow> [])"
  using assms unfolding se_spec_def Let_def by (metis (mono_tags, lifting) case_prod_conv)

lemma se_spec_quiet:
  assumes "se_spec E H"
  shows "se_tick E ms a k = (a', k', y) \<Longrightarrow> hi_quiet H k k'"
    and "se_shutdown E fd how k = (z, k') \<Longrightarrow> hi_quiet H k k'"
  using assms unfolding se_spec_def by (metis fst_conv snd_conv)+

section \<open>The simulation\<close>

text \<open>
  The socket at a moment at which its connection, with what passed through the kernel and the
  adapter, is the endpoint \<open>x\<close>.
\<close>

definition so_sim :: "'k histories \<Rightarrow> ('a, 'k) sponge_socket \<Rightarrow> endpoint \<Rightarrow> bool" where
  "so_sim H s x \<longleftrightarrow> so_tcp s = Some (ep_conn x) \<and> hi_inp H (so_kernel s) = ep_written x \<and>
     hi_out H (so_kernel s) = ep_got x \<and> hi_tx H (so_kernel s) = ep_sent x"

text \<open>
  \<open>R x rx\<close>: the endpoint may be \<open>x\<close> when the adapter has handed over \<open>rx\<close>. The operations of an
  endpoint must keep it.
\<close>

fun ep_received :: "ep_event list \<Rightarrow> tcp_segment list" where
  "ep_received [] = []"
| "ep_received (EpReceive seg # es) = seg # ep_received es"
| "ep_received (e # es) = ep_received es"

lemma ep_received_append [simp]: "ep_received (es @ fs) = ep_received es @ ep_received fs"
  by (induction es rule: ep_received.induct) simp_all

definition ep_closed :: "(endpoint \<Rightarrow> tcp_segment list \<Rightarrow> bool) \<Rightarrow> bool" where
  "ep_closed R \<longleftrightarrow> (\<forall>x rx e x'. R x rx \<longrightarrow> ep_step x e = Inr x' \<longrightarrow> R x' (rx @ ep_received [e]))"

definition so_inv :: "('a, 'k) so_env \<Rightarrow> 'k histories \<Rightarrow> ('k \<Rightarrow> bool) \<Rightarrow> (endpoint \<Rightarrow> tcp_segment list \<Rightarrow> bool) \<Rightarrow>
    ('a, 'k) sponge_socket \<Rightarrow> bool" where
  "so_inv E H q R s \<longleftrightarrow> se_spec E H \<and> se_keeps E q \<and> ep_closed R \<and> q (so_kernel s) \<and>
     (\<exists>x. R x (hi_rx H (so_kernel s)) \<and> so_sim H s x)"

lemma so_invD:
  assumes "so_inv E H q R s"
  shows "se_spec E H" "se_keeps E q" "q (so_kernel s)"
  using assms by (simp_all add: so_inv_def)

text \<open>Nothing of the connection has moved, or one operation of the endpoint explains what has.\<close>

lemma so_inv_frame:
  assumes "so_inv E H q R s" "so_tcp s' = so_tcp s" "hi_quiet H (so_kernel s) (so_kernel s')" "q (so_kernel s')"
  shows "so_inv E H q R s'"
  using assms by (auto simp: so_inv_def so_sim_def hi_quiet_def)

lemma so_inv_step:
  assumes "so_inv E H q R s" "q (so_kernel s')"
    and "\<And>x. so_sim H s x \<Longrightarrow> \<exists>e x'. ep_step x e = Inr x' \<and> so_sim H s' x' \<and>
      hi_rx H (so_kernel s') = hi_rx H (so_kernel s) @ ep_received [e]"
  shows "so_inv E H q R s'"
  using assms unfolding so_inv_def ep_closed_def by metis

lemma so_inv_flags [simp]:
  "so_inv E H q R (s\<lparr>so_fully_acked := b\<rparr>) = so_inv E H q R s"
  "so_inv E H q R (s\<lparr>so_outbound_shutdown := b\<rparr>) = so_inv E H q R s"
  "so_inv E H q R (s\<lparr>so_inbound_shutdown := b\<rparr>) = so_inv E H q R s"
  "so_inv E H q R (s\<lparr>so_abort := b\<rparr>) = so_inv E H q R s"
  "so_inv E H q R (s\<lparr>so_joinable := b\<rparr>) = so_inv E H q R s"
  "so_inv E H q R (s\<lparr>so_adapter := a\<rparr>) = so_inv E H q R s"
  by (simp_all add: so_inv_def so_sim_def)

lemma so_print_ok: "so_print E s = (s', None) \<Longrightarrow> s' = s"
  by (auto simp: so_print_def)

text \<open>An operation of the connection, after the adapter may have handed over a segment.\<close>

lemma so_tcp_do_inv:
  assumes "so_inv E H q R s" "so_tcp_do f t = (s', None)"
    and "so_tcp t = so_tcp s" "q (so_kernel t)" "hi_inp H (so_kernel t) = hi_inp H (so_kernel s)"
      "hi_out H (so_kernel t) = hi_out H (so_kernel s)" "hi_tx H (so_kernel t) = hi_tx H (so_kernel s)"
      "hi_rx H (so_kernel t) = hi_rx H (so_kernel s) @ ep_received [e]"
    and "\<And>x c. f (ep_conn x) = Inr c \<Longrightarrow> ep_step x e = Inr (x\<lparr>ep_conn := c\<rparr>)"
  shows "so_inv E H q R s'"
proof -
  obtain c c' where c: "so_tcp s = Some c" "f c = Inr c'" "s' = t\<lparr>so_tcp := Some c'\<rparr>"
    using assms(2,3) by (auto simp: so_tcp_do_def split: option.splits sum.splits)
  show ?thesis
  proof (rule so_inv_step [OF assms(1)])
    fix x assume x: "so_sim H s x"
    then have "ep_step x e = Inr (x\<lparr>ep_conn := c'\<rparr>)"
      using assms(9) [of x c'] c by (simp add: so_sim_def)
    then show "\<exists>e x'. ep_step x e = Inr x' \<and> so_sim H s' x' \<and>
        hi_rx H (so_kernel s') = hi_rx H (so_kernel s) @ ep_received [e]"
      using x c(3) assms(5-8) by (intro exI [of _ e] exI [of _ "x\<lparr>ep_conn := c'\<rparr>"]) (simp add: so_sim_def)
  qed (use assms(4) c(3) in simp)
qed

section \<open>Every rule keeps it\<close>

lemma so_check_acked_inv:
  assumes "so_inv E H q R s" "so_check_acked E s = (s', None)"
  shows "so_inv E H q R s'"
  using assms by (auto simp: so_check_acked_def so_then_ok split: if_splits option.splits dest!: so_print_ok)

lemma so_receive_inv:
  assumes "so_inv E H q R s" "so_receive E s = (s', None)"
  shows "so_inv E H q R s'"
proof -
  obtain a k r where r: "se_receive E (so_adapter s) (so_kernel s) = (a, k, r)"
    by (cases "se_receive E (so_adapter s) (so_kernel s)") auto
  let ?s = "s\<lparr>so_adapter := a, so_kernel := k\<rparr>"
  note inv = so_invD [OF assms(1)]
  note spec = se_spec_receive [OF inv(1) r] and q = se_keepsD(4) [OF inv(2,3) r]
  consider "r = Inr None" "so_check_acked E ?s = (s', None)"
    | seg t where "r = Inr (Some seg)" "so_tcp_do (\<lambda>c. tc_segment_received c seg) ?s = (t, None)"
        "so_check_acked E t = (s', None)"
    using assms(2) by (auto simp: so_receive_def r so_then_ok Let_def split: sum.splits option.splits)
  then show ?thesis
  proof cases
    case 1
    have "so_inv E H q R ?s"
      by (rule so_inv_frame [OF assms(1)]) (use spec q 1(1) in \<open>simp_all add: hi_quiet_def\<close>)
    then show ?thesis
      using 1(2) by (rule so_check_acked_inv)
  next
    case (2 seg t)
    have "so_inv E H q R t"
      by (rule so_tcp_do_inv [OF assms(1) 2(2), of "EpReceive seg"]) (use spec q 2(1) in simp_all)
    then show ?thesis
      using 2(3) by (rule so_check_acked_inv)
  qed
qed

lemma so_finish_out_inv:
  assumes "so_inv E H q R s" "so_finish_out s = (s', None)"
  shows "so_inv E H q R s'"
proof -
  obtain t where t: "so_tcp_do (\<lambda>c. Inr (tc_end_input_stream c)) s = (t, None)" "s' = t\<lparr>so_outbound_shutdown := True\<rparr>"
    using assms(2) by (auto simp: so_finish_out_def so_then_ok)
  have "so_inv E H q R t"
    by (rule so_tcp_do_inv [OF assms(1) t(1), of EpEndInput]) (use so_invD(3) [OF assms(1)] in simp_all)
  then show ?thesis
    by (simp add: t(2))
qed

lemma so_take_out_inv:
  assumes "so_inv E H q R s" "so_take_out E s = (s', None)"
  shows "so_inv E H q R s'"
proof -
  obtain c where c: "so_tcp s = Some c"
    using assms(2) by (auto simp: so_take_out_def split: option.splits)
  let ?limit = "tc_remaining_outbound_capacity c"
  obtain res bs k where rd: "se_read E (fd_num (so_thread_data s)) (min (1024 * 1024) ?limit) (so_kernel s) = ((res, bs), k)"
    by (cases "se_read E (fd_num (so_thread_data s)) (min (1024 * 1024) ?limit) (so_kernel s)") auto
  obtain w r where fd: "fd_read ?limit res bs (so_thread_data s) = (w, r)"
    by (cases "fd_read ?limit res bs (so_thread_data s)")
  note def = assms(2) [unfolded so_take_out_def c option.case Let_def rd fd prod.case]
  obtain data where data: "r = Inr data"
    using def by (cases r) simp_all
  obtain c' n where wr: "tc_write c data = (c', n)"
    by (cases "tc_write c data")
  define t where "t = s\<lparr>so_thread_data := w, so_kernel := k, so_tcp := Some c'\<rparr>"
  have n: "n = length data" and s': "s' = t \<or> so_finish_out t = (s', None)"
    using def by (auto simp: data wr t_def so_then_ok split: if_splits dest!: so_print_ok)
  note inv = so_invD [OF assms(1)]
  note k = se_spec_read [OF inv(1) rd fd [unfolded data]]
  have "so_inv E H q R t"
  proof (rule so_inv_step [OF assms(1)])
    show "q (so_kernel t)"
      using se_keepsD(1) [OF inv(2,3) rd] by (simp add: t_def)
    fix x assume x: "so_sim H s x"
    have "ep_step x (EpWrite data) = Inr (x\<lparr>ep_conn := c', ep_written := ep_written x @ data\<rparr>)"
      using x c wr n by (simp add: so_sim_def)
    moreover have "so_sim H t (x\<lparr>ep_conn := c', ep_written := ep_written x @ data\<rparr>)"
      using x k by (simp add: so_sim_def t_def)
    moreover have "hi_rx H (so_kernel t) = hi_rx H (so_kernel s) @ ep_received [EpWrite data]"
      using k(4) by (simp add: t_def)
    ultimately show "\<exists>e x'. ep_step x e = Inr x' \<and> so_sim H t x' \<and>
        hi_rx H (so_kernel t) = hi_rx H (so_kernel s) @ ep_received [e]"
      by blast
  qed
  then show ?thesis
    using s' so_finish_out_inv by blast
qed

lemma so_shut_in_inv:
  assumes "so_inv E H q R s" "so_shut_in E s = (s', None)"
  shows "so_inv E H q R s'"
proof -
  obtain res k where r: "se_shutdown E (fd_num (so_thread_data s)) 1 (so_kernel s) = (res, k)"
    by (cases "se_shutdown E (fd_num (so_thread_data s)) 1 (so_kernel s)")
  obtain w e where w: "socket_shutdown 1 res (so_thread_data s) = (w, e)"
    by (cases "socket_shutdown 1 res (so_thread_data s)")
  note inv = so_invD [OF assms(1)]
  have "so_inv E H q R (s\<lparr>so_thread_data := w, so_kernel := k\<rparr>)"
    by (rule so_inv_frame [OF assms(1)]) (use se_spec_quiet(2) [OF inv(1) r] se_keepsD(6) [OF inv(2,3) r] in simp_all)
  moreover have "s' = s\<lparr>so_thread_data := w, so_kernel := k, so_inbound_shutdown := True\<rparr>"
    using assms(2) by (auto simp: so_shut_in_def r w Let_def split: option.splits dest!: so_print_ok)
  ultimately show ?thesis
    by simp
qed

text \<open>Popping what was written is reading it.\<close>

lemma bs_pop_read:
  assumes "n \<le> length (bs_peek_output b (min 65536 (bs_buffer_size b)))"
  shows "bs_pop_output b n = fst (bs_read b n)"
    "take n (bs_peek_output b (min 65536 (bs_buffer_size b))) = snd (bs_read b n)"
  using assms by (auto simp: bs_defs Let_def min_def split: if_splits)

lemma so_deliver_in_inv:
  assumes "so_inv E H q R s" "so_deliver_in E s = (s', None)"
  shows "so_inv E H q R s'"
proof -
  obtain c where c: "so_tcp s = Some c"
    using assms(2) by (auto simp: so_deliver_in_def split: option.splits)
  define buffer where "buffer = bs_peek_output (tc_inbound_stream c) (min 65536 (bs_buffer_size (tc_inbound_stream c)))"
  obtain w k r where fd: "fd_write (se_writev E (fd_num (so_thread_data s))) False (bvl_of_string buffer)
      (so_thread_data s) (so_kernel s) = (w, k, r)"
    by (cases "fd_write (se_writev E (fd_num (so_thread_data s))) False (bvl_of_string buffer)
      (so_thread_data s) (so_kernel s)") auto
  note def = assms(2) [unfolded so_deliver_in_def c option.case Let_def buffer_def [symmetric] fd prod.case]
  obtain n where n: "r = Inr n"
    using def by (cases r) simp_all
  define c' where "c' = c\<lparr>tc_receiver := tr_pop (tc_receiver c) n\<rparr>"
  define t where "t = s\<lparr>so_thread_data := w, so_kernel := k, so_tcp := Some c'\<rparr>"
  have s': "s' = t \<or> so_shut_in E t = (s', None)"
    using def by (auto simp: n t_def c'_def split: if_splits)
  note inv = so_invD [OF assms(1)]
  have "length buffer < two63"
    by (auto simp: buffer_def bs_peek_output_def Let_def two63_def)
  note k = se_spec_write [OF inv(1) fd [unfolded n] this]
  note pop = bs_pop_read [OF k(1) [unfolded buffer_def]]
  have "so_inv E H q R t"
  proof (rule so_inv_step [OF assms(1)])
    show "q (so_kernel t)"
      using fd_write_once [OF fd [unfolded n]] se_keepsD(2) [OF inv(2,3) surjective_pairing] by (simp add: t_def)
    fix x assume x: "so_sim H s x"
    let ?x = "x\<lparr>ep_conn := c', ep_got := ep_got x @ take n buffer\<rparr>"
    have "ep_step x (EpRead n) = Inr ?x"
      using x c pop by (simp add: so_sim_def c'_def tr_pop_def tr_read_def buffer_def tc_inbound_stream_def)
    moreover have "so_sim H t ?x"
      using x k by (simp add: so_sim_def t_def)
    moreover have "hi_rx H (so_kernel t) = hi_rx H (so_kernel s) @ ep_received [EpRead n]"
      using k(5) by (simp add: t_def)
    ultimately show "\<exists>e x'. ep_step x e = Inr x' \<and> so_sim H t x' \<and>
        hi_rx H (so_kernel t) = hi_rx H (so_kernel s) @ ep_received [e]"
      by blast
  qed
  then show ?thesis
    using s' so_shut_in_inv by blast
qed

lemma so_send_loop_inv:
  assumes "se_spec E H" "se_keeps E q"
  shows "so_send_loop E segs a k = (segs', a', k', None) \<Longrightarrow> q k \<Longrightarrow>
    segs' = [] \<and> hi_inp H k' = hi_inp H k \<and> hi_out H k' = hi_out H k \<and> hi_tx H k' = hi_tx H k @ segs \<and>
    hi_rx H k' = hi_rx H k \<and> q k'"
proof (induction segs arbitrary: a k)
  case (Cons seg segs)
  obtain b l r where s: "se_send E seg a k = (b, l, r)"
    by (cases "se_send E seg a k") auto
  then show ?case
    using Cons se_spec_send [OF assms(1)] se_keepsD(3) [OF assms(2) Cons.prems(2) s] by (cases r) auto
qed simp

text \<open>Sending \<open>n\<close> segments is transmitting \<open>n\<close> times.\<close>

lemma ep_transmit_all:
  "foldl ep_bind (Inr x) (replicate (length (tc_segments_out (ep_conn x))) EpTransmit) =
     Inr (x\<lparr>ep_conn := (ep_conn x)\<lparr>tc_segments_out := []\<rparr>, ep_sent := ep_sent x @ tc_segments_out (ep_conn x)\<rparr>)"
proof (induction "tc_segments_out (ep_conn x)" arbitrary: x)
  case Nil
  then show ?case
    by simp
next
  case (Cons seg segs)
  let ?y = "x\<lparr>ep_conn := (ep_conn x)\<lparr>tc_segments_out := segs\<rparr>, ep_sent := ep_sent x @ [seg]\<rparr>"
  have "ep_step x EpTransmit = Inr ?y"
    by (simp add: Cons.hyps(2) [symmetric])
  then show ?case
    using Cons.hyps(1) [of ?y] by (simp add: Cons.hyps(2) [symmetric] ep_bind_def [of _ EpTransmit] del: ep_step.simps)
qed

lemma ep_closed_run:
  assumes "ep_closed R"
  shows "foldl ep_bind (Inr x) es = Inr y \<Longrightarrow> R x rx \<Longrightarrow> R y (rx @ ep_received es)"
proof (induction es arbitrary: x rx)
  case (Cons e es)
  obtain z where z: "ep_step x e = Inr z"
  proof (cases "ep_step x e")
    case (Inl ex)
    have "foldl ep_bind (Inl ex) es = Inl ex"
      by (induction es) (simp_all add: ep_bind_def)
    then show ?thesis
      using Cons.prems(1) Inl by (simp add: ep_bind_def [of _ e])
  qed
  have "R z (rx @ ep_received [e])"
    using assms Cons.prems(2) z by (simp add: ep_closed_def)
  then have "R y ((rx @ ep_received [e]) @ ep_received es)"
    using Cons.prems(1) z by (intro Cons.IH) (simp_all add: ep_bind_def [of _ e])
  then show ?case
    using ep_received_append [of "[e]" es] by (metis append.assoc append_Cons append_Nil)
qed simp

lemma ep_received_transmit [simp]: "ep_received (replicate n EpTransmit) = []"
  by (induction n) simp_all

lemma so_send_segments_inv:
  assumes "so_inv E H q R s" "so_send_segments E s = (s', None)"
  shows "so_inv E H q R s'"
proof -
  obtain x where x: "R x (hi_rx H (so_kernel s))" "so_sim H s x" and closed: "ep_closed R"
    using assms(1) by (auto simp: so_inv_def)
  note inv = so_invD [OF assms(1)]
  have c: "so_tcp s = Some (ep_conn x)"
    using x(2) by (simp add: so_sim_def)
  obtain segs a k r where l: "so_send_loop E (tc_segments_out (ep_conn x)) (so_adapter s) (so_kernel s) = (segs, a, k, r)"
    by (cases "so_send_loop E (tc_segments_out (ep_conn x)) (so_adapter s) (so_kernel s)") auto
  have s': "r = None" "s' = s\<lparr>so_adapter := a, so_kernel := k, so_tcp := Some ((ep_conn x)\<lparr>tc_segments_out := segs\<rparr>)\<rparr>"
    using assms(2) by (auto simp: so_send_segments_def c l)
  note k = so_send_loop_inv [OF inv(1,2) l [unfolded s'(1)] inv(3)]
  let ?y = "x\<lparr>ep_conn := (ep_conn x)\<lparr>tc_segments_out := []\<rparr>, ep_sent := ep_sent x @ tc_segments_out (ep_conn x)\<rparr>"
  have "R ?y (hi_rx H (so_kernel s'))"
    using ep_closed_run [OF closed ep_transmit_all x(1)] k by (simp add: s'(2))
  moreover have "so_sim H s' ?y"
    using x(2) k by (simp add: so_sim_def s'(2))
  ultimately show ?thesis
    using inv closed k s'(2) by (auto simp: so_inv_def)
qed

lemma so_elapse_inv:
  assumes "so_inv E H q R s" "so_tcp s = Some c" "so_elapse E ms c s = (s', None)"
  shows "so_inv E H q R s'"
proof -
  obtain a k r where r: "se_tick E ms (so_adapter s) (so_kernel s) = (a, k, r)"
    by (cases "se_tick E ms (so_adapter s) (so_kernel s)") auto
  note inv = so_invD [OF assms(1)]
  note quiet = se_spec_quiet(1) [OF inv(1) r]
  have s': "s' = s\<lparr>so_tcp := Some (tc_tick c ms), so_adapter := a, so_kernel := k\<rparr>"
    using assms(3) by (simp add: so_elapse_def r Let_def)
  show ?thesis
  proof (rule so_inv_step [OF assms(1)])
    show "q (so_kernel s')"
      using se_keepsD(5) [OF inv(2,3) r] by (simp add: s')
    fix x assume x: "so_sim H s x"
    have "ep_step x (EpTick ms) = Inr (x\<lparr>ep_conn := tc_tick c ms\<rparr>)"
      using x assms(2) by (simp add: so_sim_def)
    moreover have "so_sim H s' (x\<lparr>ep_conn := tc_tick c ms\<rparr>)"
      using x quiet by (simp add: so_sim_def s' hi_quiet_def)
    moreover have "hi_rx H (so_kernel s') = hi_rx H (so_kernel s) @ ep_received [EpTick ms]"
      using quiet by (simp add: s' hi_quiet_def)
    ultimately show "\<exists>e x'. ep_step x e = Inr x' \<and> so_sim H s' x' \<and>
        hi_rx H (so_kernel s') = hi_rx H (so_kernel s) @ ep_received [e]"
      by blast
  qed
qed

section \<open>The loop\<close>

interpretation so: event_rules "so_rules E" "so_inv E H q R" for E H q R
proof unfold_locales
  fix r s s'
  assume r: "r \<in> set (so_rules E)" and inv: "so_inv E H q R s"
  show "so_inv E H q R s'" if "ru_callback r s = (s', None)"
    using r that so_receive_inv [OF inv] so_take_out_inv [OF inv] so_deliver_in_inv [OF inv] so_send_segments_inv [OF inv]
    by (auto simp: so_rules_def so_rule1_def so_rule2_def so_rule3_def so_rule4_def)
  show "so_inv E H q R s'" if "ru_cancel r s = (s', None)"
    using r that inv so_finish_out_inv [OF inv]
    by (auto simp: so_rules_def so_rule1_def so_rule2_def so_rule3_def so_rule4_def el_no_cancel_def)
qed

lemma so_tcp_loop_inv:
  "so_tcp_loop E condition base_time inputs rules s = (rules', s', r) \<Longrightarrow> set rules \<subseteq> set (so_rules E) \<Longrightarrow>
    so_inv E H q R s \<Longrightarrow> (\<And>e. r \<noteq> LoopThrew e) \<Longrightarrow>
    so_inv E H q R s' \<and> set rules' \<subseteq> set (so_rules E)"
proof (induction inputs arbitrary: base_time rules s)
  case (Cons i inputs)
  show ?case
  proof (cases "condition s")
    case True
    obtain rules1 t res where w: "el_wait_next_event (li_poll i) 10 rules s = (rules1, t, res)"
      by (cases "el_wait_next_event (li_poll i) 10 rules s") auto
    obtain ret where ret: "res = Inr ret"
      using Cons.prems(1,4) True w by (cases res) auto
    have inv: "so_inv E H q R t" "set rules1 \<subseteq> set (so_rules E)"
      using so.wait_inv [OF Cons.prems(2,3) w [unfolded ret]] by simp_all
    let ?t = "t\<lparr>so_abort := so_abort t \<or> li_abort i\<rparr>"
    have inv': "so_inv E H q R ?t"
      using inv by simp
    obtain c where c: "so_tcp t = Some c"
      using inv(1) by (auto simp: so_inv_def so_sim_def)
    note loop = Cons.prems(1) [unfolded so_tcp_loop.simps w ret, simplified True c Let_def, simplified]
    show ?thesis
    proof (cases "ret = ElExit \<or> so_abort t \<or> li_abort i")
      case False
      show ?thesis
      proof (cases "tc_active c")
        case True
        obtain u e where u: "so_elapse E (sub64 (li_now i) base_time) c ?t = (u, e)"
          by (cases "so_elapse E (sub64 (li_now i) base_time) c ?t")
        have "e = None"
          using loop False True u c Cons.prems(4) by (cases e) auto
        then show ?thesis
          using loop False True u Cons.IH [OF _ inv(2) so_elapse_inv [OF inv'] Cons.prems(4)] c by auto
      qed (use loop False c Cons.IH [OF _ inv(2) inv' Cons.prems(4)] in auto)
    qed (use loop c inv inv' in auto)
  qed (use Cons.prems in auto)
qed auto

lemma so_initialize_rules: "fst (so_initialize E cfg random [] s) = so_rules E"
  by (simp add: so_initialize_def el_add_rule_def so_rules_def)

text \<open>A socket that has not been initialized yet, in surroundings where nothing has happened.\<close>

definition so_fresh :: "('a, 'k) so_env \<Rightarrow> 'k histories \<Rightarrow> ('k \<Rightarrow> bool) \<Rightarrow> (endpoint \<Rightarrow> tcp_segment list \<Rightarrow> bool) \<Rightarrow>
    tcp_config \<Rightarrow> 32 word \<Rightarrow> ('a, 'k) sponge_socket \<Rightarrow> bool" where
  "so_fresh E H q R cfg random s \<longleftrightarrow> se_spec E H \<and> se_keeps E q \<and> ep_closed R \<and> q (so_kernel s) \<and>
     hi_empty H (so_kernel s) \<and> R (ep_init cfg random) []"

lemma so_initialize_inv:
  assumes "so_fresh E H q R cfg random s"
  shows "so_inv E H q R (snd (so_initialize E cfg random rules s))"
  using assms by (auto simp: so_inv_def so_fresh_def so_sim_def so_initialize_def ep_init_def hi_empty_def
      intro!: exI [of _ "ep_init cfg random"])

lemma so_establish_inv:
  assumes "so_establish E states base_time inputs rules s = (rules', s', r)" "set rules \<subseteq> set (so_rules E)"
    and "so_inv E H q R s" "\<And>e. r \<noteq> LoopThrew e"
  shows "so_inv E H q R s' \<and> set rules' \<subseteq> set (so_rules E)"
proof -
  obtain rules1 t q where l: "so_tcp_loop E (so_in_state states) base_time inputs rules s = (rules1, t, q)"
    by (cases "so_tcp_loop E (so_in_state states) base_time inputs rules s") auto
  have q: "q \<noteq> LoopThrew e" for e
    using assms(1) assms(4) [of e] l by (auto simp: so_establish_def)
  note inv = so_tcp_loop_inv [OF l assms(2,3) q]
  show ?thesis
  proof (cases q)
    case StillWaiting
    then show ?thesis
      using assms(1) l inv by (simp add: so_establish_def)
  next
    case LoopDone
    then show ?thesis
      using assms(1,4) l inv by (cases "so_print E t") (auto simp: so_establish_def split: option.splits dest!: so_print_ok)
  next
    case (LoopThrew e)
    then show ?thesis
      using q by blast
  qed
qed

lemma so_start_connect_inv:
  assumes "so_start_connect E c_ad s = (s', None)" "so_inv E H q R s"
  shows "so_inv E H q R s'"
proof -
  let ?s = "s\<lparr>so_adapter := se_set_config E c_ad (so_adapter s)\<rparr>"
  have "so_tcp_do (\<lambda>c. Inr (tc_connect c)) ?s = (s', None)"
    using assms(1) by (auto simp: so_start_connect_def so_then_ok dest!: so_print_ok split: if_splits)
  then show ?thesis
    by (rule so_tcp_do_inv [OF assms(2), where e = EpConnect]) (use so_invD(3) [OF assms(2)] in simp_all)
qed

lemma so_connect_inv:
  assumes "so_connect E cfg random c_ad base_time inputs [] s = (rules', s', r) \<or>
      so_listen_and_accept E cfg random c_ad base_time inputs [] s = (rules', s', r)" "\<And>e. r \<noteq> LoopThrew e"
    and "so_fresh E H q R cfg random s"
  shows "so_inv E H q R s' \<and> set rules' \<subseteq> set (so_rules E)"
proof -
  obtain rules t where i: "so_initialize E cfg random [] s = (rules, t)"
    by (cases "so_initialize E cfg random [] s")
  have t: "so_inv E H q R t" "set rules \<subseteq> set (so_rules E)"
    using so_initialize_inv [OF assms(3), of "[]"] so_initialize_rules [of E cfg random s] i by simp_all
  show ?thesis
    using assms(1)
  proof
    assume c: "so_connect E cfg random c_ad base_time inputs [] s = (rules', s', r)"
    obtain u e where u: "so_start_connect E c_ad t = (u, e)"
      by (cases "so_start_connect E c_ad t")
    have e: "e = None" "so_establish E [SYN_SENT] base_time inputs rules u = (rules', s', r)"
      using c assms(2) by (auto simp: so_connect_def i u split: if_splits option.splits)
    show ?thesis
      by (rule so_establish_inv [OF e(2) t(2) so_start_connect_inv [OF u [unfolded e(1)] t(1)] assms(2)])
  next
    assume c: "so_listen_and_accept E cfg random c_ad base_time inputs [] s = (rules', s', r)"
    then have e: "so_establish E [LISTEN, SYN_RCVD, SYN_SENT] base_time inputs rules
        (t\<lparr>so_adapter := se_set_listening E True (se_set_config E c_ad (so_adapter t))\<rparr>) = (rules', s', r)"
      using assms(2) by (auto simp: so_listen_and_accept_def i split: if_splits)
    show ?thesis
      by (rule so_establish_inv [OF e t(2) _ assms(2)]) (use t(1) in simp)
  qed
qed

section \<open>Properties\<close>

text \<open>
  C5: The socket is its connection. After connect or listen_and_accept and any part of the
  thread's loop, whatever poll answers, as long as nothing has thrown: the connection is in a
  state that some sequence of operations on an endpoint reaches, in which the bytes written are
  those the thread has read from the owner, the bytes read those it has handed to the owner, the
  segments sent those the adapter has taken and the segments received those it has handed over,
  each in their order and exactly once.
\<close>

theorem socket_refines_connection:
  assumes "se_spec E H" "hi_empty H (so_kernel s)"
    and "so_connect E cfg random c_ad base_time inputs [] s = (rules1, s1, r1) \<or>
      so_listen_and_accept E cfg random c_ad base_time inputs [] s = (rules1, s1, r1)" "\<And>e. r1 \<noteq> LoopThrew e"
    and "so_tcp_loop E (\<lambda>_. True) base_time1 inputs1 rules1 s1 = (rules2, s2, r2)" "\<And>e. r2 \<noteq> LoopThrew e"
  shows "\<exists>es x. foldl ep_bind (Inr (ep_init cfg random)) es = Inr x \<and> so_tcp s2 = Some (ep_conn x) \<and>
    hi_inp H (so_kernel s2) = ep_written x \<and> hi_out H (so_kernel s2) = ep_got x \<and>
    hi_tx H (so_kernel s2) = ep_sent x \<and> hi_rx H (so_kernel s2) = ep_received es"
proof -
  let ?R = "\<lambda>x rx. \<exists>es. foldl ep_bind (Inr (ep_init cfg random)) es = Inr x \<and> rx = ep_received es"
  have run: "foldl ep_bind (Inr (ep_init cfg random)) (es @ [e]) = Inr y"
    if "foldl ep_bind (Inr (ep_init cfg random)) es = Inr x" "ep_step x e = Inr y" for es e x y
    using that by (simp add: ep_bind_def)
  have "ep_closed ?R"
    unfolding ep_closed_def by (metis run ep_received_append)
  moreover have "?R (ep_init cfg random) []"
    by (intro exI [of _ "[]"]) simp
  ultimately have "so_fresh E H (\<lambda>_. True) ?R cfg random s"
    using assms(1,2) by (simp add: so_fresh_def se_keeps_def)
  then have "so_inv E H (\<lambda>_. True) ?R s1 \<and> set rules1 \<subseteq> set (so_rules E)"
    by (rule so_connect_inv [OF assms(3,4)])
  then have "so_inv E H (\<lambda>_. True) ?R s2"
    using so_tcp_loop_inv [OF assms(5) _ _ assms(6)] by blast
  then show ?thesis
    by (auto simp: so_inv_def so_sim_def)
qed

text \<open>
  A socket that nothing has happened to, and what connecting does to it when its adapter takes
  the SYN as soon as it is writable.
\<close>

definition so_idle :: "'a \<Rightarrow> 'k \<Rightarrow> ('a, 'k) sponge_socket" where
  "so_idle a k = \<lparr>so_main = fd_example, so_thread_data = fd_example, so_adapter = a, so_tcp = None,
     so_joinable = False, so_abort = False, so_inbound_shutdown = False, so_outbound_shutdown = False,
     so_fully_acked = False, so_kernel = k\<rparr>"

definition takes_syn :: "('a, 'k) so_env \<Rightarrow> fd_adapter_config \<Rightarrow> 'a \<Rightarrow> 'k \<Rightarrow> 'a \<Rightarrow> 'k \<Rightarrow> bool" where
  "takes_syn E cfg a k a' k' \<longleftrightarrow> se_fd E a = fd_example \<and> se_set_config E cfg a = a \<and>
     (\<forall>b \<in> {a, a'}. \<exists>t. address_to_string (se_netdb E) (fac_destination (se_config E b)) = Inr t) \<and>
     se_send E (tc_syn (WrappingInt32 5)) a k = (a', k', None)"

lemma takes_syn_print: "takes_syn E cfg a k a' k' \<Longrightarrow> so_adapter s \<in> {a, a'} \<Longrightarrow> so_print E s = (s, None)"
  by (auto simp: takes_syn_def so_print_def)

text \<open>After connecting, before the loop; and after one pass in which the adapter is writable.\<close>

definition so_syn :: "'a \<Rightarrow> 'k \<Rightarrow> ('a, 'k) sponge_socket" where
  "so_syn a k = (so_idle a k)\<lparr>so_tcp := Some (tc_connect (tc_construct cfg_example 0))\<rparr>"

definition so_sent :: "'a \<Rightarrow> 'k \<Rightarrow> ('a, 'k) sponge_socket" where
  "so_sent a k = (so_idle a k)\<lparr>so_tcp := Some ((tc_connect (tc_construct cfg_example 0))\<lparr>tc_segments_out := []\<rparr>)\<rparr>"

lemma so_syn_state: "tc_state (tc_connect (tc_construct cfg_example 0)) = tcp_state_of_official SYN_SENT"
proof -
  have q: "tc_state (c\<lparr>tc_segments_out := out\<rparr>) = tc_state c" for c out
    by (simp add: tc_state_def tc_active_def)
  show ?thesis
    by (simp add: tc_connect_fresh q handshake_states)
qed

lemma so_syn_started:
  assumes "takes_syn E cfg a k a' k'"
  shows "so_start_connect E cfg ((so_idle a k)\<lparr>so_tcp := Some (tc_construct cfg_example 0)\<rparr>) = (so_syn a k, None)"
proof -
  have "so_in_state [SYN_SENT] (so_syn a k)"
    using so_syn_state by (simp add: so_in_state_def so_syn_def tcp_state_eq_iff)
  moreover have "se_set_config E cfg a = a"
    using assms by (simp add: takes_syn_def)
  ultimately show ?thesis
    by (simp add: so_start_connect_def takes_syn_print [OF assms] so_then_def so_tcp_do_def so_idle_def) (simp add: so_syn_def so_idle_def)
qed

abbreviation poll_writable :: poll where
  "poll_writable \<equiv> \<lambda>_ _. ((1, 0), [0, 0, 0, POLLOUT])"

lemma so_syn_pass:
  assumes "takes_syn E cfg a k a' k'"
  shows "el_wait_next_event poll_writable 10 (so_rules E) (so_syn a k) = (so_rules E, so_sent a' k', Inr ElSuccess)"
proof -
  let ?c = "tc_connect (tc_construct cfg_example 0)"
  have E: "se_fd E a = fd_example" "se_send E (tc_syn (WrappingInt32 5)) a k = (a', k', None)"
    using assms by (simp_all add: takes_syn_def)
  have active: "tc_active ?c"
    using arg_cong [OF so_syn_state, of st_active] by (simp add: tc_state_def tcp_state_construct_def)
  have out: "tc_segments_out ?c = [tc_syn (WrappingInt32 5)]"
    by (simp add: tc_connect_fresh cfg_example_isn)
  have inb: "bs_buffer_empty (tc_inbound_stream ?c)" "\<not> bs_eof (tc_inbound_stream ?c)" "\<not> bs_error (tc_inbound_stream ?c)"
    by (simp_all add: tc_connect_fresh tc_inbound_stream_def tc_with_def tr_construct_def tr_stream_out_def ra_construct_def
        bs_defs)
  have cap: "0 < tc_remaining_outbound_capacity ?c"
    by (simp add: tc_connect_fresh tc_with_def tc_remaining_outbound_capacity_def ts_syn_sent_def Let_def)
      (simp add: ts_construct_def bs_defs cfg_example_def tcp_config_default_def sub64_def two64_def)
  have wants: "so_wants_datagram (so_syn a k)" "so_wants_out (so_syn a k)" "\<not> so_wants_in (so_syn a k)"
    "so_wants_send (so_syn a k)"
    using active out inb cap
    by (simp_all add: so_wants_datagram_def so_wants_out_def so_wants_in_def so_wants_send_def so_syn_def so_idle_def)
  let ?ps = "[\<lparr>pf_fd = 3, pf_events = POLLIN\<rparr>, \<lparr>pf_fd = 3, pf_events = POLLIN\<rparr>, \<lparr>pf_fd = 3, pf_events = 0\<rparr>,
    \<lparr>pf_fd = 3, pf_events = POLLOUT\<rparr>]"
  have prep: "el_setup (so_rules E) (so_syn a k) = (so_rules E, ?ps, True, so_syn a k, None)"
    using wants by (simp add: so_rules_def so_rule1_def so_rule2_def so_rule3_def so_rule4_def ru_defunct_def Let_def
        direction_events_def) (simp add: so_syn_def so_idle_def E fd_example_def)
  have sent: "so_send_segments E (so_syn a k) = (so_sent a' k', None)"
    by (simp add: so_send_segments_def so_syn_def so_sent_def out) (simp add: so_idle_def E)
  have "\<not> so_wants_send (so_sent a' k')"
    by (simp add: so_wants_send_def so_sent_def)
  then have serve: "el_serve (so_rules E) (zip ?ps [0, 0, 0, POLLOUT]) (so_syn a k) = (so_rules E, so_sent a' k', None)"
    by (simp add: so_rules_def so_rule1_def so_rule2_def so_rule3_def so_rule4_def sent Let_def)
  show ?thesis
    by (simp add: el_wait_next_event_def prep serve Let_def system_call_def to_c_int_small del: zip_Cons_Cons)
qed

text \<open>The owner aborts after that pass, so \<open>connect\<close> returns.\<close>

definition so_connected :: "'a \<Rightarrow> 'k \<Rightarrow> ('a, 'k) sponge_socket" where
  "so_connected a k = (so_sent a k)\<lparr>so_abort := True, so_joinable := True\<rparr>"

abbreviation input_writable :: loop_input where
  "input_writable \<equiv> \<lparr>li_poll = poll_writable, li_abort = True, li_now = 0\<rparr>"

lemma so_connect_sends:
  assumes "takes_syn E cfg a k a' k'"
  shows "so_connect E cfg_example 0 cfg 0 [input_writable] [] (so_idle a k) = (so_rules E, so_connected a' k', LoopDone)"
proof -
  have "so_in_state [SYN_SENT] (so_syn a k)"
    using so_syn_state by (simp add: so_in_state_def so_syn_def tcp_state_eq_iff)
  then have loop: "so_tcp_loop E (so_in_state [SYN_SENT]) 0 [input_writable] (so_rules E) (so_syn a k) =
      (so_rules E, (so_sent a' k')\<lparr>so_abort := True\<rparr>, LoopDone)"
    by (simp add: so_syn_pass [OF assms] Let_def)
  have "so_initialize E cfg_example 0 [] (so_idle a k) =
      (so_rules E, (so_idle a k)\<lparr>so_tcp := Some (tc_construct cfg_example 0)\<rparr>)"
    by (simp add: so_initialize_def el_add_rule_def so_rules_def)
  moreover have "so_tcp (so_idle a k) = None" "so_adapter (so_sent a' k') = a'"
    by (simp_all add: so_idle_def so_sent_def)
  ultimately show ?thesis
    by (simp add: so_connect_def so_syn_started [OF assms] so_establish_def loop takes_syn_print [OF assms] so_connected_def
        del: so_tcp_loop.simps)
qed

text \<open>Listening, before the loop.\<close>

lemma so_listen_starts:
  assumes "so_tcp s = None"
  shows "so_listen_and_accept E cfg_example 0 cfg 0 [] [] s = (so_rules E,
    s\<lparr>so_tcp := Some (tc_construct cfg_example 0), so_adapter := se_set_listening E True (se_set_config E cfg (so_adapter s))\<rparr>,
    StillWaiting)"
proof -
  have "so_in_state [LISTEN, SYN_RCVD, SYN_SENT] (s\<lparr>so_tcp := Some (tc_construct cfg_example 0), so_adapter := a\<rparr>)" for a
    by (simp add: so_in_state_def tc_construct_listens tcp_state_eq_iff)
  then show ?thesis
    using assms by (simp add: so_listen_and_accept_def so_initialize_def el_add_rule_def so_rules_def so_establish_def)
qed

text \<open>
  Surroundings that record their histories and never have anything to read, and a socket whose
  adapter is its descriptor. The kernel has a second part, which this socket has nothing to do
  with.
\<close>

type_synonym hist_example = "bytes \<times> bytes \<times> tcp_segment list \<times> tcp_segment list"

definition so_env_example :: "(fd_wrapper, hist_example \<times> 'z) so_env" where
  "so_env_example = \<lparr>se_netdb = netdb_example, se_fd = (\<lambda>a. a),
     se_config = (\<lambda>a. fa_cfg (fa_example 1 2 False)), se_set_config = (\<lambda>c a. a), se_set_listening = (\<lambda>l a. a),
     se_receive = (\<lambda>a k. (fd_register_read a, k, Inr None)),
     se_send = (\<lambda>seg a ((i, p, t, r), z). (fd_register_write a, ((i, p, t @ [seg], r), z), None)),
     se_tick = (\<lambda>ms a k. (a, k, None)),
     se_read = (\<lambda>fd n k. (((-1, 11), []), k)),
     se_writev = (\<lambda>fd ((i, p, t), z) iov. ((int (min 3 (length (concat (map fst iov)))), 0),
       ((i, p @ take 3 (concat (map fst iov)), t), z))),
     se_shutdown = (\<lambda>fd how k. ((0, 0), k))\<rparr>"

definition hi_example :: "(hist_example \<times> 'z) histories" where
  "hi_example = \<lparr>hi_inp = (\<lambda>((i, p, t, r), z). i), hi_out = (\<lambda>((i, p, t, r), z). p), hi_tx = (\<lambda>((i, p, t, r), z). t),
     hi_rx = (\<lambda>((i, p, t, r), z). r)\<rparr>"

lemma so_env_example_spec: "se_spec so_env_example hi_example"
  by (auto simp: se_spec_def read_spec_def so_env_example_def hi_example_def hi_quiet_def writev_spec_def Let_def min_def)

abbreviation hist_empty :: hist_example where
  "hist_empty \<equiv> ([], [], [], [])"

abbreviation hist_syn :: hist_example where
  "hist_syn \<equiv> ([], [], [tc_syn (WrappingInt32 5)], [])"

lemma so_env_example_syn:
  "takes_syn so_env_example cfg fd_example (hist_empty, z) (fd_register_write fd_example) (hist_syn, z)"
  using netdb_example_numeric
  by (auto simp: takes_syn_def so_env_example_def fa_example_def address_to_string_def ip_port_numeric)

lemma so_example_connect:
  "so_connect so_env_example cfg_example 0 cfg 0 [input_writable] [] (so_idle fd_example (hist_empty, z)) =
    (so_rules so_env_example, so_connected (fd_register_write fd_example) (hist_syn, z), LoopDone)"
  by (rule so_connect_sends [OF so_env_example_syn])

lemma so_example_histories:
  "hi_empty hi_example (so_kernel (so_idle a (hist_empty, z)))"
  "hi_tx hi_example (so_kernel (so_connected a (hist_syn, z))) = [tc_syn (WrappingInt32 5)]"
  by (simp_all add: so_idle_def so_connected_def so_sent_def hi_example_def hi_empty_def)

theorem socket_refines_connection_witness:
  "\<exists>es x. foldl ep_bind (Inr (ep_init cfg_example 0)) es = Inr x \<and> ep_sent x = [tc_syn (WrappingInt32 5)]"
proof -
  let ?s = "so_connected (fd_register_write fd_example) (hist_syn, ())"
  have main: "so_tcp_loop so_env_example (\<lambda>_. True) 0 [] (so_rules so_env_example) ?s =
      (so_rules so_env_example, ?s, StillWaiting)"
    by simp
  obtain es x where "foldl ep_bind (Inr (ep_init cfg_example 0)) es = Inr x" "hi_tx hi_example (so_kernel ?s) = ep_sent x"
    using socket_refines_connection [OF so_env_example_spec so_example_histories(1) disjI1 [OF so_example_connect] _ main]
    by blast
  then show ?thesis
    using so_example_histories(2) by metis
qed

section \<open>Deviations\<close>

text \<open>
  When the connection is reset while bytes for the owner are still in the inbound stream, rule 3
  stays interested for ever: an errant stream hands nothing out, so nothing is popped, and the
  rule shuts the local socket down again every time it runs.
\<close>

theorem inbound_error_busy:
  assumes "so_tcp s = Some c" "bs_error (tc_inbound_stream c)" "\<not> bs_buffer_empty (tc_inbound_stream c)"
    and "so_deliver_in E s = (s', None)"
  shows "so_wants_in s' \<and> so_tcp s' = Some c"
proof -
  obtain w k r where fd: "fd_write (se_writev E (fd_num (so_thread_data s))) False (bvl_of_string [])
      (so_thread_data s) (so_kernel s) = (w, k, r)"
    by (cases "fd_write (se_writev E (fd_num (so_thread_data s))) False (bvl_of_string [])
      (so_thread_data s) (so_kernel s)") auto
  have peek: "bs_peek_output (tc_inbound_stream c) n = []" for n
    using assms(2) by (simp add: bs_peek_output_def)
  have pop: "tr_pop (tc_receiver c) n = tc_receiver c" for n
    using assms(2) by (simp add: tr_pop_def bs_pop_output_def tc_inbound_stream_def tr_stream_out_def)
  define t where "t = s\<lparr>so_thread_data := w, so_kernel := k, so_tcp := Some c\<rparr>"
  have "so_shut_in E t = (s', None)"
    using assms fd by (auto simp: so_deliver_in_def peek pop t_def Let_def split: sum.splits if_splits)
  then have "so_tcp s' = so_tcp t"
    by (auto simp: so_shut_in_def Let_def split: prod.splits option.splits dest!: so_print_ok)
  then show ?thesis
    using assms(3) by (simp add: so_wants_in_def t_def)
qed

end
