(* ===== verification/Sent_Segments.thy ===== *)
theory Sent_Segments
  imports Connection_Runs
begin

text \<open>
  What the segments a connection sends have in common. The locale \<open>sent_segments\<close> carries a
  property from the places where segments are made (\<open>fill_window\<close>, \<open>send_empty_segment\<close>, the
  stamp of the receiver's fields, the RST) to everything an endpoint has ever sent. It is
  interpreted twice: segments have a plain shape, and what they acknowledge has arrived. From
  the latter follows that two connections never take data for delivered that is not.
\<close>

section \<open>From the places where segments are made to all that is sent\<close>

text \<open>\<open>P\<close> holds of what the sender queues, \<open>Q r\<close> of what a connection with the receiver \<open>r\<close> sends.\<close>

definition ts_all :: "(tcp_segment \<Rightarrow> bool) \<Rightarrow> tcp_sender \<Rightarrow> bool" where
  "ts_all P s \<longleftrightarrow> (\<forall>seg \<in> set (ts_segments_out s) \<union> set (ts_segments_outstanding s). P seg)"

definition tc_all :: "(tcp_segment \<Rightarrow> bool) \<Rightarrow> (tcp_receiver \<Rightarrow> tcp_segment \<Rightarrow> bool) \<Rightarrow> tcp_connection \<Rightarrow> bool" where
  "tc_all P Q c \<longleftrightarrow> ts_all P (tc_sender c) \<and> (\<forall>seg \<in> set (tc_segments_out c). Q (tc_receiver c) seg)"

definition ep_all :: "(tcp_segment \<Rightarrow> bool) \<Rightarrow> (tcp_receiver \<Rightarrow> tcp_segment \<Rightarrow> bool) \<Rightarrow> endpoint \<Rightarrow> bool" where
  "ep_all P Q x \<longleftrightarrow> tc_all P Q (ep_conn x) \<and> (\<forall>seg \<in> set (ep_sent x). Q (tc_receiver (ep_conn x)) seg)"

abbreviation empty_segment :: "wrapping_int32 \<Rightarrow> tcp_segment" where
  "empty_segment n \<equiv> tcp_segment_default\<lparr>seg_header := tcp_header_default\<lparr>th_seqno := n\<rparr>\<rparr>"

lemma ts_all_stream [simp]: "ts_all P (s\<lparr>ts_stream := b\<rparr>) = ts_all P s"
  by (simp add: ts_all_def)

lemma tc_all_frame [simp]:
  "tc_all P Q (c\<lparr>tc_linger_after_streams_finish := l\<rparr>) = tc_all P Q c"
  "tc_all P Q (c\<lparr>tc_is_active := a\<rparr>) = tc_all P Q c" "tc_all P Q (c\<lparr>tc_time_since_last_segment_received := n\<rparr>) = tc_all P Q c"
  by (simp_all add: tc_all_def)

lemma ts_pop_acked_subset: "set (ts_pop_acked isn n a segs) \<subseteq> set segs"
  by (induction isn n a segs rule: ts_pop_acked.induct) (auto simp: Let_def)

locale sent_segments =
  fixes P :: "tcp_segment \<Rightarrow> bool"
    and Q :: "tcp_receiver \<Rightarrow> tcp_segment \<Rightarrow> bool"
    and forward :: "tcp_receiver \<Rightarrow> tcp_receiver \<Rightarrow> bool"
  assumes built: "P (fb_seg s)"
    and empty: "P (empty_segment n)"
    and stamped: "P seg \<Longrightarrow> Q r (tc_stamp r seg)"
    and rst: "Q r (tc_rst_segment s)"
    and kept: "forward r r' \<Longrightarrow> Q r seg \<Longrightarrow> Q r' seg"
    and forward_refl: "forward r r"
    and forward_error: "forward r (tr_set_error r)"
    and forward_read: "forward r (tr_read r k)"
begin

lemma fill_loop: "ts_all P s \<Longrightarrow> ts_all P (ts_fill_loop s)"
proof (induction s rule: ts_fill_loop.induct)
  case (1 s)
  show ?case
  proof (cases "ts_bytes_in_flight s < ts_current_window s")
    case True
    obtain s' go where b: "ts_fill_body s = (s', go)"
      by (cases "ts_fill_body s")
    have "ts_all P s'"
      using "1.prems" b built [of s] ts_fill_body_eq [OF True] by (auto simp: ts_all_def split: if_splits)
    then show ?thesis
      using "1.IH" [OF True b [symmetric] refl] True b by (cases go) (simp_all add: ts_fill_loop.simps [of s])
  next
    case False
    then show ?thesis
      using "1.prems" by (simp add: ts_fill_loop.simps [of s])
  qed
qed

lemma fill [simp, intro]: "ts_all P s \<Longrightarrow> ts_all P (ts_fill_window s)"
  by (simp add: ts_fill_window_def fill_loop)

lemma ack [simp, intro]:
  assumes "ts_all P s"
  shows "ts_all P (ts_ack_received s ackno w)"
proof -
  have "ts_all P t" if "ts_segments_out t = ts_segments_out s"
    "set (ts_segments_outstanding t) \<subseteq> set (ts_segments_outstanding s)" for t
    using that assms by (auto simp: ts_all_def)
  moreover have "ts_all P (t\<lparr>ts_timer_running := x, ts_time_elapsed := y\<rparr>) = ts_all P t"
      "ts_all P (t\<lparr>ts_timer_running := x\<rparr>) = ts_all P t" for t x y
    by (simp_all add: ts_all_def)
  ultimately show ?thesis
    using assms by (simp add: ts_ack_received_def Let_def ts_pop_acked_subset)
qed

lemma tick [simp, intro]: "ts_all P s \<Longrightarrow> ts_all P (ts_tick s ms)"
  by (auto simp: ts_tick_def ts_all_def Let_def)

lemma send_empty [simp, intro]: "ts_all P s \<Longrightarrow> ts_all P (ts_send_empty_segment s)"
  by (auto simp: ts_send_empty_segment_def ts_all_def empty)

lemma sender [simp, intro]: "tc_all P Q c \<Longrightarrow> ts_all P s \<Longrightarrow> tc_all P Q (c\<lparr>tc_sender := s\<rparr>)"
  by (simp add: tc_all_def)

lemma allD [simp]: "tc_all P Q c \<Longrightarrow> ts_all P (tc_sender c)"
  by (simp add: tc_all_def)

lemma receiver: "tc_all P Q c \<Longrightarrow> forward (tc_receiver c) r \<Longrightarrow> tc_all P Q (c\<lparr>tc_receiver := r\<rparr>)"
  by (auto simp: tc_all_def intro: kept)

lemma send [simp, intro]: "tc_all P Q c \<Longrightarrow> tc_all P Q (tc_send_segments c)"
  by (auto simp: tc_send_segments_eq tc_all_def ts_all_def stamped)

lemma set_rst [simp, intro]:
  assumes "tc_all P Q c"
  shows "tc_all P Q (tc_set_rst_state c b)"
  using assms kept [OF forward_error] rst [of "tr_set_error (tc_receiver c)"]
  by (auto simp: tc_set_rst_state_def tc_all_def Let_def)

lemma connect [simp, intro]: "tc_all P Q c \<Longrightarrow> tc_all P Q (tc_connect c)"
  unfolding tc_connect_def by (intro send) (simp add: tc_all_def)

lemma written: "tc_all P Q c \<Longrightarrow> tc_write c data = (c', n) \<Longrightarrow> tc_all P Q c'"
  by (auto simp: tc_write_def Let_def split: prod.splits)

lemma end_input [simp, intro]: "tc_all P Q c \<Longrightarrow> tc_all P Q (tc_end_input_stream c)"
  by (simp add: tc_end_input_stream_def Let_def)

lemma destroy [simp, intro]: "tc_all P Q c \<Longrightarrow> tc_all P Q (tc_destroy c)"
  by (simp add: tc_destroy_def)

lemma reply [simp, intro]: "tc_all P Q c \<Longrightarrow> tc_all P Q (tc_reply c seg)"
  by (simp add: tc_reply_def Let_def split: option.splits)

lemma conn_tick [simp, intro]: "tc_all P Q c \<Longrightarrow> tc_all P Q (tc_tick c ms)"
  by (simp add: tc_tick_def Let_def)

lemma received:
  assumes "tc_all P Q c" "tc_segment_received c seg = Inr c'"
    and "\<And>r. tr_segment_received (tc_receiver c) seg = Inr r \<Longrightarrow> forward (tc_receiver c) r"
  shows "tc_all P Q c'"
proof (cases "tr_segment_received (tc_receiver c) seg")
  case (Inl e)
  then show ?thesis
    using assms(1,2) by (auto simp: tc_segment_received_def Let_def split: if_splits)
next
  case (Inr r)
  have "tc_all P Q (c\<lparr>tc_time_since_last_segment_received := 0, tc_receiver := r\<rparr>)"
    by (rule receiver) (use assms(1,3) Inr in simp_all)
  then show ?thesis
    using assms(1,2) Inr by (auto simp: tc_segment_received_def Let_def split: if_splits)
qed

text \<open>An event moves the receiver forward and keeps the properties.\<close>

lemma step_forward:
  assumes "ep_step x e = Inr x'"
    and "\<And>seg r. e = EpReceive seg \<Longrightarrow> tr_segment_received (tc_receiver (ep_conn x)) seg = Inr r \<Longrightarrow>
      forward (tc_receiver (ep_conn x)) r"
  shows "forward (tc_receiver (ep_conn x)) (tc_receiver (ep_conn x'))"
proof (cases e)
  case (EpWrite data)
  obtain c n where w: "tc_write (ep_conn x) data = (c, n)"
    by (cases "tc_write (ep_conn x) data")
  then show ?thesis
    using assms(1) EpWrite tc_receiver_write [OF w] by (auto simp: forward_refl)
next
  case (EpTick ms)
  then show ?thesis
    using assms(1) tc_receiver_tick [of "ep_conn x" ms] by (auto simp: forward_refl forward_error)
next
  case EpDestroy
  then show ?thesis
    using assms(1) tc_receiver_destroy [of "ep_conn x"] by (auto simp: forward_refl forward_error)
next
  case (EpReceive seg)
  then show ?thesis
    using assms by (auto simp: tc_segment_received_def Let_def forward_refl forward_error split: sum.splits if_splits)
qed (use assms(1) in \<open>auto simp: forward_refl forward_read\<close>)

lemma step_all:
  assumes all: "ep_all P Q x" and s: "ep_step x e = Inr x'"
    and f: "\<And>seg r. e = EpReceive seg \<Longrightarrow> tr_segment_received (tc_receiver (ep_conn x)) seg = Inr r \<Longrightarrow>
      forward (tc_receiver (ep_conn x)) r"
  shows "ep_all P Q x'"
proof -
  have c: "tc_all P Q (ep_conn x)" and old: "\<forall>seg \<in> set (ep_sent x). Q (tc_receiver (ep_conn x)) seg"
    using all by (simp_all add: ep_all_def)
  have fwd: "forward (tc_receiver (ep_conn x)) (tc_receiver (ep_conn x'))"
    by (rule step_forward [OF s]) (rule f)
  have "tc_all P Q (ep_conn x')"
  proof (cases e)
    case (EpRead k)
    then show ?thesis
      using s receiver [OF c forward_read] by auto
  next
    case EpTransmit
    then show ?thesis
      using s c by (cases "tc_segments_out (ep_conn x)") (auto simp: tc_all_def)
  qed (use s c f in \<open>auto split: prod.splits sum.splits dest: written received\<close>)
  moreover have "Q (tc_receiver (ep_conn x')) seg" if "seg \<in> set (ep_sent x')" for seg
  proof -
    have "seg \<in> set (ep_sent x) \<or> seg \<in> set (tc_segments_out (ep_conn x))"
      using that s by (cases e; cases "tc_segments_out (ep_conn x)") (auto split: prod.splits sum.splits)
    then have "Q (tc_receiver (ep_conn x)) seg"
      using old c by (auto simp: tc_all_def)
    then show ?thesis
      using fwd by (rule kept [rotated])
  qed
  ultimately show ?thesis
    by (simp add: ep_all_def)
qed

lemma init_all: "ep_all P Q (ep_init cfg random)"
  by (simp add: ep_all_def ep_init_def tc_construct_def tc_all_def ts_construct_def ts_all_def)

end

section \<open>Segments are plain\<close>

text \<open>No options, at most one payload of \<open>MAX_PAYLOAD_SIZE\<close>, and no urgent data.\<close>

definition seg_plain :: "tcp_segment \<Rightarrow> bool" where
  "seg_plain seg \<longleftrightarrow> th_doff (seg_header seg) = 5 \<and> length (buffer_str (seg_payload seg)) \<le> MAX_PAYLOAD_SIZE \<and>
     \<not> th_urg (seg_header seg) \<and> \<not> th_psh (seg_header seg)"

lemma fb_payload_bound: "length (snd (fb_read s)) \<le> MAX_PAYLOAD_SIZE"
  unfolding fb_read_def by (rule order_trans [OF bs_read_length]) simp

interpretation plain: sent_segments seg_plain "\<lambda>_. seg_plain" "\<lambda>_ _. True"
  using fb_payload_bound
  by unfold_locales (auto simp: seg_plain_def fb_seg_def tcp_header_default_def tcp_segment_default_def tc_stamp_def
      tc_rst_segment_def split: option.splits)

lemma net_run_plain: "net_run a b \<Longrightarrow> ep_all seg_plain (\<lambda>_. seg_plain) a \<and> ep_all seg_plain (\<lambda>_. seg_plain) b"
  by (induction rule: net_run.induct) (blast intro: plain.init_all plain.step_all)+

section \<open>What is acknowledged has arrived\<close>

text \<open>The number a receiver waits for next, as \<open>ackno\<close> computes it.\<close>

definition tr_next :: "tcp_receiver \<Rightarrow> nat" where
  "tr_next r = (let n = add64 (bs_bytes_written (tr_stream_out r)) 1
     in if bs_input_ended (tr_stream_out r) then add64 n 1 else n)"

definition tr_forward :: "tcp_receiver \<Rightarrow> tcp_receiver \<Rightarrow> bool" where
  "tr_forward r r' \<longleftrightarrow> tr_next r \<le> tr_next r' \<and> (tr_syn_received r \<longrightarrow> tr_syn_received r' \<and> tr_isn r' = tr_isn r)"

definition ack_genuine :: "tcp_receiver \<Rightarrow> tcp_segment \<Rightarrow> bool" where
  "ack_genuine r seg \<longleftrightarrow> (th_ack (seg_header seg) \<longrightarrow> tr_syn_received r \<and>
     (\<exists>n \<le> tr_next r. th_ackno (seg_header seg) = wrap n (tr_isn r)))"

lemma tr_ackno_next: "tr_ackno r = (if tr_syn_received r then Some (wrap (tr_next r) (tr_isn r)) else None)"
  by (simp add: tr_ackno_def tr_next_def Let_def)

lemma tr_next_kept [simp]: "tr_next (tr_set_error r) = tr_next r" "tr_next (tr_read r k) = tr_next r"
  by (simp_all add: tr_next_def tr_set_error_def tr_read_def tr_stream_out_def bs_defs Let_def)

interpretation acks: sent_segments "\<lambda>seg. \<not> th_ack (seg_header seg)" ack_genuine tr_forward
proof unfold_locales
  fix r r' seg k
  show "tr_forward r r' \<Longrightarrow> ack_genuine r seg \<Longrightarrow> ack_genuine r' seg"
    by (auto simp: tr_forward_def ack_genuine_def intro: order_trans)
  show "\<not> th_ack (seg_header seg) \<Longrightarrow> ack_genuine r (tc_stamp r seg)"
    by (auto simp: ack_genuine_def tc_stamp_def tr_ackno_next)
  show "tr_forward r (tr_set_error r)" "tr_forward r (tr_read r k)"
    by (simp_all add: tr_forward_def) (simp_all add: tr_set_error_def tr_read_def)
qed (simp_all add: fb_seg_def tcp_header_default_def ack_genuine_def tc_rst_segment_def tr_forward_def)

text \<open>A stream that has ended stays ended, and a genuine segment moves the receiver forward.\<close>

lemma bs_write_ended: "bs_write b data = (b', n) \<Longrightarrow> bs_input_ended b' = bs_input_ended b"
  by (auto simp: bs_write_def Let_def split: if_splits)

lemma assemble_loop_ended: "assemble_loop m b nxt num = Inr (m', b', nxt', num') \<Longrightarrow> bs_input_ended b' = bs_input_ended b"
proof (induction m b nxt num rule: assemble_loop.induct)
  case (2 k v m b nxt num)
  then show ?case
    by (auto simp: Let_def split: prod.splits if_splits dest: bs_write_ended)
qed simp

lemma store_new_ended: "store_new r i d = Inr r' \<Longrightarrow> bs_input_ended (ra_output r') = bs_input_ended (ra_output r)"
  by (auto simp: store_new_def Let_def split: prod.splits if_splits sum.splits dest: bs_write_ended)

lemma push_ended:
  assumes "push_substring r data index eof = Inr r'" "bs_input_ended (ra_output r)"
  shows "bs_input_ended (ra_output r')"
  using assms by (auto simp: push_substring_def Let_def bs_end_input_def split: prod.splits if_splits sum.splits
      dest!: assemble_loop_ended store_new_ended)

lemma tr_received_ended:
  assumes "tr_segment_received r seg = Inr r'" "bs_input_ended (tr_stream_out r)"
  shows "bs_input_ended (tr_stream_out r')"
  using assms by (auto simp: tr_segment_received_def tr_push_def tr_stream_out_def Let_def split: if_splits sum.splits
      dest!: push_ended)

lemma tr_next_eq:
  assumes "tr_inv S isn c r"
  shows "tr_next r = bs_bytes_written (tr_stream_out r) + (if bs_input_ended (tr_stream_out r) then 2 else 1)"
    "tr_next r \<le> length S + 2"
proof -
  note b = tr_inv_bounds [OF assms]
  then have "bs_bytes_written (tr_stream_out r) + 2 < two64"
    by (simp add: two63_def two64_def)
  then show "tr_next r = bs_bytes_written (tr_stream_out r) + (if bs_input_ended (tr_stream_out r) then 2 else 1)"
    by (simp add: tr_next_def add64_small)
  then show "tr_next r \<le> length S + 2"
    using b(1) by simp
qed

lemma tr_received_forward:
  assumes "tr_inv S isn c r" "seg_carries S isn a seg" "tr_near r a" "tr_segment_received r seg = Inr r'"
  shows "tr_forward r r'"
proof -
  have r': "tr_inv S isn c r'" "tr_mono r r'"
    using tr_segment_received_spec [OF assms(1-3)] assms(4) by auto
  then have "bs_bytes_written (tr_stream_out r) \<le> bs_bytes_written (tr_stream_out r')"
    "tr_syn_received r \<longrightarrow> tr_syn_received r' \<and> tr_isn r' = tr_isn r"
    using assms(1) by (auto simp: tr_mono_def tr_inv_def)
  then show ?thesis
    using tr_next_eq(1) [OF assms(1)] tr_next_eq(1) [OF r'(1)] tr_received_ended [OF assms(4)]
    by (auto simp: tr_forward_def)
qed

section \<open>Acknowledgments between two connections\<close>

lemma ts_fill_loop_last_ack [simp]: "ts_last_ack_seqno (ts_fill_loop s) = ts_last_ack_seqno s"
proof (induction s rule: ts_fill_loop.induct)
  case (1 s)
  show ?case
  proof (cases "ts_bytes_in_flight s < ts_current_window s")
    case True
    obtain s' go where b: "ts_fill_body s = (s', go)"
      by (cases "ts_fill_body s")
    then show ?thesis
      using "1.IH" [OF True b [symmetric] refl] ts_fill_body_window(2) [OF True b] True
      by (cases go) (simp_all add: ts_fill_loop.simps [of s])
  qed (simp add: ts_fill_loop.simps [of s])
qed

lemma ts_last_ack_kept [simp]:
  "ts_last_ack_seqno (ts_fill_window s) = ts_last_ack_seqno s"
  "ts_last_ack_seqno (ts_send_empty_segment s) = ts_last_ack_seqno s"
  by (simp_all add: ts_fill_window_def ts_send_empty_segment_def Let_def)

lemma ts_ack_received_last_ack:
  "ts_last_ack_seqno (ts_ack_received s ackno w) = ts_last_ack_seqno s \<or>
   ts_last_ack_seqno (ts_ack_received s ackno w) = unwrap ackno (ts_isn s) (ts_next_seqno s)"
  by (simp add: ts_ack_received_def Let_def)

abbreviation ep_last_ack :: "endpoint \<Rightarrow> nat" where
  "ep_last_ack x \<equiv> ts_last_ack_seqno (tc_sender (ep_conn x))"

lemma tc_last_ack_kept [simp]:
  "ts_last_ack_seqno (tc_sender (tc_send_segments c)) = ts_last_ack_seqno (tc_sender c)"
  "ts_last_ack_seqno (tc_sender (tc_set_rst_state c b)) = ts_last_ack_seqno (tc_sender c)"
  "ts_last_ack_seqno (tc_sender (tc_connect c)) = ts_last_ack_seqno (tc_sender c)"
  "ts_last_ack_seqno (tc_sender (tc_end_input_stream c)) = ts_last_ack_seqno (tc_sender c)"
  "ts_last_ack_seqno (tc_sender (tc_tick c ms)) = ts_last_ack_seqno (tc_sender c)"
  "ts_last_ack_seqno (tc_sender (tc_destroy c)) = ts_last_ack_seqno (tc_sender c)"
  "ts_last_ack_seqno (tc_sender (tc_reply c seg)) = ts_last_ack_seqno (tc_sender c)"
proof -
  show send: "ts_last_ack_seqno (tc_sender (tc_send_segments c)) = ts_last_ack_seqno (tc_sender c)" for c
    by (simp add: tc_send_segments_eq)
  show rst: "ts_last_ack_seqno (tc_sender (tc_set_rst_state c b)) = ts_last_ack_seqno (tc_sender c)" for c b
    by (simp add: tc_set_rst_state_def Let_def)
  show "ts_last_ack_seqno (tc_sender (tc_connect c)) = ts_last_ack_seqno (tc_sender c)"
    "ts_last_ack_seqno (tc_sender (tc_end_input_stream c)) = ts_last_ack_seqno (tc_sender c)"
    "ts_last_ack_seqno (tc_sender (tc_tick c ms)) = ts_last_ack_seqno (tc_sender c)"
    "ts_last_ack_seqno (tc_sender (tc_destroy c)) = ts_last_ack_seqno (tc_sender c)"
    "ts_last_ack_seqno (tc_sender (tc_reply c seg)) = ts_last_ack_seqno (tc_sender c)"
    by (simp_all add: tc_connect_def tc_end_input_stream_def tc_tick_def tc_destroy_def tc_reply_def send rst Let_def
        split: option.split)
qed

lemma ep_local_last_ack:
  assumes "ep_step x e = Inr x'" "\<forall>seg. e \<noteq> EpReceive seg"
  shows "ep_last_ack x' = ep_last_ack x"
proof (cases e)
  case (EpWrite data)
  then show ?thesis
    using assms(1) by (auto simp: tc_write_def Let_def split: prod.splits)
qed (use assms in auto)

lemma ep_receive_last_ack:
  assumes "ep_step x (EpReceive seg) = Inr x'"
  shows "ep_last_ack x' = ep_last_ack x \<or> th_ack (seg_header seg) \<and> ep_last_ack x' =
    unwrap (th_ackno (seg_header seg)) (ep_isn x) (ts_next_seqno (tc_sender (ep_conn x)))"
  using assms ts_ack_received_last_ack [of "tc_sender (ep_conn x)" "th_ackno (seg_header seg)" "th_win (seg_header seg)"]
  by (auto simp: tc_segment_received_def ep_isn_def Let_def split: if_splits sum.splits)

text \<open>\<open>a\<close> counts as acknowledged only what \<open>b\<close> has, and \<open>b\<close> acknowledges only that.\<close>

definition net_acked :: "endpoint \<Rightarrow> endpoint \<Rightarrow> bool" where
  "net_acked a b \<longleftrightarrow> (ep_short a \<longrightarrow>
     ep_all (\<lambda>seg. \<not> th_ack (seg_header seg)) ack_genuine b \<and> ep_last_ack a \<le> tr_next (tc_receiver (ep_conn b)))"

text \<open>What the receiver of a short stream knows.\<close>

lemma net_half_short:
  assumes "net_half a b" "ep_short a"
  shows "\<exists>n. ep_ok (ep_isn a) a \<and> n < two63 \<and> ep_rcv (ep_written a) (ep_isn a) n b \<and> ep_future a (ep_written a) \<and>
    ts_inv (ep_written a) (tc_sender (ep_conn a))"
proof -
  obtain isn n where i: "ep_ok isn a" "n < two63" "\<forall>S. ep_future a S \<longrightarrow> ep_rcv S isn n b"
    using assms(1) by (auto simp: net_half_def)
  have fut: "ep_future a (ep_written a)"
    using assms(2) by (simp add: ep_future_def ep_short_def two31_def two63_def)
  then have "conn_ok (ep_written a) isn (ep_conn a)"
    using i(1) ep_future_short by (auto simp: ep_ok_def)
  then have "ep_isn a = isn" "ts_inv (ep_written a) (tc_sender (ep_conn a))"
    by (simp_all add: conn_ok_def ep_isn_def)
  then show ?thesis
    using i fut by auto
qed

lemma net_half_forward:
  assumes "net_half b a" "ep_short b" "net_delivers b a seg" "tr_segment_received (tc_receiver (ep_conn a)) seg = Inr r"
  shows "tr_forward (tc_receiver (ep_conn a)) r"
proof -
  obtain n where n: "ep_ok (ep_isn b) b" "ep_rcv (ep_written b) (ep_isn b) n a" "ep_future b (ep_written b)"
    using net_half_short [OF assms(1,2)] by blast
  obtain m where "seg_carries (ep_written b) (ep_isn b) m seg" "tr_near (tc_receiver (ep_conn a)) m"
    using net_delivers_genuine [OF n(1,3) assms(3)] by blast
  then show ?thesis
    using n(2) tr_received_forward [OF _ _ _ assms(4)] by (auto simp: ep_rcv_def)
qed

text \<open>An acknowledgment from the network is read as the number it was made of.\<close>

lemma net_half_ack:
  assumes h: "net_half a b" "ep_short a" and g: "ack_genuine (tc_receiver (ep_conn b)) seg" "th_ack (seg_header seg)"
  shows "unwrap (th_ackno (seg_header seg)) (ep_isn a) (ts_next_seqno (tc_sender (ep_conn a))) \<le>
    tr_next (tc_receiver (ep_conn b))"
proof -
  obtain n where n: "ep_rcv (ep_written a) (ep_isn a) n b" "ts_inv (ep_written a) (tc_sender (ep_conn a))"
    using net_half_short [OF h] by blast
  then have inv: "tr_inv (ep_written a) (ep_isn a) n (tc_receiver (ep_conn b))"
    by (simp add: ep_rcv_def)
  obtain k where k: "k \<le> tr_next (tc_receiver (ep_conn b))" "th_ackno (seg_header seg) = wrap k (ep_isn a)"
    using g inv by (auto simp: ack_genuine_def tr_inv_def)
  have "ts_next_seqno (tc_sender (ep_conn a)) \<le> length (ep_written a) + 2"
    using n(2) ts_core_invD(3) by (auto simp: ts_inv_def)
  moreover have "k \<le> length (ep_written a) + 2"
    using k(1) tr_next_eq(2) [OF inv] by simp
  ultimately have "unwrap (wrap k (ep_isn a)) (ep_isn a) (ts_next_seqno (tc_sender (ep_conn a))) = k"
    using h(2) by (intro unwrap_wrap_near) (auto simp: ep_short_def two31_def two64_def)
  then show ?thesis
    using k by simp
qed

lemma net_acked_local:
  assumes "net_acked a b" "net_acked b a" "\<forall>seg. e \<noteq> EpReceive seg" "ep_step a e = Inr a'"
  shows "net_acked a' b \<and> net_acked b a'"
proof -
  have "tr_next (tc_receiver (ep_conn a)) \<le> tr_next (tc_receiver (ep_conn a'))"
    using acks.step_forward [OF assms(4)] assms(3) by (auto simp: tr_forward_def)
  then show ?thesis
    using assms ep_short_step [OF assms(4)] ep_local_last_ack [OF assms(4,3)] acks.step_all [OF _ assms(4)]
    by (fastforce simp: net_acked_def)
qed

lemma net_acked_deliver:
  assumes "net_acked a b" "net_acked b a" and h: "net_half a b" "net_half b a"
    and d: "net_delivers b a seg" and s: "ep_step a (EpReceive seg) = Inr a'"
  shows "net_acked a' b \<and> net_acked b a'"
proof
  show "net_acked a' b"
    unfolding net_acked_def
  proof
    assume "ep_short a'"
    then have short: "ep_short a"
      by (rule ep_short_step [OF s])
    then have b: "ep_all (\<lambda>seg. \<not> th_ack (seg_header seg)) ack_genuine b" "ep_last_ack a \<le> tr_next (tc_receiver (ep_conn b))"
      using assms(1) by (simp_all add: net_acked_def)
    have "ack_genuine (tc_receiver (ep_conn b)) seg"
      using b(1) d by (auto simp: ep_all_def net_delivers_def)
    then have "ep_last_ack a' \<le> tr_next (tc_receiver (ep_conn b))"
      using ep_receive_last_ack [OF s] b(2) net_half_ack [OF h(1) short] by auto
    then show "ep_all (\<lambda>seg. \<not> th_ack (seg_header seg)) ack_genuine b \<and> ep_last_ack a' \<le> tr_next (tc_receiver (ep_conn b))"
      using b(1) by simp
  qed
  show "net_acked b a'"
    unfolding net_acked_def
  proof
    assume short: "ep_short b"
    then have a: "ep_all (\<lambda>seg. \<not> th_ack (seg_header seg)) ack_genuine a" "ep_last_ack b \<le> tr_next (tc_receiver (ep_conn a))"
      using assms(2) by (simp_all add: net_acked_def)
    have f: "tr_forward (tc_receiver (ep_conn a)) r"
      if "EpReceive seg = EpReceive seg'" "tr_segment_received (tc_receiver (ep_conn a)) seg' = Inr r" for seg' r
      using net_half_forward [OF h(2) short d] that by simp
    have "ep_all (\<lambda>seg. \<not> th_ack (seg_header seg)) ack_genuine a'"
      by (rule acks.step_all [OF a(1) s f])
    moreover have "tr_forward (tc_receiver (ep_conn a)) (tc_receiver (ep_conn a'))"
      by (rule acks.step_forward [OF s f])
    ultimately show "ep_all (\<lambda>seg. \<not> th_ack (seg_header seg)) ack_genuine a' \<and>
        ep_last_ack b \<le> tr_next (tc_receiver (ep_conn a'))"
      using a(2) by (auto simp: tr_forward_def)
  qed
qed

lemma net_run_acked: "net_run a b \<Longrightarrow> net_acked a b \<and> net_acked b a"
proof (induction rule: net_run.induct)
  case (net_start ca cb ra rb)
  have "ep_last_ack (ep_init c r) = 0" for c r
    by (simp add: ep_init_def tc_construct_def ts_construct_def)
  then show ?case
    by (simp add: net_acked_def acks.init_all)
next
  case (net_local a b e a')
  then show ?case
    using net_acked_local by blast
next
  case (net_deliver a b seg a')
  then show ?case
    using net_acked_deliver net_run_half by blast
qed simp

text \<open>
  What has arrived at \<open>b\<close>, how much of it \<open>a\<close> counts as acknowledged, and that a connection that
  is over without an error counts everything.
\<close>

lemma net_run_arrived:
  assumes run: "net_run a b" and short: "ep_short a"
  defines "w \<equiv> bs_bytes_written (tc_inbound_stream (ep_conn b))"
  shows "ep_got b @ bs_buffer (tc_inbound_stream (ep_conn b)) = take w (ep_written a)"
    and "min (ep_last_ack a - 1) (length (ep_written a)) \<le> w"
    and "length (ep_written a) + 2 \<le> ep_last_ack a \<Longrightarrow>
      w = length (ep_written a) \<and> bs_input_ended (tc_inbound_stream (ep_conn b))"
    and "\<not> tc_active (ep_conn a) \<Longrightarrow> \<not> bs_error (ts_stream (tc_sender (ep_conn a))) \<Longrightarrow>
      length (ep_written a) + 2 \<le> ep_last_ack a"
proof -
  let ?S = "ep_written a" and ?in = "tc_inbound_stream (ep_conn b)"
  obtain n where n: "ep_ok (ep_isn a) a" "ep_rcv ?S (ep_isn a) n b" "ep_future a ?S"
    using net_half_short [OF _ short] net_run_half [OF run] by blast
  then have inv: "tr_inv ?S (ep_isn a) n (tc_receiver (ep_conn b))" and got: "ep_got b = take (bs_bytes_read ?in) ?S"
    by (simp_all add: ep_rcv_def)
  note st = tr_inv_stream [OF inv, folded tc_inbound_stream_def] and nxt = tr_next_eq(1) [OF inv, folded tc_inbound_stream_def]
  have last: "ep_last_ack a \<le> tr_next (tc_receiver (ep_conn b))"
    using net_run_acked [OF run] short by (simp add: net_acked_def)
  have w: "w \<le> length ?S"
    using tr_inv_bounds(1) [OF inv] by (simp add: w_def tc_inbound_stream_def)
  show "ep_got b @ bs_buffer ?in = take w ?S"
    using got st(1) by (simp add: w_def)
  show "w = length ?S \<and> bs_input_ended ?in" if "length ?S + 2 \<le> ep_last_ack a"
    using that last nxt w st(5) by (auto simp: w_def split: if_splits)
  show "length ?S + 2 \<le> ep_last_ack a"
    if "\<not> tc_active (ep_conn a)" "\<not> bs_error (ts_stream (tc_sender (ep_conn a)))"
  proof -
    have ok: "conn_ok ?S (ep_isn a) (ep_conn a)" "conn_over ?S (ep_conn a)"
      using n(1) ep_future_short [OF n(3)] by (auto simp: ep_ok_def)
    then have "conn_clean ?S (ep_conn a)"
      using inactive_clean [OF ok(1) _ that(1)] that(2) by (auto simp: conn_over_def conn_failed_def)
    then show ?thesis
      by (simp add: conn_clean_def)
  qed
  show "min (ep_last_ack a - 1) (length ?S) \<le> w"
    using last nxt st(5) by (auto simp: w_def split: if_splits)
qed

section \<open>Deviations\<close>

text \<open>
  \<open>ack_received\<close> takes the window of every acknowledgment that is not beyond what was sent. From
  one that the network has held back, of a number \<open>k\<close> at or before the left edge, it takes a window
  that was meant to be counted from \<open>k\<close>, and fills it from the left edge on: with enough bytes
  to send, more is in flight than the peer has ever made room for.
\<close>

lemma stale_window_taken:
  fixes w :: "16 word"
  assumes "ts_inv W s" "k \<le> ts_last_ack_seqno s"
    "unwrap ackno (ts_isn s) (ts_next_seqno s) = k"
  defines "s' \<equiv> ts_ack_received s ackno w"
  shows "ts_last_ack_seqno s' = ts_last_ack_seqno s \<and> ts_window_size s' = w \<and>
    (ts_fin_sent s' \<or> max 1 (unat w) \<le> ts_bytes_in_flight s' \<or> bs_error (ts_stream s') \<or>
     bs_buffer (ts_stream s') = [] \<and> \<not> bs_input_ended (ts_stream s'))"
proof -
  have core: "ts_core_inv W s"
    using assms(1) by (simp add: ts_inv_def)
  have k: "k \<le> ts_next_seqno s"
    using assms(2) core by (simp add: ts_core_inv_def)
  let ?a = "ts_acked s k w"
  have a: "ts_last_ack_seqno ?a = ts_last_ack_seqno s" "ts_window_size ?a = w"
    using assms(2) by (simp_all add: ts_acked_def Let_def)
  note f = ts_fill_window_spec [OF ts_acked_inv [OF core k, of w]]
  have w: "ts_current_window ?a = max 1 (unat w)"
    using a(2) unat_gt_0 [of w] by (auto simp: ts_current_window_def max_def)
  have e: "s' = (if ts_segments_outstanding (ts_fill_window ?a) = []
      then (ts_fill_window ?a)\<lparr>ts_timer_running := False, ts_time_elapsed := 0\<rparr> else ts_fill_window ?a)"
    using k assms(2,3) by (simp add: s'_def ts_ack_received_eq Let_def)
  then show ?thesis
    using f(2,4) a w by (auto simp: ts_filled_def ts_bytes_in_flight_def)
qed

section \<open>Properties\<close>

text \<open>
  C4: What is acknowledged has arrived. Two connections over a network that loses, delays,
  reorders and repeats segments, one of which has been given less than 2^31 - 2 bytes (the
  segments of the other are delivered while less than 2^31 away from the number waited for, as in
  the end-to-end property): every byte it counts as acknowledged is among those the other application has read or can read; once the
  FIN counts as acknowledged the other stream has ended; and when the connection is over and
  not in error, the other side has the whole stream and its end.
\<close>

theorem acknowledged_has_arrived:
  assumes "net_run a b" "length (ep_written a) + 2 < two31"
  shows "(\<exists>more. ep_got b @ bs_buffer (tc_inbound_stream (ep_conn b)) = take (ep_last_ack a - 1) (ep_written a) @ more) \<and>
    (length (ep_written a) + 2 \<le> ep_last_ack a \<longrightarrow> bs_input_ended (tc_inbound_stream (ep_conn b))) \<and>
    (\<not> tc_active (ep_conn a) \<longrightarrow> bs_error (ts_stream (tc_sender (ep_conn a))) \<or>
      ep_got b @ bs_buffer (tc_inbound_stream (ep_conn b)) = ep_written a \<and>
      bs_input_ended (tc_inbound_stream (ep_conn b)))"
proof -
  let ?S = "ep_written a" and ?w = "bs_bytes_written (tc_inbound_stream (ep_conn b))" and ?k = "ep_last_ack a - 1"
  have short: "ep_short a"
    using assms(2) by (simp add: ep_short_def)
  note arrived = net_run_arrived [OF assms(1) short]
  have "take (min ?k (length ?S)) (take ?w ?S) = take ?k ?S"
    using arrived(2) by (simp add: min_def)
  then have "take ?w ?S = take ?k ?S @ drop (min ?k (length ?S)) (take ?w ?S)"
    by (metis append_take_drop_id)
  then show ?thesis
    using arrived(3,4) unfolding arrived(1) by auto
qed

theorem acknowledged_has_arrived_witness:
  "\<exists>more. ep_got ep_example @ bs_buffer (tc_inbound_stream (ep_conn ep_example)) =
    take (ep_last_ack ep_example_sent - 1) (ep_written ep_example_sent) @ more"
proof -
  have "length (ep_written ep_example_sent) + 2 < two31"
    by (simp add: ep_example_sent_def ep_example_def ep_init_def two31_def)
  from acknowledged_has_arrived [OF ep_example_run this] show ?thesis
    by blast
qed

end
