(* ===== verification/Socket_Pair.thy ===== *)
theory Socket_Pair
  imports Sponge_Socket Sent_Segments
begin

text \<open>
  Two sponge sockets, each driven by its own thread, over one kernel and one network. A
  \<open>party\<close> is a socket with its rules and its surroundings. The steps of \<open>sockets_run\<close> are calls
  of the model of \<open>tcp_sponge_socket.cc\<close>: either party connects or listens (once), runs a part of
  its loop or lets its thread end, and between them the kernel changes as it likes, because of the
  network and of the owners. A
  pass of a loop takes from the network before it gives to it, so passes of the two threads can
  be put one after the other. The network may lose, delay, repeat and reorder; what it hands
  over has been sent, up to the ports and the checksum, which the adapters fill in.
\<close>

section \<open>Parties\<close>

text \<open>The packets that a device has taken and those it has handed over.\<close>

record 'k packets =
  pk_out :: "'k \<Rightarrow> bytes list"
  pk_in :: "'k \<Rightarrow> bytes list"

record ('a, 'k) party =
  pt_env :: "('a, 'k) so_env"
  pt_hist :: "'k histories"
  pt_packets :: "'k packets"
  pt_cfg :: tcp_config
  pt_random :: "32 word"
  pt_rules :: "('a, 'k) sponge_socket el_rule list"
  pt_socket :: "('a, 'k) sponge_socket"
  pt_started :: bool

abbreviation pt_kernel :: "('a, 'k) party \<Rightarrow> 'k" where
  "pt_kernel p \<equiv> so_kernel (pt_socket p)"

definition pt_sees :: "'k \<Rightarrow> ('a, 'k) party \<Rightarrow> ('a, 'k) party" where
  "pt_sees k p = p\<lparr>pt_socket := (pt_socket p)\<lparr>so_kernel := k\<rparr>\<rparr>"

definition pt_at :: "('a, 'k) party \<Rightarrow> ('a, 'k) sponge_socket el_rule list \<Rightarrow> ('a, 'k) sponge_socket \<Rightarrow> ('a, 'k) party" where
  "pt_at p rules s = p\<lparr>pt_rules := rules, pt_socket := s, pt_started := True\<rparr>"

text \<open>What the owner has written that the thread has read, what the thread has given it, and so on.\<close>

definition pt_written :: "('a, 'k) party \<Rightarrow> bytes" where
  "pt_written p = hi_inp (pt_hist p) (pt_kernel p)"

definition pt_got :: "('a, 'k) party \<Rightarrow> bytes" where
  "pt_got p = hi_out (pt_hist p) (pt_kernel p)"

text \<open>The kernel \<open>k\<close>, later \<open>k'\<close>, has done nothing for the party.\<close>

definition pt_still :: "('a, 'k) party \<Rightarrow> 'k \<Rightarrow> 'k \<Rightarrow> bool" where
  "pt_still p k k' \<longleftrightarrow> hi_quiet (pt_hist p) k k' \<and> pk_out (pt_packets p) k' = pk_out (pt_packets p) k \<and>
     pk_in (pt_packets p) k' = pk_in (pt_packets p) k"

text \<open>A call that a party makes and that does not throw.\<close>

inductive party_acts :: "('a, 'k) party \<Rightarrow> ('a, 'k) party \<Rightarrow> bool" where
  party_connects: "so_connect (pt_env p) (pt_cfg p) (pt_random p) c_ad base_time inputs [] (pt_socket p) = (rules, s, r) \<Longrightarrow>
    \<not> pt_started p \<Longrightarrow> \<forall>e. r \<noteq> LoopThrew e \<Longrightarrow> party_acts p (pt_at p rules s)"
| party_listens: "so_listen_and_accept (pt_env p) (pt_cfg p) (pt_random p) c_ad base_time inputs [] (pt_socket p) = (rules, s, r) \<Longrightarrow>
    \<not> pt_started p \<Longrightarrow> \<forall>e. r \<noteq> LoopThrew e \<Longrightarrow> party_acts p (pt_at p rules s)"
| party_establishes: "so_tcp (pt_socket p) \<noteq> None \<Longrightarrow>
    so_establish (pt_env p) states base_time inputs (pt_rules p) (pt_socket p) = (rules, s, r) \<Longrightarrow>
    \<forall>e. r \<noteq> LoopThrew e \<Longrightarrow> party_acts p (pt_at p rules s)"
| party_loops: "so_tcp (pt_socket p) \<noteq> None \<Longrightarrow>
    so_tcp_loop (pt_env p) condition base_time inputs (pt_rules p) (pt_socket p) = (rules, s, r) \<Longrightarrow>
    \<forall>e. r \<noteq> LoopThrew e \<Longrightarrow> party_acts p (pt_at p rules s)"
| party_ends: "so_tcp_main (pt_env p) base_time inputs (pt_rules p) (pt_socket p) = (rules, s, r) \<Longrightarrow>
    \<forall>e. r \<noteq> LoopThrew e \<Longrightarrow> party_acts p (pt_at p rules s)"

section \<open>Two parties\<close>

text \<open>Equal up to the ports and the checksum.\<close>

definition same_segment :: "tcp_segment \<Rightarrow> tcp_segment \<Rightarrow> bool" where
  "same_segment seg seg' \<longleftrightarrow> (\<exists>sport dport. arrives_as seg sport dport seg')"

definition network_honest :: "('a, 'k) party \<Rightarrow> ('a, 'k) party \<Rightarrow> bool" where
  "network_honest p q \<longleftrightarrow> (\<forall>seg' \<in> set (hi_rx (pt_hist p) (pt_kernel p)).
     \<exists>seg \<in> set (hi_tx (pt_hist q) (pt_kernel q)). same_segment seg seg')"

definition pt_empty :: "('a, 'k) party \<Rightarrow> bool" where
  "pt_empty p \<longleftrightarrow> hi_empty (pt_hist p) (pt_kernel p) \<and> pk_out (pt_packets p) (pt_kernel p) = [] \<and>
     pk_in (pt_packets p) (pt_kernel p) = []"

text \<open>\<open>honest p q\<close>: what has come to \<open>p\<close> is what \<open>q\<close> has sent.\<close>

inductive sockets_run :: "(('a, 'k) party \<Rightarrow> ('a, 'k) party \<Rightarrow> bool) \<Rightarrow> ('a, 'k) party \<Rightarrow> ('a, 'k) party \<Rightarrow> bool"
  for honest where
  sockets_start: "cfg_send_capacity (pt_cfg p) < two63 \<Longrightarrow> cfg_recv_capacity (pt_cfg p) < two63 \<Longrightarrow>
    cfg_send_capacity (pt_cfg q) < two63 \<Longrightarrow> cfg_recv_capacity (pt_cfg q) < two63 \<Longrightarrow>
    so_tcp (pt_socket p) = None \<Longrightarrow> so_tcp (pt_socket q) = None \<Longrightarrow> pt_rules p = [] \<Longrightarrow> pt_rules q = [] \<Longrightarrow>
    \<not> pt_started p \<Longrightarrow> \<not> pt_started q \<Longrightarrow>
    pt_kernel p = pt_kernel q \<Longrightarrow> pt_empty p \<Longrightarrow> pt_empty q \<Longrightarrow> sockets_run honest p q"
| sockets_swap: "sockets_run honest p q \<Longrightarrow> sockets_run honest q p"
| sockets_act: "sockets_run honest p q \<Longrightarrow> party_acts p p' \<Longrightarrow> q' = pt_sees (pt_kernel p') q \<Longrightarrow> honest p' q' \<Longrightarrow>
    sockets_run honest p' q'"
| sockets_kernel: "sockets_run honest p q \<Longrightarrow> pt_still p (pt_kernel p) k \<Longrightarrow> pt_still q (pt_kernel p) k \<Longrightarrow>
    sockets_run honest (pt_sees k p) (pt_sees k q)"

text \<open>The surroundings of \<open>p\<close> keep their promise and leave the histories of \<open>q\<close> alone.\<close>

definition party_wired :: "('a, 'k) party \<Rightarrow> ('a, 'k) party \<Rightarrow> bool" where
  "party_wired p q \<longleftrightarrow> se_spec (pt_env p) (pt_hist p) \<and> (\<forall>k. se_keeps (pt_env p) (pt_still q k))"

text \<open>A run of the loop is its passes, one after the other.\<close>

lemma so_tcp_loop_append:
  "so_tcp_loop E condition base_time xs rules s = (rules', s', StillWaiting) \<Longrightarrow>
    \<exists>base_time'. so_tcp_loop E condition base_time (xs @ ys) rules s = so_tcp_loop E condition base_time' ys rules' s'"
proof (induction xs arbitrary: base_time rules s)
  case (Cons i xs)
  then show ?case
    by (auto simp: Let_def split: prod.splits sum.splits if_splits option.splits)
qed auto

section \<open>Segments that are the same\<close>

lemma same_segment_parts:
  assumes "same_segment seg seg'"
  shows "th_seqno (seg_header seg') = th_seqno (seg_header seg)" "th_ackno (seg_header seg') = th_ackno (seg_header seg)"
    "th_ack (seg_header seg') = th_ack (seg_header seg)" "th_rst (seg_header seg') = th_rst (seg_header seg)"
    "th_syn (seg_header seg') = th_syn (seg_header seg)" "th_fin (seg_header seg') = th_fin (seg_header seg)"
    "th_win (seg_header seg') = th_win (seg_header seg)" "buffer_str (seg_payload seg') = buffer_str (seg_payload seg)"
    "length_in_sequence_space seg' = length_in_sequence_space seg"
  using assms by (auto simp: same_segment_def arrives_as_def length_in_sequence_space_def)

lemma same_segment_ports: "same_segment seg (tcp_set_ports sport dport seg)"
  unfolding same_segment_def arrives_as_def
  by (intro exI [of _ sport] exI [of _ dport] conjI exI [of _ "th_cksum (seg_header seg)"])
    (simp_all add: tcp_set_ports_def)

text \<open>A connection cannot tell them apart.\<close>

lemma same_segment_received:
  assumes "same_segment seg seg'"
  shows "tc_segment_received c seg' = tc_segment_received c seg"
proof -
  have "tr_segment_received r seg' = tr_segment_received r seg" for r
    by (simp add: tr_segment_received_def buffer_size_def buffer_copy_def same_segment_parts [OF assms] Let_def)
  moreover have "tc_reply d seg' = tc_reply d seg" for d
    unfolding tc_reply_def same_segment_parts [OF assms] ..
  ultimately show ?thesis
    unfolding tc_segment_received_def same_segment_parts [OF assms] by (simp only:)
qed

section \<open>What one party does while the other waits\<close>

text \<open>\<open>net_beside y\<close>: the network of \<open>y\<close> and the endpoint, as long as streams are short and the network honest.\<close>

definition net_beside :: "endpoint \<Rightarrow> endpoint \<Rightarrow> tcp_segment list \<Rightarrow> bool" where
  "net_beside y x rx \<longleftrightarrow> (ep_short x \<longrightarrow> ep_short y \<longrightarrow>
     (\<forall>seg' \<in> set rx. \<exists>seg \<in> set (ep_sent y). same_segment seg seg') \<longrightarrow> net_run x y)"

lemma net_beside_step:
  assumes "net_run x y" "ep_step x e = Inr x'" "ep_short y"
    and "\<forall>seg' \<in> set (ep_received [e]). \<exists>seg \<in> set (ep_sent y). same_segment seg seg'"
  shows "net_run x' y"
proof (cases "\<exists>seg'. e = EpReceive seg'")
  case True
  then obtain seg' seg where s: "e = EpReceive seg'" "seg \<in> set (ep_sent y)" "same_segment seg seg'"
    using assms(4) by auto
  have "ep_step x (EpReceive seg) = Inr x'"
    using assms(2) same_segment_received [OF s(3)] by (simp add: s(1))
  then show ?thesis
    by (rule net_deliver [OF assms(1) net_run_delivers [OF net_swap [OF assms(1)] assms(3) s(2)]])
qed (use net_local [OF assms(1) _ assms(2)] in blast)

lemma net_beside_closed: "ep_closed (net_beside y)"
proof -
  have "net_beside y x' (rx @ ep_received [e])" if R: "net_beside y x rx" and e: "ep_step x e = Inr x'" for x x' rx e
    unfolding net_beside_def
  proof (intro impI)
    assume short: "ep_short x'" "ep_short y"
      and honest: "\<forall>seg' \<in> set (rx @ ep_received [e]). \<exists>seg \<in> set (ep_sent y). same_segment seg seg'"
    have "ep_short x"
      using ep_step_written [OF e] short(1) by (auto simp: ep_short_def)
    then have "net_run x y"
      using R short(2) honest by (simp add: net_beside_def)
    then show "net_run x' y"
      by (rule net_beside_step [OF _ e short(2)]) (use honest in simp)
  qed
  then show ?thesis
    unfolding ep_closed_def by blast
qed

section \<open>The two endpoints\<close>

text \<open>
  \<open>pt_is p x\<close>: the party is the endpoint \<open>x\<close>, as far as its connection is there: before it starts
  nothing has happened, after its thread has ended the histories remain.
\<close>

definition pt_is :: "('a, 'k) party \<Rightarrow> endpoint \<Rightarrow> bool" where
  "pt_is p x \<longleftrightarrow> set (pt_rules p) \<subseteq> set (so_rules (pt_env p)) \<and>
     hi_inp (pt_hist p) (pt_kernel p) = ep_written x \<and> hi_out (pt_hist p) (pt_kernel p) = ep_got x \<and>
     hi_tx (pt_hist p) (pt_kernel p) = ep_sent x \<and>
     (case so_tcp (pt_socket p) of Some c \<Rightarrow> c = ep_conn x \<and> pt_started p
      | None \<Rightarrow> \<not> pt_started p \<longrightarrow> x = ep_init (pt_cfg p) (pt_random p) \<and> hi_empty (pt_hist p) (pt_kernel p))"

lemma pt_is_sim: "pt_is p x \<Longrightarrow> so_tcp (pt_socket p) \<noteq> None \<Longrightarrow> so_sim (pt_hist p) (pt_socket p) x"
  by (auto simp: pt_is_def so_sim_def)

lemma pt_is_at:
  "so_sim (pt_hist p) s x \<Longrightarrow> set rules \<subseteq> set (so_rules (pt_env p)) \<Longrightarrow> pt_is (pt_at p rules s) x"
  by (auto simp: pt_is_def so_sim_def pt_at_def)

definition sockets_inv :: "(endpoint \<Rightarrow> endpoint \<Rightarrow> bool) \<Rightarrow> ('a, 'k) party \<Rightarrow> ('a, 'k) party \<Rightarrow> bool" where
  "sockets_inv N p q \<longleftrightarrow> pt_kernel p = pt_kernel q \<and> (\<exists>x y. pt_is p x \<and> pt_is q y \<and> N x y)"

lemma pt_still_frame [simp]: "pt_still (pt_sees k p) = pt_still p" "pt_still (pt_at p rules s) = pt_still p"
  by (simp_all add: pt_still_def pt_sees_def pt_at_def fun_eq_iff)

lemma pt_sees_frame [simp]:
  "pt_env (pt_sees k p) = pt_env p" "pt_hist (pt_sees k p) = pt_hist p" "pt_packets (pt_sees k p) = pt_packets p" "pt_cfg (pt_sees k p) = pt_cfg p"
  "pt_random (pt_sees k p) = pt_random p" "pt_rules (pt_sees k p) = pt_rules p" "pt_kernel (pt_sees k p) = k"
  "pt_started (pt_sees k p) = pt_started p"
  "so_tcp (pt_socket (pt_sees k p)) = so_tcp (pt_socket p)"
  "party_wired (pt_sees k p) q = party_wired p q" "party_wired q (pt_sees k p) = party_wired q p"
  by (simp_all add: pt_sees_def party_wired_def pt_still_frame(1) [unfolded pt_sees_def])

lemma pt_at_frame [simp]:
  "pt_env (pt_at p rules s) = pt_env p" "pt_hist (pt_at p rules s) = pt_hist p" "pt_packets (pt_at p rules s) = pt_packets p" "pt_cfg (pt_at p rules s) = pt_cfg p"
  "pt_random (pt_at p rules s) = pt_random p" "pt_rules (pt_at p rules s) = rules" "pt_socket (pt_at p rules s) = s"
  "pt_started (pt_at p rules s)"
  "party_wired (pt_at p rules s) q = party_wired p q" "party_wired q (pt_at p rules s) = party_wired q p"
  by (simp_all add: pt_at_def party_wired_def pt_still_frame(2) [unfolded pt_at_def])

text \<open>What does not show in the histories does not matter.\<close>

lemma pt_is_quiet: "pt_is p x \<Longrightarrow> hi_quiet (pt_hist p) (pt_kernel p) k \<Longrightarrow> pt_is (pt_sees k p) x"
  by (auto simp: pt_is_def hi_quiet_def hi_empty_def split: option.splits)

text \<open>The end of the thread: the owner's end is shut down, the connection is gone.\<close>

lemma so_tcp_main_inv:
  assumes "so_tcp_main E base_time inputs rules s = (rules', s', r)" "set rules \<subseteq> set (so_rules E)"
    and "so_inv E H q R s" "\<And>e. r \<noteq> LoopThrew e"
  shows "set rules' \<subseteq> set (so_rules E) \<and> q (so_kernel s') \<and> (\<exists>x. R x (hi_rx H (so_kernel s')) \<and>
    hi_inp H (so_kernel s') = ep_written x \<and> hi_out H (so_kernel s') = ep_got x \<and> hi_tx H (so_kernel s') = ep_sent x \<and>
    (so_tcp s' = Some (ep_conn x) \<or> so_tcp s' = None))"
proof -
  obtain rules1 t e where l: "so_tcp_loop E (\<lambda>_. True) base_time inputs rules s = (rules1, t, e)"
    by (cases "so_tcp_loop E (\<lambda>_. True) base_time inputs rules s") auto
  have "so_tcp s \<noteq> None"
    using assms(3) by (auto simp: so_inv_def so_sim_def)
  note main = assms(1) [unfolded so_tcp_main_def l, simplified this, simplified]
  have e: "e \<noteq> LoopThrew ex" for ex
    using main assms(4) [of ex] by auto
  note inv = so_tcp_loop_inv [OF l assms(2,3) e]
  obtain x where x: "R x (hi_rx H (so_kernel t))" "so_sim H t x"
    using inv by (auto simp: so_inv_def)
  note env = so_invD [OF conjunct1 [OF inv]]
  show ?thesis
  proof (cases "e = LoopDone")
    case True
    obtain res k where sd: "se_shutdown E (fd_num (so_main t)) SHUT_RDWR (so_kernel t) = (res, k)"
      by (cases "se_shutdown E (fd_num (so_main t)) SHUT_RDWR (so_kernel t)")
    have "so_kernel s' = k \<and> so_tcp s' = None \<and> rules' = rules1"
      using main True assms(4) by (auto simp: so_shutdown_main_def sd Let_def split: prod.splits option.splits if_splits)
    then show ?thesis
      using x inv se_spec_quiet(2) [OF env(1) sd] se_keepsD(6) [OF env(2,3) sd] by (auto simp: hi_quiet_def so_sim_def)
  next
    case False
    then have "s' = t \<and> rules' = rules1"
      using main e by (cases e) auto
    then show ?thesis
      using x inv env(3) by (auto simp: so_sim_def)
  qed
qed

text \<open>A party acts; the other is the endpoint \<open>y\<close>, whose histories stay as they are.\<close>

lemma party_acts_inv:
  assumes "party_acts p p'" "se_spec (pt_env p) (pt_hist p)" "pt_is p x"
    and "ep_closed R" "R x (hi_rx (pt_hist p) (pt_kernel p))" and "se_keeps (pt_env p) Q" "Q (pt_kernel p)"
  shows "Q (pt_kernel p') \<and> (\<exists>x'. pt_is p' x' \<and> R x' (hi_rx (pt_hist p) (pt_kernel p')))"
proof -
  let ?inv = "so_inv (pt_env p) (pt_hist p) Q R"
  note env = assms(2,6,7)
  have rules: "set (pt_rules p) \<subseteq> set (so_rules (pt_env p))"
    using assms(3) by (simp add: pt_is_def)
  have fresh: "so_fresh (pt_env p) (pt_hist p) Q R (pt_cfg p) (pt_random p) (pt_socket p)"
    if "so_tcp (pt_socket p) = None" "\<not> pt_started p"
    using that assms(3-5) env by (auto simp: so_fresh_def pt_is_def hi_empty_def)
  have sim: "?inv (pt_socket p)" if "so_tcp (pt_socket p) \<noteq> None"
    using that assms(4,5) env pt_is_sim [OF assms(3)] by (auto simp: so_inv_def)
  have finish: "?thesis" if "p' = pt_at p rules s" "?inv s \<and> set rules \<subseteq> set (so_rules (pt_env p))" for rules s
    using that by (auto simp: so_inv_def intro: pt_is_at)
  show ?thesis
    using assms(1)
  proof cases
    case (party_connects c_ad base_time inputs rules s r)
    have "so_tcp (pt_socket p) = None"
      using party_connects(2,4) by (auto simp: so_connect_def split: if_splits)
    then show ?thesis
      using finish [OF party_connects(1)] so_connect_inv [OF disjI1 [OF party_connects(2)] _ fresh] party_connects(3,4) by blast
  next
    case (party_listens c_ad base_time inputs rules s r)
    have "so_tcp (pt_socket p) = None"
      using party_listens(2,4) by (auto simp: so_listen_and_accept_def split: if_splits)
    then show ?thesis
      using finish [OF party_listens(1)] so_connect_inv [OF disjI2 [OF party_listens(2)] _ fresh] party_listens(3,4) by blast
  next
    case (party_establishes states base_time inputs rules s r)
    show ?thesis
      using finish [OF party_establishes(1)] so_establish_inv [OF party_establishes(3) rules sim [OF party_establishes(2)]]
        party_establishes(4) by blast
  next
    case (party_loops condition base_time inputs rules s r)
    show ?thesis
      using finish [OF party_loops(1)] so_tcp_loop_inv [OF party_loops(3) rules sim [OF party_loops(2)]]
        party_loops(4) by blast
  next
    case (party_ends base_time inputs rules s r)
    have "so_tcp (pt_socket p) \<noteq> None"
    proof
      assume "so_tcp (pt_socket p) = None"
      then show False
        using party_ends(2,3) by (auto simp: so_tcp_main_def)
    qed
    from so_tcp_main_inv [OF party_ends(2) rules sim [OF this]] show ?thesis
      using party_ends(1,3) by (auto simp: pt_is_def)
  qed
qed

lemma party_acts_frame:
  "party_acts p p' \<Longrightarrow> pt_env p' = pt_env p \<and> pt_hist p' = pt_hist p \<and> pt_packets p' = pt_packets p \<and>
    pt_cfg p' = pt_cfg p \<and> pt_random p' = pt_random p \<and> pt_still p' = pt_still p"
  by (erule party_acts.cases) simp_all

section \<open>The invariant of two parties\<close>

text \<open>
  \<open>N x y\<close>: how the two endpoints stand to each other; \<open>B y x rx\<close>: what is kept of it while the one
  that is \<open>x\<close> acts alone.
\<close>

lemma sockets_inv_act:
  assumes inv: "sockets_inv N p q" and act: "party_acts p p'" and wired: "party_wired p q"
    and q': "q' = pt_sees (pt_kernel p') q"
    and closed: "\<And>y. ep_closed (B y)" and alone: "\<And>x y rx. N x y \<Longrightarrow> B y x rx"
    and together: "\<And>x y. pt_is p' x \<Longrightarrow> pt_is q' y \<Longrightarrow> B y x (hi_rx (pt_hist p') (pt_kernel p')) \<Longrightarrow> N x y"
  shows "sockets_inv N p' q'"
proof -
  obtain x y where xy: "pt_is p x" "pt_is q y" "N x y" and k: "pt_kernel p = pt_kernel q"
    using inv by (auto simp: sockets_inv_def)
  have "se_spec (pt_env p) (pt_hist p)" "se_keeps (pt_env p) (pt_still q (pt_kernel p))" "pt_still q (pt_kernel p) (pt_kernel p)"
    using wired by (simp_all add: party_wired_def pt_still_def hi_quiet_def)
  from party_acts_inv [OF act this(1) xy(1) closed alone [OF xy(3)] this(2,3)]
  obtain x' where x': "pt_is p' x'" "B y x' (hi_rx (pt_hist p) (pt_kernel p'))" and still: "pt_still q (pt_kernel p) (pt_kernel p')"
    by blast
  have y: "pt_is q' y"
    unfolding q' by (rule pt_is_quiet [OF xy(2)]) (use still k in \<open>simp add: pt_still_def\<close>)
  have "N x' y"
    using together [OF x'(1) y] x'(2) party_acts_frame [OF act] by simp
  then show ?thesis
    using x'(1) y unfolding sockets_inv_def q' by auto
qed

lemma sockets_run_inv:
  assumes "sockets_run honest p q" "party_wired p q" "party_wired q p"
    and swap: "\<And>x y. N x y \<Longrightarrow> N y x"
    and start: "\<And>c d r r'. cfg_send_capacity c < two63 \<Longrightarrow> cfg_recv_capacity c < two63 \<Longrightarrow>
      cfg_send_capacity d < two63 \<Longrightarrow> cfg_recv_capacity d < two63 \<Longrightarrow> N (ep_init c r) (ep_init d r')"
    and closed: "\<And>y. ep_closed (B y)" and alone: "\<And>x y rx. N x y \<Longrightarrow> B y x rx"
    and together: "\<And>p q x y. honest p q \<Longrightarrow> pt_is p x \<Longrightarrow> pt_is q y \<Longrightarrow>
      B y x (hi_rx (pt_hist p) (pt_kernel p)) \<Longrightarrow> N x y"
  shows "sockets_inv N p q"
  using assms(1-3)
proof (induction rule: sockets_run.induct)
  case (sockets_start p q)
  then have "pt_is p (ep_init (pt_cfg p) (pt_random p))" "pt_is q (ep_init (pt_cfg q) (pt_random q))"
    by (simp_all add: pt_is_def pt_empty_def hi_empty_def ep_init_def)
  then show ?case
    using sockets_start start unfolding sockets_inv_def by metis
next
  case (sockets_swap p q)
  then show ?case
    using swap unfolding sockets_inv_def by metis
next
  case (sockets_act p q p' q')
  then have "sockets_inv N p q" "party_wired p q"
    using party_acts_frame [OF sockets_act(2)] by (simp_all add: party_wired_def)
  then show ?case
    by (rule sockets_inv_act [OF _ sockets_act(2) _ sockets_act(3) closed alone together [OF sockets_act(4)]])
next
  case (sockets_kernel p q k)
  then have "sockets_inv N p q"
    by simp
  then show ?case
    using sockets_kernel(2,3) pt_is_quiet unfolding sockets_inv_def pt_still_def by (metis pt_sees_frame(7))
qed

lemma sockets_run_kernel: "sockets_run honest p q \<Longrightarrow> pt_kernel p = pt_kernel q"
  by (induction rule: sockets_run.induct) simp_all

text \<open>Honest about segments, the network of two sockets is one of two endpoints.\<close>

definition short_run :: "endpoint \<Rightarrow> endpoint \<Rightarrow> bool" where
  "short_run x y \<longleftrightarrow> (ep_short x \<longrightarrow> ep_short y \<longrightarrow> net_run x y)"

lemma sockets_run_short:
  assumes "sockets_run network_honest p q" "party_wired p q" "party_wired q p"
  shows "sockets_inv short_run p q"
proof (rule sockets_run_inv [where B = net_beside, OF assms])
  fix p q :: "('a, 'b) party" and x y
  assume "network_honest p q" "pt_is p x" "pt_is q y" "net_beside y x (hi_rx (pt_hist p) (pt_kernel p))"
  then show "short_run x y"
    by (simp add: short_run_def net_beside_def network_honest_def pt_is_def)
qed (auto simp: short_run_def net_beside_def net_beside_closed intro: net_swap net_start)

section \<open>Properties\<close>

text \<open>
  C2: Owner to owner. Two sockets that connect or listen and run their loops, interleaved in any
  way and over a network that may lose, delay, repeat and reorder what they send: as long as
  each owner has written less than 2^31 - 2 bytes, what one socket has handed to its owner is a
  prefix of what the other has taken from its own; when the connection reports the end of the
  stream it is all of it, and the other connection, if it is still there, has ended its stream;
  when that other connection is over without an error, all of it has been handed over or waits
  in this one; and no segment the other has sent makes a connection throw.
\<close>

theorem sockets_end_to_end:
  assumes "sockets_run network_honest p q" "party_wired p q" "party_wired q p"
    and "length (pt_written p) + 2 < two31" "length (pt_written q) + 2 < two31"
  shows "(\<exists>rest. pt_written p = pt_got q @ rest) \<and>
    (\<forall>c. so_tcp (pt_socket q) = Some c \<longrightarrow>
      (bs_eof (tc_inbound_stream c) \<longrightarrow> pt_got q = pt_written p \<and>
        (\<forall>d. so_tcp (pt_socket p) = Some d \<longrightarrow> bs_input_ended (ts_stream (tc_sender d)))) \<and>
      (\<forall>d. so_tcp (pt_socket p) = Some d \<and> \<not> tc_active d \<and> \<not> bs_error (ts_stream (tc_sender d)) \<longrightarrow>
        pt_got q @ bs_buffer (tc_inbound_stream c) = pt_written p) \<and>
      (\<forall>seg \<in> set (hi_tx (pt_hist p) (pt_kernel p)). \<forall>seg'. same_segment seg seg' \<longrightarrow>
        (\<exists>c'. tc_segment_received c seg' = Inr c')))"
proof -
  obtain x y where xy: "pt_is p x" "pt_is q y" "short_run x y"
    using sockets_run_short [OF assms(1-3)] by (auto simp: sockets_inv_def)
  have hist: "pt_written p = ep_written x" "pt_written q = ep_written y" "pt_got q = ep_got y"
      "hi_tx (pt_hist p) (pt_kernel p) = ep_sent x"
    using xy(1,2) by (simp_all add: pt_is_def pt_written_def pt_got_def)
  have short: "ep_short x" "ep_short y"
    using assms(4,5) by (simp_all add: ep_short_def hist)
  then have run: "net_run x y"
    using xy(3) by (simp add: short_run_def)
  have len: "Suc (length (ep_written x)) < two63"
    using assms(4) by (simp add: hist two31_def two63_def)
  note over = net_run_arrived [OF run short(1)]
  note e2e = net_half_stream [OF conjunct1 [OF net_run_half [OF run]] len]
  have conn: "d = ep_conn x" if "so_tcp (pt_socket p) = Some d" for d
    using xy(1) that by (simp add: pt_is_def)
  have "c = ep_conn y" if "so_tcp (pt_socket q) = Some c" for c
    using xy(2) that by (simp add: pt_is_def)
  moreover have "\<exists>c'. tc_segment_received (ep_conn y) seg' = Inr c'"
    if "seg \<in> set (ep_sent x)" "same_segment seg seg'" for seg seg'
    using e2e(2) [OF net_run_delivers [OF run short(1) that(1)]] same_segment_received [OF that(2), of "ep_conn y"]
    by (cases "tc_segment_received (ep_conn y) seg") simp_all
  moreover have "ep_got y = ep_written x \<and> bs_input_ended (ts_stream (tc_sender (ep_conn x)))"
    if "bs_eof (tc_inbound_stream (ep_conn y))"
    using e2e(1) that by (auto simp: bs_eof_def bs_buffer_empty_def)
  moreover have "ep_got y @ bs_buffer (tc_inbound_stream (ep_conn y)) = ep_written x"
    if "\<not> tc_active (ep_conn x)" "\<not> bs_error (ts_stream (tc_sender (ep_conn x)))"
    using over(1) over(3) [OF over(4) [OF that]] by simp
  ultimately show ?thesis
    using e2e(1) hist conn by auto
qed

section \<open>Witnesses\<close>

text \<open>The surroundings and histories of the other half of the kernel.\<close>

definition se_swap :: "('a, 'k \<times> 'k) so_env \<Rightarrow> ('a, 'k \<times> 'k) so_env" where
  "se_swap E = E\<lparr>
     se_receive := (\<lambda>a k. let (a, k, r) = se_receive E a (prod.swap k) in (a, prod.swap k, r)),
     se_send := (\<lambda>seg a k. let (a, k, r) = se_send E seg a (prod.swap k) in (a, prod.swap k, r)),
     se_tick := (\<lambda>ms a k. let (a, k, r) = se_tick E ms a (prod.swap k) in (a, prod.swap k, r)),
     se_read := (\<lambda>fd n k. let (d, k) = se_read E fd n (prod.swap k) in (d, prod.swap k)),
     se_writev := (\<lambda>fd k iov. let (r, k) = se_writev E fd (prod.swap k) iov in (r, prod.swap k)),
     se_shutdown := (\<lambda>fd how k. let (r, k) = se_shutdown E fd how (prod.swap k) in (r, prod.swap k))\<rparr>"

definition hi_swap :: "('k \<times> 'k) histories \<Rightarrow> ('k \<times> 'k) histories" where
  "hi_swap H = \<lparr>hi_inp = hi_inp H \<circ> prod.swap, hi_out = hi_out H \<circ> prod.swap, hi_tx = hi_tx H \<circ> prod.swap,
     hi_rx = hi_rx H \<circ> prod.swap\<rparr>"

definition party_example :: "(fd_wrapper, hist_example \<times> hist_example) so_env \<Rightarrow>
    (hist_example \<times> hist_example) histories \<Rightarrow> (fd_wrapper, hist_example \<times> hist_example) party" where
  "party_example E H = \<lparr>pt_env = E, pt_hist = H, pt_packets = \<lparr>pk_out = (\<lambda>k. []), pk_in = (\<lambda>k. [])\<rparr>, pt_cfg = cfg_example, pt_random = 0, pt_rules = [],
     pt_socket = so_idle fd_example (hist_empty, hist_empty), pt_started = False\<rparr>"

abbreviation caller :: "(fd_wrapper, hist_example \<times> hist_example) party" where
  "caller \<equiv> party_example so_env_example hi_example"

abbreviation callee :: "(fd_wrapper, hist_example \<times> hist_example) party" where
  "callee \<equiv> party_example (se_swap so_env_example) (hi_swap hi_example)"

lemma example_wired: "party_wired caller callee" "party_wired callee caller"
  by (auto simp: party_wired_def party_example_def pt_still_def se_spec_def se_keeps_def read_spec_def writev_spec_def hi_quiet_def
      so_env_example_def se_swap_def hi_example_def hi_swap_def Let_def min_def)

text \<open>The caller connects and sends its SYN; the callee listens.\<close>

definition caller_sent :: "(fd_wrapper, hist_example \<times> hist_example) party" where
  "caller_sent = pt_at caller (so_rules so_env_example) (so_connected (fd_register_write fd_example) (hist_syn, hist_empty))"

definition callee_listening :: "(fd_wrapper, hist_example \<times> hist_example) party" where
  "callee_listening = pt_at callee (so_rules (se_swap so_env_example))
     ((pt_socket callee)\<lparr>so_kernel := pt_kernel caller_sent, so_tcp := Some (tc_construct cfg_example 0)\<rparr>)"

lemma example_listens: "party_acts (pt_sees (pt_kernel caller_sent) callee) callee_listening"
proof -
  let ?E = "se_swap so_env_example :: (fd_wrapper, hist_example \<times> hist_example) so_env"
  let ?p = "pt_sees (pt_kernel caller_sent) callee"
  let ?s = "(pt_socket ?p)\<lparr>so_tcp := Some (tc_construct cfg_example 0)\<rparr>"
  have "so_tcp (pt_socket ?p) = None"
    by (simp add: party_example_def so_idle_def)
  moreover have "se_set_listening ?E l (se_set_config ?E c a) = a" for l c a
    by (simp add: se_swap_def so_env_example_def)
  moreover have "s\<lparr>so_tcp := c, so_adapter := so_adapter s\<rparr> = s\<lparr>so_tcp := c\<rparr>" for c and s :: "(fd_wrapper, 'z) sponge_socket"
    by (cases s) simp
  ultimately have "so_listen_and_accept ?E cfg_example 0 c 0 [] [] (pt_socket ?p) = (so_rules ?E, ?s, StillWaiting)" for c
    using so_listen_starts by metis
  then have "party_acts ?p (pt_at ?p (so_rules ?E) ?s)"
    by (intro party_listens [where base_time = 0 and inputs = "[]" and r = StillWaiting]) (simp_all add: party_example_def pt_sees_def)
  then show ?thesis
    by (simp add: callee_listening_def pt_sees_def pt_at_def)
qed

lemma example_run: "sockets_run network_honest callee_listening caller_sent"
proof -
  have fresh: "cfg_send_capacity cfg_example < two63" "cfg_recv_capacity cfg_example < two63"
    by (simp_all add: cfg_example_def tcp_config_default_def two63_def)
  have "sockets_run network_honest caller callee"
    by (rule sockets_start) (simp_all add: party_example_def fresh so_idle_def pt_empty_def hi_empty_def hi_example_def hi_swap_def)
  moreover have "party_acts caller caller_sent"
    unfolding caller_sent_def
    by (rule party_connects [where c_ad = cfg and base_time = 0 and inputs = "[input_writable]" and r = LoopDone for cfg])
      (simp_all add: party_example_def so_example_connect)
  moreover have "network_honest caller_sent q" for q :: "(fd_wrapper, hist_example \<times> hist_example) party"
    by (simp add: network_honest_def caller_sent_def party_example_def so_connected_def so_sent_def so_idle_def hi_example_def)
  ultimately have "sockets_run network_honest caller_sent (pt_sees (pt_kernel caller_sent) callee)"
    by (blast intro: sockets_act)
  then have "sockets_run network_honest (pt_sees (pt_kernel caller_sent) callee) caller_sent"
    by (rule sockets_swap)
  moreover have "party_acts (pt_sees (pt_kernel caller_sent) callee) callee_listening"
    by (rule example_listens)
  moreover have "caller_sent = pt_sees (pt_kernel callee_listening) caller_sent"
    by (simp add: callee_listening_def pt_sees_def)
  moreover have "network_honest callee_listening q" for q :: "(fd_wrapper, hist_example \<times> hist_example) party"
    by (simp add: network_honest_def callee_listening_def caller_sent_def party_example_def so_connected_def
        so_sent_def so_idle_def hi_example_def hi_swap_def)
  ultimately show ?thesis
    by (blast intro: sockets_act)
qed

theorem sockets_end_to_end_witness:
  "\<exists>c'. tc_segment_received (tc_construct cfg_example 0) (tcp_set_ports 80 80 (tc_syn (WrappingInt32 5))) = Inr c'"
proof -
  have k: "pt_kernel caller_sent = (([], [], [tc_syn (WrappingInt32 5)], []), ([], [], [], []))"
    by (simp add: caller_sent_def so_connected_def so_sent_def so_idle_def)
  have short: "length (pt_written caller_sent) + 2 < two31" "length (pt_written callee_listening) + 2 < two31"
    by (simp_all add: pt_written_def callee_listening_def k)
      (simp_all add: caller_sent_def party_example_def hi_example_def hi_swap_def two31_def)
  have wired: "party_wired caller_sent callee_listening" "party_wired callee_listening caller_sent"
    using example_wired by (simp_all add: caller_sent_def callee_listening_def)
  have seg: "tc_syn (WrappingInt32 5) \<in> set (hi_tx (pt_hist caller_sent) (pt_kernel caller_sent))"
    "same_segment (tc_syn (WrappingInt32 5)) (tcp_set_ports 80 80 (tc_syn (WrappingInt32 5)))"
    "so_tcp (pt_socket callee_listening) = Some (tc_construct cfg_example 0)"
    by (simp add: k) (simp_all add: caller_sent_def party_example_def hi_example_def same_segment_ports callee_listening_def)
  show ?thesis
    using sockets_end_to_end [OF sockets_swap [OF example_run] wired short] seg by blast
qed

end
