(* ===== verification/Segment_Transport.thy ===== *)
theory Segment_Transport
  imports Socket_Pair
begin

text \<open>
  A segment's way through the whole stack: what a connection sends is always a segment the
  serializer takes (\<open>seg_plain\<close>), so the adapter of its host makes a datagram of it, the other
  host's adapter makes the segment of the datagram's bytes again, and the connection there takes
  it for the segment that was sent.
\<close>

section \<open>Between two hosts\<close>

lemma seg_plain_wf: "seg_plain seg \<Longrightarrow> tcp_segment_wf seg"
  by (simp add: seg_plain_def tcp_segment_wf_def tcp_header_wf_def)

text \<open>
  The datagram an adapter makes of a plain segment, its bytes, and what the other adapter makes
  of them. With both headers it is no longer than 1040 bytes.
\<close>

lemma plain_crosses:
  assumes "numeric_netdb nd" "seg_plain seg" "fa_between a s d" "fa_between b d s" "\<not> fa_listen b"
  shows "\<exists>dg l dg' seg'. wrap_tcp_in_ip nd seg a = Inr dg \<and> ip_datagram_serialize dg = Inr l \<and>
    length (bl_concatenate l) \<le> 1040 \<and>
    ip_datagram_parse ip_datagram_default (buffer_of (bl_concatenate l)) = (NoError, dg') \<and>
    unwrap_tcp_in_ip nd dg' b = (b, Inr (Some seg')) \<and> same_segment seg seg'"
proof -
  have doff: "unat (th_doff (seg_header seg)) = 5" "length (buffer_str (seg_payload seg)) \<le> 1000"
    using assms(2) by (simp_all add: seg_plain_def)
  obtain dg l h p seg' where x: "wrap_tcp_in_ip nd seg a = Inr dg" "ip_datagram_serialize dg = Inr l"
    "length (bl_concatenate l) = 20 + 4 * unat (th_doff (seg_header seg)) + length (buffer_str (seg_payload seg))"
    "ip_datagram_parse ip_datagram_default (buffer_of (bl_concatenate l)) = (NoError, \<lparr>ipd_header = h, ipd_payload = [p]\<rparr>)"
    "ip_proto h = PROTO_TCP" "ip_src h = fst s" "ip_dst h = fst d"
    "tcp_segment_parse tcp_segment_default p (ip_pseudo_cksum h) = (NoError, seg')" "arrives_as seg (snd s) (snd d) seg'"
    using ip_crossing [OF seg_plain_wf [OF assms(2)] fa_between_resolves [OF assms(1,3)]] by blast
  have "length (bl_concatenate l) \<le> 1040"
    using x(3) doff by simp
  then show ?thesis
    using x(1,2,4,9) unwrap_parsed(1) [OF assms(1) x(5-9) assms(5,4)]
    by (intro exI [of _ dg] exI [of _ l] exI [of _ "\<lparr>ipd_header = h, ipd_payload = [p]\<rparr>"] exI [of _ seg'])
      (auto simp: same_segment_def)
qed

section \<open>Properties\<close>

text \<open>
  Down one stack and up the other. Every segment that a connection of a pair has ever sent
  has no options and at most 1000 bytes; its host's adapter makes a datagram of it that
  serializes to at most 1040 bytes; of these bytes the adapter of the other host makes a segment
  again; and the connection there does with it exactly what it would do with the one that was
  sent, without an exception.
\<close>

theorem segment_crosses_stack:
  assumes "net_run x y" "length (ep_written x) + 2 < two31" "seg \<in> set (ep_sent x)"
    and "numeric_netdb nd" "fa_between a s d" "fa_between b d s" "\<not> fa_listen b"
  shows "\<exists>dg l dg' seg' c. wrap_tcp_in_ip nd seg a = Inr dg \<and> ip_datagram_serialize dg = Inr l \<and>
    length (bl_concatenate l) \<le> 1040 \<and>
    ip_datagram_parse ip_datagram_default (buffer_of (bl_concatenate l)) = (NoError, dg') \<and>
    unwrap_tcp_in_ip nd dg' b = (b, Inr (Some seg')) \<and>
    tc_segment_received (ep_conn y) seg' = Inr c \<and> tc_segment_received (ep_conn y) seg = Inr c"
proof -
  have "seg_plain seg"
    using net_run_plain [OF assms(1)] assms(3) by (simp add: ep_all_def)
  then obtain dg l dg' seg' where x: "wrap_tcp_in_ip nd seg a = Inr dg" "ip_datagram_serialize dg = Inr l"
    "length (bl_concatenate l) \<le> 1040" "ip_datagram_parse ip_datagram_default (buffer_of (bl_concatenate l)) = (NoError, dg')"
    "unwrap_tcp_in_ip nd dg' b = (b, Inr (Some seg'))" "same_segment seg seg'"
    using plain_crosses [OF assms(4) _ assms(5-7)] by blast
  have "Suc (length (ep_written x)) < two63"
    using assms(2) by (simp add: two31_def two63_def)
  then have "\<exists>y'. ep_step y (EpReceive seg) = Inr y'"
    using net_half_stream(2) net_run_half [OF assms(1)] net_run_delivers [OF assms(1) _ assms(3)] assms(2)
    by (auto simp: ep_short_def simp del: ep_step.simps)
  then obtain c where "tc_segment_received (ep_conn y) seg = Inr c"
    by (cases "tc_segment_received (ep_conn y) seg") auto
  then show ?thesis
    using x(1-5) same_segment_received [OF x(6), of "ep_conn y"] by auto
qed

theorem segment_crosses_stack_witness:
  "\<exists>dg l dg' seg' c. wrap_tcp_in_ip netdb_example (tc_syn (WrappingInt32 5)) (fa_example 1 2 False) = Inr dg \<and>
    ip_datagram_serialize dg = Inr l \<and>
    ip_datagram_parse ip_datagram_default (buffer_of (bl_concatenate l)) = (NoError, dg') \<and>
    unwrap_tcp_in_ip netdb_example dg' (fa_example 2 1 False) = (fa_example 2 1 False, Inr (Some seg')) \<and>
    tc_segment_received (tc_construct cfg_example 0) seg' = Inr c"
proof -
  have "length (ep_written ep_example_sent) + 2 < two31" "tc_syn (WrappingInt32 5) \<in> set (ep_sent ep_example_sent)"
    by (simp_all add: ep_example_sent_def ep_example_def ep_init_def two31_def)
  from segment_crosses_stack [OF ep_example_run this netdb_example_numeric, of "fa_example 1 2 False" "(1, 80)" "(2, 80)"
      "fa_example 2 1 False"]
  show ?thesis
    by (auto simp: fa_example_def fa_between_def ep_example_def ep_init_def)
qed

end
