(* ===== verification/Tun_Sockets.thy ===== *)
theory Tun_Sockets
  imports Segment_Transport
begin

text \<open>
  Two sponge sockets over TUN devices (\<open>TCPOverIPv4OverTunFdAdapter\<close>, \<open>tuntap_adapter.hh\<close>), with or
  without losses in the adapter (\<open>LossyFdAdapter\<close>): the surroundings of \<open>Socket_Pair\<close> with the code's
  own adapters. What is left to promise is what \<open>read(2)\<close> and \<open>writev(2)\<close> do with the owner's
  socket and with the device, and that the packets a device hands over are packets that the
  other one has taken.
\<close>

section \<open>The surroundings\<close>

text \<open>The kernel of a socket over a TUN device: calls for the local socket, for the device, and random numbers.\<close>

record 'k kernel_calls =
  kc_read :: "int \<Rightarrow> nat \<Rightarrow> 'k \<Rightarrow> (sys_result \<times> bytes) \<times> 'k"
  kc_writev :: "int \<Rightarrow> 'k writev"
  kc_shutdown :: "int \<Rightarrow> int \<Rightarrow> 'k \<Rightarrow> sys_result \<times> 'k"
  kc_device_read :: "int \<Rightarrow> nat \<Rightarrow> 'k \<Rightarrow> (sys_result \<times> bytes) \<times> 'k"
  kc_device_writev :: "int \<Rightarrow> 'k writev"
  kc_random :: "'k \<Rightarrow> 32 word \<times> 'k"

text \<open>\<open>_tun.read()\<close> asks for at most 1 MiB.\<close>

definition tun_env :: "netdb \<Rightarrow> 'k kernel_calls \<Rightarrow> (tun_adapter, 'k) so_env" where
  "tun_env nd K = \<lparr>se_netdb = nd, se_fd = tu_fd, se_config = (\<lambda>t. fa_cfg (tu_base t)),
     se_set_config = (\<lambda>cfg t. t\<lparr>tu_base := fa_set_config cfg (tu_base t)\<rparr>),
     se_set_listening = (\<lambda>l t. t\<lparr>tu_base := fa_set_listening l (tu_base t)\<rparr>),
     se_receive = (\<lambda>t k. let ((res, data), k) = kc_device_read K (fd_num (tu_fd t)) (1024 * 1024) k;
                             (t, r) = tu_read nd res data t
                         in (t, k, r)),
     se_send = (\<lambda>seg t k. tu_write nd (kc_device_writev K (fd_num (tu_fd t))) seg t k),
     se_tick = (\<lambda>ms t k. (t\<lparr>tu_base := fa_tick ms (tu_base t)\<rparr>, k, None)),
     se_read = kc_read K, se_writev = kc_writev K, se_shutdown = kc_shutdown K\<rparr>"

text \<open>
  An adapter that loses segments. The random engine is asked after a read that returned and
  before a write, and only where there is a loss rate.
\<close>

definition lossy_random :: "('k \<Rightarrow> 32 word \<times> 'k) \<Rightarrow> fd_adapter_config \<Rightarrow> bool \<Rightarrow> 'k \<Rightarrow> 32 word \<times> 'k" where
  "lossy_random random cfg uplink k =
     (if (if uplink then fac_loss_rate_up cfg else fac_loss_rate_dn cfg) = 0 then (0, k) else random k)"

definition lossy_env :: "('k \<Rightarrow> 32 word \<times> 'k) \<Rightarrow> ('a, 'k) so_env \<Rightarrow> ('a, 'k) so_env" where
  "lossy_env random E = E\<lparr>
     se_receive := (\<lambda>a k. let (a, k, ret) = se_receive E a k;
                              (rnd, k) = (case ret of Inl e \<Rightarrow> (0, k) | Inr _ \<Rightarrow> lossy_random random (se_config E a) False k);
                              (a, ret) = lossy_read (se_config E) (\<lambda>a. (a, ret)) rnd a
                          in (a, k, ret)),
     se_send := (\<lambda>seg a k. let (rnd, k) = lossy_random random (se_config E a) True k
                           in if should_drop (se_config E a) True rnd then (a, k, None) else se_send E seg a k)\<rparr>"

text \<open>The two template instances of the socket over a TUN device.\<close>

definition tun_surroundings :: "netdb \<Rightarrow> bool \<Rightarrow> 'k kernel_calls \<Rightarrow> (tun_adapter, 'k) so_env" where
  "tun_surroundings nd lossy K = (if lossy then lossy_env (kc_random K) (tun_env nd K) else tun_env nd K)"

section \<open>What the kernel promises\<close>

text \<open>
  The bytes that the thread has read from its local socket and written to it, and the packets
  that the device has taken and handed over.
\<close>

record 'k tallies =
  kt_inp :: "'k \<Rightarrow> bytes"
  kt_out :: "'k \<Rightarrow> bytes"
  kt_taken :: "'k \<Rightarrow> bytes list"
  kt_handed :: "'k \<Rightarrow> bytes list"

definition kt_still :: "'k tallies \<Rightarrow> 'k \<Rightarrow> 'k \<Rightarrow> bool" where
  "kt_still T k k' \<longleftrightarrow> kt_inp T k' = kt_inp T k \<and> kt_out T k' = kt_out T k \<and> kt_taken T k' = kt_taken T k \<and>
     kt_handed T k' = kt_handed T k"

text \<open>\<open>read(2)\<close> and \<open>writev(2)\<close> on a stream socket, and what else keeps its tallies.\<close>

definition owner_spec :: "('a, 'k) so_env \<Rightarrow> 'k tallies \<Rightarrow> bool" where
  "owner_spec E T \<longleftrightarrow>
     (\<forall>fd n k rv errno bs k'. se_read E fd n k = (((rv, errno), bs), k') \<longrightarrow>
        (rv < 0 \<longrightarrow> rv = -1 \<and> errno \<noteq> 0 \<and> kt_inp T k' = kt_inp T k) \<and>
        (0 \<le> rv \<longrightarrow> nat rv \<le> n \<and> length bs = nat rv \<and> kt_inp T k' = kt_inp T k @ bs) \<and>
        kt_out T k' = kt_out T k \<and> kt_taken T k' = kt_taken T k \<and> kt_handed T k' = kt_handed T k) \<and>
     (\<forall>fd. writev_spec (se_writev E fd) (kt_out T)) \<and>
     (\<forall>fd k iov. let k' = snd (se_writev E fd k iov)
       in kt_inp T k' = kt_inp T k \<and> kt_taken T k' = kt_taken T k \<and> kt_handed T k' = kt_handed T k) \<and>
     (\<forall>fd how k. kt_still T k (snd (se_shutdown E fd how k))) \<and>
     (\<forall>ms a k. kt_still T k (fst (snd (se_tick E ms a k))))"

lemma owner_packets:
  assumes "owner_spec E T"
  shows "kt_taken T (snd (se_read E fd n k)) = kt_taken T k" "kt_handed T (snd (se_read E fd n k)) = kt_handed T k"
    "kt_taken T (snd (se_writev E fd k iov)) = kt_taken T k" "kt_handed T (snd (se_writev E fd k iov)) = kt_handed T k"
    "kt_still T k (snd (se_shutdown E fd how k))" "kt_still T k (fst (snd (se_tick E ms a k)))"
proof -
  obtain rv errno bs k' where d: "se_read E fd n k = (((rv, errno), bs), k')"
    by (cases "se_read E fd n k") auto
  show "kt_taken T (snd (se_read E fd n k)) = kt_taken T k" "kt_handed T (snd (se_read E fd n k)) = kt_handed T k"
    using assms [unfolded owner_spec_def, THEN conjunct1, rule_format, OF d] by (simp_all add: d)
qed (use assms in \<open>simp_all add: owner_spec_def Let_def\<close>)

text \<open>A device hands over one packet at a time and takes a packet as a whole or not at all.\<close>

definition device_spec :: "'k kernel_calls \<Rightarrow> 'k tallies \<Rightarrow> bool" where
  "device_spec K T \<longleftrightarrow>
     (\<forall>fd n k rv errno bs k'. kc_device_read K fd n k = (((rv, errno), bs), k') \<longrightarrow>
        (rv < 0 \<longrightarrow> rv = -1 \<and> errno \<noteq> 0 \<and> kt_handed T k' = kt_handed T k) \<and>
        (0 \<le> rv \<longrightarrow> nat rv \<le> n \<and> length bs = nat rv \<and> kt_handed T k' = kt_handed T k @ [bs]) \<and>
        kt_inp T k' = kt_inp T k \<and> kt_out T k' = kt_out T k \<and> kt_taken T k' = kt_taken T k) \<and>
     (\<forall>fd k iov rv errno k'. kc_device_writev K fd k iov = ((rv, errno), k') \<longrightarrow>
        (rv < 0 \<longrightarrow> rv = -1 \<and> errno \<noteq> 0 \<and> kt_taken T k' = kt_taken T k) \<and>
        (0 \<le> rv \<longrightarrow> rv < 2147483648 \<and> nat rv = length (concat (map fst iov)) \<and>
           kt_taken T k' = kt_taken T k @ [concat (map fst iov)]) \<and>
        kt_inp T k' = kt_inp T k \<and> kt_out T k' = kt_out T k \<and> kt_handed T k' = kt_handed T k) \<and>
     (\<forall>k. kt_still T k (snd (kc_random K k)))"

definition kernel_spec :: "netdb \<Rightarrow> 'k kernel_calls \<Rightarrow> 'k tallies \<Rightarrow> bool" where
  "kernel_spec nd K T \<longleftrightarrow> owner_spec (tun_env nd K) T \<and> device_spec K T"

text \<open>The calls leave alone what \<open>q\<close> says of the kernel.\<close>

definition kernel_keeps :: "'k kernel_calls \<Rightarrow> ('k \<Rightarrow> bool) \<Rightarrow> bool" where
  "kernel_keeps K q \<longleftrightarrow> (\<forall>k. q k \<longrightarrow>
     (\<forall>fd n. q (snd (kc_read K fd n k))) \<and> (\<forall>fd iov. q (snd (kc_writev K fd k iov))) \<and>
     (\<forall>fd how. q (snd (kc_shutdown K fd how k))) \<and> (\<forall>fd n. q (snd (kc_device_read K fd n k))) \<and>
     (\<forall>fd iov. q (snd (kc_device_writev K fd k iov))) \<and> q (snd (kc_random K k)))"

section \<open>Segments and packets\<close>

text \<open>Some adapter makes the packet of the segment; some adapter makes the segment of the packet.\<close>

definition ip_carries :: "netdb \<Rightarrow> tcp_segment \<Rightarrow> bytes \<Rightarrow> bool" where
  "ip_carries nd seg packet \<longleftrightarrow> (\<exists>a dg l. wrap_tcp_in_ip nd seg a = Inr dg \<and> ip_datagram_serialize dg = Inr l \<and>
     packet = bl_concatenate l)"

definition ip_yields :: "netdb \<Rightarrow> bytes \<Rightarrow> tcp_segment \<Rightarrow> bool" where
  "ip_yields nd packet seg \<longleftrightarrow> (\<exists>dg a a'. ip_datagram_parse ip_datagram_default (buffer_of packet) = (NoError, dg) \<and>
     unwrap_tcp_in_ip nd dg a = (a', Inr (Some seg)))"

lemma carried_same:
  assumes "seg_plain seg" "ip_carries nd seg packet" "ip_yields nd packet seg'"
  shows "same_segment seg seg'"
proof -
  have "tcp_segment_wf seg"
    using assms(1) by (simp add: seg_plain_def tcp_segment_wf_def tcp_header_wf_def)
  then show ?thesis
    using assms(2,3) ip_crossing_same unfolding ip_carries_def ip_yields_def same_segment_def by blast
qed

text \<open>What an adapter does with segments and packets, and with nothing else.\<close>

definition carrier_spec :: "netdb \<Rightarrow> ('a, 'k) so_env \<Rightarrow> 'k tallies \<Rightarrow> bool" where
  "carrier_spec nd E T \<longleftrightarrow>
     (\<forall>seg a k a' k' r. se_send E seg a k = (a', k', r) \<longrightarrow>
        kt_inp T k' = kt_inp T k \<and> kt_out T k' = kt_out T k \<and> kt_handed T k' = kt_handed T k \<and>
        (kt_taken T k' = kt_taken T k \<or>
         r = None \<and> (\<exists>packet. kt_taken T k' = kt_taken T k @ [packet] \<and> ip_carries nd seg packet))) \<and>
     (\<forall>a k a' k' r. se_receive E a k = (a', k', r) \<longrightarrow>
        kt_inp T k' = kt_inp T k \<and> kt_out T k' = kt_out T k \<and> kt_taken T k' = kt_taken T k \<and>
        (\<exists>more. kt_handed T k' = kt_handed T k @ more \<and>
          (\<forall>seg. r = Inr (Some seg) \<longrightarrow> (\<exists>packet \<in> set more. ip_yields nd packet seg))))"

text \<open>A device that takes a buffer takes it in one call.\<close>

lemma fd_write_device:
  assumes "device_spec K T" "fd_write (kc_device_writev K fd) write_all buffer w k = (w', k', r)"
  shows "k' = snd (kc_device_writev K fd k (bvl_as_iovecs buffer))"
    and "kt_inp T k' = kt_inp T k" "kt_out T k' = kt_out T k" "kt_handed T k' = kt_handed T k"
    and "(\<exists>e. r = Inl e) \<and> kt_taken T k' = kt_taken T k \<or> (\<exists>n. r = Inr n) \<and> kt_taken T k' = kt_taken T k @ [concat buffer]"
proof -
  obtain rv errno k1 where call: "kc_device_writev K fd k (bvl_as_iovecs buffer) = ((rv, errno), k1)"
    by (cases "kc_device_writev K fd k (bvl_as_iovecs buffer)") auto
  have data: "concat (map fst (bvl_as_iovecs buffer)) = concat buffer"
    by (simp add: bvl_as_iovecs_def comp_def)
  note dev = assms(1) [unfolded device_spec_def, THEN conjunct2, THEN conjunct1, rule_format, OF call, unfolded data]
  note loop = assms(2) [unfolded fd_write_def fd_write_loop.simps [of _ write_all buffer] call Let_def prod.case]
  have "k' = k1 \<and> ((\<exists>e. r = Inl e) \<and> kt_taken T k' = kt_taken T k \<or>
      (\<exists>n. r = Inr n) \<and> kt_taken T k' = kt_taken T k @ [concat buffer])"
  proof (cases "rv < 0")
    case True
    then have "system_call ''writev'' (rv, errno) 0 = Inl (SystemError ''writev'' errno)"
      using dev by (simp add: system_call_def to_c_int_small Let_def)
    then show ?thesis
      using loop True dev by auto
  next
    case False
    then have rv: "0 \<le> rv" "rv < 2147483648" "nat rv = length (concat buffer)" "kt_taken T k1 = kt_taken T k @ [concat buffer]"
      using dev by auto
    then have sys: "system_call ''writev'' (rv, errno) 0 = Inr rv"
      by (simp add: system_call_def to_c_int_small Let_def)
    have len: "length (concat buffer) < two63" "length (concat buffer) < two64"
      using rv(1-3) by (simp_all add: two63_def two64_def)
    have size: "bvl_size buffer = length (concat buffer)" "to_ssize (bvl_size buffer) = int (length (concat buffer))"
      using bvl_size_eq [of buffer] len by (simp_all add: to_ssize_small)
    have n: "of_ssize rv = nat rv"
      using rv(1,2) of_ssize_nat [of "nat rv"] by (simp add: two64_def)
    obtain buffer' where rem: "bvl_remove_prefix (of_ssize rv) buffer = (buffer', None)" "concat buffer' = []"
      using bvl_front.discard_ok [where s = buffer and n = "nat rv"] rv(3) n
      by (cases "bvl_remove_prefix (of_ssize rv) buffer") auto
    have "bvl_size buffer' = 0"
      using bvl_size_eq [of buffer'] rem(2) by (simp add: two64_def)
    then show ?thesis
      using loop sys rem(1) rv size by (auto split: if_splits)
  qed
  then show "k' = snd (kc_device_writev K fd k (bvl_as_iovecs buffer))" "kt_inp T k' = kt_inp T k" "kt_out T k' = kt_out T k"
    "kt_handed T k' = kt_handed T k"
    "(\<exists>e. r = Inl e) \<and> kt_taken T k' = kt_taken T k \<or> (\<exists>n. r = Inr n) \<and> kt_taken T k' = kt_taken T k @ [concat buffer]"
    using call dev by auto
qed

lemma tun_send_packet:
  assumes "device_spec K T" "se_send (tun_env nd K) seg a k = (a', k', r)"
  shows "kt_inp T k' = kt_inp T k \<and> kt_out T k' = kt_out T k \<and> kt_handed T k' = kt_handed T k \<and>
    (kt_taken T k' = kt_taken T k \<or>
     r = None \<and> (\<exists>packet. kt_taken T k' = kt_taken T k @ [packet] \<and> ip_carries nd seg packet))"
proof (cases "\<exists>dg l. wrap_tcp_in_ip nd seg (tu_base a) = Inr dg \<and> ip_datagram_serialize dg = Inr l")
  case True
  then obtain dg l where x: "wrap_tcp_in_ip nd seg (tu_base a) = Inr dg" "ip_datagram_serialize dg = Inr l"
    by blast
  obtain w r' where "fd_write (kc_device_writev K (fd_num (tu_fd a))) True (bvl_of_bl l) (tu_fd a) k = (w, k', r')"
    "r = (case r' of Inl e \<Rightarrow> Some e | Inr _ \<Rightarrow> None)"
    using assms(2) by (auto simp: tun_env_def tu_write_def x split: prod.splits)
  note dev = fd_write_device [OF assms(1) this(1)] this(2)
  have "concat (bvl_of_bl l) = bl_concatenate l"
    by (simp add: bvl_of_bl_def bl_concatenate_eq)
  then show ?thesis
    using dev x by (auto simp: ip_carries_def)
qed (use assms(2) in \<open>auto simp: tun_env_def tu_write_def split: sum.splits\<close>)

lemma tun_receive_packet:
  assumes "device_spec K T" "se_receive (tun_env nd K) a k = (a', k', r)"
  shows "kt_inp T k' = kt_inp T k \<and> kt_out T k' = kt_out T k \<and> kt_taken T k' = kt_taken T k \<and>
    (\<exists>more. kt_handed T k' = kt_handed T k @ more \<and>
      (\<forall>seg. r = Inr (Some seg) \<longrightarrow> (\<exists>packet \<in> set more. ip_yields nd packet seg)))"
proof -
  obtain rv errno bs where call: "kc_device_read K (fd_num (tu_fd a)) (1024 * 1024) k = (((rv, errno), bs), k')"
    "tu_read nd (rv, errno) bs a = (a', r)"
    using assms(2) by (auto simp: tun_env_def Let_def split: prod.splits)
  note dev = assms(1) [unfolded device_spec_def, THEN conjunct1, rule_format, OF call(1)]
  show ?thesis
  proof (cases "\<exists>seg. r = Inr (Some seg)")
    case True
    then obtain seg w s dg b where x: "r = Inr (Some seg)" "fd_read 18446744073709551615 (rv, errno) bs (tu_fd a) = (w, Inr s)"
      "ip_datagram_parse ip_datagram_default (buffer_of s) = (NoError, dg)"
      "unwrap_tcp_in_ip nd dg (tu_base a) = (b, Inr (Some seg))"
      using call(2) by (auto simp: tu_read_def Let_def split: prod.splits sum.splits if_splits)
    have "0 \<le> rv \<and> s = bs \<and> length s \<le> 18446744073709551615"
      by (rule fd_read_data [OF x(2)]) (use dev in auto)
    then show ?thesis
      using dev x by (auto simp: ip_yields_def)
  next
    case False
    then show ?thesis
      using dev by (cases "rv < 0") auto
  qed
qed

lemma tun_env_carrier: "device_spec K T \<Longrightarrow> carrier_spec nd (tun_env nd K) T"
  unfolding carrier_spec_def using tun_send_packet [of K T nd] tun_receive_packet [of K T nd] by auto

text \<open>Losses do not matter: what is dropped after reading was handed over, what is dropped before writing was not taken.\<close>

lemma lossy_random_still:
  assumes "\<forall>k. kt_still T k (snd (random k))" "lossy_random random cfg uplink k = (rnd, k')"
  shows "kt_still T k k'"
  using assms(1) [rule_format, of k] assms(2) by (cases "random k") (auto simp: lossy_random_def kt_still_def split: if_splits)

lemma lossy_env_carrier:
  assumes "carrier_spec nd E T" "\<forall>k. kt_still T k (snd (random k))"
  shows "carrier_spec nd (lossy_env random E) T"
  unfolding carrier_spec_def
proof (intro conjI [OF allI allI] allI impI)
  fix seg a k a' k' r
  assume send: "se_send (lossy_env random E) seg a k = (a', k', r)"
  obtain rnd k1 where rnd: "lossy_random random (se_config E a) True k = (rnd, k1)"
    by fastforce
  note still = lossy_random_still [OF assms(2) rnd]
  show "kt_inp T k' = kt_inp T k \<and> kt_out T k' = kt_out T k \<and> kt_handed T k' = kt_handed T k \<and>
      (kt_taken T k' = kt_taken T k \<or>
       r = None \<and> (\<exists>packet. kt_taken T k' = kt_taken T k @ [packet] \<and> ip_carries nd seg packet))"
  proof (cases "should_drop (se_config E a) True rnd")
    case True
    then show ?thesis
      using send rnd still by (auto simp: lossy_env_def kt_still_def)
  next
    case False
    then have "se_send E seg a k1 = (a', k', r)"
      using send rnd by (simp add: lossy_env_def)
    from assms(1) [unfolded carrier_spec_def, THEN conjunct1, rule_format, OF this] show ?thesis
      using still by (simp add: kt_still_def)
  qed
next
  fix a k a' k' r
  assume receive: "se_receive (lossy_env random E) a k = (a', k', r)"
  obtain a1 k1 ret where x: "se_receive E a k = (a1, k1, ret)"
    by (cases "se_receive E a k")
  have "kt_still T k1 k' \<and> (\<forall>seg. r = Inr (Some seg) \<longrightarrow> ret = Inr (Some seg))"
  proof (cases ret)
    case (Inl e)
    then show ?thesis
      using receive x by (auto simp: lossy_env_def lossy_read_def kt_still_def)
  next
    case (Inr seg)
    obtain rnd k2 where rnd: "lossy_random random (se_config E a1) False k1 = (rnd, k2)"
      by fastforce
    show ?thesis
      using receive x Inr rnd lossy_random_still [OF assms(2) rnd] by (auto simp: lossy_env_def lossy_read_def split: if_splits)
  qed
  then show "kt_inp T k' = kt_inp T k \<and> kt_out T k' = kt_out T k \<and> kt_taken T k' = kt_taken T k \<and>
      (\<exists>more. kt_handed T k' = kt_handed T k @ more \<and>
        (\<forall>seg. r = Inr (Some seg) \<longrightarrow> (\<exists>packet \<in> set more. ip_yields nd packet seg)))"
    using assms(1) [unfolded carrier_spec_def, THEN conjunct2, rule_format, OF x] by (auto simp: kt_still_def)
qed

lemma tun_surroundings_spec:
  assumes "kernel_spec nd K T"
  shows "owner_spec (tun_surroundings nd lossy K) T" "carrier_spec nd (tun_surroundings nd lossy K) T"
proof -
  have "owner_spec (lossy_env random E) T = owner_spec E T" for random and E :: "(tun_adapter, 'a) so_env"
    by (simp add: owner_spec_def lossy_env_def)
  then show "owner_spec (tun_surroundings nd lossy K) T"
    using assms by (simp add: kernel_spec_def tun_surroundings_def)
  have "carrier_spec nd (tun_env nd K) T" "\<forall>k. kt_still T k (snd (kc_random K k))"
    using assms tun_env_carrier by (auto simp: kernel_spec_def device_spec_def)
  then show "carrier_spec nd (tun_surroundings nd lossy K) T"
    using lossy_env_carrier by (auto simp: tun_surroundings_def)
qed

text \<open>What the kernel's calls keep the surroundings keep.\<close>

lemma kernel_keepsD:
  assumes "kernel_keeps K q" "q k"
  shows "q (snd (kc_read K fd n k))" "q (snd (kc_writev K fd k iov))" "q (snd (kc_shutdown K fd how k))"
    "q (snd (kc_device_read K fd n k))" "q (snd (kc_device_writev K fd k iov))" "q (snd (kc_random K k))"
  using assms by (simp_all add: kernel_keeps_def)

lemma tun_surroundings_keep:
  assumes "kernel_spec nd K T" "kernel_keeps K q"
  shows "se_keeps (tun_surroundings nd lossy K) q"
proof -
  have dev: "device_spec K T"
    using assms(1) by (simp add: kernel_spec_def)
  note keep = kernel_keepsD [OF assms(2)]
  have sent: "q k \<Longrightarrow> q (fst (snd (tu_write nd (kc_device_writev K fd) seg t k)))" for fd seg t k
    using keep(5) fd_write_device(1) [OF dev]
    by (auto simp: tu_write_def split_beta prod_eq_iff split: sum.splits)
  have tun: "se_keeps (tun_env nd K) q"
    using keep sent by (auto simp: se_keeps_def tun_env_def split_beta)
  have random: "q k \<Longrightarrow> q (snd (lossy_random (kc_random K) cfg uplink k))" for cfg uplink k
    using keep(6) by (simp add: lossy_random_def)
  have "se_keeps (lossy_env (kc_random K) (tun_env nd K)) q"
    using tun random unfolding se_keeps_def lossy_env_def
    by (auto simp: split_beta lossy_read_def split: sum.splits)
  then show ?thesis
    using tun by (simp add: tun_surroundings_def)
qed

section \<open>Notes\<close>

text \<open>
  To say what a connection has sent and received, the kernel is given a second part that notes
  the segments; nothing the socket does depends on it.
\<close>

type_synonym page = "tcp_segment list \<times> tcp_segment list"

definition note_sent :: "tcp_segment \<Rightarrow> exn option \<Rightarrow> page \<Rightarrow> page" where
  "note_sent seg r n = (if r = None then (fst n @ [seg], snd n) else n)"

definition note_received :: "exn + tcp_segment option \<Rightarrow> page \<Rightarrow> page" where
  "note_received r n = (fst n, snd n @ (case r of Inr (Some seg) \<Rightarrow> [seg] | _ \<Rightarrow> []))"

definition noted :: "((page \<Rightarrow> page) \<Rightarrow> 'g \<Rightarrow> 'g) \<Rightarrow> ('a, 'k) so_env \<Rightarrow> ('a, 'k \<times> 'g) so_env" where
  "noted upd E = \<lparr>se_netdb = se_netdb E, se_fd = se_fd E, se_config = se_config E,
     se_set_config = se_set_config E, se_set_listening = se_set_listening E,
     se_receive = (\<lambda>a (k, g). let (a, k, r) = se_receive E a k in (a, (k, upd (note_received r) g), r)),
     se_send = (\<lambda>seg a (k, g). let (a, k, r) = se_send E seg a k in (a, (k, upd (note_sent seg r) g), r)),
     se_tick = (\<lambda>ms a (k, g). let (a, k, r) = se_tick E ms a k in (a, (k, g), r)),
     se_read = (\<lambda>fd n (k, g). let (d, k) = se_read E fd n k in (d, (k, g))),
     se_writev = (\<lambda>fd (k, g) iov. let (r, k) = se_writev E fd k iov in (r, (k, g))),
     se_shutdown = (\<lambda>fd how (k, g). let (r, k) = se_shutdown E fd how k in (r, (k, g)))\<rparr>"

definition noted_histories :: "('g \<Rightarrow> page) \<Rightarrow> 'k tallies \<Rightarrow> ('k \<times> 'g) histories" where
  "noted_histories view T = \<lparr>hi_inp = (\<lambda>(k, g). kt_inp T k), hi_out = (\<lambda>(k, g). kt_out T k),
     hi_tx = (\<lambda>(k, g). fst (view g)), hi_rx = (\<lambda>(k, g). snd (view g))\<rparr>"

definition noted_packets :: "'k tallies \<Rightarrow> ('k \<times> 'g) packets" where
  "noted_packets T = \<lparr>pk_out = (\<lambda>(k, g). kt_taken T k), pk_in = (\<lambda>(k, g). kt_handed T k)\<rparr>"

lemma noted_simps [simp]:
  "hi_inp (noted_histories view T) (k, g) = kt_inp T k" "hi_out (noted_histories view T) (k, g) = kt_out T k"
  "hi_tx (noted_histories view T) (k, g) = fst (view g)" "hi_rx (noted_histories view T) (k, g) = snd (view g)"
  "pk_out (noted_packets T) (k, g) = kt_taken T k" "pk_in (noted_packets T) (k, g) = kt_handed T k"
  by (simp_all add: noted_histories_def noted_packets_def)

text \<open>Every packet taken carries a segment sent, every segment received is of a packet handed over.\<close>

definition notes_right :: "netdb \<Rightarrow> ('g \<Rightarrow> page) \<Rightarrow> 'k tallies \<Rightarrow> 'k \<times> 'g \<Rightarrow> bool" where
  "notes_right nd view T = (\<lambda>(k, g).
     (\<forall>packet \<in> set (kt_taken T k). \<exists>seg \<in> set (fst (view g)). ip_carries nd seg packet) \<and>
     (\<forall>seg \<in> set (snd (view g)). \<exists>packet \<in> set (kt_handed T k). ip_yields nd packet seg))"

lemma notes_rightD:
  assumes "notes_right nd view T (k, g)"
  shows "packet \<in> set (kt_taken T k) \<Longrightarrow> \<exists>seg \<in> set (fst (view g)). ip_carries nd seg packet"
    and "seg \<in> set (snd (view g)) \<Longrightarrow> \<exists>packet \<in> set (kt_handed T k). ip_yields nd packet seg"
  using assms by (simp_all add: notes_right_def)

text \<open>Two parties write in two books: \<open>upd\<close> writes in the one that \<open>view\<close> shows, and not in the other.\<close>

locale notebook =
  fixes view :: "'g \<Rightarrow> page" and upd :: "(page \<Rightarrow> page) \<Rightarrow> 'g \<Rightarrow> 'g" and other :: "'g \<Rightarrow> page"
  assumes view_upd: "view (upd f g) = f (view g)"
    and other_upd: "other (upd f g) = other g"
begin

lemma noted_spec:
  assumes "owner_spec E T" "carrier_spec nd E T"
  shows "se_spec (noted upd E) (noted_histories view T)"
proof -
  note own = assms(1) [unfolded owner_spec_def] and car = assms(2) [unfolded carrier_spec_def]
  let ?E = "noted upd E" and ?H = "noted_histories view T"
  have "read_spec (se_read ?E fd) ?H" for fd
    using own [THEN conjunct1] by (auto simp: read_spec_def noted_def noted_histories_def split: prod.splits)
  moreover have "writev_spec (se_writev ?E fd) (hi_out ?H)" for fd
    using own [THEN conjunct2, THEN conjunct1, rule_format, of fd]
    by (auto simp: writev_spec_def noted_def noted_histories_def split_beta Let_def)
  moreover have "let k' = snd (se_writev ?E fd k iov)
      in hi_inp ?H k' = hi_inp ?H k \<and> hi_tx ?H k' = hi_tx ?H k \<and> hi_rx ?H k' = hi_rx ?H k" for fd k iov
    using own [THEN conjunct2, THEN conjunct2, THEN conjunct1, rule_format, of fd "fst k" iov]
    by (simp add: noted_def noted_histories_def split_beta Let_def)
  moreover have "let (a', k', r) = se_send ?E seg a k
      in hi_inp ?H k' = hi_inp ?H k \<and> hi_out ?H k' = hi_out ?H k \<and> hi_rx ?H k' = hi_rx ?H k \<and>
        (r = None \<longrightarrow> hi_tx ?H k' = hi_tx ?H k @ [seg])" for seg a k
    using car [THEN conjunct1] by (cases k) (auto simp: noted_def noted_histories_def view_upd note_sent_def split: prod.splits)
  moreover have "let (a', k', r) = se_receive ?E a k
      in hi_inp ?H k' = hi_inp ?H k \<and> hi_out ?H k' = hi_out ?H k \<and> hi_tx ?H k' = hi_tx ?H k \<and>
        hi_rx ?H k' = hi_rx ?H k @ (case r of Inr (Some seg) \<Rightarrow> [seg] | _ \<Rightarrow> [])" for a k
    using car [THEN conjunct2]
    by (cases k) (auto simp: noted_def noted_histories_def view_upd note_received_def split: prod.splits)
  moreover have "hi_quiet ?H k (fst (snd (se_tick ?E ms a k)))" "hi_quiet ?H k (snd (se_shutdown ?E fd how k))" for ms a k fd how
    using owner_packets(5,6) [OF assms(1)] by (simp_all add: noted_def noted_histories_def hi_quiet_def kt_still_def split_beta)
  ultimately show ?thesis
    unfolding se_spec_def by blast
qed

lemma noted_right:
  assumes "owner_spec E T" "carrier_spec nd E T"
  shows "se_keeps (noted upd E) (notes_right nd view T)"
proof -
  note car = assms(2) [unfolded carrier_spec_def]
  have same: "kt_taken T k' = kt_taken T k \<Longrightarrow> kt_handed T k' = kt_handed T k \<Longrightarrow> notes_right nd view T (k, g) \<Longrightarrow>
      notes_right nd view T (k', g)" for k k' g
    by (simp add: notes_right_def)
  have "notes_right nd view T (fst (snd (se_send (noted upd E) seg a (k, g))))" if "notes_right nd view T (k, g)" for seg a k g
  proof -
    obtain a' k' r where s: "se_send E seg a k = (a', k', r)"
      by (cases "se_send E seg a k")
    from car [THEN conjunct1, rule_format, OF s] that show ?thesis
      by (auto simp: noted_def s notes_right_def view_upd note_sent_def)
  qed
  moreover have "notes_right nd view T (fst (snd (se_receive (noted upd E) a (k, g))))" if "notes_right nd view T (k, g)" for a k g
  proof -
    obtain a' k' r where s: "se_receive E a k = (a', k', r)"
      by (cases "se_receive E a k")
    from car [THEN conjunct2, rule_format, OF s] that show ?thesis
      by (auto simp: noted_def s notes_right_def view_upd note_received_def bex_Un split: sum.splits option.splits)
  qed
  ultimately show ?thesis
    using owner_packets [OF assms(1)] same unfolding se_keeps_def
    by (auto simp: noted_def split_beta kt_still_def)
qed

lemma noted_keeps:
  assumes "se_keeps E (kt_still T k)"
  shows "se_keeps (noted upd E) (\<lambda>(k', g'). kt_still T k k' \<and> other g' = n)"
  using assms unfolding se_keeps_def noted_def by (auto simp: split_beta other_upd)

end

definition book :: "bool \<Rightarrow> page \<times> page \<Rightarrow> page" where
  "book left = (if left then fst else snd)"

definition book_upd :: "bool \<Rightarrow> (page \<Rightarrow> page) \<Rightarrow> page \<times> page \<Rightarrow> page \<times> page" where
  "book_upd left = (if left then apfst else apsnd)"

interpretation books: notebook "book left" "book_upd left" "book (\<not> left)"
  by unfold_locales (simp_all add: book_def book_upd_def)

section \<open>Two parties over TUN devices\<close>

definition tun_party :: "netdb \<Rightarrow> 'k kernel_calls \<Rightarrow> 'k tallies \<Rightarrow> bool \<Rightarrow> (tun_adapter, 'k \<times> page \<times> page) party \<Rightarrow> bool" where
  "tun_party nd K T left p \<longleftrightarrow> (\<exists>lossy. pt_env p = noted (book_upd left) (tun_surroundings nd lossy K)) \<and>
     pt_hist p = noted_histories (book left) T \<and> pt_packets p = noted_packets T"

text \<open>The two kernels keep their promises and leave the other party's tallies alone.\<close>

definition tun_kernels :: "netdb \<Rightarrow> 'k kernel_calls \<Rightarrow> 'k tallies \<Rightarrow> 'k kernel_calls \<Rightarrow> 'k tallies \<Rightarrow> bool" where
  "tun_kernels nd K T K' T' \<longleftrightarrow> kernel_spec nd K T \<and> kernel_spec nd K' T' \<and>
     (\<forall>k. kernel_keeps K (kt_still T' k)) \<and> (\<forall>k. kernel_keeps K' (kt_still T k))"

text \<open>The network hands over only packets that the other device has taken.\<close>

definition packets_honest :: "('a, 'k) party \<Rightarrow> ('a, 'k) party \<Rightarrow> bool" where
  "packets_honest p q \<longleftrightarrow> set (pk_in (pt_packets p) (pt_kernel p)) \<subseteq> set (pk_out (pt_packets q) (pt_kernel q))"

lemma noted_still:
  assumes "pt_hist q = noted_histories (book left) T" "pt_packets q = noted_packets T"
  shows "pt_still q (k, g) (k', g') \<longleftrightarrow> kt_still T k k' \<and> book left g' = book left g"
  using assms by (auto simp: pt_still_def hi_quiet_def noted_histories_def noted_packets_def kt_still_def prod_eq_iff)

lemma tun_party_keeps:
  assumes "tun_kernels nd K T K' T'" "tun_party nd K T left p" "tun_party nd K' T' (\<not> left) q"
  shows "party_wired p q" "se_keeps (pt_env p) (notes_right nd (book left) T)"
proof -
  obtain lossy where p: "pt_env p = noted (book_upd left) (tun_surroundings nd lossy K)" "pt_hist p = noted_histories (book left) T"
    using assms(2) by (auto simp: tun_party_def)
  have q: "pt_hist q = noted_histories (book (\<not> left)) T'" "pt_packets q = noted_packets T'"
    using assms(3) by (simp_all add: tun_party_def)
  have K: "kernel_spec nd K T" "\<And>k. kernel_keeps K (kt_still T' k)"
    using assms(1) by (auto simp: tun_kernels_def)
  note spec = tun_surroundings_spec [OF K(1)]
  have "se_keeps (pt_env p) (pt_still q (k, g))" for k g
  proof -
    have "pt_still q (k, g) = (\<lambda>(k', g'). kt_still T' k k' \<and> book (\<not> left) g' = book (\<not> left) g)"
      using noted_still [OF q] by (auto simp: fun_eq_iff)
    then show ?thesis
      using books.noted_keeps [OF tun_surroundings_keep [OF K]] p(1) by simp
  qed
  then show "party_wired p q"
    using books.noted_spec [OF spec] p by (auto simp: party_wired_def)
  show "se_keeps (pt_env p) (notes_right nd (book left) T)"
    using books.noted_right [OF spec] p(1) by simp
qed

lemma notes_right_still:
  assumes "pt_hist q = noted_histories (book left) T" "pt_packets q = noted_packets T"
    and "notes_right nd (book left) T k" "pt_still q k k'"
  shows "notes_right nd (book left) T k'"
  using assms(3,4) noted_still [OF assms(1,2), of "fst k" "snd k" "fst k'" "snd k'"]
  by (auto simp: notes_right_def kt_still_def split_beta)

text \<open>Every segment of a party is plain, whatever the network does.\<close>

definition both_plain :: "endpoint \<Rightarrow> endpoint \<Rightarrow> bool" where
  "both_plain x y \<longleftrightarrow> ep_all seg_plain (\<lambda>_. seg_plain) x \<and> ep_all seg_plain (\<lambda>_. seg_plain) y"

lemma sockets_run_plain:
  assumes "sockets_run honest p q" "party_wired p q" "party_wired q p"
  shows "sockets_inv both_plain p q"
proof (rule sockets_run_inv [where B = "\<lambda>y x rx. both_plain x y", OF assms])
  show "ep_closed (\<lambda>x rx. both_plain x y)" for y
    using plain.step_all by (auto simp: ep_closed_def both_plain_def)
qed (auto simp: both_plain_def plain.init_all)

text \<open>Honest about packets is honest about segments.\<close>

lemma packets_segments:
  assumes "packets_honest p q" "pt_kernel p = pt_kernel q"
    and "tun_party nd K T left p" "tun_party nd K' T' (\<not> left) q"
    and "notes_right nd (book left) T (pt_kernel p)" "notes_right nd (book (\<not> left)) T' (pt_kernel p)"
    and "\<forall>seg \<in> set (hi_tx (pt_hist q) (pt_kernel q)). seg_plain seg"
  shows "network_honest p q"
proof -
  obtain k g where p: "pt_kernel p = (k, g)"
    by (cases "pt_kernel p")
  then have q: "pt_kernel q = (k, g)"
    using assms(2) by simp
  have views: "pt_hist p = noted_histories (book left) T" "pt_packets p = noted_packets T"
    "pt_hist q = noted_histories (book (\<not> left)) T'" "pt_packets q = noted_packets T'"
    using assms(3,4) by (simp_all add: tun_party_def)
  have "\<exists>seg \<in> set (fst (book (\<not> left) g)). same_segment seg seg'"
    if seg': "seg' \<in> set (snd (book left g))" for seg'
  proof -
    obtain packet where packet: "packet \<in> set (kt_handed T k)" "ip_yields nd packet seg'"
      using notes_rightD(2) [OF assms(5) [unfolded p] seg'] by blast
    then have "packet \<in> set (kt_taken T' k)"
      using assms(1) by (auto simp: packets_honest_def p q views)
    then obtain seg where "seg \<in> set (fst (book (\<not> left) g))" "ip_carries nd seg packet"
      using notes_rightD(1) [OF assms(6) [unfolded p]] by blast
    then show ?thesis
      using assms(7) carried_same [OF _ _ packet(2)] by (auto simp: q views)
  qed
  then show ?thesis
    by (simp add: network_honest_def p q views)
qed

lemma tun_kernels_swap: "tun_kernels nd K T K' T' \<Longrightarrow> tun_kernels nd K' T' K T"
  by (simp add: tun_kernels_def)

lemma tun_party_wired:
  assumes "tun_kernels nd K T K' T'" "tun_party nd K T left p" "tun_party nd K' T' (\<not> left) q"
  shows "party_wired p q" "party_wired q p"
  using tun_party_keeps(1) [OF assms] tun_party_keeps(1) [OF tun_kernels_swap [OF assms(1)] assms(3)] assms(2) by simp_all

lemma tun_party_at:
  "party_acts p p' \<Longrightarrow> tun_party nd K T left p' = tun_party nd K T left p"
  "tun_party nd K T left (pt_sees k p) = tun_party nd K T left p"
  by (simp_all add: tun_party_def party_acts_frame)

text \<open>What one party does keeps both books right.\<close>

lemma tun_party_acts:
  assumes "party_acts p p'" "tun_kernels nd K T K' T'" "tun_party nd K T left p" "tun_party nd K' T' (\<not> left) q"
    and "pt_is p x" "notes_right nd (book left) T (pt_kernel p)" "notes_right nd (book (\<not> left)) T' (pt_kernel p)"
  shows "notes_right nd (book left) T (pt_kernel p') \<and> notes_right nd (book (\<not> left)) T' (pt_kernel p')"
proof -
  note keeps = tun_party_keeps [OF assms(2-4)]
  have q: "pt_hist q = noted_histories (book (\<not> left)) T'" "pt_packets q = noted_packets T'"
    using assms(4) by (simp_all add: tun_party_def)
  have spec: "se_spec (pt_env p) (pt_hist p)" "\<And>k. se_keeps (pt_env p) (pt_still q k)"
    using keeps(1) unfolding party_wired_def by blast+
  have closed: "ep_closed (\<lambda>_ _. True)"
    by (simp add: ep_closed_def)
  note act = party_acts_inv [OF assms(1) spec(1) assms(5) closed TrueI]
  have "pt_still q (pt_kernel p) (pt_kernel p')"
    using act [OF spec(2), of "pt_kernel p"] by (simp add: pt_still_def hi_quiet_def)
  then show ?thesis
    using act [OF keeps(2) assms(6)] notes_right_still [OF q assms(7)] by simp
qed

lemma tun_run_inv:
  assumes "sockets_run packets_honest p q"
    and "tun_kernels nd K T K' T'" "tun_party nd K T left p" "tun_party nd K' T' (\<not> left) q"
  shows "sockets_run network_honest p q \<and>
     notes_right nd (book left) T (pt_kernel p) \<and> notes_right nd (book (\<not> left)) T' (pt_kernel p)"
  using assms
proof (induction arbitrary: K T K' T' left rule: sockets_run.induct)
  case (sockets_start p q)
  then have "sockets_run network_honest p q"
    by (intro sockets_run.sockets_start) simp_all
  moreover have "notes_right nd (book left) T (pt_kernel p)" "notes_right nd (book (\<not> left)) T' (pt_kernel p)"
    using sockets_start by (auto simp: tun_party_def pt_empty_def hi_empty_def noted_histories_def noted_packets_def
        notes_right_def split_beta)
  ultimately show ?case
    by simp
next
  case (sockets_swap p q)
  have "sockets_run network_honest p q \<and> notes_right nd (book (\<not> left)) T' (pt_kernel p) \<and>
      notes_right nd (book left) T (pt_kernel p)"
    using sockets_swap.IH [OF tun_kernels_swap [OF sockets_swap.prems(1)], of "\<not> left"] sockets_swap.prems by simp
  then show ?case
    using sockets_run.sockets_swap sockets_run_kernel [OF sockets_swap.hyps] by auto
next
  case (sockets_act p q p' q')
  have party: "tun_party nd K T left p" "tun_party nd K' T' (\<not> left) q" "tun_party nd K T left p'" "tun_party nd K' T' (\<not> left) q'"
    using sockets_act.prems sockets_act.hyps(3) tun_party_at(1) [OF sockets_act.hyps(2)] by (simp_all add: tun_party_at(2))
  note IH = sockets_act.IH [OF sockets_act.prems(1) party(1,2)]
  note wired = tun_party_wired [OF sockets_act.prems(1) party(1,2)] tun_party_wired [OF sockets_act.prems(1) party(3,4)]
  obtain x where x: "pt_is p x"
    using sockets_run_plain [OF sockets_act.hyps(1) wired(1,2)] by (auto simp: sockets_inv_def)
  note right = tun_party_acts [OF sockets_act.hyps(2) sockets_act.prems(1) party(1,2) x]
  obtain y where y: "pt_is q' y" "ep_all seg_plain (\<lambda>_. seg_plain) y"
    using sockets_run_plain [OF sockets_run.sockets_act [OF sockets_act.hyps] wired(3,4)]
    by (auto simp: sockets_inv_def both_plain_def)
  then have "\<forall>seg \<in> set (hi_tx (pt_hist q') (pt_kernel q')). seg_plain seg"
    by (simp add: pt_is_def ep_all_def)
  moreover have "pt_kernel p' = pt_kernel q'"
    using sockets_act.hyps(3) by simp
  ultimately have "network_honest p' q'"
    using packets_segments [OF sockets_act.hyps(4) _ party(3,4)] IH right by blast
  then show ?case
    using sockets_run.sockets_act [OF _ sockets_act.hyps(2,3)] IH right by blast
next
  case (sockets_kernel p q k)
  have party: "tun_party nd K T left p" "tun_party nd K' T' (\<not> left) q"
    using sockets_kernel.prems by (simp_all add: tun_party_at)
  note IH = sockets_kernel.IH [OF sockets_kernel.prems(1) party]
  have "notes_right nd (book left) T k" "notes_right nd (book (\<not> left)) T' k"
    using notes_right_still [OF _ _ _ sockets_kernel.hyps(2)] notes_right_still [OF _ _ _ sockets_kernel.hyps(3)] IH party
    by (auto simp: tun_party_def)
  then show ?case
    using sockets_run.sockets_kernel [OF conjunct1 [OF IH] sockets_kernel.hyps(2,3)] by simp
qed

section \<open>Properties\<close>

text \<open>
  C3: Owner to owner over IP. Two sockets with the code's own adapters over TUN devices, which may
  drop segments at random, connect or listen and run their loops, interleaved in any way. The
  kernel keeps the promises of read, writev and the device, and the network may lose, delay, repeat
  and reorder packets but hands over only packets that were sent. As long as each owner has
  written less than 2^31 - 2 bytes, what one socket has handed to its owner is a prefix of what the
  other has taken from its own; when its connection reports the end of the stream it is all of
  it; when the other connection is over without an error, all of it has been handed over or
  waits in this one; and no packet that the other device has taken makes this connection throw.
\<close>

theorem tun_sockets_end_to_end:
  assumes "sockets_run packets_honest p q" "tun_kernels nd K T K' T'"
    and "tun_party nd K T left p" "tun_party nd K' T' (\<not> left) q"
    and "length (pt_written p) + 2 < two31" "length (pt_written q) + 2 < two31"
  shows "(\<exists>rest. pt_written p = pt_got q @ rest) \<and>
    (\<forall>c. so_tcp (pt_socket q) = Some c \<longrightarrow>
      (bs_eof (tc_inbound_stream c) \<longrightarrow> pt_got q = pt_written p) \<and>
      (\<forall>d. so_tcp (pt_socket p) = Some d \<and> \<not> tc_active d \<and> \<not> bs_error (ts_stream (tc_sender d)) \<longrightarrow>
        pt_got q @ bs_buffer (tc_inbound_stream c) = pt_written p) \<and>
      (\<forall>packet \<in> set (pk_out (pt_packets p) (pt_kernel p)). \<forall>seg. ip_yields nd packet seg \<longrightarrow>
        (\<exists>c'. tc_segment_received c seg = Inr c')))"
proof -
  note run = tun_run_inv [OF assms(1-4)]
  note wired = tun_party_wired [OF assms(2-4)]
  note e2e = sockets_end_to_end [OF conjunct1 [OF run] wired assms(5,6)]
  obtain x where x: "pt_is p x" "ep_all seg_plain (\<lambda>_. seg_plain) x"
    using sockets_run_plain [OF assms(1) wired] by (auto simp: sockets_inv_def both_plain_def)
  obtain k g where k: "pt_kernel p = (k, g)"
    by (cases "pt_kernel p")
  have views: "pt_hist p = noted_histories (book left) T" "pt_packets p = noted_packets T"
    using assms(3) by (simp_all add: tun_party_def)
  have "\<exists>seg \<in> set (hi_tx (pt_hist p) (pt_kernel p)). same_segment seg seg'"
    if packet: "packet \<in> set (pk_out (pt_packets p) (pt_kernel p))" "ip_yields nd packet seg'" for packet seg'
  proof -
    obtain seg where seg: "seg \<in> set (hi_tx (pt_hist p) (pt_kernel p))" "ip_carries nd seg packet"
      using notes_rightD(1) [of nd "book left" T k g packet] run packet(1) by (auto simp: k views)
    moreover have "seg_plain seg"
      using x seg(1) by (simp add: pt_is_def ep_all_def)
    ultimately show ?thesis
      using carried_same packet(2) by blast
  qed
  then show ?thesis
    using e2e by blast
qed

section \<open>Witnesses\<close>

text \<open>
  A kernel of two devices that take every packet and hand nothing over; the owners neither write
  nor read. The state is the packets taken.
\<close>

definition kernel_example :: "bool \<Rightarrow> (bytes list \<times> bytes list) kernel_calls" where
  "kernel_example left = \<lparr>kc_read = (\<lambda>fd n k. (((-1, 11), []), k)), kc_writev = (\<lambda>fd k iov. ((-1, 11), k)),
     kc_shutdown = (\<lambda>fd how k. ((0, 0), k)), kc_device_read = (\<lambda>fd n k. (((-1, 11), []), k)),
     kc_device_writev = (\<lambda>fd k iov. let data = concat (map fst iov)
       in if length data < 2147483648 then ((int (length data), 0), (if left then apfst else apsnd) (\<lambda>ps. ps @ [data]) k)
          else ((-1, 90), k)),
     kc_random = (\<lambda>k. (0, k))\<rparr>"

definition tallies_example :: "bool \<Rightarrow> (bytes list \<times> bytes list) tallies" where
  "tallies_example left = \<lparr>kt_inp = (\<lambda>k. []), kt_out = (\<lambda>k. []), kt_taken = (if left then fst else snd), kt_handed = (\<lambda>k. [])\<rparr>"

lemma kernel_example_spec: "kernel_spec nd (kernel_example left) (tallies_example left)"
  by (auto simp: kernel_spec_def owner_spec_def device_spec_def kt_still_def writev_spec_def kernel_example_def
      tallies_example_def tun_env_def Let_def split: if_splits)

lemma kernels_example: "tun_kernels nd (kernel_example True) (tallies_example True) (kernel_example False) (tallies_example False)"
proof -
  have "kernel_keeps (kernel_example left) (kt_still (tallies_example (\<not> left)) k)" for left k
    by (auto simp: kernel_keeps_def kt_still_def kernel_example_def tallies_example_def Let_def)
  from this [of True] this [of False] show ?thesis
    using kernel_example_spec by (simp add: tun_kernels_def)
qed

definition env_example :: "bool \<Rightarrow> (tun_adapter, (bytes list \<times> bytes list) \<times> page \<times> page) so_env" where
  "env_example left = noted (book_upd left) (tun_surroundings netdb_example False (kernel_example left))"

definition tun_example :: "bool \<Rightarrow> tun_adapter" where
  "tun_example left = \<lparr>tu_base = (if left then fa_example 1 2 False else fa_example 2 1 False), tu_fd = fd_example\<rparr>"

definition tun_party_example :: "bool \<Rightarrow> (tun_adapter, (bytes list \<times> bytes list) \<times> page \<times> page) party" where
  "tun_party_example left = \<lparr>pt_env = env_example left, pt_hist = noted_histories (book left) (tallies_example left),
     pt_packets = noted_packets (tallies_example left), pt_cfg = cfg_example, pt_random = 0, pt_rules = [],
     pt_socket = so_idle (tun_example left) (([], []), ([], []), ([], [])), pt_started = False\<rparr>"

lemma tun_party_example: "tun_party netdb_example (kernel_example left) (tallies_example left) left (tun_party_example left)"
  by (auto simp: tun_party_def tun_party_example_def env_example_def)

text \<open>The SYN goes out in a packet that the other host reads as the SYN.\<close>

lemma env_example_syn:
  "\<exists>packet a seg. takes_syn (env_example True) (fa_cfg (fa_example 1 2 False)) (tun_example True) (([], []), ([], []), ([], []))
      a (([packet], []), ([tc_syn (WrappingInt32 5)], []), ([], [])) \<and>
    ip_carries netdb_example (tc_syn (WrappingInt32 5)) packet \<and> ip_yields netdb_example packet seg"
proof -
  let ?syn = "tc_syn (WrappingInt32 5)" and ?w = "kc_device_writev (kernel_example True) (fd_num fd_example)"
  have plain: "seg_plain ?syn"
    by (simp add: seg_plain_def tc_syn_def tcp_header_default_def tcp_segment_default_def)
  obtain dg l dg' seg where x: "wrap_tcp_in_ip netdb_example ?syn (fa_example 1 2 False) = Inr dg"
    "ip_datagram_serialize dg = Inr l" "length (bl_concatenate l) \<le> 1040"
    "ip_datagram_parse ip_datagram_default (buffer_of (bl_concatenate l)) = (NoError, dg')"
    "unwrap_tcp_in_ip netdb_example dg' (fa_example 2 1 False) = (fa_example 2 1 False, Inr (Some seg))"
    using plain_crosses [OF netdb_example_numeric plain, of "fa_example 1 2 False" "(1, 80)" "(2, 80)" "fa_example 2 1 False"]
    by (auto simp: fa_example_def fa_between_def)
  obtain w k r where wr: "fd_write ?w True (bvl_of_bl l) fd_example ([], []) = (w, k, r)"
    by (cases "fd_write ?w True (bvl_of_bl l) fd_example ([], [])")
  have data: "concat (map fst (bvl_as_iovecs (bvl_of_bl l))) = bl_concatenate l"
    by (simp add: bvl_as_iovecs_def comp_def bvl_of_bl_def bl_concatenate_eq)
  have dev: "device_spec (kernel_example True) (tallies_example True)"
    using kernel_example_spec by (simp add: kernel_spec_def)
  have k: "k = ([bl_concatenate l], [])"
    using fd_write_device(1) [OF dev wr] x(3) by (simp add: kernel_example_def data Let_def)
  then obtain n where "r = Inr n"
    using fd_write_device(5) [OF dev wr] by (auto simp: tallies_example_def)
  then have "takes_syn (env_example True) (fa_cfg (fa_example 1 2 False)) (tun_example True) (([], []), ([], []), ([], []))
      ((tun_example True)\<lparr>tu_fd := w\<rparr>) (([bl_concatenate l], []), ([?syn], []), ([], []))"
    using netdb_example_numeric wr k x(1,2)
    by (auto simp: takes_syn_def env_example_def noted_def tun_surroundings_def tun_env_def tun_example_def tu_write_def
        fa_set_config_def book_upd_def note_sent_def fa_example_def address_to_string_def ip_port_numeric)
  moreover have "ip_carries netdb_example ?syn (bl_concatenate l)" "ip_yields netdb_example (bl_concatenate l) seg"
    using x unfolding ip_carries_def ip_yields_def by blast+
  ultimately show ?thesis
    by blast
qed

text \<open>The caller sends its SYN; then the callee listens.\<close>

abbreviation tun_nothing :: "(bytes list \<times> bytes list) \<times> page \<times> page" where
  "tun_nothing \<equiv> (([], []), ([], []), ([], []))"

abbreviation tun_syn :: "bytes \<Rightarrow> (bytes list \<times> bytes list) \<times> page \<times> page" where
  "tun_syn packet \<equiv> (([packet], []), ([tc_syn (WrappingInt32 5)], []), ([], []))"

definition tun_caller :: "tun_adapter \<Rightarrow> bytes \<Rightarrow> (tun_adapter, (bytes list \<times> bytes list) \<times> page \<times> page) party" where
  "tun_caller a packet = pt_at (tun_party_example True) (so_rules (env_example True)) (so_connected a (tun_syn packet))"

definition tun_callee :: "bytes \<Rightarrow> (tun_adapter, (bytes list \<times> bytes list) \<times> page \<times> page) party" where
  "tun_callee packet = pt_at (tun_party_example False) (so_rules (env_example False))
     ((so_idle (tun_example False) (tun_syn packet))\<lparr>so_tcp := Some (tc_construct cfg_example 0),
        so_adapter := se_set_listening (env_example False) True (se_set_config (env_example False) (fa_cfg (fa_example 2 1 False))
          (tun_example False))\<rparr>)"

lemma packets_honest_example [simp]: "packets_honest (pt_at (tun_party_example left) rules s) q"
  by (cases "so_kernel s") (simp add: packets_honest_def tun_party_example_def tallies_example_def)

lemma tun_example_run:
  assumes "takes_syn (env_example True) (fa_cfg (fa_example 1 2 False)) (tun_example True) tun_nothing a (tun_syn packet)"
  shows "sockets_run packets_honest (tun_callee packet) (tun_caller a packet)"
proof -
  let ?p = "tun_party_example True" and ?q = "tun_party_example False"
  let ?q' = "pt_sees (tun_syn packet) ?q"
  have "cfg_send_capacity cfg_example < two63" "cfg_recv_capacity cfg_example < two63"
    by (simp_all add: cfg_example_def tcp_config_default_def two63_def)
  then have "sockets_run packets_honest ?p ?q"
    by (intro sockets_start) (simp_all add: tun_party_example_def so_idle_def pt_empty_def hi_empty_def tallies_example_def book_def)
  moreover have "party_acts ?p (tun_caller a packet)"
    unfolding tun_caller_def
    by (rule party_connects [where c_ad = "fa_cfg (fa_example 1 2 False)" and base_time = 0 and inputs = "[input_writable]" and
          r = LoopDone]) (simp_all add: tun_party_example_def so_connect_sends [OF assms])
  moreover have "pt_kernel (tun_caller a packet) = tun_syn packet"
    by (simp add: tun_caller_def so_connected_def so_sent_def so_idle_def)
  ultimately have "sockets_run packets_honest (tun_caller a packet) ?q'"
    using sockets_act [of packets_honest ?p ?q "tun_caller a packet" ?q'] by (simp add: tun_caller_def)
  then have run: "sockets_run packets_honest ?q' (tun_caller a packet)"
    by (rule sockets_swap)
  have "so_listen_and_accept (env_example False) cfg_example 0 (fa_cfg (fa_example 2 1 False)) 0 [] [] (pt_socket ?q') =
      (so_rules (env_example False), pt_socket (tun_callee packet), StillWaiting)"
    by (subst so_listen_starts) (simp_all add: pt_sees_def tun_party_example_def tun_callee_def so_idle_def)
  then have "party_acts ?q' (pt_at ?q' (so_rules (env_example False)) (pt_socket (tun_callee packet)))"
    by (intro party_listens [where base_time = 0 and inputs = "[]" and r = StillWaiting])
      (simp_all add: tun_party_example_def pt_sees_def)
  moreover have "pt_at ?q' (so_rules (env_example False)) (pt_socket (tun_callee packet)) = tun_callee packet"
    by (simp add: tun_callee_def pt_at_def pt_sees_def)
  moreover have "tun_caller a packet = pt_sees (pt_kernel (tun_callee packet)) (tun_caller a packet)"
    by (simp add: tun_callee_def tun_caller_def pt_sees_def pt_at_def so_idle_def so_connected_def so_sent_def)
  moreover have "packets_honest (tun_callee packet) (tun_caller a packet)"
    by (simp add: tun_callee_def)
  ultimately show ?thesis
    using sockets_act [OF run] by metis
qed

theorem tun_sockets_end_to_end_witness:
  "\<exists>packet seg c'. ip_carries netdb_example (tc_syn (WrappingInt32 5)) packet \<and> ip_yields netdb_example packet seg \<and>
    tc_segment_received (tc_construct cfg_example 0) seg = Inr c'"
proof -
  obtain packet a seg where x: "takes_syn (env_example True) (fa_cfg (fa_example 1 2 False)) (tun_example True) tun_nothing
      a (tun_syn packet)" "ip_carries netdb_example (tc_syn (WrappingInt32 5)) packet" "ip_yields netdb_example packet seg"
    using env_example_syn by blast
  let ?p = "tun_caller a packet" and ?q = "tun_callee packet"
  have party: "tun_party netdb_example (kernel_example left) (tallies_example left) left (pt_at (tun_party_example left) rules s)"
    for left rules s
    using tun_party_example by (simp add: tun_party_def)
  have "tun_party netdb_example (kernel_example True) (tallies_example True) True ?p"
    "tun_party netdb_example (kernel_example False) (tallies_example False) (\<not> True) ?q"
    using party [of True] party [of False] by (simp_all add: tun_caller_def tun_callee_def)
  moreover have k: "pt_kernel ?p = tun_syn packet" "pt_kernel ?q = tun_syn packet"
    by (simp_all add: tun_caller_def tun_callee_def so_connected_def so_sent_def so_idle_def)
  moreover have "length (pt_written ?p) + 2 < two31" "length (pt_written ?q) + 2 < two31"
    by (simp_all add: pt_written_def k) (simp_all add: tun_caller_def tun_callee_def tun_party_example_def tallies_example_def two31_def)
  moreover have "packet \<in> set (pk_out (pt_packets ?p) (pt_kernel ?p))"
    by (simp add: k) (simp add: tun_caller_def tun_party_example_def tallies_example_def)
  moreover have "so_tcp (pt_socket ?q) = Some (tc_construct cfg_example 0)"
    by (simp add: tun_callee_def)
  ultimately have "\<exists>c'. tc_segment_received (tc_construct cfg_example 0) seg = Inr c'"
    using tun_sockets_end_to_end [OF sockets_swap [OF tun_example_run [OF x(1)]] kernels_example] x(3) by blast
  then show ?thesis
    using x(2,3) by blast
qed

end
