(* ===== verification/Stream_Copy.thy ===== *)
theory Stream_Copy
  imports Sponge_Socket
begin

text \<open>
  \<open>bidirectional_stream_copy\<close> (\<open>all-lab/apps/bidirectional_stream_copy.cc\<close>): the event loop of
  the applications, which copies standard input to a socket and the socket to standard output
  through two byte streams. The two halves of a direction are \<open>copy_fill\<close> and \<open>copy_drain\<close>;
  \<open>copy_inv\<close> is kept by every rule, so it is another instance of \<open>event_rules\<close>.
\<close>

section \<open>State and rules\<close>

record 'k copy_env =
  cy_read :: "int \<Rightarrow> nat \<Rightarrow> 'k \<Rightarrow> (sys_result \<times> bytes) \<times> 'k"
  cy_writev :: "int \<Rightarrow> 'k writev"
  cy_shutdown :: "int \<Rightarrow> int \<Rightarrow> 'k \<Rightarrow> sys_result \<times> 'k"
  cy_close :: "int \<Rightarrow> 'k \<Rightarrow> sys_result \<times> 'k"

record 'k copy_state =
  cp_input :: fd_wrapper
  cp_output :: fd_wrapper
  cp_socket :: fd_wrapper
  cp_outbound :: byte_stream
  cp_inbound :: byte_stream
  cp_outbound_shutdown :: bool
  cp_inbound_shutdown :: bool
  cp_kernel :: 'k

text \<open>From a descriptor into a stream, and from a stream to a descriptor.\<close>

definition copy_fill :: "'k copy_env \<Rightarrow> fd_wrapper \<Rightarrow> byte_stream \<Rightarrow> 'k \<Rightarrow> fd_wrapper \<times> byte_stream \<times> 'k \<times> exn option" where
  "copy_fill E w b k =
     (let limit = bs_remaining_capacity b;
          ((res, bs), k) = cy_read E (fd_num w) (min (1024 * 1024) limit) k;
          (w, r) = fd_read limit res bs w
      in case r of
           Inl e \<Rightarrow> (w, b, k, Some e)
         | Inr data \<Rightarrow>
             let b = fst (bs_write b data)
             in (w, if fd_eof w then bs_end_input b else b, k, None))"

definition copy_drain :: "'k copy_env \<Rightarrow> fd_wrapper \<Rightarrow> byte_stream \<Rightarrow> 'k \<Rightarrow> fd_wrapper \<times> byte_stream \<times> 'k \<times> exn option" where
  "copy_drain E w b k =
     (let bytes_to_write = min 65536 (bs_buffer_size b);
          (w, k, r) = fd_write (cy_writev E (fd_num w)) False (bvl_of_string (bs_peek_output b bytes_to_write)) w k
      in case r of
           Inl e \<Rightarrow> (w, b, k, Some e)
         | Inr bytes_written \<Rightarrow> (w, bs_pop_output b bytes_written, k, None))"

definition copy_from_input :: "'k copy_env \<Rightarrow> 'k copy_state \<Rightarrow> 'k copy_state \<times> exn option" where
  "copy_from_input E s =
     (let (w, b, k, r) = copy_fill E (cp_input s) (cp_outbound s) (cp_kernel s)
      in (s\<lparr>cp_input := w, cp_outbound := b, cp_kernel := k\<rparr>, r))"

definition copy_to_socket :: "'k copy_env \<Rightarrow> 'k copy_state \<Rightarrow> 'k copy_state \<times> exn option" where
  "copy_to_socket E s =
     (let (w, b, k, r) = copy_drain E (cp_socket s) (cp_outbound s) (cp_kernel s);
          s = s\<lparr>cp_socket := w, cp_outbound := b, cp_kernel := k\<rparr>
      in if r \<noteq> None \<or> \<not> bs_eof b then (s, r)
         else let (res, k) = cy_shutdown E (fd_num w) SHUT_WR k;
                  (w, r) = socket_shutdown SHUT_WR res w;
                  s = s\<lparr>cp_socket := w, cp_kernel := k\<rparr>
              in if r \<noteq> None then (s, r) else (s\<lparr>cp_outbound_shutdown := True\<rparr>, None))"

definition copy_from_socket :: "'k copy_env \<Rightarrow> 'k copy_state \<Rightarrow> 'k copy_state \<times> exn option" where
  "copy_from_socket E s =
     (let (w, b, k, r) = copy_fill E (cp_socket s) (cp_inbound s) (cp_kernel s)
      in (s\<lparr>cp_socket := w, cp_inbound := b, cp_kernel := k\<rparr>, r))"

definition copy_to_output :: "'k copy_env \<Rightarrow> 'k copy_state \<Rightarrow> 'k copy_state \<times> exn option" where
  "copy_to_output E s =
     (let (w, b, k, r) = copy_drain E (cp_output s) (cp_inbound s) (cp_kernel s);
          s = s\<lparr>cp_output := w, cp_inbound := b, cp_kernel := k\<rparr>
      in if r \<noteq> None \<or> \<not> bs_eof b then (s, r)
         else let (res, k) = cy_close E (fd_num w) k;
                  (w, r) = fd_close res w;
                  s = s\<lparr>cp_output := w, cp_kernel := k\<rparr>
              in if r \<noteq> None then (s, r) else (s\<lparr>cp_inbound_shutdown := True\<rparr>, None))"

definition copy_end_outbound :: "'k copy_state \<Rightarrow> 'k copy_state \<times> exn option" where
  "copy_end_outbound s = (s\<lparr>cp_outbound := bs_end_input (cp_outbound s)\<rparr>, None)"

definition copy_end_inbound :: "'k copy_state \<Rightarrow> 'k copy_state \<times> exn option" where
  "copy_end_inbound s = (s\<lparr>cp_inbound := bs_end_input (cp_inbound s)\<rparr>, None)"

definition copy_wants_input :: "'k copy_state \<Rightarrow> bool" where
  "copy_wants_input s \<longleftrightarrow> \<not> bs_error (cp_outbound s) \<and> 0 < bs_remaining_capacity (cp_outbound s) \<and> \<not> bs_error (cp_inbound s)"

definition copy_wants_socket_out :: "'k copy_state \<Rightarrow> bool" where
  "copy_wants_socket_out s \<longleftrightarrow> \<not> bs_buffer_empty (cp_outbound s) \<or> bs_eof (cp_outbound s) \<and> \<not> cp_outbound_shutdown s"

definition copy_wants_socket_in :: "'k copy_state \<Rightarrow> bool" where
  "copy_wants_socket_in s \<longleftrightarrow> \<not> bs_error (cp_inbound s) \<and> 0 < bs_remaining_capacity (cp_inbound s) \<and> \<not> bs_error (cp_outbound s)"

definition copy_wants_output :: "'k copy_state \<Rightarrow> bool" where
  "copy_wants_output s \<longleftrightarrow> \<not> bs_buffer_empty (cp_inbound s) \<or> bs_eof (cp_inbound s) \<and> \<not> cp_inbound_shutdown s"

definition copy_rules :: "'k copy_env \<Rightarrow> 'k copy_state el_rule list" where
  "copy_rules E =
     [\<lparr>ru_fd = cp_input, ru_direction = DirIn, ru_callback = copy_from_input E, ru_interest = copy_wants_input,
       ru_cancel = copy_end_outbound\<rparr>,
      \<lparr>ru_fd = cp_socket, ru_direction = DirOut, ru_callback = copy_to_socket E, ru_interest = copy_wants_socket_out,
       ru_cancel = copy_end_outbound\<rparr>,
      \<lparr>ru_fd = cp_socket, ru_direction = DirIn, ru_callback = copy_from_socket E, ru_interest = copy_wants_socket_in,
       ru_cancel = copy_end_inbound\<rparr>,
      \<lparr>ru_fd = cp_output, ru_direction = DirOut, ru_callback = copy_to_output E, ru_interest = copy_wants_output,
       ru_cancel = copy_end_inbound\<rparr>]"

text \<open>The start, and the loop over the answers of \<open>poll\<close>; the time-out is -1.\<close>

definition copy_start :: "fd_wrapper \<Rightarrow> fd_wrapper \<Rightarrow> fd_wrapper \<Rightarrow> 'k \<Rightarrow> 'k copy_state" where
  "copy_start input output socket k = \<lparr>cp_input = input, cp_output = output, cp_socket = socket,
     cp_outbound = bs_construct 1048576, cp_inbound = bs_construct 1048576,
     cp_outbound_shutdown = False, cp_inbound_shutdown = False, cp_kernel = k\<rparr>"

fun copy_loop :: "poll list \<Rightarrow> 'k copy_state el_rule list \<Rightarrow> 'k copy_state \<Rightarrow>
    'k copy_state el_rule list \<times> 'k copy_state \<times> loop_end" where
  "copy_loop [] rules s = (rules, s, StillWaiting)"
| "copy_loop (poll # polls) rules s =
     (case el_wait_next_event poll (-1) rules s of
        (rules, s, Inl e) \<Rightarrow> (rules, s, LoopThrew e)
      | (rules, s, Inr ret) \<Rightarrow> if ret = ElExit then (rules, s, LoopDone) else copy_loop polls rules s)"

text \<open>The three descriptors are made non-blocking first; \<open>STDIN_FILENO\<close> is 0, \<open>STDOUT_FILENO\<close> 1.\<close>

definition bidirectional_stream_copy :: "'k copy_env \<Rightarrow> (int \<Rightarrow> exn option) \<Rightarrow> poll list \<Rightarrow> fd_wrapper \<Rightarrow> 'k \<Rightarrow>
    exn + 'k copy_state el_rule list \<times> 'k copy_state \<times> loop_end" where
  "bidirectional_stream_copy E set_nonblocking polls socket k =
     (case fd_construct 0 of
        Inl e \<Rightarrow> Inl e
      | Inr input \<Rightarrow>
          (case fd_construct 1 of
             Inl e \<Rightarrow> Inl e
           | Inr output \<Rightarrow>
               (case List.find (\<lambda>fd. set_nonblocking fd \<noteq> None) [fd_num socket, 0, 1] of
                  Some fd \<Rightarrow> Inl (the (set_nonblocking fd))
                | None \<Rightarrow> Inr (copy_loop polls (copy_rules E) (copy_start input output socket k)))))"

section \<open>What the kernel promises\<close>

text \<open>
  \<open>inp fd k\<close> are the bytes read from a descriptor so far, \<open>out fd k\<close> those written to it;
  reading and writing extend their own descriptor's history, nothing else changes any.
\<close>

definition cy_spec :: "'k copy_env \<Rightarrow> (int \<Rightarrow> 'k \<Rightarrow> bytes) \<Rightarrow> (int \<Rightarrow> 'k \<Rightarrow> bytes) \<Rightarrow> bool" where
  "cy_spec E inp out \<longleftrightarrow>
     (\<forall>fd n k. let (((rv, errno), bs), k') = cy_read E fd n k
       in (rv < 0 \<longrightarrow> rv = -1 \<and> errno \<noteq> 0 \<and> inp fd k' = inp fd k) \<and>
          (0 \<le> rv \<longrightarrow> nat rv \<le> n \<and> length bs = nat rv \<and> inp fd k' = inp fd k @ bs)) \<and>
     (\<forall>fd n k fd'. (fd' \<noteq> fd \<longrightarrow> inp fd' (snd (cy_read E fd n k)) = inp fd' k) \<and> out fd' (snd (cy_read E fd n k)) = out fd' k) \<and>
     (\<forall>fd. writev_spec (cy_writev E fd) (out fd)) \<and>
     (\<forall>fd k iov fd'. (fd' \<noteq> fd \<longrightarrow> out fd' (snd (cy_writev E fd k iov)) = out fd' k) \<and>
       inp fd' (snd (cy_writev E fd k iov)) = inp fd' k) \<and>
     (\<forall>fd how k fd'. inp fd' (snd (cy_shutdown E fd how k)) = inp fd' k \<and> out fd' (snd (cy_shutdown E fd how k)) = out fd' k) \<and>
     (\<forall>fd k fd'. inp fd' (snd (cy_close E fd k)) = inp fd' k \<and> out fd' (snd (cy_close E fd k)) = out fd' k)"

text \<open>A stream between what was read and what was written.\<close>

definition flow :: "bytes \<Rightarrow> byte_stream \<Rightarrow> bytes \<Rightarrow> bool" where
  "flow rd b wr \<longleftrightarrow> \<not> bs_error b \<and> length (bs_buffer b) \<le> bs_capacity b \<and> bs_capacity b = 1048576 \<and>
     prefix (wr @ bs_buffer b) rd \<and> (\<not> bs_input_ended b \<longrightarrow> rd = wr @ bs_buffer b)"

definition copy_inv :: "'k copy_env \<Rightarrow> (int \<Rightarrow> 'k \<Rightarrow> bytes) \<Rightarrow> (int \<Rightarrow> 'k \<Rightarrow> bytes) \<Rightarrow> int \<Rightarrow> 'k copy_state \<Rightarrow> bool" where
  "copy_inv E inp out sock s \<longleftrightarrow> cy_spec E inp out \<and> fd_num (cp_input s) = 0 \<and> fd_num (cp_output s) = 1 \<and>
     fd_num (cp_socket s) = sock \<and> sock \<noteq> 0 \<and> sock \<noteq> 1 \<and>
     flow (inp 0 (cp_kernel s)) (cp_outbound s) (out sock (cp_kernel s)) \<and>
     flow (inp sock (cp_kernel s)) (cp_inbound s) (out 1 (cp_kernel s))"

lemma flow_end: "flow rd b wr \<Longrightarrow> flow rd (bs_end_input b) wr"
  by (auto simp: flow_def bs_end_input_def)

lemma flow_write:
  assumes "flow rd b wr" "length data \<le> bs_remaining_capacity b"
  shows "flow (rd @ data) (fst (bs_write b data)) wr"
proof (cases "bs_input_ended b")
  case True
  then show ?thesis
    using assms(1) by (auto simp: flow_def bs_write_def)
next
  case False
  have "length data \<le> bs_capacity b - length (bs_buffer b)"
    using assms by (simp add: bs_remaining_capacity_def flow_def sub64_small two64_def)
  then show ?thesis
    using assms(1) False by (auto simp: flow_def bs_write_def Let_def sub64_small two64_def)
qed

lemma flow_pop:
  assumes "flow rd b wr" "n \<le> length (bs_peek_output b (min 65536 (bs_buffer_size b)))"
  shows "flow rd (bs_pop_output b n) (wr @ take n (bs_peek_output b (min 65536 (bs_buffer_size b))))"
proof -
  have "take n (bs_peek_output b (min 65536 (bs_buffer_size b))) = take n (bs_buffer b)"
    using assms by (auto simp: flow_def bs_peek_output_def bs_buffer_size_def Let_def min_def split: if_splits)
  moreover have "bs_buffer (bs_pop_output b n) = drop n (bs_buffer b)"
    using assms(1) by (auto simp: flow_def bs_pop_output_def bs_eof_def bs_buffer_empty_def Let_def min_def)
  moreover have "bs_error (bs_pop_output b n) = bs_error b" "bs_capacity (bs_pop_output b n) = bs_capacity b"
    "bs_input_ended (bs_pop_output b n) = bs_input_ended b"
    by (simp_all add: bs_pop_output_def Let_def)
  ultimately show ?thesis
    using assms(1) by (auto simp: flow_def)
qed

section \<open>Every rule keeps it\<close>

text \<open>The promises of the kernel, one operation at a time.\<close>

lemma cy_spec_read:
  assumes "cy_spec E inp out" "cy_read E fd n k = (((rv, errno), bs), k')"
  shows "rv < 0 \<Longrightarrow> rv = -1 \<and> errno \<noteq> 0" "0 \<le> rv \<Longrightarrow> nat rv \<le> n \<and> length bs = nat rv \<and> inp fd k' = inp fd k @ bs"
    "fd' \<noteq> fd \<Longrightarrow> inp fd' k' = inp fd' k" "out fd' k' = out fd' k"
proof -
  have "let (((rv, errno), bs), k') = cy_read E fd n k
      in (rv < 0 \<longrightarrow> rv = -1 \<and> errno \<noteq> 0 \<and> inp fd k' = inp fd k) \<and>
         (0 \<le> rv \<longrightarrow> nat rv \<le> n \<and> length bs = nat rv \<and> inp fd k' = inp fd k @ bs)"
    "(fd' \<noteq> fd \<longrightarrow> inp fd' (snd (cy_read E fd n k)) = inp fd' k) \<and> out fd' (snd (cy_read E fd n k)) = out fd' k"
    using assms(1) unfolding cy_spec_def by blast+
  then show "rv < 0 \<Longrightarrow> rv = -1 \<and> errno \<noteq> 0" "0 \<le> rv \<Longrightarrow> nat rv \<le> n \<and> length bs = nat rv \<and> inp fd k' = inp fd k @ bs"
    "fd' \<noteq> fd \<Longrightarrow> inp fd' k' = inp fd' k" "out fd' k' = out fd' k"
    unfolding assms(2) by simp_all
qed

lemma cy_spec_write:
  assumes "cy_spec E inp out"
  shows "writev_spec (cy_writev E fd) (out fd)" "fd' \<noteq> fd \<Longrightarrow> out fd' (snd (cy_writev E fd k iov)) = out fd' k"
    "inp fd' (snd (cy_writev E fd k iov)) = inp fd' k"
  using assms unfolding cy_spec_def by blast+

lemma cy_spec_end:
  assumes "cy_spec E inp out"
  shows "inp fd' (snd (cy_shutdown E fd how k)) = inp fd' k" "out fd' (snd (cy_shutdown E fd how k)) = out fd' k"
    "inp fd' (snd (cy_close E fd k)) = inp fd' k" "out fd' (snd (cy_close E fd k)) = out fd' k"
  using assms unfolding cy_spec_def by blast+

lemma copy_fill_flow:
  assumes "cy_spec E inp out" "copy_fill E w b k = (w', b', k', None)" "flow (inp (fd_num w) k) b wr"
  shows "flow (inp (fd_num w) k') b' wr" "fd_num w' = fd_num w" "fd \<noteq> fd_num w \<Longrightarrow> inp fd k' = inp fd k" "out fd k' = out fd k"
proof -
  let ?n = "bs_remaining_capacity b"
  obtain rv errno bs l where r: "cy_read E (fd_num w) (min (1024 * 1024) ?n) k = (((rv, errno), bs), l)"
    by (metis surj_pair)
  obtain x q where f: "fd_read ?n (rv, errno) bs w = (x, q)"
    by (cases "fd_read ?n (rv, errno) bs w")
  note def = assms(2) [unfolded copy_fill_def Let_def r f prod.case]
  obtain data where q: "q = Inr data"
    using def by (cases q) auto
  have new: "w' = x" "k' = l" "b' = (if fd_eof x then bs_end_input (fst (bs_write b data)) else fst (bs_write b data))"
    using def q by auto
  note spec = cy_spec_read [OF assms(1) r]
  have d: "0 \<le> rv \<and> data = bs \<and> length data \<le> ?n"
    by (rule fd_read_data [OF f [unfolded q] spec(1)]) (use spec(2) in auto)
  then have "flow (inp (fd_num w) l) (fst (bs_write b data)) wr"
    using flow_write [OF assms(3), of data] spec(2) by simp
  then show "flow (inp (fd_num w) k') b' wr" "fd_num w' = fd_num w"
    using new fd_num_kept(1) [OF f] flow_end by simp_all
  show "fd \<noteq> fd_num w \<Longrightarrow> inp fd k' = inp fd k" "out fd k' = out fd k"
    using new spec(3,4) by simp_all
qed

lemma copy_drain_flow:
  assumes "cy_spec E inp out" "copy_drain E w b k = (w', b', k', None)" "flow rd b (out (fd_num w) k)"
  shows "flow rd b' (out (fd_num w) k')" "fd_num w' = fd_num w" "fd \<noteq> fd_num w \<Longrightarrow> out fd k' = out fd k" "inp fd k' = inp fd k"
proof -
  define data where "data = bs_peek_output b (min 65536 (bs_buffer_size b))"
  obtain x l q where f: "fd_write (cy_writev E (fd_num w)) False (bvl_of_string data) w k = (x, l, q)"
    by (metis surj_pair)
  note def = assms(2) [unfolded copy_drain_def Let_def data_def [symmetric] f prod.case]
  obtain n where q: "q = Inr n"
    using def by (cases q) auto
  have new: "w' = x" "k' = l" "b' = bs_pop_output b n"
    using def q by auto
  have len: "length data < two63"
    by (auto simp: data_def bs_peek_output_def Let_def two63_def)
  then have "n \<le> length data \<and> out (fd_num w) l = out (fd_num w) k @ take n data"
    using fd_write_loop_spec [OF cy_spec_write(1) [OF assms(1)], of "bvl_of_string data" 0 "fd_num w" False w k x l q] f
    by (auto simp: fd_write_def bvl_of_string_def q two63_def two64_def)
  then show "flow rd b' (out (fd_num w) k')"
    using flow_pop [OF assms(3), of n] new by (simp add: data_def)
  show "fd_num w' = fd_num w" "fd \<noteq> fd_num w \<Longrightarrow> out fd k' = out fd k" "inp fd k' = inp fd k"
    using new fd_write_num [OF f] fd_write_once [OF f] cy_spec_write(2,3) [OF assms(1)] by simp_all
qed

lemma copy_from_input_inv:
  assumes "copy_inv E inp out sock s" "copy_from_input E s = (s', None)"
  shows "copy_inv E inp out sock s'"
proof -
  obtain w b k r where f: "copy_fill E (cp_input s) (cp_outbound s) (cp_kernel s) = (w, b, k, r)"
    by (metis surj_pair)
  have s': "r = None" "s' = s\<lparr>cp_input := w, cp_outbound := b, cp_kernel := k\<rparr>"
    using assms(2) by (auto simp: copy_from_input_def f)
  have spec: "cy_spec E inp out" and num: "fd_num (cp_input s) = 0"
    and flow: "flow (inp (fd_num (cp_input s)) (cp_kernel s)) (cp_outbound s) (out (fd_num (cp_socket s)) (cp_kernel s))"
    using assms(1) by (simp_all add: copy_inv_def)
  note k = copy_fill_flow [OF spec f [unfolded s'(1)] flow]
  show ?thesis
    using assms(1) k num by (simp add: copy_inv_def s'(2))
qed

lemma copy_from_socket_inv:
  assumes "copy_inv E inp out sock s" "copy_from_socket E s = (s', None)"
  shows "copy_inv E inp out sock s'"
proof -
  obtain w b k r where f: "copy_fill E (cp_socket s) (cp_inbound s) (cp_kernel s) = (w, b, k, r)"
    by (metis surj_pair)
  have s': "r = None" "s' = s\<lparr>cp_socket := w, cp_inbound := b, cp_kernel := k\<rparr>"
    using assms(2) by (auto simp: copy_from_socket_def f)
  have spec: "cy_spec E inp out" and num: "fd_num (cp_socket s) \<noteq> 0"
    and flow: "flow (inp (fd_num (cp_socket s)) (cp_kernel s)) (cp_inbound s) (out 1 (cp_kernel s))"
    using assms(1) by (simp_all add: copy_inv_def)
  note k = copy_fill_flow [OF spec f [unfolded s'(1)] flow]
  show ?thesis
    using assms(1) k num by (simp add: copy_inv_def s'(2))
qed

text \<open>Shutting down or closing a descriptor moves no bytes.\<close>

lemma copy_inv_end:
  assumes "copy_inv E inp out sock s" "\<And>fd. inp fd k = inp fd (cp_kernel s)" "\<And>fd. out fd k = out fd (cp_kernel s)"
  shows "fd_num w = fd_num (cp_socket s) \<Longrightarrow> copy_inv E inp out sock (s\<lparr>cp_socket := w, cp_kernel := k\<rparr>)"
    "fd_num w = fd_num (cp_output s) \<Longrightarrow> copy_inv E inp out sock (s\<lparr>cp_output := w, cp_kernel := k\<rparr>)"
  using assms by (simp_all add: copy_inv_def)

lemma copy_inv_flags [simp]:
  "copy_inv E inp out sock (s\<lparr>cp_outbound_shutdown := x\<rparr>) = copy_inv E inp out sock s"
  "copy_inv E inp out sock (s\<lparr>cp_inbound_shutdown := x\<rparr>) = copy_inv E inp out sock s"
  by (simp_all add: copy_inv_def)

lemma copy_to_socket_inv:
  assumes "copy_inv E inp out sock s" "copy_to_socket E s = (s', None)"
  shows "copy_inv E inp out sock s'"
proof -
  obtain w b k r where f: "copy_drain E (cp_socket s) (cp_outbound s) (cp_kernel s) = (w, b, k, r)"
    by (metis surj_pair)
  define t where "t = s\<lparr>cp_socket := w, cp_outbound := b, cp_kernel := k\<rparr>"
  obtain res l where sh: "cy_shutdown E (fd_num w) 1 k = (res, l)"
    by (metis surj_pair)
  obtain x e where x: "socket_shutdown 1 res w = (x, e)"
    by (cases "socket_shutdown 1 res w")
  note def = assms(2) [unfolded copy_to_socket_def f Let_def prod.case sh x]
  have r: "r = None"
    using def by (auto split: if_splits)
  then have s': "s' = t \<or> s' = t\<lparr>cp_socket := x, cp_kernel := l, cp_outbound_shutdown := True\<rparr>"
    using def by (auto simp: t_def split: if_splits)
  have spec: "cy_spec E inp out"
    and flow: "flow (inp 0 (cp_kernel s)) (cp_outbound s) (out (fd_num (cp_socket s)) (cp_kernel s))"
    using assms(1) by (simp_all add: copy_inv_def)
  note k = copy_drain_flow [OF spec f [unfolded r] flow]
  have t: "copy_inv E inp out sock t"
    using assms(1) k by (simp add: copy_inv_def t_def)
  have "inp fd l = inp fd k" "out fd l = out fd k" for fd
    using cy_spec_end(1,2) [OF spec, of fd "fd_num w" 1 k] sh by simp_all
  then have "copy_inv E inp out sock (t\<lparr>cp_socket := x, cp_kernel := l\<rparr>)"
    using fd_num_kept(2) [OF x] by (intro copy_inv_end(1) [OF t]) (simp_all add: t_def)
  then show ?thesis
    using s' t copy_inv_flags(1) [of E inp out sock True "t\<lparr>cp_socket := x, cp_kernel := l\<rparr>"] by auto
qed

lemma copy_to_output_inv:
  assumes "copy_inv E inp out sock s" "copy_to_output E s = (s', None)"
  shows "copy_inv E inp out sock s'"
proof -
  obtain w b k r where f: "copy_drain E (cp_output s) (cp_inbound s) (cp_kernel s) = (w, b, k, r)"
    by (metis surj_pair)
  define t where "t = s\<lparr>cp_output := w, cp_inbound := b, cp_kernel := k\<rparr>"
  obtain res l where sh: "cy_close E (fd_num w) k = (res, l)"
    by (metis surj_pair)
  obtain x e where x: "fd_close res w = (x, e)"
    by (cases "fd_close res w")
  note def = assms(2) [unfolded copy_to_output_def f Let_def prod.case sh x]
  have r: "r = None"
    using def by (auto split: if_splits)
  then have s': "s' = t \<or> s' = t\<lparr>cp_output := x, cp_kernel := l, cp_inbound_shutdown := True\<rparr>"
    using def by (auto simp: t_def split: if_splits)
  have spec: "cy_spec E inp out" and num: "fd_num (cp_output s) = 1"
    and flow: "flow (inp (fd_num (cp_socket s)) (cp_kernel s)) (cp_inbound s) (out (fd_num (cp_output s)) (cp_kernel s))"
    using assms(1) by (simp_all add: copy_inv_def)
  note k = copy_drain_flow [OF spec f [unfolded r] flow]
  have t: "copy_inv E inp out sock t"
    using assms(1) k num by (simp add: copy_inv_def t_def)
  have "inp fd l = inp fd k" "out fd l = out fd k" for fd
    using cy_spec_end(3,4) [OF spec, of fd "fd_num w" k] sh by simp_all
  then have "copy_inv E inp out sock (t\<lparr>cp_output := x, cp_kernel := l\<rparr>)"
    using fd_num_kept(3) [OF x] by (intro copy_inv_end(2) [OF t]) (simp_all add: t_def)
  then show ?thesis
    using s' t copy_inv_flags(2) [of E inp out sock True "t\<lparr>cp_output := x, cp_kernel := l\<rparr>"] by auto
qed

lemma copy_end_inv:
  "copy_inv E inp out sock s \<Longrightarrow> copy_end_outbound s = (s', None) \<Longrightarrow> copy_inv E inp out sock s'"
  "copy_inv E inp out sock s \<Longrightarrow> copy_end_inbound s = (s', None) \<Longrightarrow> copy_inv E inp out sock s'"
  by (auto simp: copy_end_outbound_def copy_end_inbound_def copy_inv_def intro: flow_end)

interpretation copy: event_rules "copy_rules E" "copy_inv E inp out sock"
  by unfold_locales
    (auto simp: copy_rules_def intro: copy_from_input_inv copy_to_socket_inv copy_from_socket_inv copy_to_output_inv copy_end_inv)

lemma copy_loop_inv:
  assumes "set rules \<subseteq> set (copy_rules E)" "copy_inv E inp out sock s" "copy_loop polls rules s = (rules', s', r)"
    and "\<And>e. r \<noteq> LoopThrew e"
  shows "copy_inv E inp out sock s'"
  using assms
proof (induction polls arbitrary: rules s)
  case (Cons poll polls)
  obtain rs t res where w: "el_wait_next_event poll (-1) rules s = (rs, t, res)"
    by (metis surj_pair)
  obtain ret where ret: "res = Inr ret"
    using Cons.prems(3,4) w by (cases res) auto
  note i = copy.wait_inv [OF Cons.prems(1,2) w [unfolded ret]]
  show ?case
    using Cons.IH [OF i(2,1)] Cons.prems(3,4) i(1) by (auto simp: w ret split: if_splits)
qed simp

section \<open>Properties\<close>

text \<open>
  C7: Copying is first in, first out, in both directions. On any kernel that keeps to its manual
  and whatever poll answers, as long as nothing throws, what has been written to the socket is
  a prefix of what was read from standard input and what has been written to standard output a
  prefix of what was read from the socket; and while a direction has not been ended, exactly
  the bytes in its stream (at most 1048576) are missing.
\<close>

theorem stream_copy_fifo:
  assumes "cy_spec E inp out" "fd_num socket \<noteq> 0" "fd_num socket \<noteq> 1"
    and "\<And>fd. inp fd k = []" "\<And>fd. out fd k = []"
    and "bidirectional_stream_copy E nonblocking polls socket k = Inr (rules, s, r)" "\<And>e. r \<noteq> LoopThrew e"
  shows "prefix (out (fd_num socket) (cp_kernel s)) (inp 0 (cp_kernel s)) \<and>
    prefix (out 1 (cp_kernel s)) (inp (fd_num socket) (cp_kernel s)) \<and>
    (\<not> bs_input_ended (cp_outbound s) \<longrightarrow>
      inp 0 (cp_kernel s) = out (fd_num socket) (cp_kernel s) @ bs_buffer (cp_outbound s)) \<and>
    (\<not> bs_input_ended (cp_inbound s) \<longrightarrow>
      inp (fd_num socket) (cp_kernel s) = out 1 (cp_kernel s) @ bs_buffer (cp_inbound s)) \<and>
    bs_buffer_size (cp_outbound s) \<le> 1048576 \<and> bs_buffer_size (cp_inbound s) \<le> 1048576"
proof -
  obtain i q where fds: "fd_construct 0 = Inr i" "fd_construct 1 = Inr q"
    by (simp add: fd_construct_def)
  then have start: "copy_inv E inp out (fd_num socket) (copy_start i q socket k)"
    using assms(1-5) by (auto simp: copy_inv_def copy_start_def flow_def bs_construct_def fd_construct_def)
  have loop: "copy_loop polls (copy_rules E) (copy_start i q socket k) = (rules, s, r)"
    using assms(6) by (auto simp: bidirectional_stream_copy_def fds split: option.splits)
  have "copy_inv E inp out (fd_num socket) s"
    by (rule copy_loop_inv [OF subset_refl start loop assms(7)])
  then show ?thesis
    by (auto simp: copy_inv_def flow_def bs_buffer_size_def dest: append_prefixD)
qed

text \<open>
  A kernel that logs what it hands over and takes: one byte on standard input, then nothing
  more for now on any descriptor; of a write at most 100 bytes are taken.
\<close>

type_synonym io_log = "(int \<times> bytes) list"

definition io_history :: "int \<Rightarrow> io_log \<Rightarrow> bytes" where
  "io_history fd l = concat (map snd (filter (\<lambda>x. fst x = fd) l))"

definition cy_example :: "(io_log \<times> io_log) copy_env" where
  "cy_example = \<lparr>
     cy_read = (\<lambda>fd n (i, q). if n = 0 \<or> fd \<noteq> 0 \<or> i \<noteq> [] then (((-1, 11), []), (i, q)) else (((1, 0), [65]), (i @ [(fd, [65])], q))),
     cy_writev = (\<lambda>fd (i, q) iov. let data = take 100 (concat (map fst iov)) in ((int (length data), 0), (i, q @ [(fd, data)]))),
     cy_shutdown = (\<lambda>fd how k. ((0, 0), k)), cy_close = (\<lambda>fd k. ((0, 0), k))\<rparr>"

lemma io_history_snoc: "io_history fd (l @ [(fd', bs)]) = io_history fd l @ (if fd' = fd then bs else [])"
  by (simp add: io_history_def)

lemma cy_example_spec: "cy_spec cy_example (\<lambda>fd k. io_history fd (fst k)) (\<lambda>fd k. io_history fd (snd k))"
  by (auto simp: cy_spec_def cy_example_def writev_spec_def Let_def io_history_snoc min.commute split: prod.splits)
    (auto simp: io_history_def min_def)

definition copy_example :: "io_log \<times> io_log \<Rightarrow> byte_stream \<Rightarrow> 32 word \<Rightarrow> 32 word \<Rightarrow> (io_log \<times> io_log) copy_state" where
  "copy_example k b n m = \<lparr>cp_input = fd_example\<lparr>fd_num := 0, fd_read_count := n\<rparr>,
     cp_output = fd_example\<lparr>fd_num := 1\<rparr>, cp_socket = fd_example\<lparr>fd_write_count := m\<rparr>,
     cp_outbound = b, cp_inbound = bs_construct 1048576,
     cp_outbound_shutdown = False, cp_inbound_shutdown = False, cp_kernel = k\<rparr>"

definition copy_example_stream :: byte_stream where
  "copy_example_stream = fst (bs_write (bs_construct 1048576) [65])"

lemma copy_example_read:
  "copy_from_input cy_example (copy_example ([], []) (bs_construct 1048576) 0 0) =
    (copy_example ([(0, [65])], []) copy_example_stream 1 0, None)"
proof -
  have "bs_remaining_capacity (bs_construct 1048576) = 1048576"
    by (simp add: bs_construct_def bs_remaining_capacity_def sub64_small two64_def)
  then show ?thesis
    by (simp add: copy_from_input_def copy_fill_def copy_example_def cy_example_def fd_read_def system_call_def to_c_int_small
        Let_def string_resize_def fd_register_read_def fd_example_def copy_example_stream_def)
qed

lemma copy_example_write:
  "copy_to_socket cy_example (copy_example ([(0, [65])], []) copy_example_stream 1 0) =
    (copy_example ([(0, [65])], [(3, [65])]) (bs_pop_output copy_example_stream 1) 1 1, None)"
proof -
  have b: "bs_peek_output copy_example_stream (min 65536 (bs_buffer_size copy_example_stream)) = [65]"
    "\<not> bs_eof (bs_pop_output copy_example_stream 1)"
    by (simp_all add: copy_example_stream_def bs_defs Let_def sub64_small two64_def)
  have "of_ssize 1 = 1" "add64 0 1 = 1" "add64 0 (Suc 0) = 1" "to_ssize 1 = 1"
    by (simp_all add: of_ssize_def add64_def to_ssize_def two64_def two63_def)
  then show ?thesis using b
    by (simp add: copy_to_socket_def copy_drain_def copy_example_def fd_write_def cy_example_def
        fd_write_loop.simps [of _ False] bvl_as_iovecs_def bvl_of_string_def system_call_def to_c_int_small
        Let_def fd_register_write_def fd_example_def bvl_size_def)
qed

theorem stream_copy_fifo_witness:
  "\<exists>rules s r. bidirectional_stream_copy cy_example (\<lambda>_. None)
      [\<lambda>_ _. ((1, 0), [POLLIN, 0, 0, 0]), \<lambda>_ _. ((1, 0), [0, POLLOUT, 0, 0])] fd_example ([], []) = Inr (rules, s, r) \<and>
    cp_kernel s = ([(0, [65])], [(3, [65])]) \<and> prefix (io_history 3 (snd (cp_kernel s))) (io_history 0 (fst (cp_kernel s)))"
proof -
  let ?b = copy_example_stream and ?fds = "[\<lparr>pf_fd = 0, pf_events = POLLIN\<rparr>]"
  let ?p1 = "\<lambda>_ _. ((1, 0), [POLLIN, 0, 0, 0]) :: sys_result \<times> 16 word list"
  let ?p2 = "\<lambda>_ _. ((1, 0), [0, POLLOUT, 0, 0]) :: sys_result \<times> 16 word list"
  let ?s0 = "copy_example ([], []) (bs_construct 1048576) 0 0" and ?s1 = "copy_example ([(0, [65])], []) ?b 1 0"
  let ?s2 = "copy_example ([(0, [65])], [(3, [65])]) (bs_pop_output ?b 1) 1 1"
  have wants: "copy_wants_input ?s0" "copy_wants_input ?s1" "\<not> copy_wants_socket_out ?s0" "copy_wants_socket_out ?s1"
    "\<not> copy_wants_output ?s0" "\<not> copy_wants_output ?s1" "copy_wants_socket_in ?s0" "copy_wants_socket_in ?s1"
    "\<not> copy_wants_socket_out ?s2"
    by (simp_all add: copy_wants_input_def copy_wants_socket_out_def copy_wants_socket_in_def copy_wants_output_def
        copy_example_def copy_example_stream_def bs_defs Let_def sub64_small two64_def)
  have fds: "fd_num (cp_input (copy_example k b n m)) = 0" "fd_num (cp_socket (copy_example k b n m)) = 3"
    "fd_num (cp_output (copy_example k b n m)) = 1" "\<not> fd_eof (cp_input (copy_example k b n m))"
    "\<not> fd_eof (cp_socket (copy_example k b n m))" "\<not> fd_closed (cp_input (copy_example k b n m))"
    "\<not> fd_closed (cp_output (copy_example k b n m))" "\<not> fd_closed (cp_socket (copy_example k b n m))"
    "fd_read_count (cp_input (copy_example k b n m)) = n" "fd_write_count (cp_socket (copy_example k b n m)) = m" for k b n m
    by (simp_all add: copy_example_def fd_example_def)
  have w1: "el_wait_next_event ?p1 (-1) (copy_rules cy_example) ?s0 = (copy_rules cy_example, ?s1, Inr ElSuccess)"
    by (simp add: el_wait_next_event_def copy_rules_def ru_defunct_def fds wants Let_def direction_events_def
        system_call_def to_c_int_small copy_example_read ru_service_count_def)
  have w2: "el_wait_next_event ?p2 (-1) (copy_rules cy_example) ?s1 = (copy_rules cy_example, ?s2, Inr ElSuccess)"
    by (simp add: el_wait_next_event_def copy_rules_def ru_defunct_def fds wants Let_def direction_events_def
        system_call_def to_c_int_small copy_example_write [unfolded One_nat_def] ru_service_count_def)
  have start: "copy_start \<lparr>fd_num = 0, fd_eof = False, fd_closed = False, fd_read_count = 0, fd_write_count = 0\<rparr>
      \<lparr>fd_num = 1, fd_eof = False, fd_closed = False, fd_read_count = 0, fd_write_count = 0\<rparr> fd_example ([], []) = ?s0"
    by (simp add: copy_start_def copy_example_def fd_example_def)
  have run: "bidirectional_stream_copy cy_example (\<lambda>_. None) [?p1, ?p2] fd_example ([], []) =
      Inr (copy_rules cy_example, ?s2, StillWaiting)"
    by (simp add: bidirectional_stream_copy_def fd_construct_def start w1 w2)
  have k: "cp_kernel ?s2 = ([(0, [65])], [(3, [65])])"
    by (simp add: copy_example_def)
  have "fd_num fd_example = 3"
    by (simp add: fd_example_def)
  then have "prefix (io_history 3 (snd (cp_kernel ?s2))) (io_history 0 (fst (cp_kernel ?s2)))"
    using stream_copy_fifo [OF cy_example_spec _ _ _ _ run] by (simp add: io_history_def)
  then show ?thesis
    using run k by blast
qed

section \<open>Deviations\<close>

text \<open>
  After the socket has hung up, rule 2's cancellation ends the outbound stream; rule 1 stays
  interested in standard input and what it then reads is thrown away.
\<close>

theorem stream_copy_discards:
  assumes "copy_inv E inp out sock s" "bs_input_ended (cp_outbound s)" "bs_remaining_capacity (cp_outbound s) > 0"
    and "\<not> bs_error (cp_inbound s)" "copy_from_input E s = (s', None)"
  shows "copy_wants_input s \<and> bs_buffer (cp_outbound s') = bs_buffer (cp_outbound s) \<and> copy_wants_input s'"
proof -
  have quiet: "bs_write b data = (b, 0)" if "bs_input_ended b" for b data
    using that by (simp add: bs_write_def)
  have ended: "bs_buffer (bs_end_input b) = bs_buffer b" "bs_error (bs_end_input b) = bs_error b"
    "bs_remaining_capacity (bs_end_input b) = bs_remaining_capacity b" for b
    by (simp_all add: bs_end_input_def bs_remaining_capacity_def)
  obtain w b k r where f: "copy_fill E (cp_input s) (cp_outbound s) (cp_kernel s) = (w, b, k, r)"
    by (metis surj_pair)
  have r: "r = None" "s' = s\<lparr>cp_input := w, cp_outbound := b, cp_kernel := k\<rparr>"
    using assms(5) by (auto simp: copy_from_input_def f)
  have "b = cp_outbound s \<or> b = bs_end_input (cp_outbound s)"
    using f assms(2) r(1) by (auto simp: copy_fill_def Let_def quiet split: prod.splits sum.splits if_splits)
  then show ?thesis
    using assms(1,3,4) r(2) by (auto simp: copy_wants_input_def ended copy_inv_def flow_def)
qed

end
