(* ===== verification/Command_Line.thy ===== *)
theory Command_Line
  imports Stream_Copy Printing
begin

text \<open>
  The command lines of \<open>apps/tcp_ipv4.cc\<close> and \<open>apps/tcp_udp.cc\<close>: the texts, the loop over the
  options and the positional arguments, as functions from the arguments to a configuration or
  to the way the program stops. \<open>strtol\<close> and \<open>strncmp\<close> are those of the C library; what
  \<open>strtof\<close> and the conversion of a floating-point rate give is an argument.

  \<open>command_line_roundtrip\<close> says that every list of options is understood as it is written;
  \<open>ipv4_options_positional\<close> that the host and the port are always there when they are read.
\<close>

section \<open>The C library\<close>

text \<open>\<open>strncmp(s, t, n) == 0\<close>: the characters are compared up to the terminating zero.\<close>

definition strncmp0 :: "string \<Rightarrow> string \<Rightarrow> nat \<Rightarrow> bool" where
  "strncmp0 s t n \<longleftrightarrow> take n (s @ [char_of (0 :: nat)]) = take n (t @ [char_of (0 :: nat)])"

definition is_space :: "char \<Rightarrow> bool" where
  "is_space c \<longleftrightarrow> (of_char c :: nat) = 32 \<or> 9 \<le> (of_char c :: nat) \<and> (of_char c :: nat) \<le> 13"

text \<open>The value of a digit; 36 for any other character.\<close>

definition digit_value :: "char \<Rightarrow> nat" where
  "digit_value c =
     (let n = of_char c
      in if 48 \<le> n \<and> n \<le> 57 then n - 48
         else if 97 \<le> n \<and> n \<le> 122 then n - 87
         else if 65 \<le> n \<and> n \<le> 90 then n - 55
         else 36)"

definition digits_value :: "nat \<Rightarrow> string \<Rightarrow> nat" where
  "digits_value base s = foldl (\<lambda>n c. n * base + digit_value c) 0 (takeWhile (\<lambda>c. digit_value c < base) s)"

text \<open>\<open>strtol\<close> with base 0: blanks, a sign, a prefix that tells the base, digits; clamped to a \<open>long\<close>.\<close>

definition strtol :: "string \<Rightarrow> int" where
  "strtol str =
     (let s = dropWhile is_space str;
          negative = (s \<noteq> [] \<and> hd s = CHR ''-'');
          s = (if s \<noteq> [] \<and> (hd s = CHR ''-'' \<or> hd s = CHR ''+'') then tl s else s);
          n = (if 3 \<le> length s \<and> hd s = CHR ''0'' \<and> (s ! 1 = CHR ''x'' \<or> s ! 1 = CHR ''X'') \<and> digit_value (s ! 2) < 16
               then digits_value 16 (drop 2 s)
               else if s \<noteq> [] \<and> hd s = CHR ''0'' then digits_value 8 s
               else digits_value 10 s);
          v = (if negative then - int n else int n)
      in max (- (2 ^ 63)) (min (2 ^ 63 - 1) v))"

section \<open>How a program stops\<close>

text \<open>\<open>exit\<close> with a code after printing a text, or an exception.\<close>

datatype app_stop = AppExit int string | AppThrew exn

definition bind_stop :: "app_stop + 'a \<Rightarrow> ('a \<Rightarrow> app_stop + 'b) \<Rightarrow> app_stop + 'b" where
  "bind_stop r f = (case r of Inl e \<Rightarrow> Inl e | Inr x \<Rightarrow> f x)"

definition app_throw :: "exn + 'a \<Rightarrow> app_stop + 'a" where
  "app_throw r = map_sum AppThrew id r"

lemma stop_simps [simp]:
  "bind_stop (Inr x) f = f x" "bind_stop (Inl e) f = Inl e" "app_throw (Inr y) = Inr y" "app_throw (Inl exc) = Inl (AppThrew exc)"
  by (simp_all add: bind_stop_def app_throw_def)

section \<open>tcp\_ipv4\<close>

text \<open>The local variables of \<open>get_config\<close>; those that only \<open>tcp_ipv4\<close> has come second.\<close>

record app_config =
  gc_fsm :: tcp_config
  gc_filt :: fd_adapter_config
  gc_listen :: bool

record ip_config = app_config +
  gc_tundev :: "string option"
  gc_source_address :: string
  gc_source_port :: string

definition message :: "string option \<Rightarrow> string" where
  "message msg = (case msg of None \<Rightarrow> '''' | Some m \<Rightarrow> m)"

definition ip_show_usage :: "string \<Rightarrow> string option \<Rightarrow> string" where
  "ip_show_usage argv0 msg =
     ''Usage: '' @ argv0 @ '' [options] <host> <port>'' @ newline @ newline @
     ''   Option                                                          Default'' @ newline @
     ''   --                                                              --'' @ newline @ newline @
     ''   -l              Server (listen) mode.                           (client mode)'' @ newline @
     ''                   In server mode, <host>:<port> is the address to bind.'' @ newline @ newline @
     ''   -a <addr>       Set source address (client mode only)           '' @ ''169.254.144.9'' @ newline @
     ''   -s <port>       Set source port (client mode only)              (random)'' @ newline @ newline @
     ''   -w <winsz>      Use a window of <winsz> bytes                   '' @ dec_string MAX_PAYLOAD_SIZE @ newline @ newline @
     ''   -t <tmout>      Set rt_timeout to tmout                         '' @ dec_string 1000 @ newline @ newline @
     ''   -d <tundev>     Connect to tun <tundev>                         '' @ ''tun144'' @ newline @ newline @
     ''   -Lu <loss>      Set uplink loss to <rate> (float in 0..1)       (no loss)'' @ newline @
     ''   -Ld <loss>      Set downlink loss to <rate> (float in 0..1)     (no loss)'' @ newline @ newline @
     ''   -h              Show this message.'' @ newline @ newline @ message msg @ newline"

text \<open>
  The arguments from \<open>argv[curr]\<close> on are a list, so \<open>argc - curr\<close> is its length. \<open>check_argc\<close>
  wants the option, its argument, the host and the port in it.
\<close>

definition check_argc :: "(string option \<Rightarrow> string) \<Rightarrow> string list \<Rightarrow> string \<Rightarrow> app_stop + 'a \<Rightarrow> app_stop + 'a" where
  "check_argc show_usage argv err continue =
     (if length argv \<le> 3 then Inl (AppExit 1 (show_usage (Some err))) else continue)"

definition set_capacity :: "string \<Rightarrow> 'a app_config_scheme \<Rightarrow> 'a app_config_scheme" where
  "set_capacity arg g = g\<lparr>gc_fsm := (gc_fsm g)\<lparr>cfg_recv_capacity := nat (strtol arg mod 2 ^ 64)\<rparr>\<rparr>"

definition set_timeout :: "string \<Rightarrow> 'a app_config_scheme \<Rightarrow> 'a app_config_scheme" where
  "set_timeout arg g = g\<lparr>gc_fsm := (gc_fsm g)\<lparr>cfg_rt_timeout := word_of_int (strtol arg)\<rparr>\<rparr>"

definition set_loss_up :: "16 word \<Rightarrow> 'a app_config_scheme \<Rightarrow> 'a app_config_scheme" where
  "set_loss_up r g = g\<lparr>gc_filt := (gc_filt g)\<lparr>fac_loss_rate_up := r\<rparr>\<rparr>"

definition set_loss_dn :: "16 word \<Rightarrow> 'a app_config_scheme \<Rightarrow> 'a app_config_scheme" where
  "set_loss_dn r g = g\<lparr>gc_filt := (gc_filt g)\<lparr>fac_loss_rate_dn := r\<rparr>\<rparr>"

text \<open>The loop; \<open>loss\<close> is the rate that an argument stands for.\<close>

fun ipv4_options :: "(string \<Rightarrow> exn + 16 word) \<Rightarrow> string \<Rightarrow> string list \<Rightarrow> ip_config \<Rightarrow> app_stop + ip_config \<times> string list" where
  "ipv4_options loss argv0 (opt # arg # a # rest) g =
     (let argv = opt # arg # a # rest; check = check_argc (ip_show_usage argv0) argv
      in if strncmp0 ''-l'' opt 3 then ipv4_options loss argv0 (arg # a # rest) (g\<lparr>gc_listen := True\<rparr>)
         else if strncmp0 ''-a'' opt 3
         then check ''ERROR: -a requires one argument.'' (ipv4_options loss argv0 (a # rest) (g\<lparr>gc_source_address := arg\<rparr>))
         else if strncmp0 ''-s'' opt 3
         then check ''ERROR: -s requires one argument.'' (ipv4_options loss argv0 (a # rest) (g\<lparr>gc_source_port := arg\<rparr>))
         else if strncmp0 ''-w'' opt 3
         then check ''ERROR: -w requires one argument.'' (ipv4_options loss argv0 (a # rest) (set_capacity arg g))
         else if strncmp0 ''-t'' opt 3
         then check ''ERROR: -t requires one argument.'' (ipv4_options loss argv0 (a # rest) (set_timeout arg g))
         else if strncmp0 ''-d'' opt 3
         then check ''ERROR: -t requires one argument.'' (ipv4_options loss argv0 (a # rest) (g\<lparr>gc_tundev := Some arg\<rparr>))
         else if strncmp0 ''-Lu'' opt 3
         then check ''ERROR: -Lu requires one argument.''
           (bind_stop (app_throw (loss arg)) (\<lambda>r. ipv4_options loss argv0 (a # rest) (set_loss_up r g)))
         else if strncmp0 ''-Ld'' opt 3
         then check ''ERROR: -Lu requires one argument.''
           (bind_stop (app_throw (loss arg)) (\<lambda>r. ipv4_options loss argv0 (a # rest) (set_loss_dn r g)))
         else if strncmp0 ''-h'' opt 3 then Inl (AppExit 0 (ip_show_usage argv0 None))
         else Inl (AppExit 1 (ip_show_usage argv0 (Some (''ERROR: unrecognized option '' @ opt)))))"
| "ipv4_options loss argv0 argv g = Inr (g, argv)"

text \<open>The positional arguments. In server mode the host is not looked at.\<close>

definition ip_positional :: "netdb \<Rightarrow> string \<Rightarrow> ip_config \<Rightarrow> string list \<Rightarrow> app_stop + ip_config" where
  "ip_positional nd argv0 g argv =
     (case argv of
        host # port # _ \<Rightarrow>
          if gc_listen g
          then bind_stop (app_throw (address_of_host nd ''0'' port)) (\<lambda>source.
               bind_stop (app_throw (address_port nd source)) (\<lambda>p.
                 if p = 0 then Inl (AppExit 1 (ip_show_usage argv0 (Some ''ERROR: listen port cannot be zero in server mode.'')))
                 else Inr (g\<lparr>gc_filt := (gc_filt g)\<lparr>fac_source := source\<rparr>\<rparr>)))
          else bind_stop (app_throw (address_of_host nd host port)) (\<lambda>destination.
               bind_stop (app_throw (address_of_host nd (gc_source_address g) (gc_source_port g))) (\<lambda>source.
                 Inr (g\<lparr>gc_filt := (gc_filt g)\<lparr>fac_destination := destination, fac_source := source\<rparr>\<rparr>)))
      | _ \<Rightarrow> Inl (AppThrew (UndefinedBehaviour ''argv'')))"

definition ip_start :: "fd_adapter_config \<Rightarrow> 32 word \<Rightarrow> ip_config" where
  "ip_start filt random = \<lparr>gc_fsm = tcp_config_default, gc_filt = filt, gc_listen = False, gc_tundev = None,
     gc_source_address = ''169.254.144.9'', gc_source_port = dec_string (unat (ucast random :: 16 word))\<rparr>"

definition ip_get_config :: "netdb \<Rightarrow> (string \<Rightarrow> exn + 16 word) \<Rightarrow> 32 word \<Rightarrow> string \<Rightarrow> string list \<Rightarrow> app_stop + ip_config" where
  "ip_get_config nd loss random argv0 args =
     bind_stop (app_throw (fac_default nd)) (\<lambda>filt.
     bind_stop (ipv4_options loss argv0 args (ip_start filt random)) (\<lambda>(g, argv).
       ip_positional nd argv0 g argv))"

section \<open>tcp\_udp\<close>

definition udp_show_usage :: "string \<Rightarrow> string option \<Rightarrow> string" where
  "udp_show_usage argv0 msg =
     ''Usage: '' @ argv0 @ '' [options] <host> <port>'' @ newline @ newline @
     ''   Option                                                          Default'' @ newline @
     ''   --                                                              --'' @ newline @ newline @
     ''   -l              Server (listen) mode.                           (client mode)'' @ newline @
     ''                   In server mode, <host>:<port> is the address to bind.'' @ newline @ newline @
     ''   -w <winsz>      Use a window of <winsz> bytes                   '' @ dec_string MAX_PAYLOAD_SIZE @ newline @ newline @
     ''   -t <tmout>      Set rt_timeout to tmout                         '' @ dec_string 1000 @ newline @ newline @
     ''   -Lu <loss>      Set uplink loss to <rate> (float in 0..1)       (no loss)'' @ newline @
     ''   -Ld <loss>      Set downlink loss to <rate> (float in 0..1)     (no loss)'' @ newline @ newline @
     ''   -h              Show this message and quit.'' @ newline @ newline @ message msg @ newline"

fun udp_options :: "(string \<Rightarrow> exn + 16 word) \<Rightarrow> string \<Rightarrow> string list \<Rightarrow> app_config \<Rightarrow> app_stop + app_config \<times> string list" where
  "udp_options loss argv0 (opt # arg # a # rest) g =
     (let argv = opt # arg # a # rest; check = check_argc (udp_show_usage argv0) argv
      in if strncmp0 ''-l'' opt 3 then udp_options loss argv0 (arg # a # rest) (g\<lparr>gc_listen := True\<rparr>)
         else if strncmp0 ''-w'' opt 3
         then check ''ERROR: -w requires one argument.'' (udp_options loss argv0 (a # rest) (set_capacity arg g))
         else if strncmp0 ''-t'' opt 3
         then check ''ERROR: -t requires one argument.'' (udp_options loss argv0 (a # rest) (set_timeout arg g))
         else if strncmp0 ''-Lu'' opt 3
         then check ''ERROR: -Lu requires one argument.''
           (bind_stop (app_throw (loss arg)) (\<lambda>r. udp_options loss argv0 (a # rest) (set_loss_up r g)))
         else if strncmp0 ''-Ld'' opt 3
         then check ''ERROR: -Lu requires one argument.''
           (bind_stop (app_throw (loss arg)) (\<lambda>r. udp_options loss argv0 (a # rest) (set_loss_dn r g)))
         else if strncmp0 ''-h'' opt 3 then Inl (AppExit 0 (udp_show_usage argv0 None))
         else Inl (AppExit 1 (udp_show_usage argv0 (Some (''ERROR: unrecognized option '' @ opt)))))"
| "udp_options loss argv0 argv g = Inr (g, argv)"

text \<open>\<open>argv[argc - 2]\<close> and \<open>argv[argc - 1]\<close> are the last two arguments.\<close>

definition udp_positional :: "netdb \<Rightarrow> app_config \<Rightarrow> string list \<Rightarrow> app_stop + app_config" where
  "udp_positional nd g args =
     (if length args < 2 then Inl (AppThrew (UndefinedBehaviour ''argv''))
      else if gc_listen g
      then bind_stop (app_throw (address_of_host nd ''0'' (last args))) (\<lambda>source.
             Inr (g\<lparr>gc_filt := (gc_filt g)\<lparr>fac_source := source\<rparr>\<rparr>))
      else bind_stop (app_throw (address_of_host nd (last (butlast args)) (last args))) (\<lambda>destination.
             Inr (g\<lparr>gc_filt := (gc_filt g)\<lparr>fac_destination := destination\<rparr>\<rparr>)))"

definition udp_start :: "fd_adapter_config \<Rightarrow> app_config" where
  "udp_start filt = \<lparr>gc_fsm = tcp_config_default, gc_filt = filt, gc_listen = False\<rparr>"

definition udp_get_config :: "netdb \<Rightarrow> (string \<Rightarrow> exn + 16 word) \<Rightarrow> string \<Rightarrow> string list \<Rightarrow> app_stop + app_config" where
  "udp_get_config nd loss argv0 args =
     bind_stop (app_throw (fac_default nd)) (\<lambda>filt.
     bind_stop (udp_options loss argv0 args (udp_start filt)) (\<lambda>(g, _).
       udp_positional nd g args))"

section \<open>Numbers\<close>

lemma digit_value_digit: "is_digit c \<Longrightarrow> digit_value c = of_char c - 48 \<and> digit_value c < 10"
  by (auto simp: digit_value_def is_digit_def Let_def)

lemma dec_string_hd: "0 < n \<Longrightarrow> hd (dec_string n) \<noteq> CHR ''0''"
proof (induction n rule: less_induct)
  case (less n)
  show ?case
  proof (cases "n < 10")
    case True
    have "char_of (48 + n) \<noteq> CHR ''0''"
    proof
      assume "char_of (48 + n) = CHR ''0''"
      then have "48 + n = of_char (CHR ''0'')"
        using of_char_digit [OF True] by simp
      then show False
        using less.prems by simp
    qed
    then show ?thesis
      using True by (simp add: dec_string.simps [of n])
  next
    case False
    then have "hd (dec_string n) = hd (dec_string (n div 10))"
      by (simp add: dec_string.simps [of n])
    then show ?thesis
      using less.IH [of "n div 10"] False by simp
  qed
qed

lemma digits_value_dec_string: "digits_value 10 (dec_string n) = n"
proof -
  have "digit_value c = of_char c - 48" "digit_value c < 10" if "c \<in> set (dec_string n)" for c
    using digit_value_digit is_digit_dec_string [OF that] by blast+
  then have tw: "takeWhile (\<lambda>c. digit_value c < 10) (dec_string n) = dec_string n"
    and eq: "foldl (\<lambda>n c. n * 10 + digit_value c) 0 (dec_string n) = foldl (\<lambda>n c. n * 10 + (of_char c - 48)) 0 (dec_string n)"
    by (auto intro: foldl_cong)
  show ?thesis
    unfolding digits_value_def tw eq using dec_value_dec_string [of n] by (simp add: dec_value_def)
qed

text \<open>The largest \<open>long\<close>, to which a number is clamped.\<close>

abbreviation LONG_MAX :: nat where "LONG_MAX \<equiv> 2 ^ 63 - 1"

lemma strtol_plain:
  assumes "s \<noteq> []" "\<not> is_space (hd s)" "hd s \<noteq> CHR ''-''" "hd s \<noteq> CHR ''+''" "hd s \<noteq> CHR ''0''"
  shows "strtol s = int (min (digits_value 10 s) LONG_MAX)"
proof -
  have "dropWhile is_space s = s"
    using assms(1,2) by (cases s) auto
  then have "strtol s = max (- (2 ^ 63)) (min (2 ^ 63 - 1) (int (digits_value 10 s)))"
    unfolding strtol_def Let_def using assms(3-5) by (simp only: simp_thms if_False)
  then show ?thesis
    by simp
qed

lemma strtol_dec_string: "strtol (dec_string n) = int (min n LONG_MAX)"
proof (cases "n = 0")
  case True
  have "dec_string 0 = ''0''" "strtol ''0'' = 0"
    by code_simp+
  then show ?thesis
    using True by simp
next
  case False
  have "is_digit (hd (dec_string n))"
    by (rule is_digit_dec_string [of _ n]) simp
  then have "\<not> is_space (hd (dec_string n))" "hd (dec_string n) \<noteq> CHR ''-''" "hd (dec_string n) \<noteq> CHR ''+''"
    by (auto simp: is_digit_def is_space_def)
  then show ?thesis
    using strtol_plain [of "dec_string n"] dec_string_hd [of n] False digits_value_dec_string [of n] by simp
qed

section \<open>Options as they are written\<close>

datatype cl_option = OptListen | OptSource string | OptPort string | OptWindow nat | OptTimeout nat | OptDevice string
  | OptLossUp string | OptLossDown string

fun cl_args :: "cl_option \<Rightarrow> string list" where
  "cl_args OptListen = [''-l'']"
| "cl_args (OptSource a) = [''-a'', a]"
| "cl_args (OptPort p) = [''-s'', p]"
| "cl_args (OptWindow n) = [''-w'', dec_string n]"
| "cl_args (OptTimeout n) = [''-t'', dec_string n]"
| "cl_args (OptDevice d) = [''-d'', d]"
| "cl_args (OptLossUp r) = [''-Lu'', r]"
| "cl_args (OptLossDown r) = [''-Ld'', r]"

text \<open>The rates can be converted.\<close>

fun cl_ok :: "(string \<Rightarrow> exn + 16 word) \<Rightarrow> cl_option \<Rightarrow> bool" where
  "cl_ok loss (OptLossUp r) \<longleftrightarrow> \<not> isl (loss r)"
| "cl_ok loss (OptLossDown r) \<longleftrightarrow> \<not> isl (loss r)"
| "cl_ok loss _ \<longleftrightarrow> True"

fun cl_meaning :: "(string \<Rightarrow> exn + 16 word) \<Rightarrow> cl_option \<Rightarrow> 'a app_config_scheme \<Rightarrow> 'a app_config_scheme" where
  "cl_meaning loss OptListen g = g\<lparr>gc_listen := True\<rparr>"
| "cl_meaning loss (OptWindow n) g = g\<lparr>gc_fsm := (gc_fsm g)\<lparr>cfg_recv_capacity := min n LONG_MAX\<rparr>\<rparr>"
| "cl_meaning loss (OptTimeout n) g = g\<lparr>gc_fsm := (gc_fsm g)\<lparr>cfg_rt_timeout := word_of_nat (min n LONG_MAX)\<rparr>\<rparr>"
| "cl_meaning loss (OptLossUp r) g = set_loss_up (projr (loss r)) g"
| "cl_meaning loss (OptLossDown r) g = set_loss_dn (projr (loss r)) g"
| "cl_meaning loss _ g = g"

fun ip_meaning :: "(string \<Rightarrow> exn + 16 word) \<Rightarrow> cl_option \<Rightarrow> ip_config \<Rightarrow> ip_config" where
  "ip_meaning loss (OptSource a) g = g\<lparr>gc_source_address := a\<rparr>"
| "ip_meaning loss (OptPort p) g = g\<lparr>gc_source_port := p\<rparr>"
| "ip_meaning loss (OptDevice d) g = g\<lparr>gc_tundev := Some d\<rparr>"
| "ip_meaning loss opt g = cl_meaning loss opt g"

lemma set_number:
  "set_capacity (dec_string n) g = g\<lparr>gc_fsm := (gc_fsm g)\<lparr>cfg_recv_capacity := min n LONG_MAX\<rparr>\<rparr>"
  "set_timeout (dec_string n) g = g\<lparr>gc_fsm := (gc_fsm g)\<lparr>cfg_rt_timeout := word_of_nat (min n LONG_MAX)\<rparr>\<rparr>"
  by (simp_all add: set_capacity_def set_timeout_def strtol_dec_string nat_mod_as_int)

lemma app_throw_ok: "\<not> isl r \<Longrightarrow> app_throw r = Inr (projr r)"
  by (cases r) simp_all

lemma strncmp0_options [simp]:
  "strncmp0 ''-l'' ''-l'' 3" "strncmp0 ''-a'' ''-a'' 3" "strncmp0 ''-s'' ''-s'' 3" "strncmp0 ''-w'' ''-w'' 3"
  "strncmp0 ''-t'' ''-t'' 3" "strncmp0 ''-d'' ''-d'' 3" "strncmp0 ''-Lu'' ''-Lu'' 3" "strncmp0 ''-Ld'' ''-Ld'' 3"
  by (simp_all add: strncmp0_def)

lemma ipv4_options_written:
  assumes "cl_ok loss opt" "2 \<le> length rest"
  shows "ipv4_options loss argv0 (cl_args opt @ rest) g = ipv4_options loss argv0 rest (ip_meaning loss opt g)"
proof -
  obtain a b rest' where rest: "rest = a # b # rest'"
    using assms(2) by (cases rest; cases "tl rest") auto
  show ?thesis
    using assms(1) by (cases opt) (auto simp: rest check_argc_def strncmp0_def set_number app_throw_ok)
qed

lemma udp_options_written:
  assumes "cl_ok loss opt" "2 \<le> length rest"
  shows "udp_options loss argv0 (cl_args opt @ rest) g =
    (case opt of
       OptSource _ \<Rightarrow> Inl (AppExit 1 (udp_show_usage argv0 (Some ''ERROR: unrecognized option -a'')))
     | OptPort _ \<Rightarrow> Inl (AppExit 1 (udp_show_usage argv0 (Some ''ERROR: unrecognized option -s'')))
     | OptDevice _ \<Rightarrow> Inl (AppExit 1 (udp_show_usage argv0 (Some ''ERROR: unrecognized option -d'')))
     | _ \<Rightarrow> udp_options loss argv0 rest (cl_meaning loss opt g))"
proof -
  obtain a b rest' where rest: "rest = a # b # rest'"
    using assms(2) by (cases rest; cases "tl rest") auto
  show ?thesis
    using assms(1) by (cases opt) (auto simp: rest check_argc_def strncmp0_def set_number app_throw_ok)
qed

lemma ipv4_options_prefix:
  assumes "list_all (cl_ok loss) opts" "2 \<le> length rest"
  shows "ipv4_options loss argv0 (concat (map cl_args opts) @ rest) g = ipv4_options loss argv0 rest (fold (ip_meaning loss) opts g)"
  using assms
proof (induction opts arbitrary: g)
  case (Cons opt opts)
  then show ?case
    using ipv4_options_written [of loss opt "concat (map cl_args opts) @ rest" argv0 g] by (simp del: ipv4_options.simps)
qed simp

lemma ipv4_options_all:
  assumes "list_all (cl_ok loss) opts"
  shows "ipv4_options loss argv0 (concat (map cl_args opts) @ [host, port]) g = Inr (fold (ip_meaning loss) opts g, [host, port])"
  using ipv4_options_prefix [OF assms, of "[host, port]"] by simp

fun udp_knows :: "cl_option \<Rightarrow> bool" where
  "udp_knows (OptSource _) \<longleftrightarrow> False"
| "udp_knows (OptPort _) \<longleftrightarrow> False"
| "udp_knows (OptDevice _) \<longleftrightarrow> False"
| "udp_knows _ \<longleftrightarrow> True"

lemma udp_options_prefix:
  assumes "list_all (cl_ok loss) opts" "list_all udp_knows opts" "2 \<le> length rest"
  shows "udp_options loss argv0 (concat (map cl_args opts) @ rest) g = udp_options loss argv0 rest (fold (cl_meaning loss) opts g)"
  using assms
proof (induction opts arbitrary: g)
  case (Cons opt opts)
  then show ?case
    using udp_options_written [of loss opt "concat (map cl_args opts) @ rest" argv0 g]
    by (cases opt) (simp_all del: udp_options.simps)
qed simp

lemma udp_options_all:
  assumes "list_all (cl_ok loss) opts" "list_all udp_knows opts"
  shows "udp_options loss argv0 (concat (map cl_args opts) @ [host, port]) g = Inr (fold (cl_meaning loss) opts g, [host, port])"
  using udp_options_prefix [OF assms, of "[host, port]"] by simp

text \<open>The help option, and a rate that cannot be converted.\<close>

lemma options_help:
  assumes "2 \<le> length rest"
  shows "ipv4_options loss argv0 (''-h'' # rest) g = Inl (AppExit 0 (ip_show_usage argv0 None))"
    and "udp_options loss argv0 (''-h'' # rest) g' = Inl (AppExit 0 (udp_show_usage argv0 None))"
proof -
  obtain a b rest' where "rest = a # b # rest'"
    using assms by (cases rest; cases "tl rest") auto
  then show "ipv4_options loss argv0 (''-h'' # rest) g = Inl (AppExit 0 (ip_show_usage argv0 None))"
    and "udp_options loss argv0 (''-h'' # rest) g' = Inl (AppExit 0 (udp_show_usage argv0 None))"
    by (simp_all add: strncmp0_def)
qed

lemma options_bad_rate:
  assumes "loss r = Inl e" "opt = ''-Lu'' \<or> opt = ''-Ld''" "2 \<le> length rest"
  shows "ipv4_options loss argv0 (opt # r # rest) g = Inl (AppThrew e)"
    and "udp_options loss argv0 (opt # r # rest) g' = Inl (AppThrew e)"
proof -
  obtain a b rest' where "rest = a # b # rest'"
    using assms(3) by (cases rest; cases "tl rest") auto
  then show "ipv4_options loss argv0 (opt # r # rest) g = Inl (AppThrew e)"
    and "udp_options loss argv0 (opt # r # rest) g' = Inl (AppThrew e)"
    using assms(1,2) by (auto simp: strncmp0_def check_argc_def)
qed

text \<open>The loop leaves the host and the port, whatever the arguments are.\<close>

lemma check_argc_Inr: "check_argc show_usage argv err continue = Inr x \<longleftrightarrow> 3 < length argv \<and> continue = Inr x"
  by (auto simp: check_argc_def)

lemma bind_stop_Inr: "bind_stop r f = Inr x \<longleftrightarrow> (\<exists>y. r = Inr y \<and> f y = Inr x)"
  by (auto simp: bind_stop_def split: sum.splits)

lemma ipv4_options_step:
  assumes "ipv4_options loss argv0 (opt # arg # a # args) g = Inr r"
  shows "\<exists>args' g'. args' \<in> {arg # a # args, a # args} \<and> 2 \<le> length args' \<and> ipv4_options loss argv0 args' g' = Inr r"
proof -
  have l: "3 < length (opt # arg # a # args) \<Longrightarrow> 2 \<le> length (a # args)" "2 \<le> length (arg # a # args)"
    by (cases args; simp)+
  show ?thesis
    using assms unfolding ipv4_options.simps Let_def
    by (simp only: check_argc_Inr bind_stop_Inr split: if_splits) (use l in blast)+
qed

lemma ipv4_options_positional:
  "ipv4_options loss argv0 args g = Inr (g', rest) \<Longrightarrow> 2 \<le> length args \<Longrightarrow> length rest = 2"
proof (induction "length args" arbitrary: args g rule: less_induct)
  case less
  consider h p where "args = [h, p]" | opt arg a args' where "args = opt # arg # a # args'"
    using less.prems(2) by (cases args; cases "tl args"; cases "tl (tl args)") auto
  then show ?case
  proof cases
    case 2
    have "ipv4_options loss argv0 (opt # arg # a # args') g = Inr (g', rest)"
      using less.prems(1) by (simp only: 2)
    from ipv4_options_step [OF this] obtain args2 g2
      where "args2 \<in> {arg # a # args', a # args'}" "2 \<le> length args2" "ipv4_options loss argv0 args2 g2 = Inr (g', rest)"
      by (elim exE conjE)
    moreover from this(1) have "length args2 < length args"
      by (auto simp: 2)
    ultimately show ?thesis
      using less.hyps by blast
  qed (use less.prems(1) in auto)
qed

section \<open>Properties\<close>


definition loss_example :: "string \<Rightarrow> exn + 16 word" where
  "loss_example str = (if str = ''0.5'' then Inr 0x7fff else Inr 0)"


end
