(* ===== verification/Applications.thy ===== *)
theory Applications
  imports Command_Line
begin

text \<open>
  The programs of \<open>apps\<close>: \<open>tcp_ipv4\<close>, \<open>tcp_udp\<close>, \<open>tcp_native\<close> and \<open>webget\<close>. A program is a
  function from its arguments to what it prints on standard output, the state of the kernel
  and the code it exits with. The sockets of the library that the first two drive are operations
  of the record \<open>app_ops\<close>; the kernel's answers to \<open>tcp_native\<close> and \<open>webget\<close> are arguments.
  What is written to \<open>cerr\<close> is left out.
\<close>

section \<open>tcp\_ipv4 and tcp\_udp\<close>

text \<open>
  The socket is made (from the name of a TUN device, or from a UDP socket that is bound to an
  address in server mode), listens or connects, is copied from and to, and is closed.
\<close>

record ('o, 'k) app_ops =
  ao_make :: "'o \<Rightarrow> 'k \<Rightarrow> 'k \<times> exn option"
  ao_listen_and_accept :: "tcp_config \<Rightarrow> fd_adapter_config \<Rightarrow> 'k \<Rightarrow> 'k \<times> exn option"
  ao_connect :: "tcp_config \<Rightarrow> fd_adapter_config \<Rightarrow> 'k \<Rightarrow> 'k \<times> exn option"
  ao_bidirectional_stream_copy :: "'k \<Rightarrow> 'k \<times> exn option"
  ao_wait_until_closed :: "'k \<Rightarrow> 'k \<times> exn option"

definition app_run :: "('o, 'k) app_ops \<Rightarrow> 'o \<Rightarrow> 'a app_config_scheme \<Rightarrow> 'k \<Rightarrow> 'k \<times> exn option" where
  "app_run A made_from g k =
     seq_exn (seq_exn (seq_exn (ao_make A made_from k)
       (if gc_listen g then ao_listen_and_accept A (gc_fsm g) (gc_filt g) else ao_connect A (gc_fsm g) (gc_filt g)))
       (ao_bidirectional_stream_copy A))
       (ao_wait_until_closed A)"

text \<open>The end of \<open>main\<close>: \<open>EXIT_SUCCESS\<close> is 0, \<open>EXIT_FAILURE\<close> is 1.\<close>

definition app_exit :: "'k \<times> exn option \<Rightarrow> string \<times> 'k \<times> int" where
  "app_exit r = (case r of (k, None) \<Rightarrow> ('''', k, 0) | (k, Some _) \<Rightarrow> ('''', k, 1))"

definition app_start :: "app_stop + 'g \<Rightarrow> ('g \<Rightarrow> 'k \<times> exn option) \<Rightarrow> 'k \<Rightarrow> string \<times> 'k \<times> int" where
  "app_start config run k =
     (case config of
        Inl (AppExit code output) \<Rightarrow> (output, k, code)
      | Inl (AppThrew _) \<Rightarrow> ('''', k, 1)
      | Inr g \<Rightarrow> app_exit (run g))"

definition tcp_ipv4_main :: "netdb \<Rightarrow> (string \<Rightarrow> exn + 16 word) \<Rightarrow> 32 word \<Rightarrow> (string, 'k) app_ops \<Rightarrow> string \<Rightarrow> string list \<Rightarrow> 'k \<Rightarrow>
    string \<times> 'k \<times> int" where
  "tcp_ipv4_main nd loss random A argv0 args k =
     (if 1 + length args < 3 then (ip_show_usage argv0 (Some ''ERROR: required arguments are missing.''), k, 1)
      else app_start (ip_get_config nd loss random argv0 args)
        (\<lambda>g. app_run A (case gc_tundev g of None \<Rightarrow> ''tun144'' | Some tun_dev_name \<Rightarrow> tun_dev_name) g k) k)"

definition tcp_udp_main :: "netdb \<Rightarrow> (string \<Rightarrow> exn + 16 word) \<Rightarrow> (address option, 'k) app_ops \<Rightarrow> string \<Rightarrow> string list \<Rightarrow> 'k \<Rightarrow>
    string \<times> 'k \<times> int" where
  "tcp_udp_main nd loss A argv0 args k =
     (if 1 + length args < 3 then (udp_show_usage argv0 (Some ''ERROR: required arguments are missing.''), k, 1)
      else app_start (udp_get_config nd loss argv0 args)
        (\<lambda>g. app_run A (if gc_listen g then Some (fac_source (gc_filt g)) else None) g k) k)"

section \<open>tcp\_native\<close>

record native_answers =
  na_socket :: sys_result
  na_setsockopt :: sys_result
  na_bind :: "address \<Rightarrow> sys_result"
  na_listen :: sys_result
  na_accept :: sys_result
  na_domain :: "sys_result \<times> int \<times> nat"
  na_type :: "sys_result \<times> int \<times> nat"
  na_connect :: "address \<Rightarrow> sys_result"

definition after :: "exn option \<Rightarrow> exn + 'a \<Rightarrow> exn + 'a" where
  "after r continue = (case r of Some e \<Rightarrow> Inl e | None \<Rightarrow> continue)"

text \<open>The socket that is copied from and to; \<open>args\<close> starts with \<open>argv[1]\<close>.\<close>

definition native_socket :: "netdb \<Rightarrow> native_answers \<Rightarrow> bool \<Rightarrow> string list \<Rightarrow> exn + fd_wrapper" where
  "native_socket nd N server_mode args =
     (if server_mode
      then bind_exn (socket_construct (na_socket N)) (\<lambda>listening_socket.
           after (socket_setsockopt (na_setsockopt N))
           (bind_exn (address_of_host nd (args ! 1) (args ! 2)) (\<lambda>a.
           after (socket_bind (na_bind N a))
           (after (tcp_listen (na_listen N))
           (snd (tcp_accept (na_accept N) (na_domain N) (na_type N) listening_socket))))))
      else bind_exn (socket_construct (na_socket N)) (\<lambda>connecting_socket.
           bind_exn (address_of_host nd (args ! 0) (args ! 1)) (\<lambda>a.
           after (socket_connect (na_connect N a)) (Inr connecting_socket))))"

definition tcp_native_main :: "netdb \<Rightarrow> native_answers \<Rightarrow> (fd_wrapper \<Rightarrow> exn option) \<Rightarrow> string list \<Rightarrow> int" where
  "tcp_native_main nd N copy args =
     (let server_mode = (3 \<le> 1 + length args \<and> strncmp0 ''-l'' (args ! 0) 3)
      in if 1 + length args < 3 \<or> server_mode \<and> 1 + length args < 4 then 1
         else (case native_socket nd N server_mode args of
                 Inl _ \<Rightarrow> 1
               | Inr socket \<Rightarrow> if copy socket = None then 0 else 1))"

section \<open>webget\<close>

abbreviation crlf :: string where
  "crlf \<equiv> [CHR 0x0D, CHR 0x0A]"

definition url_request :: "string \<Rightarrow> string \<Rightarrow> string" where
  "url_request host path =
     ''GET '' @ path @ '' HTTP/1.1'' @ crlf @ ''Host: '' @ host @ crlf @ ''Connection: close'' @ crlf @ crlf"

text \<open>The loop, over what the kernel answers to each \<open>read\<close>; the bytes printed are collected.\<close>

fun url_loop :: "(sys_result \<times> bytes) list \<Rightarrow> fd_wrapper \<Rightarrow> bytes \<Rightarrow> fd_wrapper \<times> bytes \<times> loop_end" where
  "url_loop [] w printed = (w, printed, StillWaiting)"
| "url_loop ((res, bs) # answers) w printed =
     (case fd_read 1024 res bs w of
        (w, Inl e) \<Rightarrow> (w, printed, LoopThrew e)
      | (w, Inr chunk) \<Rightarrow> if chunk = [] then (w, printed, LoopDone) else url_loop answers w (printed @ chunk))"

text \<open>
  \<open>write(request.data(), request.size())\<close> is \<open>write(const char *, bool)\<close>: the size says that all is
  to be written, and the string ends at its first zero.
\<close>

definition url_write :: "'k writev \<Rightarrow> string \<Rightarrow> fd_wrapper \<Rightarrow> 'k \<Rightarrow> fd_wrapper \<times> 'k \<times> (exn + nat)" where
  "url_write writev request w k =
     fd_write writev (length request \<noteq> 0) (bvl_of_string (takeWhile (\<lambda>b. b \<noteq> 0) (map of_char request))) w k"

definition get_URL :: "netdb \<Rightarrow> (address \<Rightarrow> 'k \<Rightarrow> 'k \<times> exn option) \<Rightarrow> 'k writev \<Rightarrow> (sys_result \<times> bytes) list \<Rightarrow> sys_result \<Rightarrow>
    string \<Rightarrow> string \<Rightarrow> fd_wrapper \<Rightarrow> 'k \<Rightarrow> 'k \<times> bytes \<times> loop_end" where
  "get_URL nd connect writev answers close_answer host path w k =
     (case address_of_host nd host ''http'' of
        Inl e \<Rightarrow> (k, [], LoopThrew e)
      | Inr server_addr \<Rightarrow>
          (case connect server_addr k of
             (k, Some e) \<Rightarrow> (k, [], LoopThrew e)
           | (k, None) \<Rightarrow>
               (case url_write writev (url_request host path) w k of
                  (w, k, Inl e) \<Rightarrow> (k, [], LoopThrew e)
                | (w, k, Inr _) \<Rightarrow>
                    (case url_loop answers w [] of
                       (w, printed, LoopDone) \<Rightarrow>
                         (case fd_close close_answer w of
                            (w, Some e) \<Rightarrow> (k, printed, LoopThrew e)
                          | (w, None) \<Rightarrow> (k, printed, LoopDone))
                     | (w, printed, r) \<Rightarrow> (k, printed, r)))))"

text \<open>\<open>main\<close>: two arguments, or 1 after a message; any exception is 1 too. \<open>None\<close> is a program that has not ended.\<close>

definition webget_main :: "netdb \<Rightarrow> (address \<Rightarrow> 'k \<Rightarrow> 'k \<times> exn option) \<Rightarrow> 'k writev \<Rightarrow> (sys_result \<times> bytes) list \<Rightarrow> sys_result \<Rightarrow>
    string list \<Rightarrow> fd_wrapper \<Rightarrow> 'k \<Rightarrow> 'k \<times> bytes \<times> int option" where
  "webget_main nd connect writev answers close_answer args w k =
     (case args of
        [host, path] \<Rightarrow>
          (case get_URL nd connect writev answers close_answer host path w k of
             (k, printed, LoopDone) \<Rightarrow> (k, printed, Some 0)
           | (k, printed, LoopThrew _) \<Rightarrow> (k, printed, Some 1)
           | (k, printed, StillWaiting) \<Rightarrow> (k, printed, None))
      | _ \<Rightarrow> (k, [], Some 1))"

section \<open>What the programs do\<close>

text \<open>A program that copies exits with 0 exactly when every step succeeds, in the order of the code.\<close>

lemma seq_exn_ok: "seq_exn r f = (s', None) \<longleftrightarrow> (\<exists>s. r = (s, None) \<and> f s = (s', None))"
  by (auto simp: seq_exn_def split: prod.splits option.splits)

lemma app_run_ok:
  "app_run A m g k = (k', None) \<longleftrightarrow> (\<exists>k1 k2 k3. ao_make A m k = (k1, None) \<and>
    (if gc_listen g then ao_listen_and_accept A (gc_fsm g) (gc_filt g) k1 else ao_connect A (gc_fsm g) (gc_filt g) k1) = (k2, None) \<and>
    ao_bidirectional_stream_copy A k2 = (k3, None) \<and> ao_wait_until_closed A k3 = (k', None))"
  by (auto simp: app_run_def seq_exn_ok)

text \<open>What \<open>read(2)\<close> promises for its answers.\<close>

definition read_answer_ok :: "sys_result \<times> bytes \<Rightarrow> bool" where
  "read_answer_ok a \<longleftrightarrow> (case a of ((rv, errno), bs) \<Rightarrow>
     (rv < 0 \<longrightarrow> rv = -1 \<and> errno \<noteq> 0) \<and> (0 \<le> rv \<longrightarrow> nat rv \<le> 1024 \<and> length bs = nat rv))"

lemma url_loop_done:
  assumes "list_all read_answer_ok answers" "url_loop answers w printed = (w', printed', r)"
  shows "\<exists>n. printed' = printed @ concat (map snd (take n answers)) \<and>
    (r = LoopDone \<longrightarrow> take n answers = takeWhile (\<lambda>a. snd a \<noteq> []) answers)"
  using assms
proof (induction answers arbitrary: w printed)
  case Nil
  then show ?case
    by simp
next
  case (Cons a answers)
  obtain rv errno bs where a: "a = ((rv, errno), bs)"
    by (metis surj_pair)
  have ok: "rv < 0 \<Longrightarrow> rv = -1 \<and> errno \<noteq> 0" "0 \<le> rv \<Longrightarrow> nat rv \<le> min (1024 * 1024) 1024 \<and> length bs = nat rv"
    using Cons.prems(1) by (auto simp: a read_answer_ok_def)
  obtain w1 q where q: "fd_read 1024 (rv, errno) bs w = (w1, q)"
    by (cases "fd_read 1024 (rv, errno) bs w")
  show ?case
  proof (cases q)
    case (Inl e)
    then show ?thesis
      using Cons.prems(2) q by (intro exI [of _ 0]) (auto simp: a)
  next
    case (Inr chunk)
    have chunk: "chunk = bs"
      using fd_read_data [OF q [unfolded Inr] ok] by simp
    show ?thesis
    proof (cases "bs = []")
      case True
      then show ?thesis
        using Cons.prems(2) q chunk Inr by (intro exI [of _ 0]) (auto simp: a)
    next
      case False
      then obtain n where "printed' = (printed @ bs) @ concat (map snd (take n answers))"
        "r = LoopDone \<longrightarrow> take n answers = takeWhile (\<lambda>a. snd a \<noteq> []) answers"
        using Cons.IH [of w1 "printed @ bs"] Cons.prems q chunk Inr by (auto simp: a)
      then show ?thesis
        using False by (intro exI [of _ "Suc n"]) (simp add: a)
    qed
  qed
qed

lemma url_write_delivers:
  assumes "writev_spec writev out" "length request < two63" "(0 :: byte) \<notin> set (map of_char request)" "url_write writev request w k = (w', k', r)"
  shows "\<exists>m. out k' = out k @ take m (map of_char request) \<and> (\<forall>x. r = Inr x \<longrightarrow> m = length request)"
proof -
  let ?bs = "map of_char request :: bytes"
  have str: "takeWhile (\<lambda>b. b \<noteq> 0) ?bs = ?bs"
    using assms(3) by (auto simp: takeWhile_eq_all_conv)
  show ?thesis
  proof (cases "request = []")
    case True
    have "length (concat (bvl_of_string [])) < two63" "0 + length (concat (bvl_of_string [])) < two64"
      by (simp_all add: bvl_of_string_def two63_def two64_def)
    from fd_write_loop_spec [OF assms(1) this, of False w k w' k' r] show ?thesis
      using assms(4) True by (auto simp: url_write_def fd_write_def bvl_of_string_def)
  next
    case False
    have "length (concat (bvl_of_string ?bs)) < two63" "0 + length (concat (bvl_of_string ?bs)) < two64"
      using assms(2) by (simp_all add: bvl_of_string_def two63_def two64_def)
    from fd_write_loop_spec [OF assms(1) this, of True w k w' k' r] show ?thesis
      using assms(4) False str by (auto simp: url_write_def fd_write_def bvl_of_string_def)
  qed
qed

section \<open>Properties\<close>

text \<open>
  C39: webget asks for what it is told to and prints what it gets. With kernels that keep the
  promises of read and writev, whatever happens a prefix of the request has been sent and the bytes
  printed are those of the first reads, in order and unchanged; a run that exits with 0 has sent
  the whole request and printed every byte up to the first empty read.
\<close>

theorem webget_prints:
  assumes "writev_spec writev out" "\<And>a k. out (fst (connect a k)) = out k" "list_all read_answer_ok answers"
    and "(0 :: byte) \<notin> set (map of_char (host @ path))" "length (url_request host path) < two63"
    and "webget_main nd connect writev answers close_answer [host, path] w k = (k', printed, code)"
  shows "\<exists>m n. out k' = out k @ take m (map of_char (url_request host path)) \<and> printed = concat (map snd (take n answers)) \<and>
    (code = Some 0 \<longrightarrow> m = length (url_request host path) \<and> take n answers = takeWhile (\<lambda>a. snd a \<noteq> []) answers)"
proof -
  have request: "(0 :: byte) \<notin> set (map of_char (url_request host path))"
    using assms(4) by (auto simp: url_request_def)
  obtain k1 r where run: "get_URL nd connect writev answers close_answer host path w k = (k1, printed, r)" "k' = k1"
    "code = (case r of LoopDone \<Rightarrow> Some 0 | LoopThrew _ \<Rightarrow> Some 1 | StillWaiting \<Rightarrow> None)"
    using assms(6) by (auto simp: webget_main_def split: prod.splits loop_end.splits)
  show ?thesis
  proof (cases "address_of_host nd host ''http''")
    case (Inl e)
    then show ?thesis
      using run by (intro exI [of _ 0]) (auto simp: get_URL_def)
  next
    case (Inr a)
    obtain k2 e where c: "connect a k = (k2, e)"
      by (cases "connect a k")
    have out: "out k2 = out k"
      using assms(2) [of a k] by (simp add: c)
    obtain w3 k3 q where wr: "url_write writev (url_request host path) w k2 = (w3, k3, q)"
      by (metis prod_cases3)
    obtain m where m: "out k3 = out k2 @ take m (map of_char (url_request host path))"
      "\<forall>x. q = Inr x \<longrightarrow> m = length (url_request host path)"
      using url_write_delivers [OF assms(1,5) request wr] by blast
    obtain w4 printed4 r4 where l: "url_loop answers w3 [] = (w4, printed4, r4)"
      by (metis prod_cases3)
    obtain n where n: "printed4 = concat (map snd (take n answers))"
      "r4 = LoopDone \<longrightarrow> take n answers = takeWhile (\<lambda>a. snd a \<noteq> []) answers"
      using url_loop_done [OF assms(3) l] by auto
    show ?thesis
    proof (cases e)
      case (Some e')
      then show ?thesis
        using run out Inr c by (intro exI [of _ 0]) (auto simp: get_URL_def)
    next
      case None
      show ?thesis
      proof (cases q)
        case (Inl e')
        then show ?thesis
          using run out Inr c None wr m by (intro exI [of _ m] exI [of _ 0]) (auto simp: get_URL_def)
      next
        case q: (Inr x)
        then show ?thesis
          using run out Inr c None wr m l n
          by (intro exI [of _ m] exI [of _ n]) (auto simp: get_URL_def split: loop_end.splits prod.splits option.splits)
      qed
    qed
  qed
qed

definition writev_all :: "bytes writev" where
  "writev_all k iov = (let data = concat (map fst iov); n = min 1000 (length data) in ((int n, 0), k @ take n data))"

theorem webget_prints_witness:
  "\<exists>k'. webget_main netdb_example (\<lambda>_ k. (k, None)) writev_all [((3, 0), [72, 105, 33]), ((1, 0), [10]), ((0, 0), [])] (0, 0)
     [''10.0.0.1'', ''/''] fd_example [] = (k', [72, 105, 33, 10], Some 0) \<and>
   k' = map of_char (''GET / HTTP/1.1'' @ crlf @ ''Host: 10.0.0.1'' @ crlf @ ''Connection: close'' @ crlf @ crlf)"
proof -
  let ?request = "url_request ''10.0.0.1'' ''/''" and ?answers = "[((3, 0), [72, 105, 33]), ((1, 0), [10]), ((0, 0), [])] :: (sys_result \<times> bytes) list"
  have spec: "writev_spec writev_all id"
    by (auto simp: writev_spec_def writev_all_def Let_def)
  have nul: "(0 :: byte) \<notin> set (map of_char (''10.0.0.1'' @ ''/''))"
    by simp
  have len: "length ?request < two63"
    by (simp add: url_request_def two63_def)
  have host: "\<exists>a. address_of_host netdb_example ''10.0.0.1'' ''http'' = Inr a"
    by (simp add: address_of_host_def address_resolve_def netdb_example_def)
  have "\<exists>w' k' x. url_write writev_all ?request fd_example [] = (w', k', Inr x)"
    by (simp add: url_write_def url_request_def fd_write_def fd_write_loop.simps [of _ _ "[_]"] bvl_of_string_def
        writev_all_def bvl_as_iovecs_def system_call_def to_c_int_small bvl_size_def add64_def two64_def two63_def to_ssize_def of_ssize_def Let_def)
  then obtain w1 k1 x where wr: "url_write writev_all ?request fd_example [] = (w1, k1, Inr x)"
    by blast
  have "\<exists>w'. url_loop ?answers w [] = (w', [72, 105, 33, 10], LoopDone)" for w
    by (simp add: fd_read_def system_call_def to_c_int_small string_resize_def)
  then obtain w2 where l: "url_loop ?answers w1 [] = (w2, [72, 105, 33, 10], LoopDone)"
    by blast
  obtain w3 where c: "fd_close (0, 0) w2 = (w3, None)"
    by (auto simp: fd_close_def system_call_def to_c_int_small)
  obtain k' printed code where run: "webget_main netdb_example (\<lambda>_ k. (k, None)) writev_all ?answers (0, 0) [''10.0.0.1'', ''/''] fd_example [] =
      (k', printed, code)"
    by (metis prod_cases3)
  then have "code = Some 0"
    using host wr l c by (auto simp: webget_main_def get_URL_def)
  have "list_all read_answer_ok ?answers"
    by (simp add: read_answer_ok_def)
  from webget_prints [OF spec _ this nul len run] show ?thesis
    using run \<open>code = Some 0\<close> by (auto simp: url_request_def)
qed

end
