(* ===== verification/Chat_Protocol.thy ===== *)
theory Chat_Protocol
  imports Net_Parser Address
begin

text \<open>
  The packets of the chat program: \<open>send_packet\<close> and \<open>recv_packet\<close>, which \<open>lab2/server/server.cpp\<close>
  and \<open>lab2/client/client.cpp\<close> share. A packet is a type, a length of two bytes that counts the
  three bytes of the header, and a payload. \<open>recv\<close> is a function on a state of the kernel and
  \<open>recv_spec\<close> is its promise for a stream socket.
\<close>

section \<open>Sending and receiving\<close>

text \<open>The byte strings handed to \<open>send\<close>, whose results are ignored.\<close>

definition chat_send_packet :: "byte \<Rightarrow> bytes \<Rightarrow> nat \<Rightarrow> bytes list" where
  "chat_send_packet type payload payload_len =
     (let payload_len = payload_len mod 65536; header = type # be_bytes 2 (3 + payload_len)
      in if 0 < payload_len then [header, take payload_len payload] else [header])"

type_synonym 'k recv = "'k \<Rightarrow> nat \<Rightarrow> (int \<times> bytes) \<times> 'k"

definition chat_recv_packet :: "'k recv \<Rightarrow> 'k \<Rightarrow> 'k \<times> (byte \<times> bytes) option" where
  "chat_recv_packet recv k =
     (let ((n, h), k) = recv k 3
      in if n < 3 then (k, None)
         else let total_len = be_val (take 2 (drop 1 h));
                  payload_len = nat ((int total_len - 3) mod 65536);
                  ((n, data), k) = recv k payload_len
              in if n \<noteq> int payload_len then (k, None) else (k, Some (hd h, take payload_len data)))"

section \<open>What arrives is what was sent\<close>

text \<open>
  \<open>recv(2)\<close> hands over the next bytes of the stream, at most as many as it is asked for, or
  fails. \<open>pending k\<close> are the bytes still to come.
\<close>

definition recv_spec :: "'k recv \<Rightarrow> ('k \<Rightarrow> bytes) \<Rightarrow> bool" where
  "recv_spec recv pending \<longleftrightarrow> (\<forall>k n.
     let ((r, bs), k') = recv k n
     in (r < 0 \<longrightarrow> pending k' = pending k) \<and>
        (0 \<le> r \<longrightarrow> nat r \<le> n \<and> length bs = nat r \<and> pending k = bs @ pending k'))"

lemma recv_specD:
  assumes "recv_spec recv pending" "recv k n = ((r, bs), k')" "0 \<le> r"
  shows "nat r \<le> n" "length bs = nat r" "pending k = bs @ pending k'"
  using assms unfolding recv_spec_def Let_def by (metis (mono_tags, lifting) case_prod_conv)+

lemma concat_chat_send_packet:
  "length payload < 65536 \<Longrightarrow> concat (chat_send_packet type payload (length payload)) =
     type # be_bytes 2 (3 + length payload) @ payload"
  by (simp add: chat_send_packet_def Let_def)

text \<open>The header that is read, and the length that is made of it.\<close>

lemma chat_recv_header:
  assumes "recv_spec recv pending" "length payload \<le> 65532" "recv k 3 = ((n, h), k1)" "3 \<le> n"
    and "pending k = concat (chat_send_packet type payload (length payload)) @ rest"
  shows "n = 3" "hd h = type" "nat ((int (be_val (take 2 (drop 1 h))) - 3) mod 65536) = length payload"
    "pending k1 = payload @ rest"
proof -
  let ?h = "type # be_bytes 2 (3 + length payload)"
  show n: "n = 3"
    using recv_specD(1) [OF assms(1,3)] assms(4) by simp
  have hl: "length h = length ?h" "h @ pending k1 = ?h @ payload @ rest"
    using recv_specD(2,3) [OF assms(1,3)] n assms(2,5) by (simp_all add: concat_chat_send_packet)
  note split = iffD1 [OF append_eq_append_conv [OF disjI1 [OF hl(1)]] hl(2)]
  have h: "h = ?h" and k1: "pending k1 = payload @ rest"
    by (rule conjunct1 [OF split], rule conjunct2 [OF split])
  have "be_val (take 2 (drop 1 h)) = 3 + length payload"
    using assms(2) by (simp add: h be_val_bytes)
  then show "hd h = type" "nat ((int (be_val (take 2 (drop 1 h))) - 3) mod 65536) = length payload"
    "pending k1 = payload @ rest"
    using assms(2) h k1 by simp_all
qed

text \<open>A received packet is the next one that was sent, whatever pieces the kernel hands over.\<close>

lemma chat_recv_sent:
  assumes "recv_spec recv pending" "length payload \<le> 65532"
    and "pending k = concat (chat_send_packet type payload (length payload)) @ rest"
    and "chat_recv_packet recv k = (k', Some m)"
  shows "m = (type, payload) \<and> pending k' = rest"
proof -
  obtain n h k1 where h: "recv k 3 = ((n, h), k1)"
    by (cases "recv k 3") auto
  have n: "3 \<le> n"
    using assms(4) by (auto simp: chat_recv_packet_def h Let_def split: if_splits)
  note hd = chat_recv_header [OF assms(1,2) h n assms(3)]
  obtain l data k2 where d: "recv k1 (length payload) = ((l, data), k2)"
    by (cases "recv k1 (length payload)") auto
  have r: "l = int (length payload)" "m = (hd h, take (length payload) data)" "k' = k2"
    using assms(4) n hd(3) d by (auto simp: chat_recv_packet_def h Let_def split: if_splits)
  have l: "0 \<le> l"
    by (simp add: r(1))
  have data: "length data = length payload"
    using recv_specD(2) [OF assms(1) d l] by (simp add: r(1))
  have "data @ pending k2 = payload @ rest"
    by (rule trans [OF recv_specD(3) [OF assms(1) d l, symmetric] hd(4)])
  note split = iffD1 [OF append_eq_append_conv [OF disjI1 [OF data]] this]
  have "data = payload" "pending k2 = rest"
    by (rule conjunct1 [OF split], rule conjunct2 [OF split])
  then show ?thesis
    using r(2,3) hd(2) by simp
qed

text \<open>
  Whether the packet is received depends on the two calls alone: the first has to return the three
  bytes of the header and the second the whole payload. \<open>recv(2)\<close> does not promise either, however
  many bytes are on their way. Otherwise the connection counts as ended.
\<close>

definition recv_full :: "'k recv \<Rightarrow> 'k \<Rightarrow> nat \<Rightarrow> bool" where
  "recv_full recv k payload_len \<longleftrightarrow>
     (let ((n, h), k1) = recv k 3 in n = 3 \<and> fst (fst (recv k1 payload_len)) = int payload_len)"

lemma chat_recv_exact:
  assumes "recv_spec recv pending" "length payload \<le> 65532"
    and "pending k = concat (chat_send_packet type payload (length payload)) @ rest"
  shows "if recv_full recv k (length payload)
    then \<exists>k'. chat_recv_packet recv k = (k', Some (type, payload)) \<and> pending k' = rest
    else \<exists>k'. chat_recv_packet recv k = (k', None)"
proof -
  obtain n h k1 where h: "recv k 3 = ((n, h), k1)"
    by (cases "recv k 3") auto
  obtain l data k2 where d: "recv k1 (length payload) = ((l, data), k2)"
    by (cases "recv k1 (length payload)") auto
  show ?thesis
  proof (cases "3 \<le> n")
    case True
    note hd = chat_recv_header [OF assms(1,2) h True assms(3)]
    have r: "chat_recv_packet recv k =
        (k2, if l = int (length payload) then Some (hd h, take (length payload) data) else None)"
      unfolding chat_recv_packet_def h Let_def prod.case hd(3) d using hd(1) by simp
    then show ?thesis
      using chat_recv_sent [OF assms, of k2 "(hd h, take (length payload) data)"] hd(1)
      by (simp add: recv_full_def h d)
  next
    case False
    then show ?thesis
      by (simp add: recv_full_def h chat_recv_packet_def)
  qed
qed

section \<open>Deviations\<close>

text \<open>
  Only one \<open>recv\<close> is made for the header and one for the payload, so a packet of which TCP has
  delivered a part is taken for the end of the connection.
\<close>

theorem chat_short_read:
  assumes "recv k 3 = ((3, type # be_bytes 2 (3 + plen)), k1)" "plen \<le> 65532"
    and "recv k1 plen = ((int got, bs), k2)" "got < plen"
  shows "chat_recv_packet recv k = (k2, None)"
proof -
  have "be_val (be_bytes 2 (3 + plen)) = 3 + plen"
    using assms(2) by (simp add: be_val_bytes)
  then show ?thesis
    using assms by (simp add: chat_recv_packet_def Let_def)
qed

text \<open>A length field below 3 is not refused: the receiver waits for 65533 bytes and more.\<close>

theorem chat_short_length_wraps:
  assumes "recv k 3 = ((3, [type, 0, 0]), k1)" "recv k1 65533 = ((65533, bs), k2)" "length bs = 65533"
  shows "chat_recv_packet recv k = (k2, Some (type, bs))"
  using assms by (simp add: chat_recv_packet_def be_val_def)

end
