(* ===== verification/Chat_Server.thy ===== *)
theory Chat_Server
  imports Chat_Protocol
begin

text \<open>
  The chat server (\<open>lab2/server/server.cpp\<close>): the table of clients with its counter, the answers
  of \<open>handle_client\<close> to a packet, the removal at the end of a client's thread, and the loop of
  \<open>main\<close> that accepts. An execution is a sequence of the steps of \<open>srv_step\<close>, among them every
  single call of \<open>send\<close>, and \<open>srv_inv\<close> holds after every one. \<open>list_mutex\<close> is held while the table
  is changed or searched and while the answers made from it are sent, and it is not held for
  the answers to requests for the time and the name. C arrays of a
  fixed size are bytes to which \<open>c_append\<close> adds, with no meaning past the end.
\<close>

section \<open>State\<close>

abbreviation MAX_CLIENTS :: int where "MAX_CLIENTS \<equiv> 100"

record chat_client =
  cc_id :: nat
  cc_ip :: bytes
  cc_port :: nat
  cc_sock :: int

definition chat_client_zero :: chat_client where
  "chat_client_zero = \<lparr>cc_id = 0, cc_ip = [], cc_port = 0, cc_sock = 0\<rparr>"

record chat_server =
  cs_client_list :: "chat_client list"
  cs_num_clients :: int
  cs_next_id :: nat

definition chat_server_start :: chat_server where
  "chat_server_start = \<lparr>cs_client_list = replicate 100 chat_client_zero, cs_num_clients = 0, cs_next_id = 1\<rparr>"

definition srv_clients :: "chat_server \<Rightarrow> chat_client list" where
  "srv_clients s = take (nat (cs_num_clients s)) (cs_client_list s)"

section \<open>Answers\<close>

definition c_append :: "nat \<Rightarrow> bytes \<Rightarrow> bytes \<Rightarrow> exn + bytes" where
  "c_append n buf data =
     (if length buf + length data \<le> n then Inr (buf @ data)
      else Inl (UndefinedBehaviour ''write past the end of an array''))"

text \<open>What the platform answers: \<open>ctime\<close> of the current time, and the host's name.\<close>

record srv_env =
  sv_ctime :: bytes
  sv_hostname :: bytes

definition srv_time :: "srv_env \<Rightarrow> exn + bytes" where
  "srv_time env =
     (if sv_ctime env = [] \<or> 32 \<le> length (sv_ctime env) then Inl (UndefinedBehaviour ''time_str'')
      else Inr (butlast (sv_ctime env)))"

definition list_entry :: "chat_client \<Rightarrow> bytes" where
  "list_entry c = be_bytes 4 (cc_id c) @ be_bytes 2 (cc_port c) @ be_bytes 2 (length (cc_ip c)) @ cc_ip c"

text \<open>The loop over the table; \<open>buf\<close> is \<open>payload_buf\<close> up to \<open>off\<close>.\<close>

fun list_loop :: "chat_client list \<Rightarrow> bytes \<Rightarrow> exn + bytes" where
  "list_loop [] buf = Inr buf"
| "list_loop (c # cs) buf = (case c_append 4096 buf (list_entry c) of Inl e \<Rightarrow> Inl e | Inr buf \<Rightarrow> list_loop cs buf)"

definition srv_list :: "chat_server \<Rightarrow> exn + bytes" where
  "srv_list s = list_loop (srv_clients s) (be_bytes 4 (nat (cs_num_clients s)))"

text \<open>A message for another client: its socket, and what is sent there.\<close>

definition srv_message :: "nat \<Rightarrow> nat \<Rightarrow> bytes \<Rightarrow> chat_server \<Rightarrow> exn + (int \<times> bytes list) option" where
  "srv_message index my_id data s =
     (if length data < 6 then Inr None
      else let target_id = be_val (take 4 data); msg_len = be_val (take 2 (drop 4 data))
           in if length data \<noteq> 6 + msg_len then Inr None
              else (case find (\<lambda>c. cc_id c = target_id) (srv_clients s) of
                      None \<Rightarrow> Inr None
                    | Some c \<Rightarrow>
                        let target_sock = cc_sock c; sender = cs_client_list s ! index
                        in if target_sock = -1 then Inr None
                           else (case c_append 1024 [] (be_bytes 4 my_id @ be_bytes 2 (cc_port sender) @
                                   be_bytes 2 (length (cc_ip sender)) @ cc_ip sender @ be_bytes 2 msg_len @ drop 6 data) of
                                   Inl e \<Rightarrow> Inl e
                                 | Inr fpay \<Rightarrow> Inr (Some (target_sock, chat_send_packet 13 fpay (length fpay))))))"

text \<open>One pass of the loop of \<open>handle_client\<close> after a packet has come.\<close>

definition srv_handle :: "srv_env \<Rightarrow> nat \<Rightarrow> int \<Rightarrow> nat \<Rightarrow> byte \<Rightarrow> bytes \<Rightarrow> chat_server \<Rightarrow> exn + (int \<times> bytes list) option" where
  "srv_handle env index sock my_id type data s =
     (if type = 1 then
        (case srv_time env of Inl e \<Rightarrow> Inl e | Inr time_str \<Rightarrow> Inr (Some (sock, chat_send_packet 10 time_str (length time_str))))
      else if type = 2 then Inr (Some (sock, chat_send_packet 11 (sv_hostname env) (length (sv_hostname env))))
      else if type = 3 then
        (case srv_list s of Inl e \<Rightarrow> Inl e | Inr payload_buf \<Rightarrow> Inr (Some (sock, chat_send_packet 12 payload_buf (length payload_buf))))
      else if type = 4 then srv_message index my_id data s
      else Inr None)"

section \<open>Coming and going\<close>

text \<open>The end of \<open>handle_client\<close>: everything behind \<open>index\<close> moves down by one.\<close>

definition srv_remove :: "nat \<Rightarrow> chat_server \<Rightarrow> chat_server" where
  "srv_remove index s = s\<lparr>
     cs_client_list := foldl (\<lambda>l i. l[i := l ! (i + 1)]) (cs_client_list s) [index..<nat (cs_num_clients s - 1)],
     cs_num_clients := cs_num_clients s - 1\<rparr>"

text \<open>The body of the loop of \<open>main\<close>: the index of the new client, unless the table is full.\<close>

definition srv_accept :: "32 word \<Rightarrow> 16 word \<Rightarrow> int \<Rightarrow> chat_server \<Rightarrow> chat_server \<times> nat option" where
  "srv_accept sin_addr sin_port client_sock s =
     (if cs_num_clients s < MAX_CLIENTS
      then let index = nat (cs_num_clients s);
               c = \<lparr>cc_id = cs_next_id s, cc_ip = map of_char (inet_ntoa sin_addr), cc_port = unat sin_port, cc_sock = client_sock\<rparr>
           in (s\<lparr>cs_client_list := (cs_client_list s)[index := c], cs_num_clients := cs_num_clients s + 1,
                 cs_next_id := cs_next_id s + 1\<rparr>, Some index)
      else (s, None))"

section \<open>Executions\<close>

text \<open>
  A thread between its creation and its first look at the table is an index; after that it has
  its socket, its number, the byte strings it has still to hand to \<open>send\<close> for the packet it
  answers, each with the socket it goes to, and whether it holds \<open>list_mutex\<close>. \<open>next_id\<close> is an
  \<open>int\<close>, whose increment past 2147483647 has no meaning, so accepting stops there.
\<close>

record chat_thread =
  ct_index :: nat
  ct_sock :: int
  ct_id :: nat
  ct_sending :: "(int \<times> bytes) list"
  ct_locked :: bool

record chat_world =
  cw_server :: chat_server
  cw_created :: "nat list"
  cw_threads :: "chat_thread list"

definition thread_start :: "nat \<Rightarrow> chat_server \<Rightarrow> chat_thread" where
  "thread_start index s = \<lparr>ct_index = index, ct_sock = cc_sock (cs_client_list s ! index),
     ct_id = cc_id (cs_client_list s ! index), ct_sending = [], ct_locked = False\<rparr>"

definition list_mutex_free :: "chat_world \<Rightarrow> bool" where
  "list_mutex_free w \<longleftrightarrow> \<not> list_ex ct_locked (cw_threads w)"

text \<open>Which cases of the \<open>switch\<close> take the mutex: the list and a message for another client.\<close>

definition takes_list_mutex :: "byte \<Rightarrow> bool" where
  "takes_list_mutex type \<longleftrightarrow> type = 3 \<or> type = 4"

inductive srv_step :: "srv_env \<Rightarrow> chat_world \<Rightarrow> (int \<times> bytes) option \<Rightarrow> chat_world \<Rightarrow> bool" for env where
  srv_accepted: "list_mutex_free w \<Longrightarrow> cs_next_id (cw_server w) < 2147483647 \<Longrightarrow> 0 \<le> sock \<Longrightarrow>
    srv_accept sin_addr sin_port sock (cw_server w) = (s, Some index) \<Longrightarrow>
    srv_step env w None (w\<lparr>cw_server := s, cw_created := index # cw_created w\<rparr>)"
| srv_refused: "list_mutex_free w \<Longrightarrow> srv_accept sin_addr sin_port sock (cw_server w) = (s, None) \<Longrightarrow>
    srv_step env w None w"
| srv_started: "cw_created w = is @ index # js \<Longrightarrow>
    srv_step env w None (w\<lparr>cw_created := is @ js, cw_threads := thread_start index (cw_server w) # cw_threads w\<rparr>)"
| srv_ignored: "t \<in> set (cw_threads w) \<Longrightarrow> ct_sending t = [] \<Longrightarrow> takes_list_mutex type \<longrightarrow> list_mutex_free w \<Longrightarrow>
    srv_handle env (ct_index t) (ct_sock t) (ct_id t) type data (cw_server w) = Inr None \<Longrightarrow> srv_step env w None w"
| srv_answering: "cw_threads w = ts @ t # us \<Longrightarrow> ct_sending t = [] \<Longrightarrow> takes_list_mutex type \<longrightarrow> list_mutex_free w \<Longrightarrow>
    srv_handle env (ct_index t) (ct_sock t) (ct_id t) type data (cw_server w) = Inr (Some (sock, parts)) \<Longrightarrow>
    srv_step env w None (w\<lparr>cw_threads :=
      ts @ t\<lparr>ct_sending := map (Pair sock) parts, ct_locked := takes_list_mutex type\<rparr> # us\<rparr>)"
| srv_sent: "cw_threads w = ts @ t # us \<Longrightarrow> ct_sending t = part # parts \<Longrightarrow>
    srv_step env w (Some part) (w\<lparr>cw_threads :=
      ts @ t\<lparr>ct_sending := parts, ct_locked := ct_locked t \<and> parts \<noteq> []\<rparr> # us\<rparr>)"
| srv_left: "list_mutex_free w \<Longrightarrow> cw_threads w = ts @ t # us \<Longrightarrow> ct_sending t = [] \<Longrightarrow>
    srv_step env w None (w\<lparr>cw_server := srv_remove (ct_index t) (cw_server w), cw_threads := ts @ us\<rparr>)"

inductive srv_reach :: "srv_env \<Rightarrow> chat_world \<Rightarrow> bool" for env where
  srv_start: "srv_reach env \<lparr>cw_server = chat_server_start, cw_created = [], cw_threads = []\<rparr>"
| srv_next: "srv_reach env w \<Longrightarrow> srv_step env w out w' \<Longrightarrow> srv_reach env w'"

section \<open>The invariant\<close>

text \<open>An entry that fits its fields; a C string has no zero inside.\<close>

definition client_ok :: "chat_client \<Rightarrow> bool" where
  "client_ok c \<longleftrightarrow> cc_id c < 2147483648 \<and> cc_port c < 65536 \<and> length (cc_ip c) \<le> 15 \<and> 0 \<notin> set (cc_ip c) \<and> 0 \<le> cc_sock c"

definition srv_inv :: "chat_world \<Rightarrow> bool" where
  "srv_inv w \<longleftrightarrow> (let s = cw_server w in
     length (cs_client_list s) = 100 \<and> list_all client_ok (cs_client_list s) \<and> cs_next_id s < 2147483648 \<and>
     cs_num_clients s = int (length (cw_created w) + length (cw_threads w)) \<and> cs_num_clients s \<le> MAX_CLIENTS \<and>
     list_all (\<lambda>i. i < 100) (cw_created w) \<and> list_all (\<lambda>t. ct_index t < 100 \<and> ct_id t < 2147483648) (cw_threads w))"

lemma dec_string_short:
  "n < 256 \<Longrightarrow> length (dec_string n) \<le> 3 \<and> list_all (\<lambda>c. (of_char c :: byte) \<noteq> 0) (dec_string n)"
proof -
  have d: "length (dec_string n) = 1 \<and> list_all (\<lambda>c. (of_char c :: byte) \<noteq> 0) (dec_string n)" if "n < 10" for n
  proof -
    have "(of_char (char_of (48 + n) :: char) :: byte) = word_of_nat (48 + n)"
      using of_char_digit [OF that] of_nat_of_char [of "char_of (48 + n)", where 'a = byte] by simp
    moreover have "unat (word_of_nat (48 + n) :: byte) = 48 + n"
      using that by (subst unat_of_nat) simp
    ultimately have "(of_char (char_of (48 + n) :: char) :: byte) \<noteq> 0"
      by auto
    then show ?thesis
      using that by (simp add: dec_string.simps [of n])
  qed
  have e: "length (dec_string n) \<le> 2 \<and> list_all (\<lambda>c. (of_char c :: byte) \<noteq> 0) (dec_string n)" if "n < 100" for n
    using d [of "n div 10"] d [of "n mod 10"] d [of n] that
    by (cases "n < 10") (simp_all add: dec_string.simps [of n] dec_string.simps [of "n mod 10"])
  assume "n < 256"
  then show ?thesis
    using e [of "n div 10"] d [of "n mod 10"] d [of n]
    by (cases "n < 10") (simp_all add: dec_string.simps [of n] dec_string.simps [of "n mod 10"])
qed

lemma inet_ntoa_client:
  "length (map of_char (inet_ntoa ip) :: bytes) \<le> 15 \<and> 0 \<notin> set (map of_char (inet_ntoa ip) :: bytes)"
proof -
  have q: "length (dec_string (k mod 256)) \<le> 3 \<and> list_all (\<lambda>c. (of_char c :: byte) \<noteq> 0) (dec_string (k mod 256))" for k
    by (rule dec_string_short) simp
  have dot: "(of_char (CHR ''.'') :: byte) \<noteq> 0"
    by simp
  show ?thesis
    using q [of "unat ip div 16777216"] q [of "unat ip div 65536"] q [of "unat ip div 256"] q [of "unat ip"] dot
    by (auto simp: inet_ntoa_def list_all_iff simp del: of_char_Char)
qed

lemma srv_shift_ok:
  "length l = 100 \<Longrightarrow> list_all client_ok l \<Longrightarrow> n \<le> 99 \<Longrightarrow>
    length (foldl (\<lambda>l i. l[i := l ! (i + 1)]) l [index..<n]) = 100 \<and>
    list_all client_ok (foldl (\<lambda>l i. l[i := l ! (i + 1)]) l [index..<n])"
proof (induction n)
  case (Suc n)
  then show ?case
    by (auto simp: list_all_length nth_list_update)
qed simp

lemma srv_accept_inv:
  assumes "srv_inv w" "cs_next_id (cw_server w) < 2147483647" "0 \<le> sock"
    and "srv_accept sin_addr sin_port sock (cw_server w) = (s, Some index)"
  shows "srv_inv (w\<lparr>cw_server := s, cw_created := index # cw_created w\<rparr>)"
proof -
  let ?c = "\<lparr>cc_id = cs_next_id (cw_server w), cc_ip = map of_char (inet_ntoa sin_addr), cc_port = unat sin_port, cc_sock = sock\<rparr>"
  have "client_ok ?c"
    using assms(1,2,3) inet_ntoa_client [of sin_addr] unat_16 [of sin_port] by (simp add: client_ok_def)
  then show ?thesis
    using assms(1,2,4) by (auto simp: srv_inv_def srv_accept_def Let_def list_all_iff split: if_splits
        dest!: subsetD [OF set_update_subset_insert])
qed

text \<open>What a thread has still to send is no part of the invariants.\<close>

lemma srv_inv_sending:
  "cw_threads w = ts @ t # us \<Longrightarrow>
    srv_inv (w\<lparr>cw_threads := ts @ t\<lparr>ct_sending := parts, ct_locked := b\<rparr> # us\<rparr>) = srv_inv w"
  by (simp add: srv_inv_def Let_def)

lemma srv_step_inv: "srv_step env w out w' \<Longrightarrow> srv_inv w \<Longrightarrow> srv_inv w'"
proof (induction rule: srv_step.induct)
  case (srv_started w "is" index js)
  then have "index < length (cs_client_list (cw_server w))" "list_all client_ok (cs_client_list (cw_server w))"
    by (auto simp: srv_inv_def Let_def)
  then have "client_ok (cs_client_list (cw_server w) ! index)"
    by (simp add: list_all_length)
  then show ?case
    using srv_started by (auto simp: srv_inv_def Let_def thread_start_def client_ok_def)
next
  case (srv_left w ts t us)
  have "length (cs_client_list (cw_server w)) = 100" "list_all client_ok (cs_client_list (cw_server w))"
    "nat (cs_num_clients (cw_server w) - 1) \<le> 99"
    using srv_left by (auto simp: srv_inv_def Let_def)
  note shift = srv_shift_ok [OF this, of "ct_index t"]
  show ?case
    using srv_left shift by (auto simp: srv_inv_def Let_def srv_remove_def)
qed (auto intro: srv_accept_inv simp: srv_inv_sending)

text \<open>At most one thread holds the mutex.\<close>

lemma srv_step_mutex:
  "srv_step env w out w' \<Longrightarrow> length (filter ct_locked (cw_threads w)) \<le> 1 \<Longrightarrow> length (filter ct_locked (cw_threads w')) \<le> 1"
proof (induction rule: srv_step.induct)
  case (srv_answering w ts t us type data sock parts)
  have "filter ct_locked (cw_threads w) = []" if "takes_list_mutex type"
    using srv_answering.hyps(3) that by (auto simp: list_mutex_free_def list_ex_iff filter_empty_conv)
  then show ?case
    using srv_answering by (cases "takes_list_mutex type") (auto split: if_splits)
qed (auto simp: thread_start_def list_mutex_free_def split: if_splits)

lemma srv_reach_mutex: "srv_reach env w \<Longrightarrow> length (filter ct_locked (cw_threads w)) \<le> 1"
  by (induction rule: srv_reach.induct) (simp_all add: srv_step_mutex del: One_nat_def)

lemma srv_reach_inv: "srv_reach env w \<Longrightarrow> srv_inv w"
proof (induction rule: srv_reach.induct)
  case srv_start
  then show ?case
    by (simp add: srv_inv_def chat_server_start_def client_ok_def chat_client_zero_def list_all_iff)
qed (blast intro: srv_step_inv)

section \<open>The answers fit\<close>

lemma list_loop_ok:
  "list_all client_ok cs \<Longrightarrow> length buf + 23 * length cs \<le> 4096 \<Longrightarrow> list_loop cs buf = Inr (buf @ concat (map list_entry cs))"
proof (induction cs arbitrary: buf)
  case (Cons c cs)
  then have "length (list_entry c) \<le> 23"
    by (simp add: client_ok_def list_entry_def)
  then show ?case
    using Cons by (simp add: c_append_def)
qed simp

lemma srv_clients_ok:
  assumes "srv_inv w"
  shows "list_all client_ok (srv_clients (cw_server w))"
    "length (srv_clients (cw_server w)) = nat (cs_num_clients (cw_server w))" "nat (cs_num_clients (cw_server w)) \<le> 100"
  using assms by (auto simp: srv_inv_def srv_clients_def Let_def list_all_iff dest!: in_set_takeD)

lemma length_list_entries: "list_all client_ok cs \<Longrightarrow> length (concat (map list_entry cs)) \<le> 23 * length cs"
  by (induction cs) (auto simp: client_ok_def list_entry_def)

lemma srv_list_ok:
  assumes "srv_inv w"
  shows "srv_list (cw_server w) =
      Inr (be_bytes 4 (length (srv_clients (cw_server w))) @ concat (map list_entry (srv_clients (cw_server w))))"
  using srv_clients_ok [OF assms] by (simp add: srv_list_def list_loop_ok)

text \<open>A message, when its recipient is in the table and it fits.\<close>

definition message_payload :: "nat \<Rightarrow> bytes \<Rightarrow> bytes" where
  "message_payload target text = be_bytes 4 target @ be_bytes 2 (length text) @ text"

definition forwarded_payload :: "nat \<Rightarrow> chat_client \<Rightarrow> bytes \<Rightarrow> bytes" where
  "forwarded_payload my_id sender text = be_bytes 4 my_id @ be_bytes 2 (cc_port sender) @
     be_bytes 2 (length (cc_ip sender)) @ cc_ip sender @ be_bytes 2 (length text) @ text"

lemma srv_message_eq:
  assumes "target < 4294967296" "length text < 65536"
  shows "srv_message index my_id (message_payload target text) s =
     (case find (\<lambda>c. cc_id c = target) (srv_clients s) of
        None \<Rightarrow> Inr None
      | Some c \<Rightarrow>
          if cc_sock c = -1 then Inr None
          else if length (forwarded_payload my_id (cs_client_list s ! index) text) \<le> 1024
          then Inr (Some (cc_sock c, chat_send_packet 13 (forwarded_payload my_id (cs_client_list s ! index) text)
            (length (forwarded_payload my_id (cs_client_list s ! index) text))))
          else Inl (UndefinedBehaviour ''write past the end of an array''))"
proof -
  have "be_val (take 4 (message_payload target text)) = target"
    "be_val (take 2 (drop 4 (message_payload target text))) = length text"
    "drop 6 (message_payload target text) = text" "length (message_payload target text) = 6 + length text"
    using assms by (simp_all add: message_payload_def be_val_bytes)
  then show ?thesis
    by (simp add: srv_message_def Let_def c_append_def forwarded_payload_def split: option.splits)
qed

text \<open>Removing by an index that is still the client's own removes that client.\<close>

lemma srv_shift_nth:
  "n < length l \<Longrightarrow> length (foldl (\<lambda>l i. l[i := l ! (i + 1)]) l [index..<n]) = length l \<and>
    (\<forall>j < length l. foldl (\<lambda>l i. l[i := l ! (i + 1)]) l [index..<n] ! j = (if index \<le> j \<and> j < n then l ! (j + 1) else l ! j))"
proof (induction n)
  case (Suc n)
  then show ?case
    by (auto simp: nth_list_update)
qed simp

lemma srv_remove_own:
  assumes "index < nat (cs_num_clients s)" "nat (cs_num_clients s) \<le> length (cs_client_list s)"
  shows "srv_clients (srv_remove index s) = take index (srv_clients s) @ drop (Suc index) (srv_clients s)"
proof -
  define n where "n = nat (cs_num_clients s) - 1"
  have n: "nat (cs_num_clients s - 1) = n" "nat (cs_num_clients s) = Suc n" "index \<le> n" "n < length (cs_client_list s)"
    using assms by (simp_all add: n_def)
  note shift = srv_shift_nth [OF n(4), of index]
  have "srv_clients (srv_remove index s) = take n (foldl (\<lambda>l i. l[i := l ! (i + 1)]) (cs_client_list s) [index..<n])"
    by (simp add: srv_clients_def srv_remove_def n(1))
  also have "\<dots> = take index (srv_clients s) @ drop (Suc index) (srv_clients s)"
    by (rule nth_equalityI) (use shift n in \<open>auto simp: srv_clients_def nth_append min_def\<close>)
  finally show ?thesis .
qed

text \<open>Every entry that a thread looks at has an address.\<close>

definition srv_named :: "chat_world \<Rightarrow> bool" where
  "srv_named w \<longleftrightarrow> (\<forall>j. int j < cs_num_clients (cw_server w) \<or> j \<in> set (cw_created w) \<union> ct_index ` set (cw_threads w) \<longrightarrow>
     2 \<le> length (cc_ip (cs_client_list (cw_server w) ! j)))"

lemma srv_step_named: "srv_step env w out w' \<Longrightarrow> srv_inv w \<Longrightarrow> srv_named w \<Longrightarrow> srv_named w'"
proof (induction rule: srv_step.induct)
  case (srv_accepted w sock sin_addr sin_port s index)
  have "2 \<le> length (inet_ntoa sin_addr)"
    by (simp add: inet_ntoa_def)
  then show ?case
    using srv_accepted by (auto simp: srv_named_def srv_inv_def srv_accept_def Let_def nth_list_update split: if_splits)
next
  case (srv_left w ts t us)
  let ?l = "cs_client_list (cw_server w)" and ?n = "nat (cs_num_clients (cw_server w) - 1)"
  have l: "length ?l = 100" "?n < length ?l" "int ?n = cs_num_clients (cw_server w) - 1"
    using srv_left by (auto simp: srv_inv_def Let_def)
  have named: "2 \<le> length (cc_ip (?l ! j))"
    if "int j < cs_num_clients (cw_server w) \<or> j \<in> set (cw_created w) \<or> j \<in> ct_index ` set (cw_threads w)" for j
    using srv_left.prems(2) that by (auto simp: srv_named_def)
  have bound: "j < 100" if "int j < cs_num_clients (cw_server w) \<or> j \<in> set (cw_created w) \<or> j \<in> ct_index ` set (cw_threads w)" for j
    using srv_left.prems(1) that by (auto simp: srv_inv_def Let_def list_all_iff)
  show ?case
    unfolding srv_named_def
  proof (intro allI impI)
    fix j
    assume "int j < cs_num_clients (cw_server (w\<lparr>cw_server := srv_remove (ct_index t) (cw_server w), cw_threads := ts @ us\<rparr>)) \<or>
      j \<in> set (cw_created (w\<lparr>cw_server := srv_remove (ct_index t) (cw_server w), cw_threads := ts @ us\<rparr>)) \<union>
        ct_index ` set (cw_threads (w\<lparr>cw_server := srv_remove (ct_index t) (cw_server w), cw_threads := ts @ us\<rparr>))"
    then have j: "int j < cs_num_clients (cw_server w) \<or> j \<in> set (cw_created w) \<or> j \<in> ct_index ` set (cw_threads w)"
      using srv_left.hyps by (auto simp: srv_remove_def)
    have "2 \<le> length (cc_ip (?l ! (j + 1)))" if "j < ?n"
      by (rule named) (use that l(3) in linarith)
    then show "2 \<le> length (cc_ip (cs_client_list (cw_server (w\<lparr>cw_server := srv_remove (ct_index t) (cw_server w), cw_threads := ts @ us\<rparr>)) ! j))"
      using named [OF j] bound [OF j] srv_shift_nth [OF l(2), of "ct_index t"] l(1) by (simp add: srv_remove_def)
  qed
qed (auto simp: srv_named_def thread_start_def)

lemma srv_reach_named: "srv_reach env w \<Longrightarrow> srv_named w"
proof (induction rule: srv_reach.induct)
  case srv_start
  then show ?case
    by (simp add: srv_named_def chat_server_start_def)
qed (blast intro: srv_step_named srv_reach_inv)

section \<open>Deviations\<close>

lemma srv_reach_accepted:
  assumes "srv_reach env w" "cs_next_id (cw_server w) < 2147483647" "0 \<le> sock"
    and "srv_accept sin_addr sin_port sock (cw_server w) = (s, Some index)" "list_mutex_free w"
  shows "srv_reach env (w\<lparr>cw_server := s, cw_created := index # cw_created w\<rparr>)"
  by (rule srv_next [OF assms(1) srv_accepted [OF assms(5,2-4)]])

lemma srv_reach_started:
  assumes "srv_reach env w" "cw_created w = [index]"
  shows "srv_reach env (w\<lparr>cw_created := [], cw_threads := thread_start index (cw_server w) # cw_threads w\<rparr>)"
  using srv_next [OF assms(1) srv_started [of w "[]" index "[]"]] assms(2) by simp

text \<open>
  A thread keeps the index it was created with, although the table moves under it. Three clients
  come; the first leaves, then the second: it removes the third, whose thread goes on.
\<close>

theorem chat_stale_index:
  "\<exists>w. srv_reach env w \<and> map cc_id (srv_clients (cw_server w)) = [2] \<and> map ct_id (cw_threads w) = [3]"
proof -
  let ?c = "\<lambda>i. \<lparr>cc_id = i, cc_ip = map of_char (inet_ntoa 0), cc_port = 0, cc_sock = int i\<rparr>"
  let ?s = "\<lambda>l n. \<lparr>cs_client_list = l, cs_num_clients = int n, cs_next_id = n + 1\<rparr>"
  let ?t = "\<lambda>i. \<lparr>ct_index = i, ct_sock = int (i + 1), ct_id = i + 1, ct_sending = [], ct_locked = False\<rparr>"
  let ?w = "\<lambda>l n ts. \<lparr>cw_server = ?s l n, cw_created = [], cw_threads = ts\<rparr>"
  have join: "srv_reach env (?w (l[n := ?c (n + 1)]) (n + 1) (?t n # ts))"
    if w: "srv_reach env (?w l n ts)" and n: "n < 100" "length l = 100" "\<not> list_ex ct_locked ts" for l n ts
  proof -
    have "srv_reach env ((?w l n ts)\<lparr>cw_server := ?s (l[n := ?c (n + 1)]) (n + 1), cw_created := n # cw_created (?w l n ts)\<rparr>)"
      by (rule srv_reach_accepted [OF w, where sin_addr = 0 and sin_port = 0 and sock = "int (n + 1)"])
        (use n in \<open>simp_all add: srv_accept_def list_mutex_free_def\<close>)
    from srv_reach_started [OF this] show ?thesis
      using n by (simp add: thread_start_def)
  qed
  let ?z = "replicate 100 chat_client_zero"
  let ?l = "?z[0 := ?c 1, 1 := ?c 2, 2 := ?c 3]"
  have "srv_reach env (?w ?z 0 [])"
    using srv_start by (simp add: chat_server_start_def)
  from join [OF join [OF join [OF this]]]
  have w: "srv_reach env (?w ?l 3 [?t 2, ?t 1, ?t 0])"
    by (simp add: eval_nat_numeral)
  have clients: "map cc_id (srv_clients (?s ?l 3)) = [1, 2, 3]"
    by (simp add: srv_clients_def take_update_swap numeral_3_eq_3 numeral_2_eq_2)
  have left: "srv_reach env (w\<lparr>cw_server := srv_remove (ct_index t) (cw_server w), cw_threads := ts\<rparr>)"
    if "srv_reach env w" "cw_threads w = ts @ [t]" "list_mutex_free w" "ct_sending t = []" for w t ts
    using srv_next [OF that(1) srv_left [of w ts t "[]"]] that(2-4) by simp
  let ?a = "srv_remove 0 (?s ?l 3)" and ?b = "srv_remove 1 (srv_remove 0 (?s ?l 3))"
  have "map cc_id (srv_clients ?a) = [2, 3]"
    using srv_remove_own [of 0 "?s ?l 3"] clients by (simp add: drop_map [symmetric] take_map [symmetric])
  moreover have "cs_num_clients ?a = 2" "length (cs_client_list ?a) = 100"
    using srv_shift_nth [of 2 ?l 0] by (simp_all add: srv_remove_def)
  ultimately have "map cc_id (srv_clients ?b) = [2]"
    using srv_remove_own [of 1 ?a] by (simp add: drop_map [symmetric] take_map [symmetric])
  moreover have "srv_reach env \<lparr>cw_server = ?b, cw_created = [], cw_threads = [?t 2]\<rparr>"
    using left [OF left [OF w, of "[?t 2, ?t 1]" "?t 0"], of "[?t 2]" "?t 1"]
    by (simp add: list_mutex_free_def)
  ultimately show ?thesis
    by (intro exI [of _ "\<lparr>cw_server = ?b, cw_created = [], cw_threads = [?t 2]\<rparr>"]) simp
qed

text \<open>
  The answers to requests for the time and the name are sent in two calls without the mutex. Here
  a thread has sent the header of such an answer when another one forwards a message to the same
  client: header and payload of the message come between the header and the payload of the answer.
\<close>

theorem chat_answers_mixed:
  assumes "cw_threads w = [t, u]" "list_mutex_free w" "ct_sending t = []" "ct_sending u = []" "type = 1 \<or> type = 2"
    and "srv_handle env (ct_index t) (ct_sock t) (ct_id t) type data (cw_server w) = Inr (Some (sock, [h, p]))"
    and "srv_handle env (ct_index u) (ct_sock u) (ct_id u) 4 data' (cw_server w) = Inr (Some (sock, [h', p']))"
  shows "\<exists>w1 w2 w3 w4 w5 w6. srv_step env w None w1 \<and> srv_step env w1 (Some (sock, h)) w2 \<and>
    srv_step env w2 None w3 \<and> srv_step env w3 (Some (sock, h')) w4 \<and> srv_step env w4 (Some (sock, p')) w5 \<and>
    srv_step env w5 (Some (sock, p)) w6"
proof -
  let ?w = "\<lambda>t u. w\<lparr>cw_threads := [t, u]\<rparr>"
  let ?t = "\<lambda>ps. t\<lparr>ct_sending := ps, ct_locked := False\<rparr>"
  let ?u = "\<lambda>ps b. u\<lparr>ct_sending := ps, ct_locked := b\<rparr>"
  have l: "\<not> ct_locked u"
    using assms(1,2) by (simp add: list_mutex_free_def)
  have "srv_step env w None (?w (?t [(sock, h), (sock, p)]) u)"
    using srv_answering [of w "[]" t "[u]" type env data sock "[h, p]"] assms(1,3,5,6)
    by (auto simp: takes_list_mutex_def)
  moreover have "srv_step env (?w (?t [(sock, h), (sock, p)]) u) (Some (sock, h)) (?w (?t [(sock, p)]) u)"
    using srv_sent [of "?w (?t [(sock, h), (sock, p)]) u" "[]" "?t [(sock, h), (sock, p)]" "[u]"] by simp
  moreover have "srv_step env (?w (?t [(sock, p)]) u) None (?w (?t [(sock, p)]) (?u [(sock, h'), (sock, p')] True))"
    using srv_answering [of "?w (?t [(sock, p)]) u" "[?t [(sock, p)]]" u "[]" 4 env data' sock "[h', p']"] assms(4,7) l
    by (simp add: takes_list_mutex_def list_mutex_free_def)
  moreover have "srv_step env (?w (?t [(sock, p)]) (?u [(sock, h'), (sock, p')] True)) (Some (sock, h'))
      (?w (?t [(sock, p)]) (?u [(sock, p')] True))"
    using srv_sent [of "?w (?t [(sock, p)]) (?u [(sock, h'), (sock, p')] True)" "[?t [(sock, p)]]" "?u [(sock, h'), (sock, p')] True" "[]"] by simp
  moreover have "srv_step env (?w (?t [(sock, p)]) (?u [(sock, p')] True)) (Some (sock, p'))
      (?w (?t [(sock, p)]) (?u [] False))"
    using srv_sent [of "?w (?t [(sock, p)]) (?u [(sock, p')] True)" "[?t [(sock, p)]]" "?u [(sock, p')] True" "[]"] by simp
  moreover have "srv_step env (?w (?t [(sock, p)]) (?u [] False)) (Some (sock, p)) (?w (?t []) (?u [] False))"
    using srv_sent [of "?w (?t [(sock, p)]) (?u [] False)" "[]" "?t [(sock, p)]"] by simp
  ultimately show ?thesis
    by blast
qed

text \<open>
  A message of 1015 bytes or more for a client in the table writes past the end of \<open>fpay\<close>; the
  program's own client cannot send one, but the server does not check.
\<close>

theorem chat_message_overflow:
  assumes "find (\<lambda>c. cc_id c = target) (srv_clients s) = Some c" "cc_sock c \<noteq> -1" "target < 4294967296"
    and "1014 < length text" "length text < 65536"
  shows "srv_handle env index sock my_id 4 (message_payload target text) s =
    Inl (UndefinedBehaviour ''write past the end of an array'')"
  using assms by (simp add: srv_handle_def srv_message_eq forwarded_payload_def)

end
