(* ===== verification/Chat_Client.thy ===== *)
theory Chat_Client
  imports Chat_Protocol
begin

text \<open>
  The chat client (\<open>lab2/client/client.cpp\<close>): the queue between the receiving thread and \<open>main\<close>,
  what is printed of a packet, waiting for a choice, and the commands. Printing is the list of what
  is shown. What the user types, what \<open>select\<close>, \<open>connect\<close> and \<open>socket\<close> answer and what arrives while
  \<open>main\<close> waits are arguments.
\<close>

section \<open>What is shown of a packet\<close>

type_synonym message = "byte \<times> bytes"

datatype cl_output = ShowTime bytes | ShowName bytes | ShowList "(nat \<times> bytes \<times> nat) list"
  | ShowMessage nat bytes nat bytes | ShowConnected | ShowNotConnected | ShowSent
  | ShowMenuConnected | ShowMenuUnconnected | ShowPrompt | ShowNewline

text \<open>\<open>printf\<close> of \<open>%s\<close> stops at a zero.\<close>

definition c_string :: "bytes \<Rightarrow> bytes" where
  "c_string bs = takeWhile (\<lambda>b. b \<noteq> 0) bs"

text \<open>The address of an entry: 15 bytes at most, and none when they are not all there.\<close>

definition cl_address :: "bytes \<Rightarrow> nat \<Rightarrow> nat \<Rightarrow> bytes" where
  "cl_address buf off iplen =
     (let ip_bytes = min 15 iplen
      in if off + ip_bytes \<le> length buf then c_string (take ip_bytes (drop off buf)) else [])"

text \<open>The loop over a list: \<open>num\<close> entries are left, the next one is at \<open>off\<close>.\<close>

fun cl_list_loop :: "bytes \<Rightarrow> nat \<Rightarrow> nat \<Rightarrow> (nat \<times> bytes \<times> nat) list" where
  "cl_list_loop buf num off =
     (if num = 0 \<or> length buf \<le> off \<or> length buf < off + 8 then []
      else let cid = be_val (take 4 (drop off buf));
               cport = be_val (take 2 (drop (off + 4) buf));
               ciplen = be_val (take 2 (drop (off + 6) buf));
               cip = cl_address buf (off + 8) ciplen
           in (cid, cip, cport) # cl_list_loop buf (num - 1) (off + 8 + ciplen))"

declare cl_list_loop.simps [simp del]

definition cl_show :: "message \<Rightarrow> cl_output list" where
  "cl_show m =
     (let (type, buf) = m
      in if type = 10 then [ShowTime (c_string buf)]
         else if type = 11 then [ShowName (c_string buf)]
         else if type = 12 then
           (if length buf < 4 then [] else [ShowList (cl_list_loop buf (be_val (take 4 buf)) 4)])
         else [])"

definition cl_process_sync_response :: "message list \<Rightarrow> cl_output list" where
  "cl_process_sync_response msg_queue = concat (map cl_show msg_queue)"

text \<open>
  A message from another client. The text is as long as its length field says, up to 255: nothing
  compares that with what has arrived, and without a zero \<open>printf\<close> reads past the end.
\<close>

definition cl_print_async_message :: "bytes \<Rightarrow> exn + cl_output option" where
  "cl_print_async_message buf =
     (let plen = length buf
      in if plen < 12 then Inr None
         else let sid = be_val (take 4 buf);
                  sport = be_val (take 2 (drop 4 buf));
                  siplen = be_val (take 2 (drop 6 buf));
                  sip = cl_address buf 8 siplen;
                  off = 8 + siplen
              in if plen < off + 2 then Inr None
                 else let mlen = be_val (take 2 (drop off buf));
                          msg = drop (off + 2) buf;
                          msg_bytes = min 255 mlen
                      in if length msg < msg_bytes \<and> 0 \<notin> set msg
                         then Inl (UndefinedBehaviour ''read past the end of the payload'')
                         else Inr (Some (ShowMessage sid sip sport (c_string (take msg_bytes msg)))))"

section \<open>The two threads\<close>

record chat_state =
  ch_sock :: int
  ch_connected :: bool
  ch_msg_queue :: "message list"

text \<open>One pass of \<open>recv_thread_func\<close> after a packet has come.\<close>

definition cl_receive :: "message \<Rightarrow> chat_state \<Rightarrow> chat_state \<times> (exn + cl_output option)" where
  "cl_receive m s =
     (if fst m = 13 then (s, cl_print_async_message (snd m))
      else (s\<lparr>ch_msg_queue := ch_msg_queue s @ [m]\<rparr>, Inr None))"

text \<open>
  \<open>wait_for_sync_response\<close>: \<open>arrivals\<close> is what the other thread pushes before each look at the
  queue. The last look holds the mutex while \<open>process_sync_response\<close> locks it again.
\<close>

fun cl_next :: "message list list \<Rightarrow> message list \<times> message list list" where
  "cl_next [] = ([], [])"
| "cl_next (ms # arrivals) = (ms, arrivals)"

fun cl_wait :: "nat \<Rightarrow> message list list \<Rightarrow> message list \<Rightarrow> message list \<times> (exn + cl_output list)" where
  "cl_wait 0 arrivals msg_queue = (msg_queue, Inr [])"
| "cl_wait (Suc attempts) arrivals msg_queue =
     (let (new, arrivals) = cl_next arrivals; msg_queue = msg_queue @ new
      in if msg_queue \<noteq> []
         then let later = fst (cl_next arrivals)
              in if later \<noteq> [] then (later, Inl (UndefinedBehaviour ''queue_mutex is locked twice''))
                 else ([], Inr (cl_process_sync_response msg_queue))
         else cl_wait attempts arrivals msg_queue)"

section \<open>Commands\<close>

text \<open>The line of a message: what \<open>fgets\<close> stores of it, up to the end of the line.\<close>

definition cl_message_line :: "bytes \<Rightarrow> bytes" where
  "cl_message_line line = takeWhile (\<lambda>b. b \<noteq> 10 \<and> b \<noteq> 0) (take 255 line)"

definition cl_message_payload :: "int \<Rightarrow> bytes \<Rightarrow> bytes" where
  "cl_message_payload tid msg = be_bytes 4 (nat (tid mod 4294967296)) @ be_bytes 2 (length msg) @ msg"

record cl_input =
  ci_ip :: bytes
  ci_connect :: bool
  ci_socket :: int
  ci_tid :: int
  ci_line :: "bytes option"
  ci_arrivals :: "message list list"

record cl_effect =
  ce_sent :: "bytes list"
  ce_shown :: "cl_output list"
  ce_exit :: "nat option"

abbreviation cl_nothing :: cl_effect where
  "cl_nothing \<equiv> \<lparr>ce_sent = [], ce_shown = [], ce_exit = None\<rparr>"

text \<open>\<open>process_sync_response\<close> in \<open>main\<close>, where nothing else holds the mutex.\<close>

definition cl_drain :: "chat_state \<Rightarrow> chat_state \<times> cl_output list" where
  "cl_drain s = (s\<lparr>ch_msg_queue := []\<rparr>, cl_process_sync_response (ch_msg_queue s))"

definition cl_request :: "byte \<Rightarrow> cl_input \<Rightarrow> chat_state \<Rightarrow> exn + chat_state \<times> cl_effect" where
  "cl_request type inp s =
     (case cl_wait 50 (ci_arrivals inp) (ch_msg_queue s) of
        (_, Inl e) \<Rightarrow> Inl e
      | (msg_queue, Inr shown) \<Rightarrow>
          Inr (s\<lparr>ch_msg_queue := msg_queue\<rparr>, cl_nothing\<lparr>ce_sent := chat_send_packet type [] 0, ce_shown := shown\<rparr>))"

definition cl_connect :: "cl_input \<Rightarrow> chat_state \<Rightarrow> exn + chat_state \<times> cl_effect" where
  "cl_connect inp s =
     (if 16 \<le> length (ci_ip inp) then Inl (UndefinedBehaviour ''write past the end of an array'')
      else if ci_connect inp
      then let (s, shown) = cl_drain (s\<lparr>ch_connected := True\<rparr>)
           in Inr (s, cl_nothing\<lparr>ce_shown := ShowConnected # shown\<rparr>)
      else Inr (s, cl_nothing\<lparr>ce_shown := [ShowNotConnected]\<rparr>))"

definition cl_send_message :: "cl_input \<Rightarrow> chat_state \<Rightarrow> chat_state \<times> cl_effect" where
  "cl_send_message inp s =
     (case ci_line inp of
        None \<Rightarrow> (s, cl_nothing)
      | Some line \<Rightarrow>
          let pay = cl_message_payload (ci_tid inp) (cl_message_line line)
          in (s, cl_nothing\<lparr>ce_sent := chat_send_packet 4 pay (length pay), ce_shown := [ShowSent]\<rparr>))"

text \<open>The body of the loop of \<open>main\<close> after the choice has been read; the queue is drained before (\<open>cl_drain\<close>).\<close>

definition cl_choose :: "int \<Rightarrow> cl_input \<Rightarrow> chat_state \<Rightarrow> exn + chat_state \<times> cl_effect" where
  "cl_choose choice inp s =
     (if choice < 0 then Inr (s, cl_nothing)
      else if \<not> ch_connected s then
        (if choice = 1 then cl_connect inp s
         else if choice = 7 then Inr (s, cl_nothing\<lparr>ce_exit := Some 0\<rparr>)
         else Inr (s, cl_nothing))
      else if choice = 2 then
        (let (s, shown) = cl_drain (s\<lparr>ch_connected := False\<rparr>); s = s\<lparr>ch_sock := ci_socket inp\<rparr>
         in Inr (s, cl_nothing\<lparr>ce_shown := shown, ce_exit := (if ci_socket inp < 0 then Some 1 else None)\<rparr>))
      else if choice = 3 then cl_request 1 inp s
      else if choice = 4 then cl_request 2 inp s
      else if choice = 5 then cl_request 3 inp s
      else if choice = 6 then Inr (cl_send_message inp s)
      else if choice = 7 then
        (let (s, shown) = cl_drain (s\<lparr>ch_connected := False\<rparr>)
         in Inr (s, cl_nothing\<lparr>ce_shown := shown, ce_exit := Some 0\<rparr>))
      else Inr (s, cl_nothing))"

section \<open>Waiting for a choice\<close>

text \<open>
  What one call of \<open>select\<close> finds: its result, whether the pipe and standard input are ready,
  what \<open>fgets\<close> then reads (\<open>None\<close> at the end of the input), and what the other thread has pushed
  before the queue is looked at. \<open>EINTR\<close> is 4.
\<close>

record select_answer =
  sa_ret :: int
  sa_errno :: int
  sa_signal :: bool
  sa_stdin :: bool
  sa_line :: "bytes option"
  sa_arrived :: "message list"

datatype choice_end = Choice int | StillReading

text \<open>\<open>atoi\<close> of a line of at most nine characters.\<close>

definition cl_atoi :: "bytes \<Rightarrow> int" where
  "cl_atoi line =
     (let s = dropWhile (\<lambda>b. b = 32 \<or> 9 \<le> b \<and> b \<le> 13) line;
          negative = (s \<noteq> [] \<and> hd s = 45);
          s = (if s \<noteq> [] \<and> (hd s = 45 \<or> hd s = 43) then tl s else s);
          n = foldl (\<lambda>n b. n * 10 + (unat b - 48)) 0 (takeWhile (\<lambda>b. 48 \<le> b \<and> b \<le> 57) s)
      in if negative then - int n else int n)"

definition cl_menu :: "bool \<Rightarrow> cl_output list" where
  "cl_menu is_connected = [if is_connected then ShowMenuConnected else ShowMenuUnconnected, ShowPrompt]"

text \<open>The loop: messages left in the queue, what is shown, and the choice.\<close>

fun cl_read_loop :: "bool \<Rightarrow> select_answer list \<Rightarrow> message list \<Rightarrow> message list \<times> cl_output list \<times> choice_end" where
  "cl_read_loop is_connected [] msg_queue = (msg_queue, [], StillReading)"
| "cl_read_loop is_connected (a # answers) msg_queue =
     (let msg_queue = msg_queue @ sa_arrived a;
          prompt = (if 0 < sa_ret a \<and> is_connected \<and> sa_signal a then ShowNewline # cl_menu is_connected else [])
      in if 0 < sa_ret a \<and> sa_stdin a \<and> sa_line a \<noteq> None
         then (msg_queue, prompt, Choice (cl_atoi (takeWhile (\<lambda>b. b \<noteq> 10 \<and> b \<noteq> 0) (take 9 (the (sa_line a))))))
         else if sa_ret a < 0 \<and> sa_errno a \<noteq> 4 then (msg_queue, prompt, Choice (-1))
         else let shown = (if is_connected then cl_process_sync_response msg_queue else []);
                  msg_queue = (if is_connected then [] else msg_queue);
                  (msg_queue, later, choice) = cl_read_loop is_connected answers msg_queue
              in (msg_queue, prompt @ shown @ later, choice))"

definition read_choice :: "bool \<Rightarrow> select_answer list \<Rightarrow> message list \<Rightarrow> message list \<times> cl_output list \<times> choice_end" where
  "read_choice is_connected answers msg_queue =
     (let (msg_queue, shown, choice) = cl_read_loop is_connected answers msg_queue
      in (msg_queue, cl_menu is_connected @ shown, choice))"

text \<open>
  \<open>main\<close>: each pass has its own inputs. The result is the state, what was sent and shown, and the
  code the program exits with; \<open>None\<close> is a program that is still waiting.
\<close>

fun cl_main_loop :: "(select_answer list \<times> cl_input) list \<Rightarrow> chat_state \<Rightarrow> exn + chat_state \<times> cl_effect" where
  "cl_main_loop [] s = Inr (s, cl_nothing)"
| "cl_main_loop ((answers, inp) # inputs) s =
     (let (s, shown) = cl_drain s;
          (msg_queue, menu, choice) = read_choice (ch_connected s) answers (ch_msg_queue s);
          s = s\<lparr>ch_msg_queue := msg_queue\<rparr>
      in case choice of
           StillReading \<Rightarrow> Inr (s, cl_nothing\<lparr>ce_shown := shown @ menu\<rparr>)
         | Choice choice \<Rightarrow>
             bind_exn (cl_choose choice inp s) (\<lambda>(s, e).
               if ce_exit e \<noteq> None then Inr (s, e\<lparr>ce_shown := shown @ menu @ ce_shown e\<rparr>)
               else bind_exn (cl_main_loop inputs s) (\<lambda>(s, later).
                 Inr (s, \<lparr>ce_sent = ce_sent e @ ce_sent later, ce_shown = shown @ menu @ ce_shown e @ ce_shown later,
                   ce_exit = ce_exit later\<rparr>))))"

definition cl_main :: "int \<Rightarrow> int \<Rightarrow> (select_answer list \<times> cl_input) list \<Rightarrow> exn + chat_state \<times> cl_effect" where
  "cl_main pipe_ret socket_ret inputs =
     (let s = \<lparr>ch_sock = socket_ret, ch_connected = False, ch_msg_queue = []\<rparr>
      in if pipe_ret < 0 \<or> socket_ret < 0 then Inr (s, cl_nothing\<lparr>ce_exit := Some 1\<rparr>)
         else cl_main_loop inputs s)"

text \<open>While the client waits, every answer that has come is shown once, in the order in which it came, or still queued.\<close>

fun is_answer :: "cl_output \<Rightarrow> bool" where
  "is_answer (ShowTime _) \<longleftrightarrow> True"
| "is_answer (ShowName _) \<longleftrightarrow> True"
| "is_answer (ShowList _) \<longleftrightarrow> True"
| "is_answer _ \<longleftrightarrow> False"

lemma cl_process_append [simp]:
  "cl_process_sync_response (ms @ ms') = cl_process_sync_response ms @ cl_process_sync_response ms'" "cl_process_sync_response [] = []"
  by (simp_all add: cl_process_sync_response_def)

lemma is_answer_process: "filter is_answer (cl_process_sync_response ms) = cl_process_sync_response ms"
  by (induction ms) (auto simp: cl_process_sync_response_def cl_show_def Let_def)

lemma read_choice_conserves:
  assumes "read_choice is_connected answers msg_queue = (msg_queue', shown, choice)"
  shows "\<exists>n. filter is_answer shown @ cl_process_sync_response msg_queue' =
    cl_process_sync_response (msg_queue @ concat (map sa_arrived (take n answers)))"
proof -
  have "\<exists>n. filter is_answer shown @ cl_process_sync_response msg_queue' =
      cl_process_sync_response (msg_queue @ concat (map sa_arrived (take n answers)))"
    if "cl_read_loop is_connected answers msg_queue = (msg_queue', shown, choice)" for shown
    using that
  proof (induction answers arbitrary: msg_queue shown)
    case Nil
    then show ?case
      by simp
  next
    case (Cons a answers)
    let ?q = "msg_queue @ sa_arrived a"
    have prompt: "filter is_answer (cl_menu b) = []" for b
      by (simp add: cl_menu_def)
    show ?case
    proof (cases "0 < sa_ret a \<and> sa_stdin a \<and> sa_line a \<noteq> None \<or> sa_ret a < 0 \<and> sa_errno a \<noteq> 4")
      case True
      then show ?thesis
        using Cons.prems prompt by (intro exI [of _ 1]) (auto simp: Let_def split: if_splits)
    next
      case False
      obtain later where l: "cl_read_loop is_connected answers (if is_connected then [] else ?q) = (msg_queue', later, choice)"
        and shown: "filter is_answer shown = (if is_connected then cl_process_sync_response ?q else []) @ filter is_answer later"
        using Cons.prems False prompt is_answer_process [of "sa_arrived a"] is_answer_process [of msg_queue]
        by (auto simp: Let_def split: if_splits prod.splits)
      obtain n where "filter is_answer later @ cl_process_sync_response msg_queue' =
          cl_process_sync_response ((if is_connected then [] else ?q) @ concat (map sa_arrived (take n answers)))"
        using Cons.IH [OF l] by blast
      then show ?thesis
        using shown by (intro exI [of _ "Suc n"]) auto
    qed
  qed
  then show ?thesis
    using assms by (force simp: read_choice_def cl_menu_def split: prod.splits)
qed

section \<open>Lists are read within bounds and to the end\<close>

text \<open>An entry of a list as the server writes it.\<close>

definition entry_bytes :: "nat \<times> bytes \<times> nat \<Rightarrow> bytes" where
  "entry_bytes e = (let (cid, cip, cport) = e in be_bytes 4 cid @ be_bytes 2 cport @ be_bytes 2 (length cip) @ cip)"

definition entry_fits :: "nat \<times> bytes \<times> nat \<Rightarrow> bool" where
  "entry_fits e = (let (cid, cip, cport) = e in cid < 4294967296 \<and> cport < 65536 \<and> length cip \<le> 15 \<and> 0 \<notin> set cip)"

lemma c_string_id [simp]: "0 \<notin> set bs \<Longrightarrow> c_string bs = bs"
  by (auto simp: c_string_def takeWhile_eq_all_conv)

lemma cl_list_loop_entries:
  "list_all entry_fits es \<Longrightarrow> cl_list_loop (pre @ concat (map entry_bytes es)) (length es) (length pre) = es"
proof (induction es arbitrary: pre)
  case Nil
  then show ?case
    by (simp add: cl_list_loop.simps)
next
  case (Cons e es)
  obtain cid cip cport where e: "e = (cid, cip, cport)"
    by (cases e)
  have fits: "cid < 4294967296" "cport < 65536" "length cip \<le> 15" "0 \<notin> set cip"
    using Cons.prems by (simp_all add: e entry_fits_def)
  let ?buf = "pre @ concat (map entry_bytes (e # es))"
  have buf: "?buf = pre @ be_bytes 4 cid @ be_bytes 2 cport @ be_bytes 2 (length cip) @ cip @ concat (map entry_bytes es)"
    by (simp add: e entry_bytes_def)
  have vals: "be_val (take 4 (drop (length pre) ?buf)) = cid" "be_val (take 2 (drop (length pre + 4) ?buf)) = cport"
    "be_val (take 2 (drop (length pre + 6) ?buf)) = length cip" "cl_address ?buf (length pre + 8) (length cip) = cip"
    unfolding buf using fits by (simp_all add: be_val_bytes cl_address_def)
  have "cl_list_loop ((pre @ entry_bytes e) @ concat (map entry_bytes es)) (length es) (length (pre @ entry_bytes e)) = es"
    using Cons.IH [of "pre @ entry_bytes e"] Cons.prems by simp
  then have "cl_list_loop ?buf (length es) (length pre + 8 + length cip) = es"
    by (simp add: e entry_bytes_def add.assoc)
  moreover have "\<not> length ?buf < length pre + 8" "\<not> length ?buf \<le> length pre"
    unfolding buf by simp_all
  ultimately show ?case
    using vals by (subst cl_list_loop.simps) (simp add: e Let_def del: concat.simps list.map append_assoc)
qed

section \<open>Deviations\<close>

text \<open>
  The second look of \<open>wait_for_sync_response\<close> locks \<open>queue_mutex\<close> and calls
  \<open>process_sync_response\<close>, which locks it again: the client hangs when another answer has come.
\<close>

theorem chat_wait_deadlock:
  assumes "ms \<noteq> []" "later \<noteq> []"
  shows "cl_request type \<lparr>ci_ip = ip, ci_connect = c, ci_socket = k, ci_tid = tid, ci_line = line,
      ci_arrivals = [ms, later]\<rparr> s = Inl (UndefinedBehaviour ''queue_mutex is locked twice'')"
  using assms by (simp add: cl_request_def eval_nat_numeral)

text \<open>A message whose length field exceeds what was sent is read past its end.\<close>

theorem chat_message_overread:
  "cl_print_async_message (be_bytes 4 1 @ be_bytes 2 80 @ be_bytes 2 0 @ be_bytes 2 200 @ [65, 66]) =
    Inl (UndefinedBehaviour ''read past the end of the payload'')"
  by (simp add: cl_print_async_message_def be_val_bytes)

text \<open>The address is read into 16 bytes by \<open>scanf\<close>, however long it is.\<close>

theorem chat_address_overflow:
  assumes "16 \<le> length (ci_ip inp)" "\<not> ch_connected s"
  shows "cl_choose 1 inp s = Inl (UndefinedBehaviour ''write past the end of an array'')"
  using assms by (simp add: cl_choose_def cl_connect_def)

text \<open>At the end of the input \<open>select\<close> is always ready and \<open>fgets\<close> never reads a line: \<open>read_choice\<close> does not return.\<close>

theorem chat_end_of_input:
  assumes "list_all (\<lambda>a. 0 < sa_ret a \<and> sa_stdin a \<and> sa_line a = None) answers"
  shows "snd (snd (read_choice is_connected answers msg_queue)) = StillReading"
proof -
  have "snd (snd (cl_read_loop is_connected answers msg_queue)) = StillReading"
    using assms by (induction answers arbitrary: msg_queue) (auto simp: Let_def split_beta)
  then show ?thesis
    by (simp add: read_choice_def split_beta)
qed

end
