(* ===== verification/Chat_System.thy ===== *)
theory Chat_System
  imports Chat_Server Chat_Client
begin

text \<open>
  Client and server together: in every state the server can reach, the client shows exactly the
  table of clients, and a message arrives as it was typed, with its sender. The kernel between
  them is a stream socket (\<open>recv_spec\<close>).
\<close>

section \<open>What the server writes, the client reads\<close>

definition client_entry :: "chat_client \<Rightarrow> nat \<times> bytes \<times> nat" where
  "client_entry c = (cc_id c, cc_ip c, cc_port c)"

lemma list_entry_bytes: "list_entry c = entry_bytes (client_entry c)"
  by (simp add: list_entry_def entry_bytes_def client_entry_def)

lemma client_ok_fits: "list_all client_ok cs \<Longrightarrow> list_all entry_fits (map client_entry cs)"
  by (auto simp: list_all_iff client_ok_def entry_fits_def client_entry_def)

lemma cl_show_list:
  assumes "list_all client_ok cs" "length cs \<le> 100"
  shows "cl_show (12, be_bytes 4 (length cs) @ concat (map list_entry cs)) = [ShowList (map client_entry cs)]"
proof -
  have "cl_list_loop (be_bytes 4 (length cs) @ concat (map entry_bytes (map client_entry cs)))
      (length (map client_entry cs)) (length (be_bytes 4 (length cs))) = map client_entry cs"
    by (rule cl_list_loop_entries [OF client_ok_fits [OF assms(1)]])
  moreover have "concat (map entry_bytes (map client_entry cs)) = concat (map list_entry cs)"
    by (simp add: list_entry_bytes [abs_def] comp_def)
  ultimately show ?thesis
    using assms(2) by (simp add: cl_show_def be_val_bytes)
qed

text \<open>The line typed, as it is displayed.\<close>

lemma cl_message_line: "length (cl_message_line line) \<le> 255" "0 \<notin> set (cl_message_line line)"
  using length_takeWhile_le [of "\<lambda>b. b \<noteq> 10 \<and> b \<noteq> 0" "take 255 line"]
  by (auto simp: cl_message_line_def dest!: set_takeWhileD)

lemma cl_print_forwarded:
  assumes "client_ok sender" "my_id < 2147483648" "length text \<le> 255" "0 \<notin> set text"
  shows "cl_print_async_message (forwarded_payload my_id sender text) =
    (if length (cc_ip sender) + length text < 2 then Inr None
     else Inr (Some (ShowMessage my_id (cc_ip sender) (cc_port sender) text)))"
proof -
  let ?p = "forwarded_payload my_id sender text"
  have ok: "cc_port sender < 65536" "length (cc_ip sender) \<le> 15" "0 \<notin> set (cc_ip sender)"
    using assms(1) by (simp_all add: client_ok_def)
  have "be_val (take 4 ?p) = my_id" "be_val (take 2 (drop 4 ?p)) = cc_port sender"
    "be_val (take 2 (drop 6 ?p)) = length (cc_ip sender)" "cl_address ?p 8 (length (cc_ip sender)) = cc_ip sender"
    "be_val (take 2 (drop (8 + length (cc_ip sender)) ?p)) = length text"
    "drop (8 + length (cc_ip sender) + 2) ?p = text" "length ?p = 10 + length (cc_ip sender) + length text"
    using assms(2,3) ok by (simp_all add: forwarded_payload_def be_val_bytes cl_address_def)
  then show ?thesis
    using assms(3,4) by (simp add: cl_print_async_message_def Let_def)
qed

section \<open>Properties\<close>

text \<open>
  C36: The table of the server. In every state the server can reach, with the single calls of
  send of all threads interleaved as the mutex allows, the number of entries is the number of
  clients' threads and at most 100, every entry fits its fields, at most one thread holds the
  mutex, and the answer to a list request fits its buffer of 4096 bytes and goes to the asking
  client.
\<close>

theorem chat_server_table:
  assumes "srv_reach env w"
  shows "0 \<le> cs_num_clients (cw_server w) \<and> cs_num_clients (cw_server w) \<le> MAX_CLIENTS \<and>
    cs_num_clients (cw_server w) = int (length (cw_created w) + length (cw_threads w)) \<and>
    list_all client_ok (srv_clients (cw_server w)) \<and>
    length (filter ct_locked (cw_threads w)) \<le> 1 \<and>
    (\<exists>payload. length payload \<le> 2304 \<and>
      srv_handle env index sock my_id 3 data (cw_server w) = Inr (Some (sock, chat_send_packet 12 payload (length payload))))"
proof -
  note inv = srv_reach_inv [OF assms]
  note clients = srv_clients_ok [OF inv]
  let ?p = "be_bytes 4 (length (srv_clients (cw_server w))) @ concat (map list_entry (srv_clients (cw_server w)))"
  have "length ?p \<le> 2304"
    using length_list_entries [OF clients(1)] clients(2,3) by simp
  moreover have "srv_handle env index sock my_id 3 data (cw_server w) = Inr (Some (sock, chat_send_packet 12 ?p (length ?p)))"
    using srv_list_ok [OF inv] by (simp add: srv_handle_def)
  ultimately have "\<exists>payload. length payload \<le> 2304 \<and>
      srv_handle env index sock my_id 3 data (cw_server w) = Inr (Some (sock, chat_send_packet 12 payload (length payload)))"
    by (intro exI [of _ ?p]) (rule conjI)
  then show ?thesis
    using inv clients(1) srv_reach_mutex [OF assms] by (simp add: srv_inv_def Let_def)
qed

text \<open>
  C34: The list. In every reachable state the answer to a list request is one packet to the asking
  client. Let the client's socket be a stream socket that hands over bytes in order, with this
  packet, as it was handed to send, next. The client receives the packet exactly when its two calls of recv are not short:
  the first returns the three bytes of the header and the second the whole payload, which recv(2)
  does not promise. The packet then goes to the queue and is shown as exactly the server's table:
  number, address and port of every client, in order. When one call is short, nothing is received
  and the connection counts as ended.
\<close>

theorem chat_list_roundtrip:
  assumes "srv_reach env w" "recv_spec recv pending"
  shows "\<exists>payload. srv_handle env index sock my_id 3 data (cw_server w) =
      Inr (Some (sock, chat_send_packet 12 payload (length payload))) \<and> length payload \<le> 65532 \<and>
    (\<forall>k rest. pending k = concat (chat_send_packet 12 payload (length payload)) @ rest \<longrightarrow>
      (if recv_full recv k (length payload)
       then \<exists>k'. chat_recv_packet recv k = (k', Some (12, payload)) \<and> pending k' = rest
       else \<exists>k'. chat_recv_packet recv k = (k', None))) \<and>
    cl_receive (12, payload) st = (st\<lparr>ch_msg_queue := ch_msg_queue st @ [(12, payload)]\<rparr>, Inr None) \<and>
    cl_process_sync_response [(12, payload)] =
      [ShowList (map (\<lambda>c. (cc_id c, cc_ip c, cc_port c)) (srv_clients (cw_server w)))]"
proof -
  note inv = srv_reach_inv [OF assms(1)]
  note clients = srv_clients_ok [OF inv]
  let ?p = "be_bytes 4 (length (srv_clients (cw_server w))) @ concat (map list_entry (srv_clients (cw_server w)))"
  have s: "srv_handle env index sock my_id 3 data (cw_server w) = Inr (Some (sock, chat_send_packet 12 ?p (length ?p)))"
    using srv_list_ok [OF inv] by (simp add: srv_handle_def)
  have "length ?p \<le> 65532"
    using length_list_entries [OF clients(1)] clients(2,3) by simp
  note received = this chat_recv_exact [OF assms(2) this]
  have "cl_show (12, ?p) = [ShowList (map client_entry (srv_clients (cw_server w)))]"
    using cl_show_list [OF clients(1)] clients(2,3) by simp
  then have shown: "cl_process_sync_response [(12, ?p)] =
      [ShowList (map (\<lambda>c. (cc_id c, cc_ip c, cc_port c)) (srv_clients (cw_server w)))]"
    by (simp add: cl_process_sync_response_def client_entry_def [abs_def])
  have queued: "cl_receive (12, ?p) st = (st\<lparr>ch_msg_queue := ch_msg_queue st @ [(12, ?p)]\<rparr>, Inr None)"
    by (simp add: cl_receive_def)
  show ?thesis
    by (rule exI [of _ ?p], intro conjI allI impI) (fact s received queued shown)+
qed

text \<open>
  C35: A message. A line that a client types for the number of a client in the table is forwarded
  in one packet to that client's socket. When this packet, as it was handed to send, is next at that client, whose
  socket hands over bytes in order, it is received exactly when the two calls of recv are not short: the
  first returns the three bytes of the header and the second the whole payload, which recv(2) does
  not promise. It is then shown with the number of the sending thread, the address and port of the
  table's entry at the sender's index, and the line up to its end, 255 bytes at most. When one call
  is short, nothing is received and the connection counts as ended.
\<close>

theorem chat_message_delivered:
  assumes "srv_reach env w" "t \<in> set (cw_threads w)"
    and "find (\<lambda>c. cc_id c = nat tid) (srv_clients (cw_server w)) = Some c" "0 \<le> tid" "tid < 2147483648"
    and "recv_spec recv pending"
  shows "\<exists>payload. srv_handle env (ct_index t) (ct_sock t) (ct_id t) 4 (cl_message_payload tid (cl_message_line line)) (cw_server w) =
      Inr (Some (cc_sock c, chat_send_packet 13 payload (length payload))) \<and> length payload \<le> 65532 \<and>
    (\<forall>k rest. pending k = concat (chat_send_packet 13 payload (length payload)) @ rest \<longrightarrow>
      (if recv_full recv k (length payload)
       then \<exists>k'. chat_recv_packet recv k = (k', Some (13, payload)) \<and> pending k' = rest
       else \<exists>k'. chat_recv_packet recv k = (k', None))) \<and>
    cl_receive (13, payload) st = (st, Inr (Some (ShowMessage (ct_id t)
      (cc_ip (cs_client_list (cw_server w) ! ct_index t)) (cc_port (cs_client_list (cw_server w) ! ct_index t))
      (cl_message_line line))))"
proof -
  note inv = srv_reach_inv [OF assms(1)]
  let ?sender = "cs_client_list (cw_server w) ! ct_index t"
  let ?p = "forwarded_payload (ct_id t) ?sender (cl_message_line line)"
  have named: "2 \<le> length (cc_ip ?sender)"
    using srv_reach_named [OF assms(1)] assms(2) by (auto simp: srv_named_def)
  have "list_all client_ok (cs_client_list (cw_server w))" "ct_index t < length (cs_client_list (cw_server w))"
    and id: "ct_id t < 2147483648"
    using inv assms(2) by (auto simp: srv_inv_def Let_def list_all_iff)
  then have sender: "client_ok ?sender"
    by (simp add: list_all_length)
  have "c \<in> set (srv_clients (cw_server w))"
    using assms(3) by (auto simp: find_Some_iff)
  then have sock: "cc_sock c \<noteq> -1"
    using srv_clients_ok(1) [OF inv] by (auto simp: list_all_iff client_ok_def)
  have len: "length ?p \<le> 280"
    using sender cl_message_line(1) [of line] by (simp add: forwarded_payload_def client_ok_def)
  have "cl_message_payload tid (cl_message_line line) = message_payload (nat tid) (cl_message_line line)"
    using assms(4,5) by (simp add: cl_message_payload_def message_payload_def)
  moreover have "srv_message (ct_index t) (ct_id t) (message_payload (nat tid) (cl_message_line line)) (cw_server w) =
      Inr (Some (cc_sock c, chat_send_packet 13 ?p (length ?p)))"
    using srv_message_eq [of "nat tid" "cl_message_line line" "ct_index t" "ct_id t" "cw_server w"]
      assms(3,5) cl_message_line(1) [of line] sock len by simp
  ultimately have h: "srv_handle env (ct_index t) (ct_sock t) (ct_id t) 4 (cl_message_payload tid (cl_message_line line)) (cw_server w) =
      Inr (Some (cc_sock c, chat_send_packet 13 ?p (length ?p)))"
    by (simp add: srv_handle_def)
  have "length ?p \<le> 65532"
    using len by linarith
  note received = this chat_recv_exact [OF assms(6) this]
  have shown: "cl_receive (13, ?p) st = (st, Inr (Some (ShowMessage (ct_id t) (cc_ip ?sender) (cc_port ?sender) (cl_message_line line))))"
    using cl_print_forwarded [OF sender id cl_message_line] named by (simp add: cl_receive_def)
  show ?thesis
    by (rule exI [of _ ?p], intro conjI allI impI) (fact h received shown)+
qed

section \<open>Witnesses\<close>

text \<open>One client, with its thread, and a kernel that hands over all it is asked for.\<close>

definition chat_client_example :: chat_client where
  "chat_client_example = \<lparr>cc_id = 1, cc_ip = map of_char (inet_ntoa 0x7f000001), cc_port = 5000, cc_sock = 4\<rparr>"

definition chat_thread_example :: chat_thread where
  "chat_thread_example = \<lparr>ct_index = 0, ct_sock = 4, ct_id = 1, ct_sending = [], ct_locked = False\<rparr>"

definition chat_world_example :: chat_world where
  "chat_world_example = \<lparr>cw_server = \<lparr>cs_client_list = (replicate 100 chat_client_zero)[0 := chat_client_example],
     cs_num_clients = 1, cs_next_id = 2\<rparr>, cw_created = [], cw_threads = [chat_thread_example]\<rparr>"

definition srv_env_example :: srv_env where
  "srv_env_example = \<lparr>sv_ctime = [65, 10], sv_hostname = [66]\<rparr>"

definition recv_example :: "bytes recv" where
  "recv_example k n = ((int (min n (length k)), take n k), drop n k)"

lemma recv_example_spec: "recv_spec recv_example (\<lambda>k. k)"
  by (simp add: recv_spec_def recv_example_def min.commute)

lemma recv_example_full: "recv_full recv_example k n \<longleftrightarrow> 3 + n \<le> length k"
  by (auto simp: recv_full_def recv_example_def)

lemma chat_world_example_reach: "srv_reach srv_env_example chat_world_example"
proof -
  have "srv_accept 0x7f000001 5000 4 chat_server_start =
      (\<lparr>cs_client_list = (replicate 100 chat_client_zero)[0 := chat_client_example], cs_num_clients = 1, cs_next_id = 2\<rparr>, Some 0)"
    by (simp add: srv_accept_def chat_server_start_def chat_client_example_def del: replicate.simps)
  then have "srv_reach srv_env_example \<lparr>cw_server = \<lparr>cs_client_list = (replicate 100 chat_client_zero)[0 := chat_client_example],
      cs_num_clients = 1, cs_next_id = 2\<rparr>, cw_created = [0], cw_threads = []\<rparr>"
    using srv_reach_accepted [OF srv_start [of srv_env_example], of 4 "0x7f000001" 5000]
    by (simp add: chat_server_start_def list_mutex_free_def)
  from srv_reach_started [OF this, of 0] show ?thesis
    by (simp add: thread_start_def chat_world_example_def chat_client_example_def chat_thread_example_def)
qed

lemma chat_world_example_clients: "srv_clients (cw_server chat_world_example) = [chat_client_example]"
  by (simp add: srv_clients_def chat_world_example_def take_update_swap)

theorem chat_server_table_witness:
  "\<exists>payload. length payload \<le> 2304 \<and>
    srv_handle srv_env_example 0 4 1 3 [] (cw_server chat_world_example) = Inr (Some (4, chat_send_packet 12 payload (length payload)))"
  using chat_server_table [OF chat_world_example_reach, of 0 4 1 "[]"] by blast

text \<open>The client of the table receives the list, and the message sent to itself.\<close>

theorem chat_list_roundtrip_witness:
  "\<exists>payload k'. srv_handle srv_env_example 0 4 1 3 [] (cw_server chat_world_example) =
      Inr (Some (4, chat_send_packet 12 payload (length payload))) \<and>
    chat_recv_packet recv_example (concat (chat_send_packet 12 payload (length payload))) = (k', Some (12, payload)) \<and>
    cl_process_sync_response [(12, payload)] = [ShowList [(1, map of_char (inet_ntoa 0x7f000001), 5000)]]"
proof -
  let ?st = "\<lparr>ch_sock = 4, ch_connected = True, ch_msg_queue = []\<rparr>"
  obtain payload where h: "srv_handle srv_env_example 0 4 1 3 [] (cw_server chat_world_example) =
      Inr (Some (4, chat_send_packet 12 payload (length payload)))"
    and len: "length payload \<le> 65532"
    and r: "\<And>k rest. k = concat (chat_send_packet 12 payload (length payload)) @ rest \<Longrightarrow>
      (if recv_full recv_example k (length payload)
       then \<exists>k'. chat_recv_packet recv_example k = (k', Some (12, payload)) \<and> k' = rest
       else \<exists>k'. chat_recv_packet recv_example k = (k', None))"
    and shown: "cl_process_sync_response [(12, payload)] =
      [ShowList (map (\<lambda>c. (cc_id c, cc_ip c, cc_port c)) (srv_clients (cw_server chat_world_example)))]"
    using chat_list_roundtrip [OF chat_world_example_reach recv_example_spec, of 0 4 1 "[]" ?st] by blast
  have "recv_full recv_example (concat (chat_send_packet 12 payload (length payload))) (length payload)"
    using len by (simp add: recv_example_full concat_chat_send_packet)
  then obtain k' where "chat_recv_packet recv_example (concat (chat_send_packet 12 payload (length payload))) = (k', Some (12, payload))"
    using r [of _ "[]"] by auto
  then show ?thesis
    using h shown by (intro exI [of _ payload] exI [of _ k']) (simp add: chat_world_example_clients chat_client_example_def)
qed

theorem chat_message_delivered_witness:
  "\<exists>payload k'. srv_handle srv_env_example 0 4 1 4 (cl_message_payload 1 (cl_message_line [72, 105, 10]))
      (cw_server chat_world_example) = Inr (Some (4, chat_send_packet 13 payload (length payload))) \<and>
    chat_recv_packet recv_example (concat (chat_send_packet 13 payload (length payload))) = (k', Some (13, payload)) \<and>
    cl_print_async_message payload = Inr (Some (ShowMessage 1 (map of_char (inet_ntoa 0x7f000001)) 5000 [72, 105]))"
proof -
  let ?line = "[72, 105, 10] :: bytes"
  let ?st = "\<lparr>ch_sock = 4, ch_connected = True, ch_msg_queue = []\<rparr>"
  have line: "cl_message_line ?line = [72, 105]"
    by (simp add: cl_message_line_def)
  have t: "chat_thread_example \<in> set (cw_threads chat_world_example)"
    and e: "cs_client_list (cw_server chat_world_example) ! 0 = chat_client_example"
    by (simp_all add: chat_world_example_def)
  have f: "find (\<lambda>c. cc_id c = nat 1) (srv_clients (cw_server chat_world_example)) = Some chat_client_example"
    by (simp add: chat_world_example_clients chat_client_example_def)
  have ct: "ct_index chat_thread_example = 0" "ct_sock chat_thread_example = 4" "ct_id chat_thread_example = 1"
    "cc_sock chat_client_example = 4"
    by (simp_all add: chat_thread_example_def chat_client_example_def)
  obtain payload where h: "srv_handle srv_env_example 0 4 1 4 (cl_message_payload 1 (cl_message_line ?line))
      (cw_server chat_world_example) = Inr (Some (4, chat_send_packet 13 payload (length payload)))"
    and len: "length payload \<le> 65532"
    and r: "\<And>k rest. k = concat (chat_send_packet 13 payload (length payload)) @ rest \<Longrightarrow>
      (if recv_full recv_example k (length payload)
       then \<exists>k'. chat_recv_packet recv_example k = (k', Some (13, payload)) \<and> k' = rest
       else \<exists>k'. chat_recv_packet recv_example k = (k', None))"
    and shown: "cl_receive (13, payload) ?st = (?st, Inr (Some (ShowMessage 1
      (cc_ip chat_client_example) (cc_port chat_client_example) (cl_message_line ?line))))"
    using chat_message_delivered [OF chat_world_example_reach t f _ _ recv_example_spec, of ?line ?st]
    unfolding ct e by auto
  have "recv_full recv_example (concat (chat_send_packet 13 payload (length payload))) (length payload)"
    using len by (simp add: recv_example_full concat_chat_send_packet)
  then obtain k' where "chat_recv_packet recv_example (concat (chat_send_packet 13 payload (length payload))) = (k', Some (13, payload))"
    using r [of _ "[]"] by auto
  then show ?thesis
    using h shown by (intro exI [of _ payload] exI [of _ k']) (simp add: cl_receive_def line chat_client_example_def)
qed

end
