(* ===== verification/Spec2Isabelle.thy ===== *)
theory Spec2Isabelle
  imports Sponge_Prelude Byte_Stream Stream_Reassembler Reassembler_Runs Wrapping_Integers Buffers
    Net_Parser Internet_Checksum Tcp_Segment Tcp_Receiver Tcp_Sender Tcp_State
    Tcp_Connection Connection_Behaviour Connection_Runs Ipv4 Ethernet Address Arp
    Network_Interface Interface_Runs Router Ethernet_Segment Printing Network_Simulator
    File_Descriptor Adapters Event_Loop
    Sponge_Socket Sent_Segments Socket_Pair Segment_Transport Tun_Sockets Stream_Copy Command_Line Applications Chat_Protocol Chat_Server Chat_Client Chat_System
begin

text \<open>
  A verification library for the sponge TCP/IP stack (\<open>src/all-lab/libsponge\<close>), its applications
  (\<open>src/all-lab/apps\<close>) and the chat program (\<open>src/lab2\<close>).

  \<^bold>\<open>The program.\<close> A \<open>TCPSpongeSocket\<close> gives its owner a local stream socket. A thread drives a
  \<open>TCPConnection\<close> from an \<open>EventLoop\<close> with four rules: a datagram arrives, the owner has written,
  bytes are ready for the owner, segments are ready for the network. The connection joins a
  \<open>TCPSender\<close> (a \<open>ByteStream\<close> cut into segments) and a \<open>TCPReceiver\<close> (segments put into a
  \<open>StreamReassembler\<close>, which writes into a \<open>ByteStream\<close>), both over 32-bit sequence numbers that
  wrap around (\<open>WrappingInt32\<close>). An adapter carries segments in UDP or IPv4 datagrams; under a TAP
  device they go through a \<open>NetworkInterface\<close>, which resolves the next hop with ARP and makes
  Ethernet frames; a \<open>Router\<close> forwards datagrams between such interfaces, over the segments of
  \<open>network_simulator\<close> in its test. The applications read a command line, connect or listen, and copy
  the terminal to the socket and back; \<open>webget\<close> fetches one page. The chat program is a server with
  a thread per client and a client with a receiving thread, which exchange packets over a TCP
  socket.

  \<^bold>\<open>Which theory models which part.\<close> Every definition has the name of its function with a prefix for
  its class; members are fields of a record, exceptions the values of \<open>exn\<close>, and a function that may
  throw returns a sum or an optional exception beside the state it leaves.
  \<^item> \<open>Sponge_Prelude\<close>: bytes, exceptions, 64-bit and 32-bit unsigned arithmetic on naturals with the
    wrap-around written out (\<open>add64\<close>, \<open>sub64\<close>), \<open>std::map\<close> as a sorted association list, and the
    locales \<open>machine\<close> and \<open>refined_machine\<close>.
  \<^item> \<open>Byte_Stream\<close> (\<open>byte_stream.cc\<close>, prefix \<open>bs\<close>); \<open>Stream_Reassembler\<close> and \<open>Reassembler_Runs\<close>
    (\<open>stream_reassembler.cc\<close>, \<open>push_substring\<close> with its loops \<open>clip_front\<close>, \<open>overlap_loop\<close>,
    \<open>store_new\<close>, \<open>assemble_loop\<close>); \<open>Wrapping_Integers\<close> (\<open>wrapping_integers.cc\<close>).
  \<^item> \<open>Buffers\<close> (\<open>util/buffer.cc\<close>), \<open>Net_Parser\<close> (\<open>util/parser.cc\<close>), \<open>Internet_Checksum\<close>
    (\<open>util/util.cc\<close>), \<open>Tcp_Segment\<close> (\<open>tcp_header.cc\<close>, \<open>tcp_segment.cc\<close>), \<open>Ipv4\<close> (\<open>ipv4_header.cc\<close>,
    \<open>ipv4_datagram.cc\<close>), \<open>Ethernet\<close> (\<open>ethernet_header.cc\<close>, \<open>ethernet_frame.cc\<close>), \<open>Arp\<close>
    (\<open>arp_message.cc\<close>), \<open>Address\<close> (\<open>util/address.cc\<close>): the formats.
  \<^item> \<open>Tcp_Receiver\<close>, \<open>Tcp_Sender\<close>, \<open>Tcp_State\<close>, \<open>Tcp_Connection\<close> (the files of these names; prefixes
    \<open>tr\<close>, \<open>ts\<close>, \<open>st\<close>, \<open>tc\<close>). \<open>Connection_Behaviour\<close> follows the handshake, the acknowledgments and
    the giving up; \<open>Connection_Runs\<close> puts two connections on a network, and \<open>Sent_Segments\<close> follows
    what every segment on it says, sequence numbers and acknowledgments.
  \<^item> \<open>Network_Interface\<close>, \<open>Interface_Runs\<close> (\<open>network_interface.cc\<close>, prefix \<open>ni\<close>), \<open>Router\<close>
    (\<open>router.cc\<close>, prefixes \<open>ai\<close>, \<open>ro\<close>).
  \<^item> \<open>File_Descriptor\<close> (\<open>file_descriptor.cc\<close>, \<open>socket.cc\<close>, \<open>tun.cc\<close>), \<open>Adapters\<close> (\<open>fd_adapter.cc\<close>,
    \<open>tcp_over_ip.cc\<close>, \<open>tuntap_adapter.cc\<close>, \<open>lossy_fd_adapter.hh\<close>), \<open>Event_Loop\<close> (\<open>eventloop.cc\<close>,
    prefix \<open>el\<close>), \<open>Sponge_Socket\<close> (\<open>tcp_sponge_socket.cc\<close>, prefix \<open>so\<close>), \<open>Stream_Copy\<close>
    (\<open>apps/bidirectional_stream_copy.cc\<close>, prefix \<open>copy\<close>).
  \<^item> \<open>Socket_Pair\<close>: two sponge sockets whose adapters are joined by a network, from the bytes
    one owner writes to those the other reads. \<open>Segment_Transport\<close>: one segment on its way from a connection
    into an IPv4 datagram and out of it into the other connection. \<open>Tun_Sockets\<close> gives the two
    sockets the code's adapters, over TUN devices and with losses (\<open>tun_env\<close>, \<open>lossy_env\<close>).
  \<^item> \<open>Printing\<close> (\<open>to_string\<close> and \<open>summary\<close> of the headers, \<open>hexdump\<close>), \<open>Ethernet_Segment\<close> and
    \<open>Network_Simulator\<close> (\<open>apps/network_simulator.cc\<close>: its \<open>Host\<close>, its \<open>Network\<close> of a router, hosts
    and segments, its ten tests and \<open>main\<close>), \<open>Command_Line\<close> (\<open>get_config\<close> of \<open>tcp_ipv4.cc\<close> and
    \<open>tcp_udp.cc\<close>), \<open>Applications\<close> (\<open>main\<close> of these, of \<open>tcp_native.cc\<close> and \<open>webget.cc\<close>).
  \<^item> \<open>Chat_Protocol\<close>, \<open>Chat_Server\<close> (\<open>server.cpp\<close>, prefix \<open>srv\<close>), \<open>Chat_Client\<close> (\<open>client.cpp\<close>, prefix
    \<open>cl\<close>), \<open>Chat_System\<close> (both together).

  \<^bold>\<open>The interfaces.\<close> \<open>machine\<close> is a step function with an invariant, \<open>refined_machine\<close> one that
  implements another; they are interpreted by the runs of byte streams, reassemblers, receivers,
  senders, endpoints and network interfaces. \<open>byte_sink\<close> and \<open>byte_source\<close> are the two ends of a
  byte stream, \<open>seq_numbering\<close> the sequence numbers, \<open>front_discard\<close> the buffers of which a prefix
  is dropped, \<open>codec\<close> a serializer with its parser (TCP, IPv4, Ethernet, ARP), \<open>event_rules\<close> rules
  that keep an invariant, given by the rules of the sponge socket and of the stream copy,
  \<open>notebook\<close> the notes that two sockets over one kernel keep of their segments, and
  \<open>sent_segments\<close> a promise that every segment a connection sends keeps, given by the plain form
  of its header and by its acknowledgment number.

  \<^bold>\<open>What the lemmas show.\<close> Byte streams are first in, first out. The reassembler only ever writes
  a prefix of the stream it gets excerpts of, refines a map of positions to bytes as long as its
  peer keeps to the window, and then gets everything through. \<open>unwrap\<close> finds the closest number.
  What a receiver writes is the peer's stream, and its acknowledgment is what it has written; what
  a sender has outstanding is exactly what is not acknowledged, each segment genuine. Two
  connections over a network that loses, delays, reorders and repeats segments, each delivered
  within half the number space of what its receiver waits for, deliver a prefix of what was
  written, all of it once the stream has ended; what counts as acknowledged has arrived, so that a
  connection that closes without an error has delivered its stream. The handshake passes
  through the official states; a connection that is over stays over, and one that has lost its
  peer retransmits at exactly the ticks at which its timer expires, and gives up at the ninth. A sponge socket does, whatever its event loop does, what a sequence of operations
  does to a connection, and two of them carry a prefix of what one owner has written to the other,
  and all of it at the end. A segment that one connection hands to the network arrives at the
  other as it was sent, so over TUN devices it is enough that the network makes up no packets. The
  formats round-trip and the parsers' errors are exact. A network interface refines a
  specification with absolute times, asks for an address at most once in five seconds and neither
  loses nor duplicates datagrams; the router's loop finds the longest prefix and a round of it
  ends. On a segment of three interfaces every datagram, its address resolved or not, gets from
  any of them to any other, and the network simulator's tests all pass. The command lines are read as
  they were meant, and \<open>webget\<close> prints the bytes the server sent. The chat server's table keeps
  its type, its list is shown by the client as it stands and messages as typed, when the client's two
  calls of \<open>recv\<close> for the packet are not short, and only then are they received.

  \<^bold>\<open>Parameters and hypotheses.\<close> The kernel is not modelled: \<open>read\<close>, \<open>writev\<close>, \<open>poll\<close> and the
  others are arguments, as answers of single calls or as functions on a state of the kernel's.
  What their manual promises is stated by \<open>writev_spec\<close>, \<open>se_spec\<close>, \<open>cy_spec\<close> and \<open>recv_spec\<close>,
  that of \<open>getaddrinfo\<close> and \<open>getnameinfo\<close> by \<open>numeric_netdb\<close>; every property that uses one has a
  witness with a concrete kernel. What a kernel has carried is read off by \<open>histories\<close>: the bytes
  of the owner, the segments sent and those received; a network between two sockets may do
  anything but make up segments (\<open>network_honest\<close>) or, below the adapters, packets
  (\<open>packets_honest\<close>), and a TUN device takes and hands over whole packets (\<open>device_spec\<close>).
  Where two connections are followed without kernels (\<open>net_run\<close>), and for a receiver alone
  (\<open>rcv_run\<close>), a delivered segment has a number less than \<open>2^31\<close> from the one its receiver waits for
  then (\<open>net_delivers\<close>, \<open>tr_near\<close>): sequence numbers wrap around, and neither the code nor any TCP
  can tell a segment that is further away from a new one. For streams below \<open>2^31 - 2\<close> bytes this
  holds of every segment that was sent (\<open>net_run_delivers\<close>, \<open>net_free\<close>). \<open>recv(2)\<close> does not promise
  to return all it is asked for; whether the chat's two calls for a packet do is the condition
  \<open>recv_full\<close>, by which its properties say what is received and what is lost. Random
  numbers are arguments. The order in which \<open>NetworkInterface::tick\<close> visits a hash map is an
  argument, a function of what is in the map (in C++ also of how it got there), of which only is
  assumed that it visits every key (\<open>visits_all\<close>). The interleaving of
  the owner's thread with the socket's thread is in the list of inputs; that of the threads of the
  chat server in its step relation, of which every call of \<open>send\<close> is a step, and \<open>list_mutex\<close> is
  held where the code holds it.

  \<^bold>\<open>Bounds.\<close> Machine integers keep their width: sequence numbers, checksums and header fields are
  words, \<open>size_t\<close> values are naturals below \<open>2^64\<close> with the operations of the prelude. Properties
  over whole runs ask for what a machine can hold: capacities and streams below \<open>2^63\<close>, and below
  \<open>2^31 - 2\<close> where acknowledgments, which the sender unwraps around a moving number, are followed
  over a whole run. Time passes in ticks of any sizes; the lists of ticks that \<open>tick_period\<close> describes
  stay below \<open>2^32\<close> milliseconds, so that the sender's 32-bit clock does not wrap around within one
  of them. No fuel is used: loops over data are structural or have a measure, the loops
  that wait for events take the list of the answers they get and return \<open>StillWaiting\<close> when it is
  used up. The simulator goes through its segments 256 times, as the code does.

  \<^bold>\<open>Deviations.\<close> Where the code does not do what it means to, or what a comment says, a section
  "Deviations" of its theory proves an instance.

  \<^bold>\<open>Not modelled.\<close> What goes to \<open>cerr\<close> while a connection runs, and with it the look-ups that the
  constructor of \<open>NetworkInterface\<close> and \<open>Router::add_route\<close> make only to print addresses (\<open>ip()\<close> throws when
  \<open>getnameinfo\<close> fails, which \<open>numeric_netdb\<close> excludes); \<open>timestamp_ms\<close> and
  \<open>get_random_generator\<close>, which only ask the platform; the reference counting of buffers, which the
  values do not show; \<open>strtof\<close>, by which the applications read their loss rates, is a parameter. The
  tests and the files under \<open>build\<close>, which CMake generates. \<open>lab4\<close> is an earlier copy: its helpers
  and applications are those of \<open>all-lab\<close>, its router, interface and wrapping integers are skeletons
  without a body.
\<close>

end
